(* ===== verification/Stok_Prelude.thy ===== *)
theory Stok_Prelude
  imports Complex_Main "HOL-Library.Word" "HOL-Library.Multiset"
begin

unbundle bit_operations_syntax

text \<open>
  Shared vocabulary of the development: the C++ integer types as words, the conversions
  the sources spell as \<open>static_cast\<close>, power-of-two masks (\<open>src/core/common.hpp\<close>) and the
  cyclic distance that every ring and open-addressing table of the program relies on.

  \<open>std::size_t\<close> positions inside a container are \<open>nat\<close> (a container is never longer than
  the address space); counters and wire fields whose wrap-around is observable are words.
  \<open>double\<close> is idealised as \<open>real\<close>: rounding is not modelled.
\<close>

type_synonym u8 = "8 word"
type_synonym u16 = "16 word"
type_synonym u32 = "32 word"
type_synonym u64 = "64 word"
type_synonym i32 = "32 word" \<comment> \<open>read with \<open>sint\<close>\<close>
type_synonym double = real

named_theorems ring_simps \<open>masks and cyclic distances of power-of-two rings\<close>
named_theorems u_simps \<open>reading of machine words\<close>

subsection \<open>Conversions\<close>

definition i64_of_u64 :: "u64 \<Rightarrow> int" where
  \<comment> \<open>\<open>static_cast<int64_t>\<close> of an unsigned word: two's complement\<close>
  "i64_of_u64 w = sint w"

definition u64_of_int :: "int \<Rightarrow> u64" where
  "u64_of_int i = word_of_int i"

definition wrap_i64 :: "int \<Rightarrow> int" where
  \<comment> \<open>the value an \<open>int64_t\<close> holds after storing a mathematical result\<close>
  "wrap_i64 i = sint (word_of_int i :: u64)"

lemma wrap_i64_id:
  assumes "- (2 ^ 63) \<le> i" and "i < 2 ^ 63"
  shows "wrap_i64 i = i"
  using assms by (simp add: wrap_i64_def sint_sbintrunc' signed_take_bit_int_eq_self)

definition trunc_div :: "int \<Rightarrow> int \<Rightarrow> int" where
  \<comment> \<open>C++ integer division truncates towards zero\<close>
  "trunc_div a b = sgn a * sgn b * (\<bar>a\<bar> div \<bar>b\<bar>)"

definition trunc_mod :: "int \<Rightarrow> int \<Rightarrow> int" where
  "trunc_mod a b = a - b * trunc_div a b"

lemma trunc_div_nonneg: "0 \<le> a \<Longrightarrow> 0 < b \<Longrightarrow> trunc_div a b = a div b"
  by (cases "a = 0") (simp_all add: trunc_div_def)

lemma trunc_mod_nonneg: "0 \<le> a \<Longrightarrow> 0 < b \<Longrightarrow> trunc_mod a b = a mod b"
  by (simp add: trunc_mod_def trunc_div_nonneg minus_mult_div_eq_mod)

lemma trunc_div_nonpos: "a \<le> 0 \<Longrightarrow> 0 < b \<Longrightarrow> trunc_div a b = - ((- a) div b)"
  by (cases "a = 0") (simp_all add: trunc_div_def)

lemma trunc_mod_nonpos: "a \<le> 0 \<Longrightarrow> 0 < b \<Longrightarrow> trunc_mod a b = - ((- a) mod b)"
  by (simp add: trunc_mod_def trunc_div_nonpos minus_mult_div_eq_mod [symmetric])

lemma trunc_mod_range: "0 < b \<Longrightarrow> \<bar>trunc_mod a b\<bar> < b"
  by (cases "a \<ge> 0") (simp_all add: trunc_mod_nonneg trunc_mod_nonpos)

subsection \<open>Powers of two: \<open>next_pow2\<close> and masks\<close>

fun next_pow2_loop :: "nat \<Rightarrow> nat \<Rightarrow> nat \<Rightarrow> nat" where
  \<comment> \<open>\<open>while (p < v) p <<= 1\<close>, with the number of doublings left as fuel\<close>
  "next_pow2_loop 0 p v = p"
| "next_pow2_loop (Suc f) p v = (if p < v then next_pow2_loop f (2 * p) v else p)"

definition next_pow2 :: "nat \<Rightarrow> nat" where
  "next_pow2 v = next_pow2_loop v 1 v"

definition is_pow2 :: "nat \<Rightarrow> bool" where
  "is_pow2 n \<longleftrightarrow> (\<exists>k. n = 2 ^ k)"

lemma next_pow2_loop_pow2: "is_pow2 p \<Longrightarrow> is_pow2 (next_pow2_loop f p v)"
proof (induction f arbitrary: p)
  case (Suc f)
  from Suc.prems obtain k where "p = 2 ^ k" by (auto simp: is_pow2_def)
  then have "is_pow2 (2 * p)" by (auto simp: is_pow2_def intro: exI [of _ "Suc k"])
  then show ?case using Suc by simp
qed simp

lemma next_pow2_loop_ge: "0 < p \<Longrightarrow> v \<le> p + f \<Longrightarrow> v \<le> next_pow2_loop f p v"
  by (induction f arbitrary: p) auto

lemma next_pow2_loop_lt: "0 < p \<Longrightarrow> p < 2 * v \<Longrightarrow> next_pow2_loop f p v < 2 * v"
  by (induction f arbitrary: p) auto

lemma next_pow2_pow2: "is_pow2 (next_pow2 v)"
  unfolding next_pow2_def by (rule next_pow2_loop_pow2) (auto simp: is_pow2_def intro: exI [of _ 0])

lemma next_pow2_ge: "v \<le> next_pow2 v"
  unfolding next_pow2_def by (rule next_pow2_loop_ge) auto

lemma next_pow2_lt: "1 \<le> v \<Longrightarrow> next_pow2 v < 2 * v"
  unfolding next_pow2_def by (rule next_pow2_loop_lt) auto

lemma is_pow2_pos [simp]: "is_pow2 n \<Longrightarrow> 0 < n"
  by (auto simp: is_pow2_def)

lemma is_pow2_mod_lt [simp]: "is_pow2 n \<Longrightarrow> x mod n < n"
  by (rule mod_less_divisor) (rule is_pow2_pos)

lemma is_pow2_double: "is_pow2 n \<Longrightarrow> is_pow2 (2 * n)"
  by (auto simp: is_pow2_def intro: exI [of _ "Suc _"])

lemma and_mask_mod [ring_simps]: "is_pow2 n \<Longrightarrow> x AND (n - 1) = x mod n"
proof -
  assume "is_pow2 n"
  then obtain k where "n = 2 ^ k" by (auto simp: is_pow2_def)
  then have "x AND (n - 1) = take_bit k x"
    by (simp add: take_bit_eq_mask mask_eq_exp_minus_1)
  then show ?thesis using \<open>n = 2 ^ k\<close> by (simp add: take_bit_eq_mod)
qed

lemmas and_mask_mod_Suc [ring_simps] = and_mask_mod [unfolded One_nat_def]

subsection \<open>Cyclic distance\<close>

definition rdist :: "nat \<Rightarrow> nat \<Rightarrow> nat \<Rightarrow> nat" where
  \<comment> \<open>steps from slot \<open>a\<close> forward to slot \<open>b\<close> in a ring of \<open>n\<close> slots\<close>
  "rdist n a b = (if a \<le> b then b - a else b + n - a)"

lemma rdist_self [simp]: "rdist n a a = 0"
  by (simp add: rdist_def)

lemma rdist_lt: "a < n \<Longrightarrow> b < n \<Longrightarrow> rdist n a b < n"
  by (auto simp: rdist_def)

lemma rdist_zero: "a < n \<Longrightarrow> b < n \<Longrightarrow> rdist n a b = 0 \<longleftrightarrow> a = b"
  by (auto simp: rdist_def)

lemma rdist_reach: "a < n \<Longrightarrow> b < n \<Longrightarrow> (a + rdist n a b) mod n = b"
  by (auto simp: rdist_def)

lemma rdist_of_step: "a < n \<Longrightarrow> t < n \<Longrightarrow> rdist n a ((a + t) mod n) = t"
  by (cases "a + t < n") (auto simp: rdist_def mod_if)

lemma rdist_Suc_left:
  "a < n \<Longrightarrow> b < n \<Longrightarrow> a \<noteq> b \<Longrightarrow> rdist n a b = Suc (rdist n (Suc a mod n) b)"
  by (cases "Suc a = n") (auto simp: rdist_def)

lemma rdist_Suc_right:
  "a < n \<Longrightarrow> b < n \<Longrightarrow> Suc b mod n \<noteq> a \<Longrightarrow> rdist n a (Suc b mod n) = Suc (rdist n a b)"
  by (cases "Suc b = n") (auto simp: rdist_def)

lemma rdist_add:
  "a < n \<Longrightarrow> b < n \<Longrightarrow> c < n \<Longrightarrow> rdist n b c \<le> rdist n a c \<Longrightarrow>
    rdist n a c = rdist n a b + rdist n b c"
  by (auto simp: rdist_def split: if_splits)

subsection \<open>Lists\<close>

lemma length_filter_update:
  "i < length xs \<Longrightarrow> length (filter P (xs[i := x])) + (if P (xs ! i) then 1 else 0) =
    length (filter P xs) + (if P x then 1 else 0)"
proof (induction xs arbitrary: i)
  case (Cons y ys)
  then show ?case by (cases i) auto
qed simp

lemma filter_shorter_ex:
  assumes "length (filter P xs) < length xs"
  shows "\<exists>i < length xs. \<not> P (xs ! i)"
proof (rule ccontr)
  assume "\<not> ?thesis"
  then have "filter P xs = xs" by (auto simp: filter_id_conv all_set_conv_all_nth)
  with assms show False by simp
qed

end
