(* ===== verification/Hash.thy ===== *)
theory Hash
  imports Stok_Prelude
begin

unbundle bit_operations_syntax

text \<open>
  \<open>src/core/hash.hpp\<close>: the splitmix64 finalizer \<open>mix64\<close>, the 64x64 to 128 bit
  multiply-and-fold \<open>mum\<close>, and the byte hash \<open>hash_bytes\<close> used for story ids and symbol keys.
  The finalizer is shown to be a permutation of the 64-bit words: the open-addressing
  table never folds two keys together before masking.
\<close>

subsection \<open>Definitions\<close>

definition mix64 :: "u64 \<Rightarrow> u64" where
  "mix64 x =
     (let x = x XOR drop_bit 30 x;
          x = x * 0xbf58476d1ce4e5b9;
          x = x XOR drop_bit 27 x;
          x = x * 0x94d049bb133111eb;
          x = x XOR drop_bit 31 x
      in x)"

definition mum :: "u64 \<Rightarrow> u64 \<Rightarrow> u64" where
  "mum a b =
     (let r = (ucast a :: 128 word) * ucast b
      in ucast r XOR ucast (drop_bit 64 r))"

fun le_word :: "u8 list \<Rightarrow> u64" where
  \<comment> \<open>bytes at increasing addresses, least significant first\<close>
  "le_word [] = 0"
| "le_word (b # bs) = ucast b OR push_bit 8 (le_word bs)"

definition load_u64_le :: "u8 list \<Rightarrow> u64" where
  "load_u64_le p = le_word (take 8 p)"

fun hash_loop :: "u64 \<Rightarrow> u8 list \<Rightarrow> u64 \<times> u8 list" where
  \<comment> \<open>\<open>while (n >= 16)\<close>: the bytes still to read stand for the moving pointer\<close>
  "hash_loop h p =
     (if 16 \<le> length p
      then hash_loop (mum (h XOR load_u64_le p) 0xa0761d6478bd642f XOR
                      mum (load_u64_le (drop 8 p)) 0xe7037ed1a0b428db) (drop 16 p)
      else (h, p))"

declare hash_loop.simps [simp del]

definition hash_step8 :: "u64 \<Rightarrow> u8 list \<Rightarrow> u64 \<times> u8 list" where
  "hash_step8 h p =
     (if 8 \<le> length p then (mum (h XOR load_u64_le p) 0xa0761d6478bd642f, drop 8 p) else (h, p))"

definition hash_bytes :: "u8 list \<Rightarrow> u64 \<Rightarrow> u64" where
  "hash_bytes data seed =
     (let h = seed XOR mum (of_nat (length data)) 0x9E3779B97F4A7C15;
          (h, p) = hash_loop h data;
          (h, p) = hash_step8 h p;
          tail = le_word p;
          h = mum (h XOR tail) 0x8ebc6af09c88c6e3
      in mix64 h)"

definition byte_of_char :: "char \<Rightarrow> u8" where
  "byte_of_char c = of_char c"

definition char_of_byte :: "u8 \<Rightarrow> char" where
  "char_of_byte b = char_of (unat b)"

definition hash_sv :: "string \<Rightarrow> u64" where
  "hash_sv s = hash_bytes (map byte_of_char s) 0x2d358dccaa6c78a5"

lemma unat_byte_of_char: "unat (byte_of_char c) = of_char c"
proof -
  have "of_nat (of_char c) = byte_of_char c" by (simp add: byte_of_char_def of_char_def)
  moreover have "(of_char c :: nat) < 2 ^ LENGTH(8)" by simp
  ultimately show ?thesis
    using unat_of_nat [where 'a = 8, of "of_char c"] by simp
qed

lemma char_of_byte_of_char [simp]: "char_of_byte (byte_of_char c) = c"
  by (simp add: char_of_byte_def unat_byte_of_char)

subsection \<open>The finalizer is a permutation\<close>

definition unmix64 :: "u64 \<Rightarrow> u64" where
  \<comment> \<open>the inverse: undo each xor-shift and multiply by the inverse of each odd factor\<close>
  "unmix64 x =
     (let x = x XOR drop_bit 31 x XOR drop_bit 62 x;
          x = x * 0x319642b2d24d8ec3;
          x = x XOR drop_bit 27 x XOR drop_bit 54 x;
          x = x * 0x96de1b173f119089;
          x = x XOR drop_bit 30 x XOR drop_bit 60 x
      in x)"

lemma unxorshift:
  fixes x :: u64
  assumes "64 \<le> 3 * s"
  shows "(let y = x XOR drop_bit s x in y XOR drop_bit s y XOR drop_bit (2 * s) y) = x"
proof (rule bit_word_eqI)
  fix n assume "n < LENGTH(64)"
  have "\<not> bit x (s + (2 * s + n))"
    using assms by (auto dest: bit_imp_le_length)
  then show "bit (let y = x XOR drop_bit s x in y XOR drop_bit s y XOR drop_bit (2 * s) y) n = bit x n"
    by (auto simp: Let_def bit_simps mult_2 add.assoc)
qed

lemma unmix64_mix64: "unmix64 (mix64 x) = x"
proof -
  have "(0xbf58476d1ce4e5b9 :: u64) * 0x96de1b173f119089 = 1" by simp
  then have mul1: "y * 0xbf58476d1ce4e5b9 * 0x96de1b173f119089 = (y :: u64)" for y
    by (simp only: mult.assoc mult_1_right)
  have "(0x94d049bb133111eb :: u64) * 0x319642b2d24d8ec3 = 1" by simp
  then have mul2: "y * 0x94d049bb133111eb * 0x319642b2d24d8ec3 = (y :: u64)" for y
    by (simp only: mult.assoc mult_1_right)
  show ?thesis
    using unxorshift [of 31] unxorshift [of 27] unxorshift [of 30]
    by (simp add: unmix64_def mix64_def Let_def mul1 mul2)
qed

lemma inj_mix64: "inj mix64"
  by (rule inj_on_inverseI) (rule unmix64_mix64)

lemma bij_mix64: "bij mix64"
  using inj_mix64 finite_UNIV_inj_surj [of mix64]
  by (simp add: bij_def)

end
