(* ===== verification/Itch.thy ===== *)
theory Itch
  imports Hash "HOL-Library.Monad_Syntax"
begin

unbundle bit_operations_syntax

text \<open>
  \<open>src/market/itch.hpp\<close>: the Nasdaq TotalView-ITCH 5.0 decoder and the encoders of namespace
  \<open>enc\<close>. A message is a byte list. Every read is checked, so an access past the end of the
  message is the value \<open>None\<close>; the decoder is shown never to make one. The handler callbacks of the
  template parameter \<open>H\<close> are the constructors of \<open>itch_call\<close>.
\<close>

subsection \<open>Big-endian fields\<close>

fun be_word :: "u8 list \<Rightarrow> 'a::len word \<Rightarrow> 'a word" where
  \<comment> \<open>\<open>memcpy\<close> and byte swap: most significant byte first\<close>
  "be_word [] acc = acc"
| "be_word (b # bs) acc = be_word bs (push_bit 8 acc OR ucast b)"

definition rd_bytes :: "u8 list \<Rightarrow> nat \<Rightarrow> nat \<Rightarrow> u8 list option" where
  "rd_bytes p off n = (if off + n \<le> length p then Some (take n (drop off p)) else None)"

definition rd_char :: "u8 list \<Rightarrow> nat \<Rightarrow> char option" where
  \<comment> \<open>\<open>static_cast<char>(p[off])\<close>\<close>
  "rd_char p off = (if off < length p then Some (char_of_byte (p ! off)) else None)"

definition be16 :: "u8 list \<Rightarrow> nat \<Rightarrow> u16 option" where
  "be16 p off = map_option (\<lambda>bs. be_word bs 0) (rd_bytes p off 2)"

definition be32 :: "u8 list \<Rightarrow> nat \<Rightarrow> u32 option" where
  "be32 p off = map_option (\<lambda>bs. be_word bs 0) (rd_bytes p off 4)"

definition be64 :: "u8 list \<Rightarrow> nat \<Rightarrow> u64 option" where
  "be64 p off = map_option (\<lambda>bs. be_word bs 0) (rd_bytes p off 8)"

definition be48 :: "u8 list \<Rightarrow> nat \<Rightarrow> u64 option" where
  "be48 p off = do { hi \<leftarrow> be16 p off; lo \<leftarrow> be32 p (off + 2);
     Some (push_bit 32 (ucast hi) OR ucast lo) }"

definition stock_key :: "u8 list \<Rightarrow> nat \<Rightarrow> u64 option" where
  \<comment> \<open>8-byte space-padded symbol as a little-endian word\<close>
  "stock_key p off = map_option le_word (rd_bytes p off 8)"

subsection \<open>The decoder\<close>

definition message_length :: "char \<Rightarrow> nat" where
  "message_length t =
     (if t = CHR ''S'' then 12 else if t = CHR ''R'' then 39 else if t = CHR ''H'' then 25
      else if t = CHR ''Y'' then 20 else if t = CHR ''L'' then 26 else if t = CHR ''V'' then 35
      else if t = CHR ''W'' then 12 else if t = CHR ''K'' then 28 else if t = CHR ''J'' then 35
      else if t = CHR ''h'' then 21 else if t = CHR ''A'' then 36 else if t = CHR ''F'' then 40
      else if t = CHR ''E'' then 31 else if t = CHR ''C'' then 36 else if t = CHR ''X'' then 23
      else if t = CHR ''D'' then 19 else if t = CHR ''U'' then 35 else if t = CHR ''P'' then 44
      else if t = CHR ''Q'' then 40 else if t = CHR ''B'' then 19 else if t = CHR ''I'' then 50
      else if t = CHR ''N'' then 20 else if t = CHR ''O'' then 48 else 0)"

datatype itch_call =
    OnSystemEvent u64 char
  | OnStockDirectory u16 u64 u64 char char u32
  | OnTradingAction u16 u64 u64 char string
  | OnRegSho u16 u64 char
  | OnAdd u16 u64 u64 char u32 u32
  | OnExecuted u16 u64 u64 u32
  | OnExecutedPrice u16 u64 u64 u32 bool u32
  | OnCancel u16 u64 u64 u32
  | OnDelete u16 u64 u64
  | OnReplace u16 u64 u64 u64 u32 u32
  | OnTrade u16 u64 char u32 u64 u32
  | OnCross u16 u64 u64 u64 u32 char
  | OnBroken u16 u64 u64

datatype decoded =
    Reject \<comment> \<open>\<open>return false\<close>: truncated or unknown type\<close>
  | Unused \<comment> \<open>\<open>return true\<close> with no callback\<close>
  | Call itch_call

definition decode_switch :: "u8 list \<Rightarrow> char \<Rightarrow> u16 \<Rightarrow> u64 \<Rightarrow> decoded option" where
  \<comment> \<open>\<open>switch (type)\<close>\<close>
  "decode_switch p type locate ts =
    (if type = CHR ''A'' \<or> type = CHR ''F'' then do {
       ref \<leftarrow> be64 p 11; side \<leftarrow> rd_char p 19; shares \<leftarrow> be32 p 20; price \<leftarrow> be32 p 32;
       Some (Call (OnAdd locate ts ref side shares price)) }
     else if type = CHR ''E'' then do {
       ref \<leftarrow> be64 p 11; shares \<leftarrow> be32 p 19;
       Some (Call (OnExecuted locate ts ref shares)) }
     else if type = CHR ''C'' then do {
       ref \<leftarrow> be64 p 11; shares \<leftarrow> be32 p 19; pr \<leftarrow> rd_char p 31; price \<leftarrow> be32 p 32;
       Some (Call (OnExecutedPrice locate ts ref shares (pr = CHR ''Y'') price)) }
     else if type = CHR ''X'' then do {
       ref \<leftarrow> be64 p 11; shares \<leftarrow> be32 p 19;
       Some (Call (OnCancel locate ts ref shares)) }
     else if type = CHR ''D'' then do {
       ref \<leftarrow> be64 p 11;
       Some (Call (OnDelete locate ts ref)) }
     else if type = CHR ''U'' then do {
       old_ref \<leftarrow> be64 p 11; new_ref \<leftarrow> be64 p 19; shares \<leftarrow> be32 p 27; price \<leftarrow> be32 p 31;
       Some (Call (OnReplace locate ts old_ref new_ref shares price)) }
     else if type = CHR ''P'' then do {
       side \<leftarrow> rd_char p 19; shares \<leftarrow> be32 p 20; key \<leftarrow> stock_key p 24; price \<leftarrow> be32 p 32;
       Some (Call (OnTrade locate ts side shares key price)) }
     else if type = CHR ''Q'' then do {
       shares \<leftarrow> be64 p 11; key \<leftarrow> stock_key p 19; price \<leftarrow> be32 p 27; ct \<leftarrow> rd_char p 39;
       Some (Call (OnCross locate ts shares key price ct)) }
     else if type = CHR ''S'' then do {
       code \<leftarrow> rd_char p 11;
       Some (Call (OnSystemEvent ts code)) }
     else if type = CHR ''R'' then do {
       key \<leftarrow> stock_key p 11; cat \<leftarrow> rd_char p 19; fin \<leftarrow> rd_char p 20; lot \<leftarrow> be32 p 21;
       Some (Call (OnStockDirectory locate ts key cat fin lot)) }
     else if type = CHR ''H'' then do {
       key \<leftarrow> stock_key p 11; state \<leftarrow> rd_char p 19; reason \<leftarrow> rd_bytes p 21 4;
       Some (Call (OnTradingAction locate ts key state (map char_of_byte reason))) }
     else if type = CHR ''Y'' then do {
       action \<leftarrow> rd_char p 19;
       Some (Call (OnRegSho locate ts action)) }
     else if type = CHR ''B'' then do {
       m \<leftarrow> be64 p 11;
       Some (Call (OnBroken locate ts m)) }
     else Some Unused)"

definition decode :: "u8 list \<Rightarrow> decoded option" where
  "decode p =
     (if length p < 11 then Some Reject
      else do {
        type \<leftarrow> rd_char p 0;
        let need = message_length type;
        if need = 0 \<or> length p < need then Some Reject
        else do {
          locate \<leftarrow> be16 p 1;
          ts \<leftarrow> be48 p 5;
          decode_switch p type locate ts
        }
      })"

subsection \<open>Encoders\<close>

fun be_bytes :: "nat \<Rightarrow> 'a::len word \<Rightarrow> u8 list" where
  \<comment> \<open>the \<open>n\<close> low bytes, most significant first\<close>
  "be_bytes 0 v = []"
| "be_bytes (Suc n) v = be_bytes n (drop_bit 8 v) @ [ucast v]"

definition put :: "u8 list \<Rightarrow> nat \<Rightarrow> u8 list \<Rightarrow> u8 list" where
  \<comment> \<open>\<open>memcpy(p + off, bs)\<close>\<close>
  "put p off bs = take off p @ bs @ drop (off + length bs) p"

definition put16 :: "u8 list \<Rightarrow> nat \<Rightarrow> u16 \<Rightarrow> u8 list" where
  "put16 p off v = put p off (be_bytes 2 v)"

definition put32 :: "u8 list \<Rightarrow> nat \<Rightarrow> u32 \<Rightarrow> u8 list" where
  "put32 p off v = put p off (be_bytes 4 v)"

definition put64 :: "u8 list \<Rightarrow> nat \<Rightarrow> u64 \<Rightarrow> u8 list" where
  "put64 p off v = put p off (be_bytes 8 v)"

definition put48 :: "u8 list \<Rightarrow> nat \<Rightarrow> u64 \<Rightarrow> u8 list" where
  "put48 p off v = put32 (put16 p off (ucast (drop_bit 32 v))) (off + 2) (ucast v)"

definition put8 :: "u8 list \<Rightarrow> nat \<Rightarrow> char \<Rightarrow> u8 list" where
  "put8 p off c = put p off [byte_of_char c]"

definition pad_to :: "nat \<Rightarrow> string \<Rightarrow> u8 list" where
  \<comment> \<open>fill with spaces, then copy up to \<open>n\<close> characters of a C string\<close>
  "pad_to n stock = (let s = take n (takeWhile (\<lambda>c. c \<noteq> CHR 0x00) stock)
     in map byte_of_char (s @ replicate (n - length s) (CHR '' '')))"

definition put_stock :: "u8 list \<Rightarrow> nat \<Rightarrow> string \<Rightarrow> u8 list" where
  "put_stock p off stock = put p off (pad_to 8 stock)"

definition header :: "char \<Rightarrow> u16 \<Rightarrow> u64 \<Rightarrow> u8 list" where
  "header type locate ts =
     (let p = replicate (message_length type) 0;
          p = put8 p 0 type;
          p = put16 p 1 locate;
          p = put16 p 3 0
      in put48 p 5 ts)"

definition enc_system_event :: "u64 \<Rightarrow> char \<Rightarrow> u8 list" where
  "enc_system_event ts code = put8 (header (CHR ''S'') 0 ts) 11 code"

definition enc_stock_directory :: "u16 \<Rightarrow> u64 \<Rightarrow> string \<Rightarrow> char \<Rightarrow> u8 list" where
  "enc_stock_directory locate ts stock cat =
     (let p = header (CHR ''R'') locate ts;
          p = put_stock p 11 stock; p = put8 p 19 cat; p = put8 p 20 (CHR ''N'')
      in put32 p 21 100)"

definition enc_trading_action :: "u16 \<Rightarrow> u64 \<Rightarrow> string \<Rightarrow> char \<Rightarrow> string \<Rightarrow> u8 list" where
  "enc_trading_action locate ts stock state reason =
     (let p = header (CHR ''H'') locate ts;
          p = put_stock p 11 stock; p = put8 p 19 state
      in put p 21 (pad_to 4 reason))"

definition enc_add :: "u16 \<Rightarrow> u64 \<Rightarrow> u64 \<Rightarrow> char \<Rightarrow> u32 \<Rightarrow> string \<Rightarrow> u32 \<Rightarrow> u8 list" where
  "enc_add locate ts ref side shares stock price =
     (let p = header (CHR ''A'') locate ts;
          p = put64 p 11 ref; p = put8 p 19 side; p = put32 p 20 shares; p = put_stock p 24 stock
      in put32 p 32 price)"

definition enc_executed :: "u16 \<Rightarrow> u64 \<Rightarrow> u64 \<Rightarrow> u32 \<Rightarrow> u64 \<Rightarrow> u8 list" where
  "enc_executed locate ts ref shares match =
     (let p = header (CHR ''E'') locate ts; p = put64 p 11 ref; p = put32 p 19 shares
      in put64 p 23 match)"

definition enc_executed_price :: "u16 \<Rightarrow> u64 \<Rightarrow> u64 \<Rightarrow> u32 \<Rightarrow> bool \<Rightarrow> u32 \<Rightarrow> u8 list" where
  "enc_executed_price locate ts ref shares printable price =
     (let p = header (CHR ''C'') locate ts; p = put64 p 11 ref; p = put32 p 19 shares; p = put64 p 23 1;
          p = put8 p 31 (if printable then CHR ''Y'' else CHR ''N'')
      in put32 p 32 price)"

definition enc_cancel :: "u16 \<Rightarrow> u64 \<Rightarrow> u64 \<Rightarrow> u32 \<Rightarrow> u8 list" where
  "enc_cancel locate ts ref shares =
     (let p = header (CHR ''X'') locate ts; p = put64 p 11 ref in put32 p 19 shares)"

definition enc_del :: "u16 \<Rightarrow> u64 \<Rightarrow> u64 \<Rightarrow> u8 list" where
  "enc_del locate ts ref = put64 (header (CHR ''D'') locate ts) 11 ref"

definition enc_replace :: "u16 \<Rightarrow> u64 \<Rightarrow> u64 \<Rightarrow> u64 \<Rightarrow> u32 \<Rightarrow> u32 \<Rightarrow> u8 list" where
  "enc_replace locate ts old_ref new_ref shares price =
     (let p = header (CHR ''U'') locate ts; p = put64 p 11 old_ref; p = put64 p 19 new_ref; p = put32 p 27 shares
      in put32 p 31 price)"

definition enc_trade :: "u16 \<Rightarrow> u64 \<Rightarrow> char \<Rightarrow> u32 \<Rightarrow> string \<Rightarrow> u32 \<Rightarrow> u8 list" where
  "enc_trade locate ts side shares stock price =
     (let p = header (CHR ''P'') locate ts; p = put64 p 11 0; p = put8 p 19 side; p = put32 p 20 shares;
          p = put_stock p 24 stock; p = put32 p 32 price
      in put64 p 36 1)"

definition enc_cross :: "u16 \<Rightarrow> u64 \<Rightarrow> u64 \<Rightarrow> string \<Rightarrow> u32 \<Rightarrow> char \<Rightarrow> u8 list" where
  "enc_cross locate ts shares stock price type =
     (let p = header (CHR ''Q'') locate ts; p = put64 p 11 shares; p = put_stock p 19 stock; p = put32 p 27 price;
          p = put64 p 31 1
      in put8 p 39 type)"

subsection \<open>Codec lemmas\<close>

lemma length_be_bytes [simp]: "length (be_bytes n v) = n"
  by (induction n arbitrary: v) auto

lemma be_word_append: "be_word (xs @ ys) acc = be_word ys (be_word xs acc)"
  by (induction xs arbitrary: acc) auto

lemma be_word_be_bytes:
  fixes v :: "'a::len word"
  assumes "8 \<le> LENGTH('a)"
  shows "be_word (be_bytes n v) 0 = take_bit (8 * n) v"
proof (induction n arbitrary: v)
  case (Suc n)
  have "push_bit 8 (take_bit (8 * n) (drop_bit 8 v)) OR ucast (ucast v :: u8) = take_bit (8 * Suc n) v"
  proof (rule bit_word_eqI)
    fix m assume "m < LENGTH('a)"
    then show "bit (push_bit 8 (take_bit (8 * n) (drop_bit 8 v)) OR ucast (ucast v :: u8)) m =
        bit (take_bit (8 * Suc n) v) m"
      by (cases "m < 8") (auto simp: bit_simps)
  qed
  then show ?case by (simp add: be_word_append Suc.IH)
qed simp

named_theorems codec \<open>reading back what an encoder wrote\<close>

lemma length_put [codec]: "off + length bs \<le> length p \<Longrightarrow> length (put p off bs) = length p"
  by (simp add: put_def)

lemma rd_put_same [codec]:
  "off + length bs \<le> length p \<Longrightarrow> length bs = n \<Longrightarrow> rd_bytes (put p off bs) off n = Some bs"
  by (simp add: rd_bytes_def put_def)

lemma rd_put_other [codec]:
  assumes "off + length bs \<le> length p" and "off2 + n \<le> off \<or> off + length bs \<le> off2"
  shows "rd_bytes (put p off bs) off2 n = rd_bytes p off2 n"
proof (cases "off2 + n \<le> off")
  case True
  have len: "length (put p off bs) = length p" using assms(1) by (rule length_put)
  have "take n (drop off2 (put p off bs)) = take n (drop off2 p)"
    using True assms(1) len by (intro nth_equalityI) (auto simp: put_def nth_append)
  then show ?thesis by (simp only: rd_bytes_def len)
next
  case False
  then obtain k where k: "off2 = off + length bs + k"
    using assms(2) le_Suc_ex by blast
  have "drop off2 (put p off bs) = drop off2 p"
    using assms(1) by (simp add: put_def k ac_simps)
  moreover have "length (put p off bs) = length p" using assms(1) by (rule length_put)
  ultimately show ?thesis by (simp only: rd_bytes_def)
qed

lemma rd_char_bytes [codec]: "rd_char p off = map_option (\<lambda>bs. char_of_byte (hd bs)) (rd_bytes p off (Suc 0))"
proof (cases "off < length p")
  case True
  then have "take (Suc 0) (drop off p) = [p ! off]" by (simp add: take_Suc_conv_app_nth hd_drop_conv_nth)
  then show ?thesis using True by (simp add: rd_char_def rd_bytes_def)
qed (simp add: rd_char_def rd_bytes_def)

lemmas codec_defs = put16_def put32_def put64_def put48_def put8_def put_stock_def
  be16_def be32_def be64_def be48_def stock_key_def header_def

lemma length_pad_to [simp, codec]: "length (pad_to n s) = n"
  by (simp add: pad_to_def Let_def)

lemma be48_put48 [codec]:
  "push_bit 32 (ucast (ucast (drop_bit 32 ts) :: u16)) OR ucast (ucast ts :: u32) = take_bit 48 (ts :: u64)"
proof (rule bit_word_eqI)
  fix m assume "m < LENGTH(64)"
  then show "bit (push_bit 32 (ucast (ucast (drop_bit 32 ts) :: u16)) OR ucast (ucast ts :: u32) :: u64) m =
      bit (take_bit 48 ts) m"
    by (cases "m < 32") (auto simp: bit_simps)
qed

lemma be_word_full [codec]:
  "be_word (be_bytes 2 v2) 0 = (v2 :: u16)" "be_word (be_bytes 4 v4) 0 = (v4 :: u32)"
  "be_word (be_bytes 8 v8) 0 = (v8 :: u64)"
  by (simp_all add: be_word_be_bytes take_bit_word_eq_self)

lemma message_length_simps [codec]:
  "message_length (CHR ''S'') = 12" "message_length (CHR ''R'') = 39" "message_length (CHR ''H'') = 25"
  "message_length (CHR ''Y'') = 20" "message_length (CHR ''A'') = 36" "message_length (CHR ''E'') = 31"
  "message_length (CHR ''C'') = 36" "message_length (CHR ''X'') = 23" "message_length (CHR ''D'') = 19"
  "message_length (CHR ''F'') = 40" "message_length (CHR ''B'') = 19"
  "message_length (CHR ''U'') = 35" "message_length (CHR ''P'') = 44" "message_length (CHR ''Q'') = 40"
  by (simp_all add: message_length_def)

text \<open>What every encoder starts with, and that later fields leave it alone.\<close>

lemma length_header [codec]: "11 \<le> message_length t \<Longrightarrow> length (header t l ts) = message_length t"
  by (simp add: codec_defs codec Let_def)

lemma header_fields [codec]:
  assumes "11 \<le> message_length t"
  shows "rd_bytes (header t l ts) 0 (Suc 0) = Some [byte_of_char t]"
    and "rd_bytes (header t l ts) (Suc 0) 2 = Some (be_bytes 2 l)"
    and "rd_bytes (header t l ts) 5 2 = Some (be_bytes 2 (ucast (drop_bit 32 ts) :: u16))"
    and "rd_bytes (header t l ts) 7 4 = Some (be_bytes 4 (ucast ts :: u32))"
  using assms by (simp_all add: codec_defs codec Let_def)

lemmas enc_simps = put16_def put32_def put64_def put8_def put_stock_def
  be16_def be32_def be64_def be48_def stock_key_def codec Let_def decode_def decode_switch_def

lemma decode_system_event: "decode (enc_system_event ts code) = Some (Call (OnSystemEvent (take_bit 48 ts) code))"
  by (simp add: enc_system_event_def enc_simps)

lemma decode_add:
  "decode (enc_add locate ts ref side shares stock price) =
    Some (Call (OnAdd locate (take_bit 48 ts) ref side shares price))"
  by (simp add: enc_add_def enc_simps)

lemma decode_stock_directory:
  "decode (enc_stock_directory locate ts stock cat) =
    Some (Call (OnStockDirectory locate (take_bit 48 ts) (le_word (pad_to 8 stock)) cat (CHR ''N'') 100))"
  by (simp add: enc_stock_directory_def enc_simps)

lemma decode_trading_action:
  "decode (enc_trading_action locate ts stock state reason) =
    Some (Call (OnTradingAction locate (take_bit 48 ts) (le_word (pad_to 8 stock)) state
      (map char_of_byte (pad_to 4 reason))))"
  by (simp add: enc_trading_action_def enc_simps)

lemma decode_executed:
  "decode (enc_executed locate ts ref shares m) = Some (Call (OnExecuted locate (take_bit 48 ts) ref shares))"
  by (simp add: enc_executed_def enc_simps)

lemma decode_executed_price:
  "decode (enc_executed_price locate ts ref shares printable price) =
    Some (Call (OnExecutedPrice locate (take_bit 48 ts) ref shares printable price))"
  by (simp add: enc_executed_price_def enc_simps)

lemma decode_cancel:
  "decode (enc_cancel locate ts ref shares) = Some (Call (OnCancel locate (take_bit 48 ts) ref shares))"
  by (simp add: enc_cancel_def enc_simps)

lemma decode_del: "decode (enc_del locate ts ref) = Some (Call (OnDelete locate (take_bit 48 ts) ref))"
  by (simp add: enc_del_def enc_simps)

lemma decode_replace:
  "decode (enc_replace locate ts old_ref new_ref shares price) =
    Some (Call (OnReplace locate (take_bit 48 ts) old_ref new_ref shares price))"
  by (simp add: enc_replace_def enc_simps)

lemma decode_trade:
  "decode (enc_trade locate ts side shares stock price) =
    Some (Call (OnTrade locate (take_bit 48 ts) side shares (le_word (pad_to 8 stock)) price))"
  by (simp add: enc_trade_def enc_simps)

lemma decode_cross:
  "decode (enc_cross locate ts shares stock price ct) =
    Some (Call (OnCross locate (take_bit 48 ts) shares (le_word (pad_to 8 stock)) price ct))"
  by (simp add: enc_cross_def enc_simps)

subsection \<open>The decoder stays inside the message\<close>

lemma rd_bytes_in: "off + n \<le> length p \<Longrightarrow> \<exists>bs. rd_bytes p off n = Some bs"
  by (simp add: rd_bytes_def)

lemma reads_in:
  "off + 2 \<le> length p \<Longrightarrow> \<exists>v. be16 p off = Some v" "off + 4 \<le> length p \<Longrightarrow> \<exists>v. be32 p off = Some v"
  "off + 8 \<le> length p \<Longrightarrow> \<exists>v. be64 p off = Some v" "off + 6 \<le> length p \<Longrightarrow> \<exists>v. be48 p off = Some v"
  "off + 8 \<le> length p \<Longrightarrow> \<exists>v. stock_key p off = Some v" "off + 1 \<le> length p \<Longrightarrow> \<exists>v. rd_char p off = Some v"
  by (simp_all add: be16_def be32_def be64_def be48_def stock_key_def rd_bytes_def rd_char_def)

lemma decode_switch_total:
  assumes "message_length t \<le> length p"
  shows "decode_switch p t locate ts \<noteq> None"
proof (cases "t \<in> set ''AFECXDUPQSRHYB''")
  case True
  have "decode_switch p c locate ts \<noteq> None" if "c \<in> set ''AFECXDUPQSRHYB''" "message_length c \<le> length p" for c
    using that(1)
    by (elim set_ConsD [elim_format] disjE; use that(2) in \<open>simp add: decode_switch_def message_length_simps
        be32_def be64_def stock_key_def rd_bytes_def rd_char_def\<close>)
  then show ?thesis using True assms by blast
next
  case False
  then show ?thesis by (simp add: decode_switch_def)
qed

lemma decode_total: "decode p \<noteq> None"
proof (cases "length p < 11")
  case True
  then show ?thesis by (simp add: decode_def)
next
  case len: False
  obtain t where t: "rd_char p 0 = Some t" using len reads_in(6) [of 0 p] by auto
  obtain l ts where "be16 p 1 = Some l" "be48 p 5 = Some ts"
    using len reads_in(1) [of 1 p] reads_in(4) [of 5 p] by auto
  then show ?thesis
    using len t decode_switch_total [of t p l ts] by (simp add: decode_def Let_def)
qed

subsection \<open>The message catalogue\<close>

definition itch50 :: "(char \<times> nat \<times> bool) list" where
  \<comment> \<open>the message types of TotalView-ITCH 5.0: type, size in bytes, whether the program uses it\<close>
  "itch50 =
     [(CHR ''S'', 12, True), (CHR ''R'', 39, True), (CHR ''H'', 25, True), (CHR ''Y'', 20, True), (CHR ''L'', 26, False),
      (CHR ''V'', 35, False), (CHR ''W'', 12, False), (CHR ''K'', 28, False), (CHR ''J'', 35, False), (CHR ''h'', 21, False),
      (CHR ''A'', 36, True), (CHR ''F'', 40, True), (CHR ''E'', 31, True), (CHR ''C'', 36, True), (CHR ''X'', 23, True),
      (CHR ''D'', 19, True), (CHR ''U'', 35, True), (CHR ''P'', 44, True), (CHR ''Q'', 40, True), (CHR ''B'', 19, True),
      (CHR ''I'', 50, False), (CHR ''N'', 20, False), (CHR ''O'', 48, False)]"

lemma message_length_itch50: "message_length t = (case map_of itch50 t of None \<Rightarrow> 0 | Some (n, _) \<Rightarrow> n)"
  unfolding message_length_def itch50_def by simp

lemma itch50_sizes:
  assumes "map_of itch50 t = Some (n, u)"
  shows "11 < n" and "u \<longleftrightarrow> t \<in> set ''AFECXDUPQSRHYB''"
  using map_of_SomeD [OF assms] by (auto simp: itch50_def)

lemma decode_switch_outcome:
  "decode_switch p c l t \<noteq> Some Reject" "decode_switch p c l t = Some Unused \<longleftrightarrow> c \<notin> set ''AFECXDUPQSRHYB''"
  by (auto simp: decode_switch_def bind_eq_Some_conv)

lemma decode_outcome:
  "decode p = Some Reject \<longleftrightarrow>
     length p < 11 \<or> (case map_of itch50 (char_of_byte (p ! 0)) of None \<Rightarrow> True | Some (n, _) \<Rightarrow> length p < n)" (is ?rej)
  "decode p = Some Unused \<longleftrightarrow> (\<exists>n \<le> length p. map_of itch50 (char_of_byte (p ! 0)) = Some (n, False))" (is ?un)
proof -
  let ?c = "char_of_byte (p ! 0)"
  have short: "\<not> n \<le> length p" if "length p < 11" "map_of itch50 ?c = Some (n, u)" for n u
    using that itch50_sizes(1) [OF that(2)] by simp
  have "decode p = (if length p < 11 then Some Reject
      else if case map_of itch50 ?c of None \<Rightarrow> True | Some (n, _) \<Rightarrow> length p < n then Some Reject
      else decode_switch p ?c (the (be16 p 1)) (the (be48 p 5)))"
  proof (cases "length p < 11")
    case False
    obtain l ts where "be16 p 1 = Some l" "be48 p 5 = Some ts"
      using False reads_in(1) [of 1 p] reads_in(4) [of 5 p] by auto
    then show ?thesis
      using False itch50_sizes(1) by (fastforce simp: decode_def rd_char_def message_length_itch50 Let_def split: option.splits)
  qed (simp add: decode_def)
  then show ?rej ?un
    using short itch50_sizes(2) by (auto simp: decode_switch_outcome split: option.splits if_splits)
qed

end
