(* ===== verification/Interfaces.thy ===== *)
theory Interfaces
  imports Stok_Prelude
begin

text \<open>
  The contracts between components, as locales: what a client may rely on, stated once and
  proved for the model's own definitions in the theory of the component that provides it.

  \<^item> \<open>ref_map\<close>: a finite map with 64-bit keys (provided by \<open>FlatMap64\<close>, used by the ITCH book);
  \<^item> \<open>bounded_fifo\<close>: a bounded first-in first-out ring (provided by both lock-free queues).
    Its invariant carries a budget of pushes, for a ring whose counters must stay within a range.
\<close>

subsection \<open>Maps keyed by 64-bit references\<close>

datatype 'v map_op = Put u64 'v | Del u64

fun op_key :: "'v map_op \<Rightarrow> u64" where
  "op_key (Put k v) = k"
| "op_key (Del k) = k"

fun abs_op :: "'v map_op \<Rightarrow> (u64 \<Rightarrow> 'v option) \<Rightarrow> (u64 \<Rightarrow> 'v option)" where
  "abs_op (Put k v) M = M(k \<mapsto> v)"
| "abs_op (Del k) M = M(k := None)"

fun run_map_ops ::
    "('m \<Rightarrow> u64 \<Rightarrow> 'v \<Rightarrow> 'm option) \<Rightarrow> ('m \<Rightarrow> u64 \<Rightarrow> 'm option) \<Rightarrow> 'v map_op list \<Rightarrow> 'm \<Rightarrow> 'm option" where
  "run_map_ops put del [] m = Some m"
| "run_map_ops put del (Put k v # ops) m =
     (case put m k v of None \<Rightarrow> None | Some m' \<Rightarrow> run_map_ops put del ops m')"
| "run_map_ops put del (Del k # ops) m =
     (case del m k of None \<Rightarrow> None | Some m' \<Rightarrow> run_map_ops put del ops m')"

locale ref_map =
  fixes lookup :: "'m \<Rightarrow> u64 \<Rightarrow> 'v option"
    and put :: "'m \<Rightarrow> u64 \<Rightarrow> 'v \<Rightarrow> 'm option"
    and del :: "'m \<Rightarrow> u64 \<Rightarrow> 'm option"
    and invar :: "'m \<Rightarrow> bool"
    and reserved :: u64
  assumes put_ok: "invar m \<Longrightarrow> k \<noteq> reserved \<Longrightarrow>
      \<exists>m'. put m k v = Some m' \<and> invar m' \<and> lookup m' = (lookup m)(k \<mapsto> v)"
    and del_ok: "invar m \<Longrightarrow> k \<noteq> reserved \<Longrightarrow>
      \<exists>m'. del m k = Some m' \<and> invar m' \<and> lookup m' = (lookup m)(k := None)"
begin

lemma run_ok:
  assumes "invar m" and "\<forall>op \<in> set ops. op_key op \<noteq> reserved"
  shows "\<exists>m'. run_map_ops put del ops m = Some m' \<and> invar m' \<and> lookup m' = fold abs_op ops (lookup m)"
  using assms
proof (induction ops arbitrary: m)
  case (Cons op ops)
  show ?case
  proof (cases op)
    case (Put k v)
    with Cons.prems put_ok [of m k v] obtain m1 where "put m k v = Some m1" "invar m1"
      "lookup m1 = (lookup m)(k \<mapsto> v)" by auto
    then show ?thesis using Cons.IH [of m1] Cons.prems(2) Put by (simp del: fun_upd_apply)
  next
    case (Del k)
    with Cons.prems del_ok [of m k] obtain m1 where "del m k = Some m1" "invar m1"
      "lookup m1 = (lookup m)(k := None)" by auto
    then show ?thesis using Cons.IH [of m1] Cons.prems(2) Del by (simp del: fun_upd_apply)
  qed
qed simp

end

subsection \<open>Bounded FIFO rings\<close>

datatype 'a queue_op = Push 'a | Pop

fun fifo_spec :: "nat \<Rightarrow> 'a queue_op list \<Rightarrow> 'a list \<Rightarrow> 'a list \<times> 'a option list" where
  \<comment> \<open>the abstract queue: contents left and, per operation, what it gave out
     (\<open>Some x\<close> for a delivered element, \<open>None\<close> for a push or an empty pop); a push on a full ring is refused\<close>
  "fifo_spec c [] xs = (xs, [])"
| "fifo_spec c (Push x # ops) xs =
     (let (ys, out) = fifo_spec c ops (if length xs < c then xs @ [x] else xs) in (ys, None # out))"
| "fifo_spec c (Pop # ops) xs =
     (case xs of
        [] \<Rightarrow> let (ys, out) = fifo_spec c ops [] in (ys, None # out)
      | x # xs' \<Rightarrow> let (ys, out) = fifo_spec c ops xs' in (ys, Some x # out))"

fun run_queue ::
    "('q \<Rightarrow> 'a \<Rightarrow> 'q \<times> bool) \<Rightarrow> ('q \<Rightarrow> 'q \<times> 'a option) \<Rightarrow> 'a queue_op list \<Rightarrow> 'q \<Rightarrow> 'q \<times> 'a option list" where
  "run_queue push take1 [] q = (q, [])"
| "run_queue push take1 (Push x # ops) q =
     (let (q', ok) = push q x; (q'', out) = run_queue push take1 ops q' in (q'', None # out))"
| "run_queue push take1 (Pop # ops) q =
     (let (q', r) = take1 q; (q'', out) = run_queue push take1 ops q' in (q'', r # out))"

locale bounded_fifo =
  fixes push :: "'q \<Rightarrow> 'a \<Rightarrow> 'q \<times> bool"
    and take1 :: "'q \<Rightarrow> 'q \<times> 'a option"
    and items :: "'q \<Rightarrow> 'a list"
    and capac :: "'q \<Rightarrow> nat"
    and invar :: "nat \<Rightarrow> 'q \<Rightarrow> bool" \<comment> \<open>with a number of pushes that may follow\<close>
  assumes push_items: "invar (Suc n) q \<Longrightarrow> push q x = (q', ok) \<Longrightarrow>
      invar n q' \<and> capac q' = capac q \<and> ok = (length (items q) < capac q) \<and>
      items q' = (if ok then items q @ [x] else items q)"
    and take_items: "invar n q \<Longrightarrow> take1 q = (q', r) \<Longrightarrow>
      invar n q' \<and> capac q' = capac q \<and>
      (case items q of [] \<Rightarrow> r = None \<and> items q' = [] | x # xs \<Rightarrow> r = Some x \<and> items q' = xs)"
    and invar_mono: "invar (Suc n) q \<Longrightarrow> invar n q"
begin

lemma run_is_fifo:
  assumes "invar (length ops) q"
  shows "\<exists>q'. run_queue push take1 ops q = (q', snd (fifo_spec (capac q) ops (items q))) \<and>
    invar 0 q' \<and> capac q' = capac q \<and> items q' = fst (fifo_spec (capac q) ops (items q))"
  using assms
proof (induction ops arbitrary: q)
  case (Cons op ops)
  have room: "invar (Suc (length ops)) q" using Cons.prems by simp
  show ?case
  proof (cases op)
    case (Push x)
    obtain q1 ok where p: "push q x = (q1, ok)" by fastforce
    note pi = push_items [OF room p]
    then show ?thesis using Cons.IH [of q1] Push p by (auto split: prod.splits)
  next
    case Pop
    obtain q1 r where p: "take1 q = (q1, r)" by fastforce
    note ti = take_items [OF invar_mono [OF room] p]
    then show ?thesis using Cons.IH [of q1] Pop p by (auto split: prod.splits list.splits)
  qed
qed simp

end

end
