(* ===== verification/Spsc_Queue.thy ===== *)
theory Spsc_Queue
  imports Interfaces
begin

unbundle bit_operations_syntax

text \<open>
  \<open>src/core/spsc_queue.hpp\<close>: the bounded single-producer single-consumer ring. Indices are 64-bit
  words that wrap around; each side keeps a cached copy of the other side's index.

  The sequential operations come first. The interleavings of one producer and one consumer are the
  step relation \<open>spsc_step\<close>: every access to the other side's index is one step, and the producer's
  slot write and the consumer's slot read are steps of their own. Acquire and release order the
  slot accesses with the index accesses, so the steps interleave sequentially.
\<close>

subsection \<open>State and operations\<close>

record 'a spsc =
  q_cap :: nat
  q_mask :: u64
  q_slots :: "'a list"
  q_head :: u64
  q_cached_tail :: u64
  q_tail :: u64
  q_cached_head :: u64

definition spsc_new :: "'a \<Rightarrow> nat \<Rightarrow> 'a spsc" where
  "spsc_new dflt capacity =
     (let c = next_pow2 (if capacity < 2 then 2 else capacity)
      in \<lparr>q_cap = c, q_mask = of_nat c - 1, q_slots = replicate c dflt, q_head = 0, q_cached_tail = 0,
          q_tail = 0, q_cached_head = 0\<rparr>)"

definition slot_of :: "'a spsc \<Rightarrow> u64 \<Rightarrow> nat" where
  "slot_of q i = unat (i AND q_mask q)"

definition spsc_try_claim :: "'a spsc \<Rightarrow> 'a spsc \<times> nat option" where
  "spsc_try_claim q =
     (let t = q_tail q in
      if unat (t - q_cached_head q) \<ge> q_cap q
      then let q = q\<lparr>q_cached_head := q_head q\<rparr> in
           if unat (t - q_cached_head q) \<ge> q_cap q then (q, None) else (q, Some (slot_of q t))
      else (q, Some (slot_of q t)))"

definition spsc_publish :: "'a spsc \<Rightarrow> 'a spsc" where
  "spsc_publish q = q\<lparr>q_tail := q_tail q + 1\<rparr>"

definition write_slot :: "'a spsc \<Rightarrow> nat \<Rightarrow> 'a \<Rightarrow> 'a spsc" where
  "write_slot q i v = q\<lparr>q_slots := (q_slots q)[i := v]\<rparr>"

definition spsc_try_push :: "'a spsc \<Rightarrow> 'a \<Rightarrow> 'a spsc \<times> bool" where
  "spsc_try_push q v =
     (case spsc_try_claim q of
        (q, None) \<Rightarrow> (q, False)
      | (q, Some i) \<Rightarrow> (spsc_publish (write_slot q i v), True))"

definition spsc_front :: "'a spsc \<Rightarrow> 'a spsc \<times> nat option" where
  "spsc_front q =
     (let h = q_head q in
      if h = q_cached_tail q
      then let q = q\<lparr>q_cached_tail := q_tail q\<rparr> in
           if h = q_cached_tail q then (q, None) else (q, Some (slot_of q h))
      else (q, Some (slot_of q h)))"

definition spsc_pop :: "'a spsc \<Rightarrow> 'a spsc" where
  "spsc_pop q = q\<lparr>q_head := q_head q + 1\<rparr>"

definition spsc_empty :: "'a spsc \<Rightarrow> bool" where
  "spsc_empty q \<longleftrightarrow> q_head q = q_tail q"

definition spsc_size_approx :: "'a spsc \<Rightarrow> nat" where
  "spsc_size_approx q = unat (q_tail q - q_head q)"

definition spsc_take :: "'a spsc \<Rightarrow> 'a spsc \<times> 'a option" where
  \<comment> \<open>the consumer idiom: \<open>if (T* p = q.front()) { use *p; q.pop(); }\<close>\<close>
  "spsc_take q =
     (case spsc_front q of
        (q, None) \<Rightarrow> (q, None)
      | (q, Some i) \<Rightarrow> (spsc_pop q, Some (q_slots q ! i)))"

definition spsc_items :: "'a spsc \<Rightarrow> 'a list" where
  \<comment> \<open>the elements in the ring, oldest first\<close>
  "spsc_items q =
     map (\<lambda>i. q_slots q ! slot_of q (q_head q + of_nat i)) [0..<unat (q_tail q - q_head q)]"

subsection \<open>Interleaved producer and consumer\<close>

datatype 'a producer_pc = PIdle | PClaimed nat | PWritten nat 'a

datatype consumer_pc = CIdle | CFront nat

record 'a spsc_sys =
  sys_q :: "'a spsc"
  sys_p :: "'a producer_pc"
  sys_c :: consumer_pc
  sys_pushed :: "'a list"
  sys_popped :: "'a list"

inductive spsc_step :: "'a spsc_sys \<Rightarrow> 'a spsc_sys \<Rightarrow> bool" where
  p_claim: "sys_p s = PIdle \<Longrightarrow> spsc_try_claim (sys_q s) = (q', Some i) \<Longrightarrow>
    spsc_step s (s\<lparr>sys_q := q', sys_p := PClaimed i\<rparr>)"
| p_full: "sys_p s = PIdle \<Longrightarrow> spsc_try_claim (sys_q s) = (q', None) \<Longrightarrow>
    spsc_step s (s\<lparr>sys_q := q'\<rparr>)"
| p_write: "sys_p s = PClaimed i \<Longrightarrow>
    spsc_step s (s\<lparr>sys_q := write_slot (sys_q s) i v, sys_p := PWritten i v\<rparr>)"
| p_publish: "sys_p s = PWritten i v \<Longrightarrow>
    spsc_step s (s\<lparr>sys_q := spsc_publish (sys_q s), sys_p := PIdle, sys_pushed := sys_pushed s @ [v]\<rparr>)"
| c_front: "sys_c s = CIdle \<Longrightarrow> spsc_front (sys_q s) = (q', Some i) \<Longrightarrow>
    spsc_step s (s\<lparr>sys_q := q', sys_c := CFront i\<rparr>)"
| c_empty: "sys_c s = CIdle \<Longrightarrow> spsc_front (sys_q s) = (q', None) \<Longrightarrow>
    spsc_step s (s\<lparr>sys_q := q'\<rparr>)"
| c_pop: "sys_c s = CFront i \<Longrightarrow>
    spsc_step s (s\<lparr>sys_q := spsc_pop (sys_q s), sys_c := CIdle,
                   sys_popped := sys_popped s @ [q_slots (sys_q s) ! i]\<rparr>)"

definition spsc_init :: "'a \<Rightarrow> nat \<Rightarrow> 'a spsc_sys" where
  "spsc_init dflt capacity =
     \<lparr>sys_q = spsc_new dflt capacity, sys_p = PIdle, sys_c = CIdle, sys_pushed = [], sys_popped = []\<rparr>"

inductive spsc_reachable :: "'a \<Rightarrow> nat \<Rightarrow> 'a spsc_sys \<Rightarrow> bool" for dflt capacity where
  start: "spsc_reachable dflt capacity (spsc_init dflt capacity)"
| step: "spsc_reachable dflt capacity s \<Longrightarrow> spsc_step s t \<Longrightarrow> spsc_reachable dflt capacity t"

subsection \<open>Representation: the words as unbounded counters\<close>

definition ring_ok :: "'a spsc \<Rightarrow> bool" where
  "ring_ok q \<longleftrightarrow> is_pow2 (q_cap q) \<and> q_cap q \<le> 2 ^ 63 \<and> q_mask q = of_nat (q_cap q) - 1 \<and>
     length (q_slots q) = q_cap q"

definition rep :: "'a spsc \<Rightarrow> nat \<Rightarrow> nat \<Rightarrow> nat \<Rightarrow> nat \<Rightarrow> bool" where
  \<comment> \<open>\<open>CH \<le> H \<le> CT \<le> T \<le> CH + cap\<close>: cached indices lag behind, and the ring never overfills\<close>
  "rep q CH H CT T \<longleftrightarrow> ring_ok q \<and> q_cached_head q = of_nat CH \<and> q_head q = of_nat H \<and>
     q_cached_tail q = of_nat CT \<and> q_tail q = of_nat T \<and>
     CH \<le> H \<and> H \<le> CT \<and> CT \<le> T \<and> T \<le> CH + q_cap q"

lemma unat_of_nat_diff:
  assumes "a \<le> b" and "b - a < 2 ^ 64"
  shows "unat (of_nat b - of_nat a :: u64) = b - a"
proof -
  have "of_nat b - of_nat a = (of_nat (b - a) :: u64)" using assms(1) by (simp add: of_nat_diff)
  then show ?thesis using assms(2) by (simp add: unat_of_nat)
qed

lemma of_nat_eq_near:
  assumes "a \<le> b" and "b - a < 2 ^ 64"
  shows "(of_nat a :: u64) = of_nat b \<longleftrightarrow> a = b"
proof
  assume "(of_nat a :: u64) = of_nat b"
  then show "a = b" using unat_of_nat_diff [OF assms] assms(1) by simp
qed simp

lemma mask_index:
  assumes "is_pow2 c" and "c \<le> 2 ^ 63"
  shows "unat (of_nat i AND (of_nat c - 1) :: u64) = i mod c"
proof -
  from assms(1) obtain k where k: "c = 2 ^ k" by (auto simp: is_pow2_def)
  then have "(2::nat) ^ k \<le> 2 ^ 63" using assms(2) by simp
  then have k63: "k \<le> 63" by (rule power_le_imp_le_exp [rotated]) simp
  have "(of_nat c - 1 :: u64) = mask k" using k by (simp add: mask_eq_exp_minus_1)
  then have "unat (of_nat i AND (of_nat c - 1) :: u64) = take_bit k (unat (of_nat i :: u64))"
    by (simp add: unsigned_take_bit_eq flip: take_bit_eq_mask)
  also have "\<dots> = (i mod 2 ^ 64) mod 2 ^ k" by (simp add: unat_of_nat take_bit_eq_mod)
  also have "\<dots> = i mod 2 ^ k" by (rule mod_mod_cancel) (rule le_imp_power_dvd, use k63 in simp)
  finally show ?thesis using k by simp
qed

lemma slot_of_nat: "ring_ok q \<Longrightarrow> slot_of q (of_nat i) = i mod q_cap q"
  by (simp add: ring_ok_def slot_of_def mask_index)

lemma items_rep:
  assumes "rep q CH H CT T"
  shows "spsc_items q = map (\<lambda>i. q_slots q ! (i mod q_cap q)) [H..<T]"
proof -
  have ok: "ring_ok q" and le: "H \<le> T" "T - H < 2 ^ 64"
    using assms by (auto simp: rep_def ring_ok_def)
  have "unat (q_tail q - q_head q) = T - H"
    using assms le unat_of_nat_diff [of H T] by (simp add: rep_def)
  moreover have "slot_of q (q_head q + of_nat i) = (H + i) mod q_cap q" for i
    using slot_of_nat [OF ok, of "H + i"] assms by (simp add: rep_def)
  moreover have "[H..<T] = map (\<lambda>i. H + i) [0..<T - H]"
    using le(1) by (intro nth_equalityI) simp_all
  ultimately show ?thesis by (simp add: spsc_items_def comp_def)
qed

subsection \<open>Each operation on the counters\<close>

lemma rep_near:
  assumes "rep q CH H CT T"
  shows "T - CH < 2 ^ 64" and "T - H < 2 ^ 64" and "CT - H < 2 ^ 64"
  using assms by (auto simp: rep_def ring_ok_def)

lemma claim_rep:
  assumes "rep q CH H CT T" and "spsc_try_claim q = (q', r)"
  obtains CH' where "rep q' CH' H CT T" and "q_slots q' = q_slots q" and "q_cap q' = q_cap q"
    and "r = (if T < H + q_cap q then Some (T mod q_cap q) else None)" and "T < H + q_cap q \<Longrightarrow> T < CH' + q_cap q"
proof -
  have ok: "ring_ok q" and o: "CH \<le> H" "H \<le> T" "CH \<le> T" "T \<le> CH + q_cap q"
    using assms(1) by (auto simp: rep_def)
  have s: "slot_of q (q_tail q) = T mod q_cap q" "slot_of (q\<lparr>q_cached_head := h\<rparr>) (q_tail q) = T mod q_cap q" for h
    using slot_of_nat [OF ok, of T] assms(1) by (auto simp: rep_def slot_of_def)
  have d: "unat (q_tail q - q_cached_head q) = T - CH" "unat (q_tail q - q_head q) = T - H"
    using assms(1) unat_of_nat_diff [OF o(3) rep_near(1) [OF assms(1)]]
      unat_of_nat_diff [OF o(2) rep_near(2) [OF assms(1)]] by (simp_all add: rep_def)
  show thesis
  proof (cases "q_cap q \<le> T - CH")
    case True
    have "rep (q\<lparr>q_cached_head := q_head q\<rparr>) H H CT T"
      using assms(1) o True by (auto simp: rep_def ring_ok_def)
    moreover have "q' = q\<lparr>q_cached_head := q_head q\<rparr>"
        "r = (if T < H + q_cap q then Some (T mod q_cap q) else None)"
      using assms(2) True d o by (auto simp: spsc_try_claim_def Let_def s split: if_splits)
    ultimately show thesis using that by simp
  next
    case False
    then have "q' = q" "r = Some (T mod q_cap q)" "T < CH + q_cap q"
      using assms(2) d o by (auto simp: spsc_try_claim_def Let_def s)
    then show thesis using that [of CH] assms(1) o by simp
  qed
qed

lemma front_rep:
  assumes "rep q CH H CT T" and "spsc_front q = (q', r)"
  obtains CT' where "rep q' CH H CT' T" and "q_slots q' = q_slots q" and "q_cap q' = q_cap q"
    and "r = (if H < T then Some (H mod q_cap q) else None)" and "H < T \<Longrightarrow> H < CT'"
proof -
  have ok: "ring_ok q" and o: "H \<le> CT" "CT \<le> T" using assms(1) by (auto simp: rep_def)
  have s: "slot_of q (q_head q) = H mod q_cap q" "slot_of (q\<lparr>q_cached_tail := h\<rparr>) (q_head q) = H mod q_cap q" for h
    using slot_of_nat [OF ok, of H] assms(1) by (auto simp: rep_def slot_of_def)
  have e: "q_head q = q_cached_tail q \<longleftrightarrow> H = CT" "q_head q = q_tail q \<longleftrightarrow> H = T"
    using assms(1) of_nat_eq_near [OF o(1) rep_near(3) [OF assms(1)]]
      of_nat_eq_near [OF le_trans [OF o] rep_near(2) [OF assms(1)]] by (simp_all add: rep_def)
  show thesis
  proof (cases "H = CT")
    case True
    have "rep (q\<lparr>q_cached_tail := q_tail q\<rparr>) CH H T T"
      using assms(1) o by (auto simp: rep_def ring_ok_def)
    moreover have "q' = q\<lparr>q_cached_tail := q_tail q\<rparr>" "r = (if H < T then Some (H mod q_cap q) else None)"
      using assms(2) True e o s by (auto simp: spsc_front_def Let_def split: if_splits)
    ultimately show thesis using that by simp
  next
    case False
    then have "q' = q" "r = Some (H mod q_cap q)" "H < CT"
      using assms(2) e o by (auto simp: spsc_front_def Let_def s)
    then show thesis using that [of CT] assms(1) o by simp
  qed
qed

lemma publish_rep: "rep q CH H CT T \<Longrightarrow> T < CH + q_cap q \<Longrightarrow> rep (spsc_publish q) CH H CT (Suc T)"
  by (auto simp: rep_def ring_ok_def spsc_publish_def)

lemma pop_rep: "rep q CH H CT T \<Longrightarrow> H < CT \<Longrightarrow> rep (spsc_pop q) CH (Suc H) CT T"
  by (auto simp: rep_def ring_ok_def spsc_pop_def)

lemma write_rep: "rep q CH H CT T \<Longrightarrow> rep (write_slot q i v) CH H CT T"
  by (auto simp: rep_def ring_ok_def write_slot_def)

lemma same_items: "q_slots q' = q_slots q \<Longrightarrow> q_cap q' = q_cap q \<Longrightarrow> rep q CH H CT T \<Longrightarrow>
    rep q' CH' H CT' T \<Longrightarrow> spsc_items q' = spsc_items q"
  by (simp add: items_rep)

lemma mod_window_neq:
  assumes "(i::nat) < T" and "T < i + c"
  shows "i mod c \<noteq> T mod c"
proof
  assume "i mod c = T mod c"
  then have "c dvd T - i" using assms(1) by (metis mod_eq_dvd_iff_nat less_imp_le)
  then show False using assms by (auto dest: dvd_imp_le)
qed

lemma write_tail_items:
  assumes "rep q CH H CT T" and "T < H + q_cap q"
  shows "spsc_items (write_slot q (T mod q_cap q) v) = spsc_items q"
proof -
  have "(q_slots q)[T mod q_cap q := v] ! (i mod q_cap q) = q_slots q ! (i mod q_cap q)" if "H \<le> i" "i < T" for i
    using mod_window_neq [of i T "q_cap q"] that assms(2) by simp
  then show ?thesis
    by (simp add: items_rep [OF assms(1)] items_rep [OF write_rep [OF assms(1)]]) (simp add: write_slot_def)
qed

lemma publish_items:
  assumes "rep q CH H CT T" and "T < CH + q_cap q"
  shows "spsc_items (spsc_publish q) = spsc_items q @ [q_slots q ! (T mod q_cap q)]"
  using assms items_rep [OF assms(1)] items_rep [OF publish_rep [OF assms]]
  by (auto simp: rep_def spsc_publish_def)

lemma pop_items:
  assumes "rep q CH H CT T" and "H < CT"
  shows "spsc_items q = q_slots q ! (H mod q_cap q) # spsc_items (spsc_pop q)"
  using assms items_rep [OF assms(1)] items_rep [OF pop_rep [OF assms]]
  by (auto simp: rep_def spsc_pop_def upt_conv_Cons)

lemma items_length: "rep q CH H CT T \<Longrightarrow> length (spsc_items q) = T - H"
  by (simp add: items_rep)

definition spsc_inv :: "'a spsc \<Rightarrow> bool" where
  "spsc_inv q \<longleftrightarrow> (\<exists>CH H CT T. rep q CH H CT T)"

lemma spsc_new_rep:
  assumes "capacity \<le> 2 ^ 62"
  shows "rep (spsc_new d capacity) 0 0 0 0"
proof -
  let ?c = "if capacity < 2 then 2 else capacity"
  have "next_pow2 ?c < 2 * ?c" by (rule next_pow2_lt) simp
  then have "next_pow2 ?c \<le> 2 ^ 63" using assms by (simp split: if_splits)
  then show ?thesis
    using next_pow2_pow2 [of ?c] by (simp add: rep_def ring_ok_def spsc_new_def Let_def)
qed

subsection \<open>Sequential use: a bounded FIFO\<close>

lemma push_ok:
  assumes "spsc_inv q" and "spsc_try_push q x = (q', ok)"
  shows "spsc_inv q' \<and> q_cap q' = q_cap q \<and> ok = (length (spsc_items q) < q_cap q) \<and>
    spsc_items q' = (if ok then spsc_items q @ [x] else spsc_items q)"
proof -
  from assms(1) obtain CH H CT T where r: "rep q CH H CT T" by (auto simp: spsc_inv_def)
  obtain q1 r1 where c: "spsc_try_claim q = (q1, r1)" by fastforce
  obtain CH' where r': "rep q1 CH' H CT T" and s: "q_slots q1 = q_slots q" "q_cap q1 = q_cap q"
      and r1: "r1 = (if T < H + q_cap q then Some (T mod q_cap q) else None)"
      and room: "T < H + q_cap q \<Longrightarrow> T < CH' + q_cap q"
    using claim_rep [OF r c] by metis
  have it: "spsc_items q1 = spsc_items q" using same_items [OF s r r'] .
  have len: "length (spsc_items q) < q_cap q \<longleftrightarrow> T < H + q_cap q"
    using items_length [OF r] r by (auto simp: rep_def)
  show ?thesis
  proof (cases "T < H + q_cap q")
    case True
    let ?w = "write_slot q1 (T mod q_cap q) x"
    have w: "rep ?w CH' H CT T" by (rule write_rep [OF r'])
    have room': "T < CH' + q_cap ?w" using room [OF True] s by (simp add: write_slot_def)
    have "T mod q_cap q < length (q_slots q1)" using r' s by (auto simp: rep_def ring_ok_def)
    then have "spsc_items (spsc_publish ?w) = spsc_items q @ [x]"
      using publish_items [OF w room'] write_tail_items [OF r'] True s it by (simp add: write_slot_def)
    moreover have "q' = spsc_publish ?w" "ok"
      using assms(2) c r1 True by (simp_all add: spsc_try_push_def)
    ultimately show ?thesis
      using publish_rep [OF w room'] len True s
      by (auto simp: spsc_inv_def spsc_publish_def write_slot_def)
  next
    case False
    then have "q' = q1" "\<not> ok" using assms(2) c r1 by (simp_all add: spsc_try_push_def)
    then show ?thesis using r' s it len False by (auto simp: spsc_inv_def)
  qed
qed

lemma take_ok:
  assumes "spsc_inv q" and "spsc_take q = (q', r)"
  shows "spsc_inv q' \<and> q_cap q' = q_cap q \<and>
    (case spsc_items q of [] \<Rightarrow> r = None \<and> spsc_items q' = [] | x # xs \<Rightarrow> r = Some x \<and> spsc_items q' = xs)"
proof -
  from assms(1) obtain CH H CT T where rp: "rep q CH H CT T" by (auto simp: spsc_inv_def)
  obtain q1 r1 where f: "spsc_front q = (q1, r1)" by fastforce
  obtain CT' where r': "rep q1 CH H CT' T" and s: "q_slots q1 = q_slots q" "q_cap q1 = q_cap q"
      and r1: "r1 = (if H < T then Some (H mod q_cap q) else None)" and room: "H < T \<Longrightarrow> H < CT'"
    using front_rep [OF rp f] by metis
  have it: "spsc_items q1 = spsc_items q" using same_items [OF s rp r'] .
  show ?thesis
  proof (cases "H < T")
    case True
    then have "q' = spsc_pop q1" "r = Some (q_slots q1 ! (H mod q_cap q))"
      using assms(2) f r1 by (simp_all add: spsc_take_def)
    moreover have "spsc_items q = q_slots q1 ! (H mod q_cap q1) # spsc_items (spsc_pop q1)"
      using pop_items [OF r' room [OF True]] it by simp
    ultimately show ?thesis
      using pop_rep [OF r' room [OF True]] s by (auto simp: spsc_inv_def spsc_pop_def)
  next
    case False
    then have "spsc_items q = []" using items_rep [OF rp] by simp
    moreover have "q' = q1" "r = None" using assms(2) f r1 False by (simp_all add: spsc_take_def)
    ultimately show ?thesis using r' s it by (auto simp: spsc_inv_def)
  qed
qed

interpretation spsc: bounded_fifo spsc_try_push spsc_take spsc_items q_cap "\<lambda>_. spsc_inv"
  \<comment> \<open>unsigned differences of the counters survive their wrap-around: no budget\<close>
  by unfold_locales (erule (1) push_ok, erule (1) take_ok)

subsection \<open>Interleaved use: no element is lost, duplicated or reordered\<close>

fun p_ok :: "'a spsc \<Rightarrow> nat \<Rightarrow> nat \<Rightarrow> 'a producer_pc \<Rightarrow> bool" where
  "p_ok q CH T PIdle = True"
| "p_ok q CH T (PClaimed i) = (i = T mod q_cap q \<and> T < CH + q_cap q)"
| "p_ok q CH T (PWritten i v) = (i = T mod q_cap q \<and> T < CH + q_cap q \<and> q_slots q ! i = v)"

fun c_ok :: "'a spsc \<Rightarrow> nat \<Rightarrow> nat \<Rightarrow> consumer_pc \<Rightarrow> bool" where
  "c_ok q H CT CIdle = True"
| "c_ok q H CT (CFront i) = (i = H mod q_cap q \<and> H < CT)"

definition sys_inv :: "'a spsc_sys \<Rightarrow> bool" where
  "sys_inv s \<longleftrightarrow> (\<exists>CH H CT T. rep (sys_q s) CH H CT T \<and> p_ok (sys_q s) CH T (sys_p s) \<and>
     c_ok (sys_q s) H CT (sys_c s) \<and> sys_pushed s = sys_popped s @ spsc_items (sys_q s))"

lemma p_ok_mono: "p_ok q CH T pc \<Longrightarrow> q_slots q' = q_slots q \<Longrightarrow> q_cap q' = q_cap q \<Longrightarrow> CH \<le> CH' \<Longrightarrow>
    p_ok q' CH' T pc"
  by (cases pc) auto

lemma c_ok_mono: "c_ok q H CT pc \<Longrightarrow> q_cap q' = q_cap q \<Longrightarrow> CT \<le> CT' \<Longrightarrow> c_ok q' H CT' pc"
  by (cases pc) auto

lemma sys_invI:
  "rep (sys_q s) CH H CT T \<Longrightarrow> p_ok (sys_q s) CH T (sys_p s) \<Longrightarrow> c_ok (sys_q s) H CT (sys_c s) \<Longrightarrow>
    sys_pushed s = sys_popped s @ spsc_items (sys_q s) \<Longrightarrow> sys_inv s"
  by (auto simp: sys_inv_def)

lemma spsc_step_inv:
  assumes "spsc_step s t" and "sys_inv s"
  shows "sys_inv t"
proof -
  from assms(2) obtain CH H CT T where r: "rep (sys_q s) CH H CT T"
      and p: "p_ok (sys_q s) CH T (sys_p s)" and c: "c_ok (sys_q s) H CT (sys_c s)"
      and ps: "sys_pushed s = sys_popped s @ spsc_items (sys_q s)"
    by (auto simp: sys_inv_def)
  have o: "CH \<le> H" "CT \<le> T" "H \<le> CT" using r by (auto simp: rep_def)
  have capge: "q_cap (sys_q s) > 0" using r by (simp add: rep_def ring_ok_def)
  from assms(1) show ?thesis
  proof cases
    case (p_claim q' i)
    obtain CH' where r': "rep q' CH' H CT T" "q_slots q' = q_slots (sys_q s)" "q_cap q' = q_cap (sys_q s)"
        "Some i = (if T < H + q_cap (sys_q s) then Some (T mod q_cap (sys_q s)) else None)"
        "T < H + q_cap (sys_q s) \<Longrightarrow> T < CH' + q_cap (sys_q s)"
      using claim_rep [OF r p_claim(3)] by metis
    then show ?thesis
      using p_claim(1) c ps same_items [OF r'(2,3) r r'(1)] c_ok_mono [OF c r'(3) order_refl]
      by (intro sys_invI [of _ CH' H CT T]) (auto split: if_splits)
  next
    case (p_full q')
    obtain CH' where r': "rep q' CH' H CT T" "q_slots q' = q_slots (sys_q s)" "q_cap q' = q_cap (sys_q s)"
      using claim_rep [OF r p_full(3)] by metis
    then show ?thesis
      using p_full(1,2) c ps same_items [OF r'(2,3) r r'(1)] c_ok_mono [OF c r'(3) order_refl]
      by (intro sys_invI [of _ CH' H CT T]) auto
  next
    case (p_write i v)
    have i: "i = T mod q_cap (sys_q s)" "T < CH + q_cap (sys_q s)" using p p_write(2) by auto
    have len: "i < length (q_slots (sys_q s))" using r i(1) capge by (simp add: rep_def ring_ok_def)
    have "spsc_items (write_slot (sys_q s) i v) = spsc_items (sys_q s)"
      unfolding i(1) by (rule write_tail_items [OF r]) (use i o in simp)
    then show ?thesis
      using p_write(1) i len ps write_rep [OF r] c_ok_mono [OF c _ order_refl, of "write_slot (sys_q s) i v"]
      by (intro sys_invI [of _ CH H CT T]) (auto simp: write_slot_def)
  next
    case (p_publish i v)
    have i: "i = T mod q_cap (sys_q s)" "T < CH + q_cap (sys_q s)" "q_slots (sys_q s) ! i = v"
      using p p_publish(2) by auto
    then show ?thesis
      using p_publish(1) ps publish_rep [OF r i(2)] publish_items [OF r i(2)]
        c_ok_mono [OF c _ order_refl, of "spsc_publish (sys_q s)"]
      by (intro sys_invI [of _ CH H CT "Suc T"]) (auto simp: spsc_publish_def)
  next
    case (c_front q' i)
    obtain CT' where r': "rep q' CH H CT' T" "q_slots q' = q_slots (sys_q s)" "q_cap q' = q_cap (sys_q s)"
        "Some i = (if H < T then Some (H mod q_cap (sys_q s)) else None)" "H < T \<Longrightarrow> H < CT'"
      using front_rep [OF r c_front(3)] by metis
    then show ?thesis
      using c_front(1) ps same_items [OF r'(2,3) r r'(1)] p_ok_mono [OF p r'(2,3) order_refl]
      by (intro sys_invI [of _ CH H CT' T]) (auto split: if_splits)
  next
    case (c_empty q')
    obtain CT' where r': "rep q' CH H CT' T" "q_slots q' = q_slots (sys_q s)" "q_cap q' = q_cap (sys_q s)"
      using front_rep [OF r c_empty(3)] by metis
    then show ?thesis
      using c_empty(1,2) ps same_items [OF r'(2,3) r r'(1)] p_ok_mono [OF p r'(2,3) order_refl]
      by (intro sys_invI [of _ CH H CT' T]) auto
  next
    case (c_pop i)
    have i: "i = H mod q_cap (sys_q s)" "H < CT" using c c_pop(2) by auto
    then show ?thesis
      using c_pop(1) ps pop_rep [OF r i(2)] pop_items [OF r i(2)]
        p_ok_mono [OF p _ _ order_refl, of "spsc_pop (sys_q s)"]
      by (intro sys_invI [of _ CH "Suc H" CT T]) (auto simp: spsc_pop_def)
  qed
qed

lemma spsc_reachable_inv:
  assumes "spsc_reachable d capacity s" and "capacity \<le> 2 ^ 62"
  shows "sys_inv s"
  using assms(1)
proof induction
  case start
  have r: "rep (spsc_new d capacity) 0 0 0 0" by (rule spsc_new_rep [OF assms(2)])
  then show ?case
    by (intro sys_invI [of _ 0 0 0 0]) (simp_all add: spsc_init_def items_rep [OF r])
next
  case (step s t)
  then show ?case by (blast intro: spsc_step_inv)
qed

lemma spsc_no_race:
  assumes "sys_inv s" and "sys_p s = PClaimed i \<or> sys_p s = PWritten i v" and "sys_c s = CFront j"
  shows "i \<noteq> j"
proof -
  from assms obtain CH H CT T where r: "rep (sys_q s) CH H CT T"
      and i: "i = T mod q_cap (sys_q s)" "T < CH + q_cap (sys_q s)"
      and j: "j = H mod q_cap (sys_q s)" "H < CT"
    by (auto simp: sys_inv_def)
  have "H < T" "T < H + q_cap (sys_q s)" using r i j by (auto simp: rep_def)
  then show ?thesis using i(1) j(1) mod_window_neq [of H T "q_cap (sys_q s)"] by auto
qed

end
