(* ===== verification/Mold.thy ===== *)
theory Mold
  imports Itch Spsc_Queue
begin

unbundle bit_operations_syntax

text \<open>
  \<open>src/market/sources.hpp\<close>, class \<open>MoldUdp64Receiver\<close>: sequence tracking, gap recovery and in-order
  replay of MoldUDP64 packets, and the market-thread half of \<open>ItchRecorder\<close>
  (\<open>src/market/recorder.hpp\<close>), which every message applied in sequence is handed to.

  The handler of the template parameter \<open>H\<close> is a state \<open>'h\<close> with a function from callbacks to state
  updates. \<open>request_fn_\<close> is the flag \<open>mu_recovery\<close> (set or empty) and the list \<open>mu_sent\<close> of the requests
  made; the socket side (\<open>open\<close>, \<open>recv_batch\<close>) is represented by the packets it hands over.
  \<open>pending_\<close>, a \<open>std::map\<close>, is a list of pairs in ascending order of the key.

  The lemmas end with \<open>mold_run_ok\<close>: whatever loss, duplication and reordering the packets of a feed
  suffer, the handler sees messages of the feed once each and in sequence from the first packet on, and
  the messages it did not see are exactly those counted in \<open>gap_messages\<close>. When packets come in order, or
  recovery is on and no gap times out (\<open>lossless\<close>), everything received without a hole is applied.
\<close>

subsection \<open>The recorder\<close>

record raw_msg =
  rm_len :: u8
  rm_data :: "u8 list"

record itch_recorder =
  rc_q :: "raw_msg spsc"
  rc_dropped :: u64

definition itch_recorder_new :: itch_recorder where
  "itch_recorder_new = \<lparr>rc_q = spsc_new \<lparr>rm_len = 0, rm_data = []\<rparr> (2 ^ 20), rc_dropped = 0\<rparr>"

definition recorder_push :: "itch_recorder \<Rightarrow> u8 list \<Rightarrow> itch_recorder" where
  "recorder_push r msg =
     (if length msg > 63 then r\<lparr>rc_dropped := rc_dropped r + 1\<rparr>
      else case spsc_try_claim (rc_q r) of
        (q, None) \<Rightarrow> r\<lparr>rc_q := q, rc_dropped := rc_dropped r + 1\<rparr>
      | (q, Some i) \<Rightarrow>
          r\<lparr>rc_q := spsc_publish (write_slot q i \<lparr>rm_len = of_nat (length msg), rm_data = msg\<rparr>)\<rparr>)"

fun record_bytes :: "nat \<Rightarrow> itch_recorder \<Rightarrow> itch_recorder \<times> u8 list" where
  \<comment> \<open>the \<open>drain\<close> loop of \<open>ItchRecorder::run\<close>: what \<open>gzwrite\<close> is given, \<open>n\<close> elements at most\<close>
  "record_bytes 0 r = (r, [])"
| "record_bytes (Suc n) r =
     (case spsc_front (rc_q r) of
        (q, None) \<Rightarrow> (r\<lparr>rc_q := q\<rparr>, [])
      | (q, Some i) \<Rightarrow>
          let m = q_slots q ! i;
              (r', out) = record_bytes n (r\<lparr>rc_q := spsc_pop q\<rparr>)
          in (r', [0, rm_len m] @ take (unat (rm_len m)) (rm_data m) @ out))"

subsection \<open>State\<close>

record mold_stats =
  ms_packets :: u64
  ms_messages :: u64
  ms_heartbeats :: u64
  ms_gaps :: u64
  ms_gap_messages :: u64
  ms_dups :: u64
  ms_bad :: u64
  ms_requests :: u64
  ms_recovered :: u64
  ms_gap_timeouts :: u64
  ms_buffered_peak :: u64

definition mold_stats0 :: mold_stats where
  "mold_stats0 = \<lparr>ms_packets = 0, ms_messages = 0, ms_heartbeats = 0, ms_gaps = 0, ms_gap_messages = 0, ms_dups = 0,
     ms_bad = 0, ms_requests = 0, ms_recovered = 0, ms_gap_timeouts = 0, ms_buffered_peak = 0\<rparr>"

record mold_options =
  mo_gap_timeout_ms :: int
  mo_retry_ms :: int
  mo_max_request :: u16
  mo_max_buffered :: nat

definition mold_options0 :: mold_options where
  "mold_options0 = \<lparr>mo_gap_timeout_ms = 250, mo_retry_ms = 50, mo_max_request = 1000, mo_max_buffered = 20000\<rparr>"

record mold =
  mu_opts :: mold_options
  mu_recovery :: bool
  mu_sent :: "(u8 list \<times> u64 \<times> u16) list"
  mu_expected :: u64
  mu_session :: "u8 list"
  mu_ended :: bool
  mu_recovering :: bool
  mu_gap_since :: u64
  mu_gap_end :: u64
  mu_last_request :: u64
  mu_pending :: "(u64 \<times> u8 list) list"
  mu_recorder :: "itch_recorder option"
  mu_stats :: mold_stats

definition mold_new :: mold where
  "mold_new = \<lparr>mu_opts = mold_options0, mu_recovery = False, mu_sent = [], mu_expected = 0,
     mu_session = replicate 10 0, mu_ended = False, mu_recovering = False, mu_gap_since = 0, mu_gap_end = 0,
     mu_last_request = 0, mu_pending = [], mu_recorder = None, mu_stats = mold_stats0\<rparr>"

definition enable_recovery :: "mold \<Rightarrow> int \<Rightarrow> int \<Rightarrow> u16 \<Rightarrow> mold" where
  "enable_recovery m gap_timeout_ms retry_ms max_request =
     m\<lparr>mu_recovery := True, mu_opts := (mu_opts m)\<lparr>mo_gap_timeout_ms := gap_timeout_ms,
       mo_retry_ms := retry_ms, mo_max_request := max_request\<rparr>\<rparr>"

definition set_recorder :: "mold \<Rightarrow> itch_recorder option \<Rightarrow> mold" where
  "set_recorder m r = m\<lparr>mu_recorder := r\<rparr>"

definition upd_stats :: "(mold_stats \<Rightarrow> mold_stats) \<Rightarrow> mold \<Rightarrow> mold" where
  "upd_stats f m = m\<lparr>mu_stats := f (mu_stats m)\<rparr>"

subsection \<open>Packets\<close>

definition count_bad :: "mold \<Rightarrow> mold" where
  "count_bad = upd_stats (\<lambda>s. s\<lparr>ms_bad := ms_bad s + 1\<rparr>)"

definition apply_message :: "('h \<Rightarrow> itch_call \<Rightarrow> 'h) \<Rightarrow> u8 list \<Rightarrow> mold \<times> 'h \<Rightarrow> (mold \<times> 'h) option" where
  \<comment> \<open>one message that is not skipped\<close>
  "apply_message cb msg = (\<lambda>(m, h). do {
     let m = upd_stats (\<lambda>s. s\<lparr>ms_messages := ms_messages s + 1\<rparr>) m;
     r \<leftarrow> decode msg;
     let (m, h) = (case r of Reject \<Rightarrow> (count_bad m, h) | Unused \<Rightarrow> (m, h) | Call c \<Rightarrow> (m, cb h c));
     Some (m\<lparr>mu_recorder := map_option (\<lambda>rc. recorder_push rc msg) (mu_recorder m)\<rparr>, h) })"

fun process_loop ::
    "('h \<Rightarrow> itch_call \<Rightarrow> 'h) \<Rightarrow> u8 list \<Rightarrow> u64 \<Rightarrow> nat \<Rightarrow> nat \<Rightarrow> nat \<Rightarrow> mold \<times> 'h \<Rightarrow> (mold \<times> 'h) option" where
  \<comment> \<open>the loop of \<open>process\<close>: \<open>k\<close> messages to go, the next one is the \<open>i\<close>-th, at offset \<open>off\<close>\<close>
  "process_loop cb p skip 0 i off st = Some st"
| "process_loop cb p skip (Suc k) i off st =
     (if off + 2 > length p then Some (apfst count_bad st)
      else do {
        mlen \<leftarrow> be16 p off;
        let off = off + 2;
        if off + unat mlen > length p then Some (apfst count_bad st)
        else do {
          st \<leftarrow> (if unat skip \<le> i then apply_message cb (take (unat mlen) (drop off p)) st else Some st);
          process_loop cb p skip k (Suc i) (off + unat mlen) st } })"

definition process :: "('h \<Rightarrow> itch_call \<Rightarrow> 'h) \<Rightarrow> u8 list \<Rightarrow> u64 \<Rightarrow> mold \<times> 'h \<Rightarrow> (mold \<times> 'h) option" where
  "process cb p skip st = do { cnt \<leftarrow> be16 p 18; process_loop cb p skip (unat cnt) 0 20 st }"

subsection \<open>Gap recovery\<close>

definition request_gap :: "u64 \<Rightarrow> mold \<Rightarrow> mold" where
  "request_gap now m =
     (if \<not> mu_recovery m then m
      else let en = (case mu_pending m of [] \<Rightarrow> mu_gap_end m | x # _ \<Rightarrow> fst x) in
        if en \<le> mu_expected m then m
        else let want = en - mu_expected m;
                 count = (if want < ucast (mo_max_request (mu_opts m)) then ucast want else mo_max_request (mu_opts m))
             in upd_stats (\<lambda>s. s\<lparr>ms_requests := ms_requests s + 1\<rparr>)
                  (m\<lparr>mu_sent := mu_sent m @ [(mu_session m, mu_expected m, count)], mu_last_request := now\<rparr>))"

fun drain_loop :: "('h \<Rightarrow> itch_call \<Rightarrow> 'h) \<Rightarrow> (u64 \<times> u8 list) list \<Rightarrow> mold \<times> 'h \<Rightarrow> (mold \<times> 'h) option" where
  \<comment> \<open>\<open>while (!pending_.empty())\<close>; the list is what is left of \<open>pending_\<close>\<close>
  "drain_loop cb [] st = Some (apfst (mu_pending_update (\<lambda>_. [])) st)"
| "drain_loop cb ((s, pkt) # ps) st =
     (if s > mu_expected (fst st) then Some (apfst (mu_pending_update (\<lambda>_. (s, pkt) # ps)) st)
      else do {
        cnt \<leftarrow> be16 pkt 18;
        st \<leftarrow> (if s + ucast cnt > mu_expected (fst st)
               then map_option (apfst (mu_expected_update (\<lambda>_. s + ucast cnt)))
                 (process cb pkt (mu_expected (fst st) - s) st)
               else Some st);
        drain_loop cb ps st })"

definition drain :: "('h \<Rightarrow> itch_call \<Rightarrow> 'h) \<Rightarrow> u64 \<Rightarrow> mold \<times> 'h \<Rightarrow> (mold \<times> 'h) option" where
  "drain cb now st = do {
     (m, h) \<leftarrow> drain_loop cb (mu_pending (fst st)) st;
     Some (if mu_pending m = []
           then ((if mu_recovering m then upd_stats (\<lambda>s. s\<lparr>ms_recovered := ms_recovered s + 1\<rparr>) m else m)
                   \<lparr>mu_recovering := False\<rparr>, h)
           else if mu_recovering m then (request_gap now m, h) else (m, h)) }"

definition open_gap :: "u64 \<Rightarrow> u64 \<Rightarrow> mold \<Rightarrow> mold" where
  \<comment> \<open>a gap before \<open>seq\<close> is noticed\<close>
  "open_gap now seq m =
     request_gap now (upd_stats (\<lambda>s. s\<lparr>ms_gaps := ms_gaps s + 1\<rparr>)
       (m\<lparr>mu_recovering := True, mu_gap_since := now, mu_gap_end := seq, mu_last_request := 0\<rparr>))"

fun pending_emplace :: "u64 \<Rightarrow> u8 list \<Rightarrow> (u64 \<times> u8 list) list \<Rightarrow> (u64 \<times> u8 list) list" where
  \<comment> \<open>\<open>std::map::emplace\<close>: an existing key keeps its value\<close>
  "pending_emplace s p [] = [(s, p)]"
| "pending_emplace s p ((s', p') # ps) =
     (if s < s' then (s, p) # (s', p') # ps else if s = s' then (s', p') # ps
      else (s', p') # pending_emplace s p ps)"

definition new_session :: "u8 list \<Rightarrow> mold \<Rightarrow> mold" where
  \<comment> \<open>the \<open>memcmp(session_, p, 10)\<close> branch: resync on this packet\<close>
  "new_session p m =
     (if mu_session m \<noteq> take 10 p
      then m\<lparr>mu_session := take 10 p, mu_expected := 0, mu_pending := [], mu_recovering := False\<rparr> else m)"

definition on_heartbeat :: "u64 \<Rightarrow> u64 \<Rightarrow> mold \<Rightarrow> mold" where
  "on_heartbeat seq now m =
     (let m = upd_stats (\<lambda>s. s\<lparr>ms_heartbeats := ms_heartbeats s + 1\<rparr>) m in
      if mu_expected m = 0 then m\<lparr>mu_expected := seq\<rparr>
      else if seq > mu_expected m \<and> mu_recovery m \<and> \<not> mu_recovering m then open_gap now seq m
      else m)"

definition hold_packet :: "u64 \<Rightarrow> u8 list \<Rightarrow> u64 \<Rightarrow> mold \<Rightarrow> mold" where
  \<comment> \<open>a packet ahead of the expected sequence while recovery is on\<close>
  "hold_packet seq p now m =
     (let m = (if length (mu_pending m) < mo_max_buffered (mu_opts m)
               then m\<lparr>mu_pending := pending_emplace seq p (mu_pending m)\<rparr> else m);
          m = (if length (mu_pending m) > unat (ms_buffered_peak (mu_stats m))
               then upd_stats (\<lambda>s. s\<lparr>ms_buffered_peak := of_nat (length (mu_pending m))\<rparr>) m else m)
      in if \<not> mu_recovering m then open_gap now seq m else m)"

definition on_data ::
    "('h \<Rightarrow> itch_call \<Rightarrow> 'h) \<Rightarrow> u64 \<Rightarrow> u16 \<Rightarrow> u8 list \<Rightarrow> u64 \<Rightarrow> mold \<times> 'h \<Rightarrow> (mold \<times> 'h) option" where
  \<comment> \<open>a packet with messages\<close>
  "on_data cb seq cnt p now = (\<lambda>(m, h).
     let m = (if mu_expected m = 0 then m\<lparr>mu_expected := seq\<rparr> else m) in
     if seq + ucast cnt \<le> mu_expected m then Some (upd_stats (\<lambda>s. s\<lparr>ms_dups := ms_dups s + 1\<rparr>) m, h)
     else if seq > mu_expected m then
       (if \<not> mu_recovery m then
          map_option (apfst (mu_expected_update (\<lambda>_. seq + ucast cnt)))
            (process cb p 0 (upd_stats (\<lambda>s. s\<lparr>ms_gaps := ms_gaps s + 1,
                ms_gap_messages := ms_gap_messages s + (seq - mu_expected m)\<rparr>) m, h))
        else Some (hold_packet seq p now m, h))
     else do {
       st \<leftarrow> process cb p (mu_expected m - seq) (m, h);
       drain cb now (apfst (mu_expected_update (\<lambda>_. seq + ucast cnt)) st) })"

definition on_packet ::
    "('h \<Rightarrow> itch_call \<Rightarrow> 'h) \<Rightarrow> u64 \<Rightarrow> u8 list \<Rightarrow> u64 \<Rightarrow> mold \<times> 'h \<Rightarrow> (mold \<times> 'h) option" where
  \<comment> \<open>\<open>clk\<close> is what \<open>mono_ns()\<close> returns if it is called\<close>
  "on_packet cb clk p now = (\<lambda>(m, h).
     if length p < 20 then Some (count_bad m, h)
     else do {
       let now = (if now = 0 then clk else now);
       let m = new_session p (upd_stats (\<lambda>s. s\<lparr>ms_packets := ms_packets s + 1\<rparr>) m);
       seq \<leftarrow> be64 p 10;
       cnt \<leftarrow> be16 p 18;
       if cnt = 0xFFFF then Some (m\<lparr>mu_ended := True\<rparr>, h)
       else if cnt = 0 then Some (on_heartbeat seq now m, h)
       else on_data cb seq cnt p now (m, h) })"

definition tick :: "('h \<Rightarrow> itch_call \<Rightarrow> 'h) \<Rightarrow> u64 \<Rightarrow> mold \<times> 'h \<Rightarrow> (mold \<times> 'h) option" where
  "tick cb now = (\<lambda>(m, h).
     if \<not> mu_recovering m then Some (m, h)
     else if now - mu_gap_since m > u64_of_int (mo_gap_timeout_ms (mu_opts m)) * 1000000 then
       let m = upd_stats (\<lambda>s. s\<lparr>ms_gap_timeouts := ms_gap_timeouts s + 1\<rparr>) m in
       (case mu_pending m of
          [] \<Rightarrow> Some (m\<lparr>mu_recovering := False\<rparr>, h)
        | (s0, _) # _ \<Rightarrow>
            drain cb now ((upd_stats (\<lambda>s. s\<lparr>ms_gap_messages := ms_gap_messages s + (s0 - mu_expected m)\<rparr>) m)
              \<lparr>mu_expected := s0, mu_gap_since := now\<rparr>, h))
     else if now - mu_last_request m > u64_of_int (mo_retry_ms (mu_opts m)) * 1000000 then Some (request_gap now m, h)
     else Some (m, h))"

fun poll_packets ::
    "('h \<Rightarrow> itch_call \<Rightarrow> 'h) \<Rightarrow> u64 \<Rightarrow> u64 \<Rightarrow> u8 list list \<Rightarrow> mold \<times> 'h \<Rightarrow> (mold \<times> 'h) option" where
  "poll_packets cb clk now [] st = Some st"
| "poll_packets cb clk now (p # ps) st = do { st \<leftarrow> on_packet cb clk p now st; poll_packets cb clk now ps st }"

definition mold_poll ::
    "('h \<Rightarrow> itch_call \<Rightarrow> 'h) \<Rightarrow> u64 \<Rightarrow> u8 list list \<Rightarrow> u64 \<Rightarrow> mold \<times> 'h \<Rightarrow> (mold \<times> 'h) option" where
  \<comment> \<open>\<open>poll\<close> on the batch \<open>recv_batch\<close> received, at time \<open>now\<close>; \<open>clk\<close> as for \<open>on_packet\<close>\<close>
  "mold_poll cb clk batch now st = do { st \<leftarrow> poll_packets cb clk now batch st; tick cb now st }"

subsection \<open>Feeds and their packets\<close>

definition mold_frame :: "u8 list \<Rightarrow> u8 list" where
  "mold_frame msg = be_bytes 2 (of_nat (length msg) :: u16) @ msg"

definition mold_packet :: "u8 list \<Rightarrow> u64 \<Rightarrow> u16 \<Rightarrow> u8 list list \<Rightarrow> u8 list" where
  "mold_packet sess seq cnt msgs = sess @ be_bytes 8 seq @ be_bytes 2 cnt @ concat (map mold_frame msgs)"

definition data_packet :: "(nat \<Rightarrow> u8 list) \<Rightarrow> u8 list \<Rightarrow> nat \<Rightarrow> nat \<Rightarrow> u8 list" where
  \<comment> \<open>messages \<open>s\<close> to \<open>s + n - 1\<close> of the feed \<open>F\<close>\<close>
  "data_packet F sess s n = mold_packet sess (of_nat s) (of_nat n) (map F [s..<s + n])"

definition in_range :: "nat \<Rightarrow> nat \<Rightarrow> bool" where
  "in_range s n \<longleftrightarrow> 1 \<le> s \<and> 0 < n \<and> n < 0xFFFF \<and> s + n < 2 ^ 64"

definition feed_packet :: "(nat \<Rightarrow> u8 list) \<Rightarrow> u8 list \<Rightarrow> u8 list \<Rightarrow> bool" where
  \<comment> \<open>a packet the server of the feed sends in session \<open>sess\<close>: data, heartbeat or end of session\<close>
  "feed_packet F sess p \<longleftrightarrow>
     (\<exists>s n. in_range s n \<and> p = data_packet F sess s n) \<or>
     (\<exists>s. 1 \<le> s \<and> s < 2 ^ 64 \<and> p = mold_packet sess (of_nat s) 0 []) \<or>
     (\<exists>s. p = mold_packet sess s 0xFFFF [])"

definition feed_ok :: "(nat \<Rightarrow> u8 list) \<Rightarrow> u8 list \<Rightarrow> bool" where
  "feed_ok F sess \<longleftrightarrow> length sess = 10 \<and> (\<forall>i. length (F i) < 2 ^ 16)"

definition handle1 :: "('h \<Rightarrow> itch_call \<Rightarrow> 'h) \<Rightarrow> 'h \<Rightarrow> u8 list \<Rightarrow> 'h" where
  \<comment> \<open>what one message does to the handler\<close>
  "handle1 cb h msg = (case decode msg of Some (Call c) \<Rightarrow> cb h c | _ \<Rightarrow> h)"

definition handled :: "('h \<Rightarrow> itch_call \<Rightarrow> 'h) \<Rightarrow> u8 list list \<Rightarrow> 'h \<Rightarrow> 'h" where
  "handled cb msgs h = foldl (handle1 cb) h msgs"

lemma length_mold_frame [simp]: "length (mold_frame x) = 2 + length x"
  by (simp add: mold_frame_def)

lemma handled_simps [simp]:
  "handled cb [] h = h" "handled cb (x # xs) h = handled cb xs (handle1 cb h x)"
  "handled cb (xs @ ys) h = handled cb ys (handled cb xs h)"
  by (simp_all add: handled_def)

definition same_seq :: "mold \<Rightarrow> mold \<Rightarrow> bool" where
  \<comment> \<open>equal up to counters and the recorder\<close>
  "same_seq m m' \<longleftrightarrow> mu_expected m' = mu_expected m \<and> mu_session m' = mu_session m \<and> mu_pending m' = mu_pending m \<and>
     mu_recovering m' = mu_recovering m \<and> mu_recovery m' = mu_recovery m \<and> mu_opts m' = mu_opts m \<and>
     ms_gap_messages (mu_stats m') = ms_gap_messages (mu_stats m) \<and>
     ms_gap_timeouts (mu_stats m') = ms_gap_timeouts (mu_stats m)"

lemma same_seq_refl [simp]: "same_seq m m" by (simp add: same_seq_def)

lemma same_seq_trans: "same_seq a b \<Longrightarrow> same_seq b c \<Longrightarrow> same_seq a c" by (simp add: same_seq_def)

lemma apply_message_ok:
  "\<exists>m'. apply_message cb msg (m, h) = Some (m', handle1 cb h msg) \<and> same_seq m m' \<and>
     ms_messages (mu_stats m') = ms_messages (mu_stats m) + 1"
proof -
  obtain r where "decode msg = Some r" using decode_total [of msg] by blast
  then show ?thesis
    by (cases r) (simp_all add: apply_message_def handle1_def same_seq_def upd_stats_def count_bad_def)
qed

lemma be16_at: "be16 (pre @ be_bytes 2 v @ post) (length pre) = Some v"
  by (simp add: be16_def rd_bytes_def be_word_full)

lemma process_loop_ok:
  assumes "\<forall>x \<in> set msgs. length x < 2 ^ 16"
  shows "\<exists>m'. process_loop cb (pre @ concat (map mold_frame msgs)) skip (length msgs) i (length pre) (m, h) =
      Some (m', handled cb (drop (unat skip - i) msgs) h) \<and> same_seq m m' \<and>
      ms_messages (mu_stats m') = ms_messages (mu_stats m) + of_nat (length (drop (unat skip - i) msgs))"
  using assms
proof (induction msgs arbitrary: pre i m h)
  case (Cons x xs)
  let ?p = "pre @ concat (map mold_frame (x # xs))"
  let ?pre' = "pre @ mold_frame x"
  have len: "unat (of_nat (length x) :: u16) = length x" using Cons.prems by (simp add: unat_of_nat take_bit_eq_mod)
  have p: "?p = pre @ be_bytes 2 (of_nat (length x) :: u16) @ x @ concat (map mold_frame xs)" by (simp add: mold_frame_def)
  have be: "be16 ?p (length pre) = Some (of_nat (length x))" unfolding p by (rule be16_at)
  have msg: "take (length x) (drop (length pre + 2) ?p) = x" unfolding p by simp
  have fits: "length pre + 2 + length x \<le> length ?p" unfolding p by simp
  have off: "length pre + 2 + length x = length ?pre'" by simp
  have pp: "?p = ?pre' @ concat (map mold_frame xs)" by simp
  have step: "process_loop cb ?p skip (length (x # xs)) i (length pre) (m, h) =
      (if unat skip \<le> i then apply_message cb x (m, h) else Some (m, h)) \<bind>
        process_loop cb ?p skip (length xs) (Suc i) (length ?pre')"
    using fits be len msg off by (simp add: Let_def)
  show ?case
  proof (cases "unat skip \<le> i")
    case True
    obtain m1 where m1: "apply_message cb x (m, h) = Some (m1, handle1 cb h x)" "same_seq m m1"
      "ms_messages (mu_stats m1) = ms_messages (mu_stats m) + 1" using apply_message_ok [of cb x m h] by blast
    have d: "unat skip - i = 0" "unat skip - Suc i = 0" using True by auto
    obtain m2 where m2: "process_loop cb (?pre' @ concat (map mold_frame xs)) skip (length xs) (Suc i) (length ?pre') (m1, handle1 cb h x) =
        Some (m2, handled cb xs (handle1 cb h x))" "same_seq m1 m2"
        "ms_messages (mu_stats m2) = ms_messages (mu_stats m1) + of_nat (length xs)"
      using Cons.IH [of ?pre' "Suc i" m1 "handle1 cb h x"] Cons.prems d by auto
    show ?thesis unfolding step unfolding pp using True m1 m2 d same_seq_trans [OF m1(2) m2(2)]
      by (intro exI [of _ m2]) (simp add: add.assoc)
  next
    case False
    then have d: "unat skip - i = Suc (unat skip - Suc i)" by simp
    show ?thesis unfolding step unfolding pp d using False Cons.IH [of ?pre' "Suc i" m h] Cons.prems by simp
  qed
qed simp

lemma packet_fields:
  assumes "length sess = 10"
  shows "be64 (mold_packet sess s c msgs) 10 = Some s" "be16 (mold_packet sess s c msgs) 18 = Some c"
    "take 10 (mold_packet sess s c msgs) = sess" "20 \<le> length (mold_packet sess s c msgs)"
  using assms by (simp_all add: mold_packet_def be64_def be16_def rd_bytes_def be_word_full)

lemma of_nat_u16: "n < 2 ^ 16 \<Longrightarrow> unat (of_nat n :: u16) = n"
  by (simp add: unat_of_nat take_bit_eq_mod)

lemma of_nat_u64: "n < 2 ^ 64 \<Longrightarrow> unat (of_nat n :: u64) = n"
  by (simp add: unat_of_nat take_bit_eq_mod)

lemma process_ok:
  assumes F: "feed_ok F sess" and r: "in_range s n" and k: "k \<le> n"
  shows "\<exists>m'. process cb (data_packet F sess s n) (of_nat k) (m, h) = Some (m', handled cb (map F [s + k..<s + n]) h) \<and>
    same_seq m m' \<and> ms_messages (mu_stats m') = ms_messages (mu_stats m) + of_nat (n - k)"
proof -
  let ?pre = "sess @ be_bytes 8 (of_nat s :: u64) @ be_bytes 2 (of_nat n :: u16)"
  have n: "n < 2 ^ 16" "k < 2 ^ 64" using r k by (auto simp: in_range_def)
  have len: "length ?pre = 20" using F by (simp add: feed_ok_def)
  have p: "data_packet F sess s n = ?pre @ concat (map mold_frame (map F [s..<s + n]))"
    by (simp add: data_packet_def mold_packet_def)
  have c: "be16 (data_packet F sess s n) 18 = Some (of_nat n)"
    using F by (simp add: data_packet_def packet_fields feed_ok_def)
  have "\<forall>x \<in> set (map F [s..<s + n]). length x < 2 ^ 16" using F by (auto simp: feed_ok_def)
  from process_loop_ok [OF this, of cb ?pre "of_nat k" 0 m h]
  show ?thesis unfolding process_def using n len k c
    by (simp add: of_nat_u16 of_nat_u64 drop_map drop_upt p)
qed

subsection \<open>In-order delivery\<close>

definition seq_ok ::
    "(nat \<Rightarrow> u8 list) \<Rightarrow> u8 list \<Rightarrow> ('h \<Rightarrow> itch_call \<Rightarrow> 'h) \<Rightarrow> 'h \<Rightarrow> nat \<Rightarrow> nat list \<Rightarrow> nat \<Rightarrow> mold \<times> 'h \<Rightarrow> bool" where
  \<comment> \<open>since sequence number \<open>s0\<close> the messages \<open>is\<close> were applied; \<open>e\<close> is expected next\<close>
  "seq_ok F sess cb h0 s0 is e = (\<lambda>(m, h).
     mu_expected m = of_nat e \<and> 1 \<le> e \<and> e < 2 ^ 64 \<and> s0 \<le> e \<and> mu_session m = sess \<and>
     h = handled cb (map F is) h0 \<and> sorted_wrt (<) is \<and> set is \<subseteq> {s0..<e} \<and>
     ms_messages (mu_stats m) = of_nat (length is) \<and>
     (\<exists>lost. ms_gap_messages (mu_stats m) = of_nat lost \<and> length is + lost = e - s0))"

definition held_ok :: "(nat \<Rightarrow> u8 list) \<Rightarrow> u8 list \<Rightarrow> (u64 \<times> u8 list) list \<Rightarrow> bool" where
  "held_ok F sess ps \<longleftrightarrow> sorted_wrt (<) (map fst ps) \<and>
     (\<forall>(s, p) \<in> set ps. \<exists>s' n. in_range s' n \<and> s = of_nat s' \<and> p = data_packet F sess s' n)"

definition pending_ok :: "(nat \<Rightarrow> u8 list) \<Rightarrow> u8 list \<Rightarrow> mold \<Rightarrow> bool" where
  "pending_ok F sess m \<longleftrightarrow> held_ok F sess (mu_pending m) \<and> (\<forall>(s, p) \<in> set (mu_pending m). mu_expected m < s) \<and>
     (mu_recovery m \<or> mu_pending m = [])"

lemma held_ok_Nil [simp]: "held_ok F sess []"
  by (simp add: held_ok_def)

lemma held_ok_Cons:
  "held_ok F sess ((s, p) # ps) \<longleftrightarrow> (\<forall>x \<in> set ps. s < fst x) \<and> held_ok F sess ps \<and>
     (\<exists>s' n. in_range s' n \<and> s = of_nat s' \<and> p = data_packet F sess s' n)"
  by (auto simp: held_ok_def)

lemma of_nat_less_u64: "a < 2 ^ 64 \<Longrightarrow> b < 2 ^ 64 \<Longrightarrow> (of_nat a :: u64) < of_nat b \<longleftrightarrow> a < b"
  by (simp add: word_less_nat_alt of_nat_u64)

lemma of_nat_le_u64: "a < 2 ^ 64 \<Longrightarrow> b < 2 ^ 64 \<Longrightarrow> (of_nat a :: u64) \<le> of_nat b \<longleftrightarrow> a \<le> b"
  by (simp add: word_le_nat_alt of_nat_u64)

lemma ucast_of_nat_u16: "n < 2 ^ 16 \<Longrightarrow> (ucast (of_nat n :: u16) :: u64) = of_nat n"
  by (simp add: unsigned_of_nat take_bit_nat_eq_self)

lemma in_range_D:
  assumes "in_range s n"
  shows "s < 2 ^ 64" "s + n < 2 ^ 64" "n < 2 ^ 16" "1 \<le> s" "0 < n" "of_nat s + ucast (of_nat n :: u16) = (of_nat (s + n) :: u64)"
  using assms ucast_of_nat_u16 [of n] by (auto simp: in_range_def)

lemma upt_append_sorted:
  assumes "sorted_wrt (<) is" and "set is \<subseteq> {s0..<e}" and "e \<le> e'"
  shows "sorted_wrt (<) (is @ [e..<e'])" "s0 \<le> e \<Longrightarrow> set (is @ [e..<e']) \<subseteq> {s0..<e'}"
  using assms by (auto simp: sorted_wrt_append strict_sorted_iff [symmetric])

lemma seq_ok_extend:
  assumes "seq_ok F sess cb h0 s0 is e (m, h)" and "e \<le> e'" and "e' < 2 ^ 64"
    and "mu_expected m' = of_nat e'" "mu_session m' = mu_session m"
    and "ms_messages (mu_stats m') = ms_messages (mu_stats m) + of_nat (e' - e)"
    and "ms_gap_messages (mu_stats m') = ms_gap_messages (mu_stats m)"
  shows "seq_ok F sess cb h0 s0 (is @ [e..<e']) e' (m', handled cb (map F [e..<e']) h)"
  using assms upt_append_sorted [of "is" s0 e e'] by (auto simp: seq_ok_def simp flip: of_nat_add)

lemma seq_ok_skip:
  assumes "seq_ok F sess cb h0 s0 is e (m, h)" and "e \<le> e'" and "e' < 2 ^ 64"
    and "mu_expected m' = of_nat e'" "mu_session m' = mu_session m"
    and "ms_messages (mu_stats m') = ms_messages (mu_stats m)"
    and "ms_gap_messages (mu_stats m') = ms_gap_messages (mu_stats m) + (of_nat e' - mu_expected m)"
  shows "seq_ok F sess cb h0 s0 is e' (m', h)"
proof -
  obtain lost where l: "ms_gap_messages (mu_stats m) = of_nat lost" "length is + lost = e - s0" "s0 \<le> e" "mu_expected m = of_nat e"
    using assms(1) by (auto simp: seq_ok_def)
  have "ms_gap_messages (mu_stats m') = of_nat (lost + (e' - e)) \<and> length is + (lost + (e' - e)) = e' - s0"
    using l assms(2,7) by (auto simp: of_nat_diff)
  then have "\<exists>lost. ms_gap_messages (mu_stats m') = of_nat lost \<and> length is + lost = e' - s0" by blast
  moreover have "set is \<subseteq> {s0..<e'}" using assms(1,2) by (auto simp: seq_ok_def)
  ultimately show ?thesis using assms by (auto simp: seq_ok_def)
qed

text \<open>Processing a packet that starts at or before the expected message and ends after it.\<close>

lemma process_advances:
  assumes F: "feed_ok F sess" and r: "in_range s n" and ok: "seq_ok F sess cb h0 s0 is e (m, h)" and e: "s \<le> e" "e < s + n"
  shows "\<exists>m' h'. process cb (data_packet F sess s n) (mu_expected m - of_nat s) (m, h) = Some (m', h') \<and>
    seq_ok F sess cb h0 s0 (is @ [e..<s + n]) (s + n) (m'\<lparr>mu_expected := of_nat (s + n)\<rparr>, h') \<and> same_seq m m'"
proof -
  have d: "mu_expected m - of_nat s = (of_nat (e - s) :: u64)" using ok e by (simp add: seq_ok_def)
  have le: "e - s \<le> n" using e by linarith
  obtain m' where m': "process cb (data_packet F sess s n) (of_nat (e - s)) (m, h) = Some (m', handled cb (map F [s + (e - s)..<s + n]) h)"
      "same_seq m m'" "ms_messages (mu_stats m') = ms_messages (mu_stats m) + of_nat (n - (e - s))"
    using process_ok [OF F r, of "e - s" cb m h] le by blast
  have eq: "s + (e - s) = e" "n - (e - s) = s + n - e" using e by auto
  have "seq_ok F sess cb h0 s0 (is @ [e..<s + n]) (s + n) (m'\<lparr>mu_expected := of_nat (s + n)\<rparr>, handled cb (map F [e..<s + n]) h)"
    by (rule seq_ok_extend [OF ok])
      (use e m' [unfolded eq] in_range_D [OF r] in \<open>simp_all add: same_seq_def\<close>)
  then show ?thesis unfolding d using m' [unfolded eq] by blast
qed


definition passed :: "(nat \<Rightarrow> u8 list) \<Rightarrow> u8 list \<Rightarrow> u64 \<Rightarrow> u64 \<times> u8 list \<Rightarrow> bool" where
  \<comment> \<open>a held packet whose last message is before the expected one\<close>
  "passed F sess w x \<longleftrightarrow> (\<exists>s n. in_range s n \<and> x = (of_nat s, data_packet F sess s n) \<and> s + n \<le> unat w)"

definition drained :: "(nat \<Rightarrow> u8 list) \<Rightarrow> u8 list \<Rightarrow> (u64 \<times> u8 list) list \<Rightarrow> mold \<Rightarrow> mold \<Rightarrow> bool" where
  \<comment> \<open>of the held packets \<open>ps\<close> each is still held or passed; settings and losses as before\<close>
  "drained F sess ps m m' \<longleftrightarrow> mu_opts m' = mu_opts m \<and> mu_recovery m' = mu_recovery m \<and>
     ms_gap_timeouts (mu_stats m') = ms_gap_timeouts (mu_stats m) \<and>
     ms_gap_messages (mu_stats m') = ms_gap_messages (mu_stats m) \<and>
     length (mu_pending m') \<le> length ps \<and> set (mu_pending m') \<subseteq> set ps \<and>
     (\<forall>x \<in> set ps. x \<in> set (mu_pending m') \<or> passed F sess (mu_expected m') x)"

lemma passedI:
  assumes "seq_ok F sess cb h0 s0 is e (m, h)" and "in_range s n" and "s + n \<le> e"
  shows "passed F sess (mu_expected m) (of_nat s, data_packet F sess s n)"
proof -
  have "unat (mu_expected m) = e" using assms(1) by (auto simp: seq_ok_def of_nat_u64)
  then show ?thesis unfolding passed_def using assms(2,3) by blast
qed

lemma drained_Cons:
  assumes "drained F sess ps m1 m'" and "same_seq m m1 \<or> m1 = m" and "passed F sess (mu_expected m') x"
  shows "drained F sess (x # ps) m m'"
  using assms by (auto simp: drained_def same_seq_def)

lemma drained_expected [simp]: "drained F sess ps (m\<lparr>mu_expected := w\<rparr>) m' = drained F sess ps m m'"
  by (simp add: drained_def)

lemma drain_loop_ok:
  assumes F: "feed_ok F sess"
  shows "seq_ok F sess cb h0 s0 is e (m, h) \<Longrightarrow> held_ok F sess ps \<Longrightarrow> mu_recovery m \<or> ps = [] \<Longrightarrow>
    \<exists>m' h' is' e'. drain_loop cb ps (m, h) = Some (m', h') \<and> seq_ok F sess cb h0 s0 is' e' (m', h') \<and> pending_ok F sess m' \<and>
      mu_recovering m' = mu_recovering m \<and> drained F sess ps m m' \<and> e \<le> e'"
proof (induction ps arbitrary: m h "is" e)
  case Nil
  then show ?case by (auto simp: seq_ok_def pending_ok_def held_ok_def drained_def)
next
  case (Cons x ps)
  obtain sw p where x: "x = (sw, p)" by fastforce
  from Cons.prems(2) obtain s n where r: "in_range s n" "sw = of_nat s" "p = data_packet F sess s n"
    and rest: "held_ok F sess ps" "\<forall>y \<in> set ps. sw < fst y" unfolding x held_ok_Cons by blast
  note rd = in_range_D [OF r(1)]
  have E: "mu_expected m = of_nat e" "e < 2 ^ 64" "1 \<le> e" using Cons.prems(1) by (auto simp: seq_ok_def)
  have c: "be16 p 18 = Some (of_nat n)" using F r by (simp add: data_packet_def packet_fields feed_ok_def)
  show ?case
  proof (cases "e < s")
    case True
    then have g: "mu_expected m < sw" using E rd r(2) by (simp add: of_nat_less_u64)
    moreover from g rest(2) have "\<forall>(s', p') \<in> set ps. mu_expected m < s'" by (auto dest: less_trans)
    ultimately show ?thesis using Cons.prems unfolding x by (auto simp: seq_ok_def pending_ok_def drained_def)
  next
    case False
    then have ng: "\<not> sw > mu_expected m" using E rd r(2) by (simp add: of_nat_less_u64)
    show ?thesis
    proof (cases "e < s + n")
      case True
      then have g: "sw + ucast (of_nat n :: u16) > mu_expected m" using E rd r(2) by (simp add: of_nat_less_u64 del: of_nat_add)
      obtain m1 h1 where m1: "process cb p (mu_expected m - sw) (m, h) = Some (m1, h1)" "same_seq m m1"
          "seq_ok F sess cb h0 s0 (is @ [e..<s + n]) (s + n) (m1\<lparr>mu_expected := of_nat (s + n)\<rparr>, h1)"
        using process_advances [OF F r(1) Cons.prems(1)] False True r by auto
      obtain m' h' is' e' where "drain_loop cb ps (m1\<lparr>mu_expected := of_nat (s + n)\<rparr>, h1) = Some (m', h')"
          and IH: "seq_ok F sess cb h0 s0 is' e' (m', h')" "pending_ok F sess m'" "mu_recovering m' = mu_recovering m"
          "drained F sess ps m1 m'" "s + n \<le> e'"
        using Cons.IH [OF m1(3) rest(1)] Cons.prems(3) m1(2) by (auto simp: same_seq_def)
      moreover have "passed F sess (mu_expected m') (sw, p)"
        unfolding r(2,3) by (rule passedI [OF IH(1) r(1) IH(5)])
      moreover from this have "drained F sess (x # ps) m m'" unfolding x by (intro drained_Cons [OF IH(4)]) (use m1(2) in simp_all)
      ultimately show ?thesis using m1(1) ng g c rd(6) r(2) True unfolding x
        by (intro exI [of _ m'] exI [of _ h'] exI [of _ is'] exI [of _ e']) (simp add: same_seq_def)
    next
      case no: False
      then have "\<not> sw + ucast (of_nat n :: u16) > mu_expected m" using E rd r(2) by (simp add: of_nat_less_u64 del: of_nat_add)
      moreover obtain m' h' is' e' where IH: "drain_loop cb ps (m, h) = Some (m', h')" "seq_ok F sess cb h0 s0 is' e' (m', h')"
          "pending_ok F sess m'" "mu_recovering m' = mu_recovering m" "drained F sess ps m m'" "e \<le> e'"
        using Cons.IH [OF Cons.prems(1) rest(1)] Cons.prems(3) by auto
      moreover have "passed F sess (mu_expected m') (sw, p)"
        unfolding r(2,3) by (rule passedI [OF IH(2) r(1)]) (use IH(6) no in simp)
      moreover from this have "drained F sess (x # ps) m m'" unfolding x by (intro drained_Cons [OF IH(5)]) simp_all
      ultimately show ?thesis using ng c unfolding x by auto
    qed
  qed
qed

definition mold_at ::
    "(nat \<Rightarrow> u8 list) \<Rightarrow> u8 list \<Rightarrow> ('h \<Rightarrow> itch_call \<Rightarrow> 'h) \<Rightarrow> 'h \<Rightarrow> nat option \<Rightarrow> mold \<times> 'h \<Rightarrow> bool" where
  \<comment> \<open>nothing received yet, or everything since the first sequence number accounted for\<close>
  "mold_at F sess cb h0 start st =
     (case start of
        None \<Rightarrow> mu_expected (fst st) = 0 \<and> mu_pending (fst st) = [] \<and> \<not> mu_recovering (fst st) \<and> snd st = h0 \<and>
          ms_messages (mu_stats (fst st)) = 0 \<and> ms_gap_messages (mu_stats (fst st)) = 0
      | Some s0 \<Rightarrow> \<exists>is e. seq_ok F sess cb h0 s0 is e st \<and> pending_ok F sess (fst st))"

definition mold_inv :: "(nat \<Rightarrow> u8 list) \<Rightarrow> u8 list \<Rightarrow> ('h \<Rightarrow> itch_call \<Rightarrow> 'h) \<Rightarrow> 'h \<Rightarrow> mold \<times> 'h \<Rightarrow> bool" where
  "mold_inv F sess cb h0 st \<longleftrightarrow> (\<exists>start. mold_at F sess cb h0 start st)"

lemma mold_at_SomeI: "seq_ok F sess cb h0 s0 is e st \<Longrightarrow> pending_ok F sess (fst st) \<Longrightarrow> mold_at F sess cb h0 (Some s0) st"
  by (auto simp: mold_at_def)

lemma seq_ok_cong:
  assumes "seq_ok F sess cb h0 s0 is e (m, h)" "same_seq m m'" "ms_messages (mu_stats m') = ms_messages (mu_stats m)"
  shows "seq_ok F sess cb h0 s0 is e (m', h)"
  using assms by (simp add: seq_ok_def same_seq_def)

lemma request_gap_same [simp]:
  "same_seq m (request_gap now m)" "ms_messages (mu_stats (request_gap now m)) = ms_messages (mu_stats m)"
  "mu_expected (request_gap now m) = mu_expected m" "mu_pending (request_gap now m) = mu_pending m"
  "mu_recovery (request_gap now m) = mu_recovery m" "mu_recovering (request_gap now m) = mu_recovering m"
  by (simp_all add: request_gap_def same_seq_def upd_stats_def Let_def)

lemma drain_ok:
  assumes F: "feed_ok F sess" and ok: "seq_ok F sess cb h0 s0 is e (m, h)" and p: "held_ok F sess (mu_pending m)" "mu_recovery m \<or> mu_pending m = []"
  shows "\<exists>st. drain cb now (m, h) = Some st \<and> mold_at F sess cb h0 (Some s0) st \<and> e \<le> unat (mu_expected (fst st)) \<and>
    drained F sess (mu_pending m) m (fst st)"
proof -
  obtain m' h' is' e' where d: "drain_loop cb (mu_pending m) (m, h) = Some (m', h')" "seq_ok F sess cb h0 s0 is' e' (m', h')"
      "pending_ok F sess m'" "e \<le> e'" "drained F sess (mu_pending m) m m'"
    using drain_loop_ok [OF F ok p] by blast
  define m'' where "m'' = (if mu_pending m' = []
      then (if mu_recovering m' then upd_stats (\<lambda>s. s\<lparr>ms_recovered := ms_recovered s + 1\<rparr>) m' else m')\<lparr>mu_recovering := False\<rparr>
      else if mu_recovering m' then request_gap now m' else m')"
  have "drain cb now (m, h) = Some (m'', h')" using d(1) by (simp add: drain_def m''_def)
  moreover have ok'': "seq_ok F sess cb h0 s0 is' e' (m'', h')"
    using d(2) seq_ok_cong [OF d(2) request_gap_same(1,2)] by (auto simp: m''_def seq_ok_def upd_stats_def)
  moreover have "pending_ok F sess m''"
    using d(3) by (auto simp: m''_def pending_ok_def upd_stats_def)
  moreover have "e \<le> unat (mu_expected m'')" using ok'' d(4) by (auto simp: seq_ok_def of_nat_u64)
  moreover have "drained F sess (mu_pending m) m m''"
    using d(5) request_gap_same(1) [of m' now] by (auto simp: m''_def drained_def upd_stats_def same_seq_def)
  ultimately show ?thesis by (auto intro: mold_at_SomeI)
qed


lemma held_emplace:
  assumes "in_range s n" and "held_ok F sess ps"
  shows "held_ok F sess (pending_emplace (of_nat s) (data_packet F sess s n) ps) \<and>
    set (pending_emplace (of_nat s) (data_packet F sess s n) ps) \<subseteq> insert (of_nat s, data_packet F sess s n) (set ps)"
  using assms(2)
proof (induction ps)
  case Nil
  then show ?case using assms(1) by (auto simp: held_ok_def)
next
  case (Cons x ps)
  obtain s' p' where x: "x = (s', p')" by fastforce
  show ?case
    using Cons assms(1) unfolding x held_ok_Cons by (auto simp: held_ok_Cons dest: less_trans)
qed

lemma open_gap_same [simp]:
  "mu_expected (open_gap now sq m) = mu_expected m" "mu_pending (open_gap now sq m) = mu_pending m"
  "mu_session (open_gap now sq m) = mu_session m" "mu_recovery (open_gap now sq m) = mu_recovery m"
  "ms_messages (mu_stats (open_gap now sq m)) = ms_messages (mu_stats m)"
  "ms_gap_messages (mu_stats (open_gap now sq m)) = ms_gap_messages (mu_stats m)"
  by (simp_all add: open_gap_def upd_stats_def request_gap_def Let_def)

lemma mold_at_step_same:
  assumes "mold_at F sess cb h0 start (m, h)" and "mu_expected m \<noteq> 0"
    and "mu_expected m' = mu_expected m" "mu_session m' = mu_session m" "mu_pending m' = mu_pending m"
    "mu_recovery m' = mu_recovery m" "ms_messages (mu_stats m') = ms_messages (mu_stats m)" "ms_gap_messages (mu_stats m') = ms_gap_messages (mu_stats m)"
  shows "mold_at F sess cb h0 start (m', h)"
  using assms unfolding mold_at_def seq_ok_def pending_ok_def by (auto split: option.splits)

lemma mold_at_start:
  assumes "mold_at F sess cb h0 start (m, h)" and "mu_session m = sess" and "mu_expected m = 0" and "1 \<le> s" "s < 2 ^ 64"
  shows "seq_ok F sess cb h0 s [] s (m\<lparr>mu_expected := of_nat s\<rparr>, h)"
    "mold_at F sess cb h0 (Some s) (m\<lparr>mu_expected := of_nat s\<rparr>, h)" "mu_pending m = []" "\<not> mu_recovering m" "start = None"
proof -
  have no: "\<not> seq_ok F sess cb h0 s0 is e (m, h)" for s0 "is" e
  proof
    assume "seq_ok F sess cb h0 s0 is e (m, h)"
    then have "(of_nat e :: u64) = 0" "1 \<le> e" "e < 2 ^ 64" using assms(3) by (auto simp: seq_ok_def)
    then show False using of_nat_u64 [of e] by simp
  qed
  then have z: "mu_pending m = []" "\<not> mu_recovering m" "h = h0" "ms_messages (mu_stats m) = 0" "ms_gap_messages (mu_stats m) = 0"
    and st: "start = None"
    using assms(1) unfolding mold_at_def by (auto split: option.splits)
  show "mu_pending m = []" "\<not> mu_recovering m" "start = None" by (fact z st)+
  show ok: "seq_ok F sess cb h0 s [] s (m\<lparr>mu_expected := of_nat s\<rparr>, h)"
    using assms z by (simp add: seq_ok_def)
  show "mold_at F sess cb h0 (Some s) (m\<lparr>mu_expected := of_nat s\<rparr>, h)"
    by (rule mold_at_SomeI [OF ok]) (simp add: z(1) pending_ok_def)
qed

lemma new_session_at:
  assumes F: "feed_ok F sess" and inv: "mold_at F sess cb h0 start (m, h)" and p: "take 10 p = sess"
  shows "mold_at F sess cb h0 start (new_session p m, h)" "mu_session (new_session p m) = sess"
    "mu_expected (new_session p m) = mu_expected m" "mu_pending (new_session p m) = mu_pending m"
  using inv p unfolding mold_at_def new_session_def by (auto simp: seq_ok_def pending_ok_def split: option.splits)

lemma mold_at_packets [simp]:
  "mold_at F sess cb h0 start (upd_stats (\<lambda>s. s\<lparr>ms_packets := f s\<rparr>) m, h) = mold_at F sess cb h0 start (m, h)"
  "mold_at F sess cb h0 start (upd_stats (\<lambda>s. s\<lparr>ms_heartbeats := f s\<rparr>) m, h) = mold_at F sess cb h0 start (m, h)"
  "mold_at F sess cb h0 start (upd_stats (\<lambda>s. s\<lparr>ms_dups := f s\<rparr>) m, h) = mold_at F sess cb h0 start (m, h)"
  "mold_at F sess cb h0 start (upd_stats (\<lambda>s. s\<lparr>ms_gap_timeouts := f s\<rparr>) m, h) = mold_at F sess cb h0 start (m, h)"
  "mold_at F sess cb h0 start (m\<lparr>mu_ended := b\<rparr>, h) = mold_at F sess cb h0 start (m, h)"
  unfolding mold_at_def by (simp_all add: upd_stats_def seq_ok_def pending_ok_def split: option.splits)

lemma upd_stats_fields:
  "mu_session (upd_stats f m) = mu_session m" "mu_expected (upd_stats f m) = mu_expected m"
  "mu_pending (upd_stats f m) = mu_pending m" "mu_recovery (upd_stats f m) = mu_recovery m"
  "mu_recovering (upd_stats f m) = mu_recovering m" "mu_stats (upd_stats f m) = f (mu_stats m)"
  by (simp_all add: upd_stats_def)

lemma heartbeat_at:
  assumes inv: "mold_at F sess cb h0 start (m, h)" and s: "mu_session m = sess" and r: "1 \<le> s" "s < 2 ^ 64"
  shows "mold_at F sess cb h0 (Some (case start of None \<Rightarrow> s | Some s0 \<Rightarrow> s0)) (on_heartbeat (of_nat s) now m, h)"
    and "mu_pending (on_heartbeat (of_nat s) now m) = mu_pending m"
    and "unat (mu_expected m) \<le> unat (mu_expected (on_heartbeat (of_nat s) now m))"
    and "mu_opts (on_heartbeat (of_nat s) now m) = mu_opts m" "mu_recovery (on_heartbeat (of_nat s) now m) = mu_recovery m"
    and "ms_gap_timeouts (mu_stats (on_heartbeat (of_nat s) now m)) = ms_gap_timeouts (mu_stats m)"
    and "ms_gap_messages (mu_stats (on_heartbeat (of_nat s) now m)) = ms_gap_messages (mu_stats m)"
proof -
  show "mold_at F sess cb h0 (Some (case start of None \<Rightarrow> s | Some s0 \<Rightarrow> s0)) (on_heartbeat (of_nat s) now m, h)"
  proof (cases "mu_expected m = 0")
    case True
    have n: "start = None" by (rule mold_at_start(5) [OF inv s True r])
    have "mold_at F sess cb h0 (Some s) ((upd_stats (\<lambda>s. s\<lparr>ms_heartbeats := ms_heartbeats s + 1\<rparr>) m)\<lparr>mu_expected := of_nat s\<rparr>, h)"
      by (rule mold_at_start(2)) (use inv s r True in \<open>simp_all add: upd_stats_fields\<close>)
    then show ?thesis using True n by (simp add: on_heartbeat_def upd_stats_def)
  next
    case False
    then obtain s0 where s0: "start = Some s0" using inv by (cases start) (auto simp: mold_at_def)
    have "mold_at F sess cb h0 start (on_heartbeat (of_nat s) now m, h)"
      by (rule mold_at_step_same [OF inv False]) (use False in \<open>simp_all add: on_heartbeat_def upd_stats_def Let_def\<close>)
    then show ?thesis using s0 by simp
  qed
qed (simp_all add: on_heartbeat_def upd_stats_def Let_def open_gap_def request_gap_def)

lemma hold_packet_fields:
  "mu_expected (hold_packet sq p now m) = mu_expected m" "mu_session (hold_packet sq p now m) = mu_session m"
  "ms_messages (mu_stats (hold_packet sq p now m)) = ms_messages (mu_stats m)"
  "ms_gap_messages (mu_stats (hold_packet sq p now m)) = ms_gap_messages (mu_stats m)"
  "mu_recovery (hold_packet sq p now m) = mu_recovery m"
  "mu_pending (hold_packet sq p now m) =
     (if length (mu_pending m) < mo_max_buffered (mu_opts m) then pending_emplace sq p (mu_pending m) else mu_pending m)"
  "mu_opts (hold_packet sq p now m) = mu_opts m"
  "ms_gap_timeouts (mu_stats (hold_packet sq p now m)) = ms_gap_timeouts (mu_stats m)"
  by (simp_all add: hold_packet_def Let_def upd_stats_def open_gap_def request_gap_def)

lemma pending_emplace_mem:
  "(\<exists>q. (s, q) \<in> set (pending_emplace s p ps)) \<and> set ps \<subseteq> set (pending_emplace s p ps) \<and>
     length (pending_emplace s p ps) \<le> Suc (length ps)"
  by (induction s p ps rule: pending_emplace.induct) auto

definition stepped :: "(nat \<Rightarrow> u8 list) \<Rightarrow> u8 list \<Rightarrow> nat \<Rightarrow> nat \<Rightarrow> mold \<Rightarrow> mold \<Rightarrow> bool" where
  \<comment> \<open>what a packet with the messages \<open>s\<close> to \<open>s + n - 1\<close> does to the held packets and the counters\<close>
  "stepped F sess s n m m' \<longleftrightarrow> mu_opts m' = mu_opts m \<and> mu_recovery m' = mu_recovery m \<and>
     ms_gap_timeouts (mu_stats m') = ms_gap_timeouts (mu_stats m) \<and>
     (mu_recovery m \<or> s \<le> unat (mu_expected m) \<longrightarrow> ms_gap_messages (mu_stats m') = ms_gap_messages (mu_stats m)) \<and>
     length (mu_pending m') \<le> Suc (length (mu_pending m)) \<and>
     set (mu_pending m') \<subseteq> insert (of_nat s, data_packet F sess s n) (set (mu_pending m)) \<and>
     (\<forall>x \<in> set (mu_pending m). x \<in> set (mu_pending m') \<or> passed F sess (mu_expected m') x) \<and>
     unat (mu_expected m) \<le> unat (mu_expected m') \<and>
     (s \<le> unat (mu_expected m) \<longrightarrow> length (mu_pending m') \<le> length (mu_pending m)) \<and>
     (s + n \<le> unat (mu_expected m') \<or> unat (mu_expected m) < s \<and> mu_recovery m \<and>
       (length (mu_pending m) < mo_max_buffered (mu_opts m) \<longrightarrow> (\<exists>q. (of_nat s, q) \<in> set (mu_pending m'))))"


lemma on_data_seq_ok:
  assumes F: "feed_ok F sess" and r: "in_range s n" and ok: "seq_ok F sess cb h0 s0 is e (m, h)" and p: "pending_ok F sess m"
  shows "\<exists>st. on_data cb (of_nat s) (of_nat n) (data_packet F sess s n) now (m, h) = Some st \<and>
    mold_at F sess cb h0 (Some s0) st \<and> stepped F sess s n m (fst st)"
proof -
  note rd = in_range_D [OF r]
  have E: "mu_expected m = of_nat e" "e < 2 ^ 64" "1 \<le> e" using ok by (auto simp: seq_ok_def)
  have U: "unat (mu_expected m) = e" using E of_nat_u64 by simp
  have nz: "mu_expected m \<noteq> 0" using E of_nat_u64 [of e] by (metis One_nat_def not_one_le_zero unat_0)
  have inv: "mold_at F sess cb h0 (Some s0) (m, h)" using ok p by (auto intro: mold_at_SomeI)
  have c1: "of_nat s + ucast (of_nat n :: u16) \<le> mu_expected m \<longleftrightarrow> s + n \<le> e"
    using E rd by (simp add: of_nat_le_u64 del: of_nat_add)
  have c2: "of_nat s > mu_expected m \<longleftrightarrow> e < s" using E rd by (simp add: of_nat_less_u64)
  consider (dup) "s + n \<le> e" | (lost) "e < s" "\<not> mu_recovery m" | (hold) "e < s" "mu_recovery m" | (fits) "s \<le> e" "e < s + n"
    by linarith
  then show ?thesis
  proof cases
    case dup
    then show ?thesis using nz c1 inv U by (auto simp: on_data_def Let_def upd_stats_fields stepped_def) (simp_all add: upd_stats_def)
  next
    case lost
    define m1 where "m1 = upd_stats (\<lambda>s'. s'\<lparr>ms_gaps := ms_gaps s' + 1, ms_gap_messages := ms_gap_messages s' + (of_nat s - mu_expected m)\<rparr>) m"
    obtain m2 where m2: "process cb (data_packet F sess s n) (of_nat 0) (m1, h) = Some (m2, handled cb (map F [s..<s + n]) h)"
        "same_seq m1 m2" "ms_messages (mu_stats m2) = ms_messages (mu_stats m1) + of_nat n"
      using process_ok [OF F r, of 0 cb m1 h] by auto
    have "seq_ok F sess cb h0 s0 is s (m1\<lparr>mu_expected := of_nat s\<rparr>, h)"
      by (rule seq_ok_skip [OF ok]) (use lost rd in \<open>simp_all add: m1_def upd_stats_def\<close>)
    then have "seq_ok F sess cb h0 s0 (is @ [s..<s + n]) (s + n) (m2\<lparr>mu_expected := of_nat (s + n)\<rparr>, handled cb (map F [s..<s + n]) h)"
      by (rule seq_ok_extend) (use m2 rd in \<open>simp_all add: same_seq_def\<close>)
    moreover have "pending_ok F sess (m2\<lparr>mu_expected := of_nat (s + n)\<rparr>)"
      using p lost m2(2) by (simp add: pending_ok_def same_seq_def m1_def upd_stats_def)
    ultimately have "mold_at F sess cb h0 (Some s0) (m2\<lparr>mu_expected := of_nat (s + n)\<rparr>, handled cb (map F [s..<s + n]) h)"
      by (auto intro: mold_at_SomeI)
    moreover have "stepped F sess s n m (m2\<lparr>mu_expected := of_nat (s + n)\<rparr>)"
      using m2(2) lost U of_nat_u64 [OF rd(2)] p by (auto simp: stepped_def same_seq_def m1_def upd_stats_def pending_ok_def)
    ultimately show ?thesis using m2(1) c1 c2 lost nz rd(6)
      by (simp add: on_data_def Let_def m1_def [symmetric])
  next
    case hold
    let ?m = "hold_packet (of_nat s) (data_packet F sess s n) now m"
    have "seq_ok F sess cb h0 s0 is e (?m, h)" using ok by (simp add: seq_ok_def hold_packet_fields)
    moreover have "pending_ok F sess ?m"
      using p held_emplace [OF r, of F sess "mu_pending m"] c2 hold
      by (fastforce simp: pending_ok_def hold_packet_fields)
    ultimately have "mold_at F sess cb h0 (Some s0) (?m, h)" by (auto intro: mold_at_SomeI)
    moreover have "stepped F sess s n m ?m"
      using hold U pending_emplace_mem [of "of_nat s" "data_packet F sess s n" "mu_pending m"]
        held_emplace [OF r, of F sess "mu_pending m"] p
      by (auto simp: stepped_def hold_packet_fields pending_ok_def)
    ultimately show ?thesis using c1 c2 hold nz by (simp add: on_data_def Let_def)
  next
    case fits
    obtain m1 h1 where m1: "process cb (data_packet F sess s n) (mu_expected m - of_nat s) (m, h) = Some (m1, h1)"
        "seq_ok F sess cb h0 s0 (is @ [e..<s + n]) (s + n) (m1\<lparr>mu_expected := of_nat (s + n)\<rparr>, h1)" "same_seq m m1"
      using process_advances [OF F r ok] fits by blast
    have "held_ok F sess (mu_pending (m1\<lparr>mu_expected := of_nat (s + n)\<rparr>))"
      using p m1(3) by (simp add: pending_ok_def same_seq_def)
    from drain_ok [OF F m1(2) this, of now] p m1(3) obtain st where
      st: "drain cb now (m1\<lparr>mu_expected := of_nat (s + n)\<rparr>, h1) = Some st" "mold_at F sess cb h0 (Some s0) st"
        "s + n \<le> unat (mu_expected (fst st))" "drained F sess (mu_pending m1) m1 (fst st)"
      by (auto simp: pending_ok_def same_seq_def)
    have "stepped F sess s n m (fst st)"
      using st(3,4) m1(3) fits U by (auto simp: stepped_def drained_def same_seq_def)
    then show ?thesis
      using m1(1) c1 c2 fits nz rd(6) st(1,2) by (auto simp: on_data_def Let_def)
  qed
qed

lemma stepped_cong:
  assumes "stepped F sess s n m m'" and "mu_expected m = mu_expected m1" "mu_pending m = mu_pending m1" "mu_opts m = mu_opts m1"
    "mu_recovery m = mu_recovery m1" "ms_gap_timeouts (mu_stats m) = ms_gap_timeouts (mu_stats m1)"
    "ms_gap_messages (mu_stats m) = ms_gap_messages (mu_stats m1)"
  shows "stepped F sess s n m1 m'"
  using assms unfolding stepped_def by simp

lemma on_packet_data_at:
  assumes F: "feed_ok F sess" and inv: "mold_at F sess cb h0 start (m, h)" and r: "in_range s n"
  shows "\<exists>m' h'. on_packet cb clk (data_packet F sess s n) now (m, h) = Some (m', h') \<and>
    mold_at F sess cb h0 (Some (case start of None \<Rightarrow> s | Some s0 \<Rightarrow> s0)) (m', h') \<and>
    (if mu_expected m = 0 then stepped F sess s n (m\<lparr>mu_expected := of_nat s\<rparr>) m' else stepped F sess s n m m')"
proof -
  let ?p = "data_packet F sess s n"
  define m1 where "m1 = new_session ?p (upd_stats (\<lambda>s. s\<lparr>ms_packets := ms_packets s + 1\<rparr>) m)"
  define t where "t = (if now = 0 then clk else now)"
  have sess: "length sess = 10" using F by (simp add: feed_ok_def)
  have p10: "take 10 ?p = sess" "\<not> length ?p < 20" "be64 ?p 10 = Some (of_nat s)" "be16 ?p 18 = Some (of_nat n)"
    using packet_fields [OF sess, of "of_nat s" "of_nat n" "map F [s..<s + n]"] by (auto simp: data_packet_def not_less)
  have i1: "mold_at F sess cb h0 start (m1, h)" "mu_session m1 = sess" "mu_expected m1 = mu_expected m" "mu_pending m1 = mu_pending m"
    using new_session_at [OF F _ p10(1), of cb h0 start "upd_stats (\<lambda>s. s\<lparr>ms_packets := ms_packets s + 1\<rparr>) m" h] inv
    by (simp_all add: m1_def upd_stats_fields)
  have fr: "mu_opts m1 = mu_opts m" "mu_recovery m1 = mu_recovery m" "ms_gap_timeouts (mu_stats m1) = ms_gap_timeouts (mu_stats m)"
      "ms_gap_messages (mu_stats m1) = ms_gap_messages (mu_stats m)"
    by (simp_all add: m1_def new_session_def upd_stats_def)
  note rd = in_range_D [OF r]
  have c: "(of_nat n :: u16) \<noteq> 0xFFFF" "(of_nat n :: u16) \<noteq> 0"
    using r of_nat_u16 [OF rd(3)] by (auto simp: in_range_def)
  have od: "on_packet cb clk ?p now (m, h) = on_data cb (of_nat s) (of_nat n) ?p t (m1, h)"
    unfolding on_packet_def m1_def t_def Let_def using p10 c by simp
  show ?thesis
  proof (cases "mu_expected m = 0")
    case True
    then have "mu_expected m1 = 0" using i1(3) by simp
    note st = mold_at_start [OF i1(1,2) this rd(4,1)]
    have p: "pending_ok F sess (m1\<lparr>mu_expected := of_nat s\<rparr>)" using st(3) by (simp add: pending_ok_def)
    have "(of_nat s :: u64) \<noteq> 0" using of_nat_u64 [OF rd(1)] rd(4) by auto
    then have od2: "on_data cb (of_nat s) (of_nat n) ?p t (m1, h) = on_data cb (of_nat s) (of_nat n) ?p t (m1\<lparr>mu_expected := of_nat s\<rparr>, h)"
      using True i1(3) by (simp add: on_data_def Let_def)
    obtain m' h' where m': "on_data cb (of_nat s) (of_nat n) ?p t (m1\<lparr>mu_expected := of_nat s\<rparr>, h) = Some (m', h')"
        "mold_at F sess cb h0 (Some s) (m', h')" "stepped F sess s n (m1\<lparr>mu_expected := of_nat s\<rparr>) m'"
      using on_data_seq_ok [OF F r st(1) p, of t] by auto
    have "stepped F sess s n (m\<lparr>mu_expected := of_nat s\<rparr>) m'"
      by (rule stepped_cong [OF m'(3)]) (use i1 fr in simp_all)
    then show ?thesis using m' od od2 True st(5) by simp
  next
    case False
    then obtain s0 "is" e where s0: "start = Some s0" and ok: "seq_ok F sess cb h0 s0 is e (m1, h)" "pending_ok F sess m1"
      using i1(1,3) by (cases start) (auto simp: mold_at_def)
    obtain m' h' where m': "on_data cb (of_nat s) (of_nat n) ?p t (m1, h) = Some (m', h')"
        "mold_at F sess cb h0 (Some s0) (m', h')" "stepped F sess s n m1 m'"
      using on_data_seq_ok [OF F r ok, of t] by auto
    have "stepped F sess s n m m'" by (rule stepped_cong [OF m'(3)]) (use i1 fr in simp_all)
    then show ?thesis using m' od False s0 by simp
  qed
qed

lemma on_packet_data:
  assumes F: "feed_ok F sess" and inv: "mold_inv F sess cb h0 (m, h)" and r: "in_range s n"
  shows "\<exists>m' h'. on_packet cb clk (data_packet F sess s n) now (m, h) = Some (m', h') \<and> mold_inv F sess cb h0 (m', h') \<and>
    unat (mu_expected m) \<le> unat (mu_expected m') \<and> (s \<le> unat (mu_expected m) \<longrightarrow> s + n \<le> unat (mu_expected m'))"
proof -
  obtain start where "mold_at F sess cb h0 start (m, h)" using inv by (auto simp: mold_inv_def)
  from on_packet_data_at [OF F this r, of clk now] in_range_D(4) [OF r] show ?thesis
    by (auto simp: stepped_def mold_inv_def split: if_splits)
qed

definition ticked :: "mold \<Rightarrow> mold \<Rightarrow> bool" where
  \<comment> \<open>a tick changes the sequence state only when a gap times out while packets are held\<close>
  "ticked m m' \<longleftrightarrow> mu_opts m' = mu_opts m \<and> mu_recovery m' = mu_recovery m \<and>
     (ms_gap_timeouts (mu_stats m') = ms_gap_timeouts (mu_stats m) \<or>
      ms_gap_timeouts (mu_stats m') = ms_gap_timeouts (mu_stats m) + 1) \<and>
     (ms_gap_timeouts (mu_stats m') = ms_gap_timeouts (mu_stats m) \<or> mu_pending m = [] \<longrightarrow>
       mu_expected m' = mu_expected m \<and> mu_pending m' = mu_pending m \<and>
       ms_gap_messages (mu_stats m') = ms_gap_messages (mu_stats m))"

lemma ticked_refl: "ticked m m"
  by (simp add: ticked_def)

lemma tick_at:
  assumes F: "feed_ok F sess" and inv: "mold_at F sess cb h0 start (m, h)"
  shows "\<exists>st. tick cb now (m, h) = Some st \<and> mold_at F sess cb h0 start st \<and> ticked m (fst st)"
proof (cases "mu_recovering m")
  case False
  then show ?thesis using inv by (simp add: tick_def ticked_def)
next
  case True
  then obtain s0 "is" e where st: "start = Some s0" and ok: "seq_ok F sess cb h0 s0 is e (m, h)" and p: "pending_ok F sess m"
    using inv by (cases start) (auto simp: mold_at_def)
  define m1 where "m1 = upd_stats (\<lambda>s. s\<lparr>ms_gap_timeouts := ms_gap_timeouts s + 1\<rparr>) m"
  have rg: "mold_at F sess cb h0 start (request_gap now m, h)" "ticked m (request_gap now m)"
    using mold_at_SomeI [OF seq_ok_cong [OF ok request_gap_same(1,2), of now]] p request_gap_same(1) [of m now]
    by (simp_all add: st pending_ok_def ticked_def same_seq_def)
  have empty: "mold_at F sess cb h0 start (m1\<lparr>mu_recovering := False\<rparr>, h)"
    using ok p unfolding st mold_at_def seq_ok_def pending_ok_def m1_def by (auto simp: upd_stats_def)
  have te: "ticked m (m1\<lparr>mu_recovering := False\<rparr>)" by (simp add: ticked_def m1_def upd_stats_def)
  have jump: "\<exists>st. drain cb now ((upd_stats (\<lambda>s. s\<lparr>ms_gap_messages := ms_gap_messages s + (sw - mu_expected m1)\<rparr>) m1)
        \<lparr>mu_expected := sw, mu_gap_since := now\<rparr>, h) = Some st \<and> mold_at F sess cb h0 start st \<and> ticked m (fst st)"
    if "mu_pending m1 = (sw, q) # ps" for sw q ps
  proof -
    let ?m = "(upd_stats (\<lambda>s. s\<lparr>ms_gap_messages := ms_gap_messages s + (sw - mu_expected m1)\<rparr>) m1)\<lparr>mu_expected := sw, mu_gap_since := now\<rparr>"
    have pm: "mu_pending m = (sw, q) # ps" using that by (simp add: m1_def upd_stats_def)
    obtain s n where r: "in_range s n" "sw = of_nat s" using p unfolding pending_ok_def pm held_ok_Cons by blast
    note rd = in_range_D [OF r(1)]
    have "mu_expected m < sw" using p pm by (simp add: pending_ok_def)
    then have "e < s" using ok rd r(2) by (simp add: seq_ok_def of_nat_less_u64)
    then have "seq_ok F sess cb h0 s0 is s (?m, h)"
      by (intro seq_ok_skip [OF ok]) (use rd r(2) in \<open>simp_all add: m1_def upd_stats_def\<close>)
    moreover have "held_ok F sess (mu_pending ?m)" "mu_recovery ?m \<or> mu_pending ?m = []"
      using p by (simp_all add: pending_ok_def m1_def upd_stats_def)
    ultimately obtain d where "drain cb now (?m, h) = Some d" "mold_at F sess cb h0 (Some s0) d"
        "drained F sess (mu_pending ?m) ?m (fst d)"
      using drain_ok [OF F, of cb h0 s0 "is" s ?m h now] by blast
    moreover from this(3) have "ticked m (fst d)" using pm by (auto simp: ticked_def drained_def m1_def upd_stats_def)
    ultimately show ?thesis using st by blast
  qed
  show ?thesis
    using True inv rg empty te jump ticked_refl by (auto simp: tick_def Let_def m1_def [symmetric] split: list.splits)
qed

datatype mold_event = Recv "u8 list" u64 u64 | Tick u64

fun mold_step :: "('h \<Rightarrow> itch_call \<Rightarrow> 'h) \<Rightarrow> mold_event \<Rightarrow> mold \<times> 'h \<Rightarrow> (mold \<times> 'h) option" where
  "mold_step cb (Recv p now clk) st = on_packet cb clk p now st"
| "mold_step cb (Tick now) st = tick cb now st"

fun mold_run :: "('h \<Rightarrow> itch_call \<Rightarrow> 'h) \<Rightarrow> mold_event list \<Rightarrow> mold \<times> 'h \<Rightarrow> (mold \<times> 'h) option" where
  "mold_run cb [] st = Some st"
| "mold_run cb (ev # evs) st = do { st \<leftarrow> mold_step cb ev st; mold_run cb evs st }"

lemma poll_is_run:
  "mold_poll cb clk batch now st = mold_run cb (map (\<lambda>p. Recv p now clk) batch @ [Tick now]) st"
proof -
  have "poll_packets cb clk now ps st \<bind> (\<lambda>st. mold_run cb evs st) = mold_run cb (map (\<lambda>p. Recv p now clk) ps @ evs) st" for ps evs
  proof (induction ps arbitrary: st)
    case (Cons p ps)
    then show ?case by (cases "on_packet cb clk p now st") auto
  qed simp
  from this [of batch "[Tick now]"] show ?thesis
    by (cases "poll_packets cb clk now batch st"; cases "tick cb now (the (poll_packets cb clk now batch st))")
      (simp_all add: mold_poll_def)
qed

definition from_feed :: "(nat \<Rightarrow> u8 list) \<Rightarrow> u8 list \<Rightarrow> mold_event list \<Rightarrow> bool" where
  \<comment> \<open>every packet received was sent by the feed's server\<close>
  "from_feed F sess evs \<longleftrightarrow> (\<forall>ev \<in> set evs. case ev of Recv p _ _ \<Rightarrow> feed_packet F sess p | Tick _ \<Rightarrow> True)"


definition packet_range :: "u8 list \<Rightarrow> (nat \<times> nat) option" where
  \<comment> \<open>the first sequence number and the number of messages a data packet announces\<close>
  "packet_range p =
     (case (be64 p 10, be16 p 18) of
        (Some s, Some c) \<Rightarrow> if c = 0 \<or> c = 0xFFFF then None else Some (unat s, unat c)
      | _ \<Rightarrow> None)"

fun start_after :: "nat option \<Rightarrow> mold_event \<Rightarrow> nat option" where
  \<comment> \<open>the sequence number of the first packet other than an end of session\<close>
  "start_after (Some s0) ev = Some s0"
| "start_after None (Tick t) = None"
| "start_after None (Recv p t ck) =
     (case (be64 p 10, be16 p 18) of (Some s, Some c) \<Rightarrow> if c = 0xFFFF then None else Some (unat s) | _ \<Rightarrow> None)"

definition first_seq :: "mold_event list \<Rightarrow> nat" where
  "first_seq evs = (case foldl start_after None evs of None \<Rightarrow> 0 | Some s \<Rightarrow> s)"

definition arrivals :: "mold_event list \<Rightarrow> (nat \<times> nat) set" where
  "arrivals evs = {r. \<exists>p t ck. Recv p t ck \<in> set evs \<and> packet_range p = Some r}"

definition received :: "mold_event list \<Rightarrow> nat set" where
  \<comment> \<open>the sequence numbers of the messages in the packets received\<close>
  "received evs = (\<Union>(s, n) \<in> arrivals evs. {s..<s + n})"

fun in_order :: "nat option \<Rightarrow> mold_event list \<Rightarrow> bool" where
  \<comment> \<open>every data packet starts at or before the end of those received so far\<close>
  "in_order fr [] = True"
| "in_order fr (Tick t # evs) = in_order fr evs"
| "in_order fr (Recv p t ck # evs) =
     (case packet_range p of
        None \<Rightarrow> in_order (start_after fr (Recv p t ck)) evs
      | Some (s, n) \<Rightarrow>
          (case fr of None \<Rightarrow> in_order (Some (s + n)) evs | Some e \<Rightarrow> s \<le> e \<and> in_order (Some (max e (s + n))) evs))"

definition same_cuts :: "(nat \<times> nat) set \<Rightarrow> bool" where
  \<comment> \<open>packets that start at the same message hold the same messages\<close>
  "same_cuts R \<longleftrightarrow> (\<forall>s n n'. (s, n) \<in> R \<longrightarrow> (s, n') \<in> R \<longrightarrow> n = n')"

definition lossless :: "mold \<Rightarrow> mold \<Rightarrow> mold_event list \<Rightarrow> bool" where
  \<comment> \<open>packets came in order, or recovery was on, no gap timed out and the buffer had room for all\<close>
  "lossless m0 m evs \<longleftrightarrow> in_order None evs \<or>
     mu_recovery m0 \<and> ms_gap_timeouts (mu_stats m) = 0 \<and> same_cuts (arrivals evs) \<and> length evs \<le> mo_max_buffered (mu_opts m0)"

definition rested :: "mold \<Rightarrow> mold \<Rightarrow> bool" where
  \<comment> \<open>a heartbeat or end of session: no message is applied, held or lost\<close>
  "rested m m' \<longleftrightarrow> mu_opts m' = mu_opts m \<and> mu_recovery m' = mu_recovery m \<and> mu_pending m' = mu_pending m \<and>
     unat (mu_expected m) \<le> unat (mu_expected m') \<and>
     ms_gap_timeouts (mu_stats m') = ms_gap_timeouts (mu_stats m) \<and>
     ms_gap_messages (mu_stats m') = ms_gap_messages (mu_stats m)"

fun effect :: "(nat \<Rightarrow> u8 list) \<Rightarrow> u8 list \<Rightarrow> mold_event \<Rightarrow> mold \<Rightarrow> mold \<Rightarrow> bool" where
  "effect F sess (Tick t) m m' = ticked m m'"
| "effect F sess (Recv p t ck) m m' =
     (case packet_range p of
        None \<Rightarrow> rested m m'
      | Some (s, n) \<Rightarrow> in_range s n \<and>
          stepped F sess s n (if mu_expected m = 0 then m\<lparr>mu_expected := of_nat s\<rparr> else m) m')"

lemma packet_range_data:
  assumes "length sess = 10" and "in_range s n"
  shows "packet_range (data_packet F sess s n) = Some (s, n)"
  using assms(2) in_range_D [OF assms(2)] packet_fields [OF assms(1)] of_nat_u16 [of n] of_nat_u64 [of s]
  by (auto simp: packet_range_def data_packet_def in_range_def)

lemma on_packet_at:
  assumes F: "feed_ok F sess" and inv: "mold_at F sess cb h0 start (m, h)" and p: "feed_packet F sess p"
  shows "\<exists>m' h'. on_packet cb clk p now (m, h) = Some (m', h') \<and>
    mold_at F sess cb h0 (start_after start (Recv p now clk)) (m', h') \<and> effect F sess (Recv p now clk) m m'"
proof -
  define m1 where "m1 = new_session p (upd_stats (\<lambda>s. s\<lparr>ms_packets := ms_packets s + 1\<rparr>) m)"
  define t where "t = (if now = 0 then clk else now)"
  have sess: "length sess = 10" using F by (simp add: feed_ok_def)
  have p10: "take 10 p = sess" "\<not> length p < 20"
    using p packet_fields [OF sess] by (auto simp: feed_packet_def data_packet_def not_less)
  have i1: "mold_at F sess cb h0 start (m1, h)" "mu_session m1 = sess" "mu_expected m1 = mu_expected m" "mu_pending m1 = mu_pending m"
    using new_session_at [OF F _ p10(1), of cb h0 start "upd_stats (\<lambda>s. s\<lparr>ms_packets := ms_packets s + 1\<rparr>) m" h] inv
    by (simp_all add: m1_def upd_stats_fields)
  have r1: "rested m m1" using i1(3,4) by (simp add: rested_def) (simp add: m1_def new_session_def upd_stats_def)
  have step: "on_packet cb clk p now (m, h) = do { sq \<leftarrow> be64 p 10; cnt \<leftarrow> be16 p 18;
      if cnt = 0xFFFF then Some (m1\<lparr>mu_ended := True\<rparr>, h) else if cnt = 0 then Some (on_heartbeat sq t m1, h)
      else on_data cb sq cnt p t (m1, h) }"
    unfolding on_packet_def m1_def t_def Let_def using p10(2) by simp
  from p [unfolded feed_packet_def] show ?thesis
  proof (elim disjE exE conjE)
    fix s n assume r: "in_range s n" and q: "p = data_packet F sess s n"
    have "start_after start (Recv p now clk) = Some (case start of None \<Rightarrow> s | Some s0 \<Rightarrow> s0)"
      using packet_fields [OF sess] in_range_D [OF r] r of_nat_u16 [of n] of_nat_u64 [of s]
      by (cases start) (auto simp: q data_packet_def in_range_def)
    then show ?thesis
      using on_packet_data_at [OF F inv r, of clk now] packet_range_data [OF sess r] r unfolding q by (auto split: if_splits)
  next
    fix s assume s: "1 \<le> s" "s < 2 ^ 64" and q: "p = mold_packet sess (of_nat s) 0 []"
    have f: "be64 p 10 = Some (of_nat s)" "be16 p 18 = Some 0" using packet_fields [OF sess] by (simp_all add: q)
    have "start_after start (Recv p now clk) = Some (case start of None \<Rightarrow> s | Some s0 \<Rightarrow> s0)"
      using of_nat_u64 [OF s(2)] by (cases start) (simp_all add: f)
    moreover have "rested m (on_heartbeat (of_nat s) t m1)"
      using r1 heartbeat_at(2-7) [OF i1(1,2) s, of t] by (simp add: rested_def)
    ultimately show ?thesis
      unfolding step using heartbeat_at(1) [OF i1(1,2) s, of t] by (simp add: f packet_range_def)
  next
    fix s assume q: "p = mold_packet sess s 0xFFFF []"
    have f: "be64 p 10 = Some s" "be16 p 18 = Some 0xFFFF" using packet_fields [OF sess] by (simp_all add: q)
    have "start_after start (Recv p now clk) = start" by (cases start) (simp_all add: f)
    moreover have "rested m (m1\<lparr>mu_ended := True\<rparr>)" using r1 by (simp add: rested_def)
    ultimately show ?thesis unfolding step using i1(1) by (simp add: f packet_range_def)
  qed
qed

lemma mold_step_at:
  assumes F: "feed_ok F sess" and inv: "mold_at F sess cb h0 start (m, h)" and "from_feed F sess (ev # evs)"
  shows "\<exists>m' h'. mold_step cb ev (m, h) = Some (m', h') \<and> mold_at F sess cb h0 (start_after start ev) (m', h') \<and> effect F sess ev m m'"
proof (cases ev)
  case (Recv p now clk)
  then have "feed_packet F sess p" using assms(3) by (simp add: from_feed_def)
  then show ?thesis using Recv on_packet_at [OF F inv, of p clk now] by simp
next
  case (Tick now)
  have "start_after start (Tick now) = start" by (cases start) simp_all
  then show ?thesis using Tick tick_at [OF F inv, of now] by auto
qed

lemma mold_run_at:
  assumes F: "feed_ok F sess"
  shows "mold_at F sess cb h0 start st \<Longrightarrow> from_feed F sess evs \<Longrightarrow>
    \<exists>st'. mold_run cb evs st = Some st' \<and> mold_at F sess cb h0 (foldl start_after start evs) st'"
proof (induction evs arbitrary: start st)
  case (Cons ev evs)
  obtain m h where st: "st = (m, h)" by fastforce
  then show ?case using Cons mold_step_at [OF F, of cb h0 start m h ev evs] by (fastforce simp: from_feed_def)
qed simp

lemma mold_new_at: "mold_at F sess cb h0 None (mold_new, h0)" "mold_at F sess cb h0 None (enable_recovery mold_new a b c, h0)"
  by (simp_all add: mold_at_def mold_new_def enable_recovery_def mold_stats0_def)

lemma strict_sorted_full:
  assumes "sorted_wrt (<) is" and "set is \<subseteq> {s0..<e}" and "length is = e - s0"
  shows "is = [s0..<e :: nat]"
proof -
  have "distinct is" "sorted is" using assms(1) by (simp_all add: strict_sorted_iff)
  moreover from this have "set is = {s0..<e}" using assms(2,3) by (intro card_subset_eq) (auto simp: distinct_card)
  ultimately show ?thesis by (intro sorted_distinct_set_unique) auto
qed

definition delivered :: "(nat \<Rightarrow> u8 list) \<Rightarrow> ('h \<Rightarrow> itch_call \<Rightarrow> 'h) \<Rightarrow> 'h \<Rightarrow> nat \<Rightarrow> nat list \<Rightarrow> mold \<times> 'h \<Rightarrow> bool" where
  \<comment> \<open>the handler applied the messages \<open>is\<close> of the feed in order; the others since \<open>s0\<close> are counted as lost\<close>
  "delivered F cb h0 s0 is = (\<lambda>(m, h). h = handled cb (map F is) h0 \<and> sorted_wrt (<) is \<and>
     set is \<subseteq> {s0..<unat (mu_expected m)} \<and> length is + unat (ms_gap_messages (mu_stats m)) = unat (mu_expected m) - s0 \<and>
     unat (ms_messages (mu_stats m)) = length is)"

subsection \<open>Completeness: what arrives is applied\<close>

definition as_held :: "(nat \<Rightarrow> u8 list) \<Rightarrow> u8 list \<Rightarrow> nat \<times> nat \<Rightarrow> u64 \<times> u8 list" where
  "as_held F sess = (\<lambda>(s, n). (of_nat s, data_packet F sess s n))"

definition covers :: "(nat \<Rightarrow> u8 list) \<Rightarrow> u8 list \<Rightarrow> (nat \<times> nat) set \<Rightarrow> mold \<Rightarrow> bool" where
  \<comment> \<open>nothing was lost, and every packet received so far was passed or is held\<close>
  "covers F sess R m \<longleftrightarrow> ms_gap_messages (mu_stats m) = 0 \<and> set (mu_pending m) \<subseteq> as_held F sess ` R \<and>
     (\<forall>(s, n) \<in> R. in_range s n \<and> (s + n \<le> unat (mu_expected m) \<or> as_held F sess (s, n) \<in> set (mu_pending m)))"

lemma passed_as_held:
  assumes "length sess = 10" and "in_range s n" and "passed F sess w (as_held F sess (s, n))"
  shows "s + n \<le> unat w"
proof -
  obtain s' n' where r: "in_range s' n'" "data_packet F sess s n = data_packet F sess s' n'" "s' + n' \<le> unat w"
    using assms(3) by (auto simp: passed_def as_held_def)
  then show ?thesis
    using packet_range_data [OF assms(1,2), of F] packet_range_data [OF assms(1) r(1), of F] by (metis option.inject prod.inject)
qed

lemma same_key:
  assumes "(of_nat s, q) \<in> as_held F sess ` R" and "\<forall>(s, n) \<in> R. in_range s n" and "in_range s n"
  shows "\<exists>n'. (s, n') \<in> R \<and> (of_nat s, q) = as_held F sess (s, n')"
proof -
  obtain s' n' where r: "(s', n') \<in> R" "(of_nat s :: u64) = of_nat s'" "q = data_packet F sess s' n'"
    using assms(1) by (auto simp: as_held_def)
  then have "s' < 2 ^ 64" "s < 2 ^ 64" using assms(2) in_range_D(1) [OF assms(3)] in_range_D(1) by fast+
  then have "s = s'" using r(2) of_nat_u64 by metis
  then show ?thesis using r by (auto simp: as_held_def)
qed

lemma covers_data:
  assumes sess: "length sess = 10" and c: "covers F sess R m" and st: "stepped F sess s n m m'" and r: "in_range s n"
    and ok: "s \<le> unat (mu_expected m) \<or>
      mu_recovery m \<and> length (mu_pending m) < mo_max_buffered (mu_opts m) \<and> same_cuts (insert (s, n) R)"
  shows "covers F sess (insert (s, n) R) m'"
proof -
  have gap: "ms_gap_messages (mu_stats m') = 0" using c st ok by (auto simp: covers_def stepped_def)
  have sub: "set (mu_pending m') \<subseteq> as_held F sess ` insert (s, n) R"
    using c st by (auto simp: covers_def stepped_def as_held_def)
  have rng: "\<forall>(s, n) \<in> insert (s, n) R. in_range s n" using c r by (auto simp: covers_def)
  have old: "s' + n' \<le> unat (mu_expected m') \<or> as_held F sess (s', n') \<in> set (mu_pending m')" if R: "(s', n') \<in> R" for s' n'
  proof -
    have r': "in_range s' n'" using R c by (auto simp: covers_def)
    consider "s' + n' \<le> unat (mu_expected m)" | "as_held F sess (s', n') \<in> set (mu_pending m)" using R c by (auto simp: covers_def)
    then show ?thesis
    proof cases
      case 1
      then show ?thesis using st by (auto simp: stepped_def)
    next
      case 2
      then show ?thesis using st passed_as_held [OF sess r'] unfolding stepped_def by blast
    qed
  qed
  have "s + n \<le> unat (mu_expected m') \<or> as_held F sess (s, n) \<in> set (mu_pending m')"
  proof (cases "s + n \<le> unat (mu_expected m')")
    case False
    then obtain q where q: "(of_nat s, q) \<in> set (mu_pending m')" and cuts: "same_cuts (insert (s, n) R)"
      using st ok by (auto simp: stepped_def)
    then obtain n' where "(s, n') \<in> insert (s, n) R" "(of_nat s, q) = as_held F sess (s, n')"
      using same_key [OF subsetD [OF sub q] rng r] by blast
    moreover from this(1) have "n' = n" using cuts unfolding same_cuts_def by blast
    ultimately show ?thesis using q by simp
  qed simp
  then show ?thesis using gap sub rng old by (auto simp: covers_def)
qed

lemma covers_same:
  assumes "covers F sess R m" and "mu_pending m' = mu_pending m" "unat (mu_expected m) \<le> unat (mu_expected m')"
    "ms_gap_messages (mu_stats m') = ms_gap_messages (mu_stats m)"
  shows "covers F sess R m'"
  using assms by (auto simp: covers_def)

lemma arrivals_simps [simp]:
  "arrivals [] = {}" "arrivals (Tick t # evs) = arrivals evs"
  "arrivals (Recv p t ck # evs) = (case packet_range p of None \<Rightarrow> arrivals evs | Some r \<Rightarrow> insert r (arrivals evs))"
  by (auto simp: arrivals_def split: option.splits)

lemma at_zero:
  assumes "mold_at F sess cb h0 start (m, h)" and "mu_expected m = 0"
  shows "start = None" "mu_pending m = []"
proof -
  have "mu_expected m \<noteq> 0" if "seq_ok F sess cb h0 s0 is e (m, h)" for s0 "is" e
    using that of_nat_u64 [of e] by (auto simp: seq_ok_def)
  then show "start = None" using assms by (cases start) (auto simp: mold_at_def)
  then show "mu_pending m = []" using assms(1) by (simp add: mold_at_def)
qed

lemma covers_started:
  assumes "covers F sess R m" and "mold_at F sess cb h0 start (m, h)"
  shows "covers F sess R (if mu_expected m = 0 then m\<lparr>mu_expected := of_nat s\<rparr> else m)"
proof (cases "mu_expected m = 0")
  case True
  then have "R = {}" using assms(1) at_zero [OF assms(2)] by (auto simp: covers_def in_range_def)
  then show ?thesis using assms(1) by (auto simp: covers_def)
qed (use assms in simp)

lemma run_in_order:
  assumes F: "feed_ok F sess"
  shows "mold_at F sess cb h0 start (m, h) \<Longrightarrow> from_feed F sess evs \<Longrightarrow> covers F sess R m \<Longrightarrow> mu_pending m = [] \<Longrightarrow>
    in_order fr evs \<Longrightarrow> (fr = None \<longleftrightarrow> start = None) \<Longrightarrow> (\<forall>e. fr = Some e \<longrightarrow> e \<le> unat (mu_expected m)) \<Longrightarrow>
    mold_run cb evs (m, h) = Some (m', h') \<Longrightarrow> covers F sess (R \<union> arrivals evs) m'"
proof (induction evs arbitrary: m h start fr R)
  case (Cons ev evs)
  have sess: "length sess = 10" using F by (simp add: feed_ok_def)
  obtain m1 h1 where m1: "mold_step cb ev (m, h) = Some (m1, h1)" "mold_at F sess cb h0 (start_after start ev) (m1, h1)"
      "effect F sess ev m m1"
    using mold_step_at [OF F Cons.prems(1,2)] by blast
  have run: "mold_run cb evs (m1, h1) = Some (m', h')" and ff: "from_feed F sess evs"
    using Cons.prems(2,8) m1(1) by (simp_all add: from_feed_def)
  show ?case
  proof (cases ev)
    case (Tick t)
    have "start_after start ev = start" unfolding Tick by (cases start) simp_all
    moreover have "mu_expected m1 = mu_expected m" "mu_pending m1 = []" "covers F sess R m1"
      using m1(3) Cons.prems(3,4) covers_same [OF Cons.prems(3), of m1] by (auto simp: Tick ticked_def)
    ultimately show ?thesis using Cons.IH [OF m1(2) ff, of R fr] Cons.prems(5-7) run by (simp add: Tick)
  next
    case (Recv p t ck)
    show ?thesis
    proof (cases "packet_range p")
      case None
      have e: "rested m m1" using m1(3) None by (simp add: Recv)
      then have c: "covers F sess R m1" "mu_pending m1 = []" "unat (mu_expected m) \<le> unat (mu_expected m1)"
        using covers_same [OF Cons.prems(3), of m1] Cons.prems(4) by (auto simp: rested_def)
      have fr: "start_after fr ev = None \<longleftrightarrow> start_after start ev = None"
        using Cons.prems(6) by (cases fr; cases start) (auto simp: Recv)
      have le: "\<forall>e. start_after fr ev = Some e \<longrightarrow> e \<le> unat (mu_expected m1)"
      proof (cases fr)
        case (Some e)
        then show ?thesis using Cons.prems(7) c(3) by auto
      next
        case fn: None
        then have "start_after fr ev = start_after start ev" using Cons.prems(6) by simp
        moreover have "s0 \<le> unat (mu_expected m1)" if "start_after start ev = Some s0" for s0
          using m1(2) that by (auto simp: mold_at_def seq_ok_def of_nat_u64)
        ultimately show ?thesis by simp
      qed
      have "in_order (start_after fr ev) evs" using Cons.prems(5) None by (simp add: Recv)
      then show ?thesis using Cons.IH [OF m1(2) ff c(1,2) _ fr le run] None by (simp add: Recv)
    next
      case (Some r)
      obtain s n where r: "r = (s, n)" by fastforce
      let ?m = "if mu_expected m = 0 then m\<lparr>mu_expected := of_nat s\<rparr> else m"
      have e: "in_range s n" "stepped F sess s n ?m m1" using m1(3) Some by (simp_all add: Recv r)
      have at: "s \<le> unat (mu_expected ?m)"
      proof (cases fr)
        case None
        then have "mu_expected m = 0" using Cons.prems(1,6) by (auto simp: mold_at_def)
        then show ?thesis using of_nat_u64 [OF in_range_D(1) [OF e(1)]] by simp
      next
        case fs: (Some f)
        then have "s \<le> f" using Cons.prems(5) Some by (simp add: Recv r)
        then have "s \<le> unat (mu_expected m)" "mu_expected m \<noteq> 0"
          using Cons.prems(7) fs in_range_D(4) [OF e(1)] by (fastforce, fastforce)
        then show ?thesis by simp
      qed
      have c: "covers F sess (insert (s, n) R) m1"
        using covers_data [OF sess covers_started [OF Cons.prems(3,1)] e(2,1)] at by blast
      have p: "mu_pending m1 = []" "s + n \<le> unat (mu_expected m1)" "unat (mu_expected m) \<le> unat (mu_expected m1)"
        using e(2) at Cons.prems(4) by (auto simp: stepped_def split: if_splits)
      define fr' where "fr' = (case fr of None \<Rightarrow> s + n | Some f \<Rightarrow> max f (s + n))"
      have "in_order (Some fr') evs" using Cons.prems(5) Some by (simp add: Recv r fr'_def split: option.splits)
      moreover have "start_after start ev \<noteq> None"
      proof
        assume "start_after start ev = None"
        then have "mu_expected m1 = 0" using m1(2) by (simp add: mold_at_def)
        then show False using p(2) in_range_D(4) [OF e(1)] by simp
      qed
      moreover have "fr' \<le> unat (mu_expected m1)"
        using p(2,3) Cons.prems(7) by (auto simp: fr'_def split: option.splits intro: order_trans)
      ultimately show ?thesis using Cons.IH [OF m1(2) ff c p(1), of "Some fr'"] run Some by (simp add: Recv r)
    qed
  qed
qed simp

lemma run_timeouts:
  assumes F: "feed_ok F sess"
  shows "mold_at F sess cb h0 start (m, h) \<Longrightarrow> from_feed F sess evs \<Longrightarrow> mold_run cb evs (m, h) = Some (m', h') \<Longrightarrow>
    unat (ms_gap_timeouts (mu_stats m)) + length evs < 2 ^ 64 \<Longrightarrow>
    unat (ms_gap_timeouts (mu_stats m)) \<le> unat (ms_gap_timeouts (mu_stats m'))"
proof (induction evs arbitrary: m h start)
  case (Cons ev evs)
  let ?t = "\<lambda>m. unat (ms_gap_timeouts (mu_stats m))"
  obtain m1 h1 where m1: "mold_step cb ev (m, h) = Some (m1, h1)" "mold_at F sess cb h0 (start_after start ev) (m1, h1)"
      "effect F sess ev m m1"
    using mold_step_at [OF F Cons.prems(1,2)] by blast
  have run: "mold_run cb evs (m1, h1) = Some (m', h')" and ff: "from_feed F sess evs"
    using Cons.prems(2,3) m1(1) by (simp_all add: from_feed_def)
  have "ms_gap_timeouts (mu_stats m1) = ms_gap_timeouts (mu_stats m) \<or> ms_gap_timeouts (mu_stats m1) = ms_gap_timeouts (mu_stats m) + 1"
    using m1(3) by (cases ev) (auto simp: ticked_def rested_def stepped_def split: option.splits if_splits)
  moreover have "unat (ms_gap_timeouts (mu_stats m) + 1) = ?t m + 1"
    using Cons.prems(4) by (simp add: unat_word_ariths)
  ultimately have "?t m \<le> ?t m1" "?t m1 + length evs < 2 ^ 64" using Cons.prems(4) by auto
  then show ?case using Cons.IH [OF m1(2) ff run] by simp
qed simp

lemma run_no_ticks:
  assumes F: "feed_ok F sess"
  shows "mold_at F sess cb h0 start (m, h) \<Longrightarrow> from_feed F sess evs \<Longrightarrow> (\<And>t. Tick t \<notin> set evs) \<Longrightarrow>
    mold_run cb evs (m, h) = Some (m', h') \<Longrightarrow> ms_gap_timeouts (mu_stats m') = ms_gap_timeouts (mu_stats m)"
proof (induction evs arbitrary: m h start)
  case (Cons ev evs)
  obtain m1 h1 where m1: "mold_step cb ev (m, h) = Some (m1, h1)" "mold_at F sess cb h0 (start_after start ev) (m1, h1)"
      "effect F sess ev m m1"
    using mold_step_at [OF F Cons.prems(1,2)] by blast
  have "mold_run cb evs (m1, h1) = Some (m', h')" "from_feed F sess evs" using Cons.prems(2,4) m1(1) by (simp_all add: from_feed_def)
  moreover have "ms_gap_timeouts (mu_stats m1) = ms_gap_timeouts (mu_stats m)"
    using m1(3) Cons.prems(3) by (cases ev) (auto simp: rested_def stepped_def split: option.splits if_splits)
  ultimately show ?case using Cons.IH [OF m1(2)] Cons.prems(3) by simp
qed simp

lemma run_recovers:
  assumes F: "feed_ok F sess"
  shows "mold_at F sess cb h0 start (m, h) \<Longrightarrow> from_feed F sess evs \<Longrightarrow> covers F sess R m \<Longrightarrow> mu_recovery m \<Longrightarrow>
    length (mu_pending m) + length evs \<le> mo_max_buffered (mu_opts m) \<Longrightarrow> length evs < 2 ^ 64 \<Longrightarrow>
    same_cuts (R \<union> arrivals evs) \<Longrightarrow> mold_run cb evs (m, h) = Some (m', h') \<Longrightarrow>
    ms_gap_timeouts (mu_stats m) = 0 \<Longrightarrow> ms_gap_timeouts (mu_stats m') = 0 \<Longrightarrow> covers F sess (R \<union> arrivals evs) m'"
proof (induction evs arbitrary: m h start R)
  case (Cons ev evs)
  have sess: "length sess = 10" using F by (simp add: feed_ok_def)
  obtain m1 h1 where m1: "mold_step cb ev (m, h) = Some (m1, h1)" "mold_at F sess cb h0 (start_after start ev) (m1, h1)"
      "effect F sess ev m m1"
    using mold_step_at [OF F Cons.prems(1,2)] by blast
  have run: "mold_run cb evs (m1, h1) = Some (m', h')" and ff: "from_feed F sess evs"
    using Cons.prems(2,8) m1(1) by (simp_all add: from_feed_def)
  have conf: "mu_opts m1 = mu_opts m" "mu_recovery m1"
      "ms_gap_timeouts (mu_stats m1) = 0 \<or> ms_gap_timeouts (mu_stats m1) = 1"
    using m1(3) Cons.prems(4,9) by (cases ev; auto simp: ticked_def rested_def stepped_def split: option.splits if_splits)+
  have "unat (ms_gap_timeouts (mu_stats m1)) + length evs < 2 ^ 64" using conf(3) Cons.prems(6) by auto
  then have "unat (ms_gap_timeouts (mu_stats m1)) \<le> 0" using run_timeouts [OF F m1(2) ff run] Cons.prems(10) by simp
  then have t1: "ms_gap_timeouts (mu_stats m1) = 0" using conf(3) by auto
  have go: "covers F sess (R' \<union> arrivals evs) m'"
    if "covers F sess R' m1" "length (mu_pending m1) \<le> Suc (length (mu_pending m))" "same_cuts (R' \<union> arrivals evs)" for R'
    using Cons.IH [OF m1(2) ff that(1) conf(2) _ _ that(3) run t1 Cons.prems(10)] that(2) Cons.prems(5,6) conf(1) by simp
  show ?case
  proof (cases ev)
    case (Tick t)
    then have "mu_expected m1 = mu_expected m" "mu_pending m1 = mu_pending m" "covers F sess R m1"
      using m1(3) t1 Cons.prems(9) covers_same [OF Cons.prems(3), of m1] by (auto simp: ticked_def)
    then show ?thesis using go [of R] Cons.prems(7) by (simp add: Tick)
  next
    case (Recv p t ck)
    show ?thesis
    proof (cases "packet_range p")
      case None
      then have "rested m m1" using m1(3) by (simp add: Recv)
      then have "covers F sess R m1" "mu_pending m1 = mu_pending m"
        using covers_same [OF Cons.prems(3), of m1] by (auto simp: rested_def)
      then show ?thesis using go [of R] Cons.prems(7) None by (simp add: Recv)
    next
      case (Some r)
      obtain s n where r: "r = (s, n)" by fastforce
      let ?m = "if mu_expected m = 0 then m\<lparr>mu_expected := of_nat s\<rparr> else m"
      have e: "in_range s n" "stepped F sess s n ?m m1" using m1(3) Some by (simp_all add: Recv r)
      have cuts: "same_cuts (insert (s, n) R \<union> arrivals evs)" using Cons.prems(7) Some by (simp add: Recv r)
      then have "same_cuts (insert (s, n) R)" by (auto simp: same_cuts_def)
      moreover have "mu_recovery ?m" "length (mu_pending ?m) < mo_max_buffered (mu_opts ?m)" using Cons.prems(4,5) by auto
      ultimately have "covers F sess (insert (s, n) R) m1"
        using covers_data [OF sess covers_started [OF Cons.prems(3,1)] e(2,1)] by blast
      moreover have "length (mu_pending m1) \<le> Suc (length (mu_pending m))"
        using e(2) by (auto simp: stepped_def split: if_splits)
      ultimately show ?thesis using go [OF _ _ cuts] Some by (simp add: Recv r)
    qed
  qed
qed simp

lemma covered_end:
  assumes "covers F sess (arrivals evs) m" and "mold_at F sess cb h0 (foldl start_after None evs) (m, h)"
    and "{first_seq evs..<E} \<subseteq> received evs"
  shows "E \<le> unat (mu_expected m)"
proof (rule ccontr)
  assume no: "\<not> E \<le> unat (mu_expected m)"
  have "first_seq evs \<le> unat (mu_expected m)"
    using assms(2) by (auto simp: first_seq_def mold_at_def seq_ok_def of_nat_u64 split: option.splits)
  then have "unat (mu_expected m) \<in> received evs" using assms(3) no by auto
  then obtain s n where r: "(s, n) \<in> arrivals evs" "s \<le> unat (mu_expected m)" "unat (mu_expected m) < s + n"
    by (auto simp: received_def)
  then have h: "as_held F sess (s, n) \<in> set (mu_pending m)" and i: "in_range s n" using assms(1) by (auto simp: covers_def)
  then have "pending_ok F sess m" using assms(2) by (auto simp: mold_at_def split: option.splits)
  then have "mu_expected m < of_nat s" using h by (auto simp: pending_ok_def as_held_def)
  then have "unat (mu_expected m) < s" using of_nat_u64 [OF in_range_D(1) [OF i]] by (simp add: word_less_nat_alt)
  then show False using r(2) by simp
qed

lemma mold_at_delivered:
  assumes "mold_at F sess cb h0 start (m, h)"
  shows "\<exists>is. delivered F cb h0 (case start of None \<Rightarrow> 0 | Some s0 \<Rightarrow> s0) is (m, h) \<and>
    (ms_gap_messages (mu_stats m) = 0 \<longrightarrow> is = [(case start of None \<Rightarrow> 0 | Some s0 \<Rightarrow> s0)..<unat (mu_expected m)])"
proof (cases start)
  case None
  then show ?thesis using assms by (simp add: mold_at_def delivered_def)
next
  case (Some s0)
  then obtain "is" e where ok: "seq_ok F sess cb h0 s0 is e (m, h)" using assms by (auto simp: mold_at_def)
  then obtain lost where l: "ms_gap_messages (mu_stats m) = of_nat lost" "length is + lost = e - s0" "mu_expected m = of_nat e" "e < 2 ^ 64"
    unfolding seq_ok_def by auto
  then have u: "unat (mu_expected m) = e" "unat (ms_gap_messages (mu_stats m)) = lost" using of_nat_u64 by auto
  have "delivered F cb h0 s0 is (m, h)" using ok l u unfolding seq_ok_def delivered_def by (auto simp: of_nat_u64)
  moreover have "is = [s0..<e]" if "ms_gap_messages (mu_stats m) = 0"
    using ok l u that unfolding seq_ok_def by (intro strict_sorted_full) auto
  ultimately show ?thesis using u Some by auto
qed

lemma mold_run_ok:
  assumes F: "feed_ok F sess" and ff: "from_feed F sess evs"
    and m0: "m0 = mold_new \<or> (\<exists>a b c. m0 = enable_recovery mold_new a b c)"
  shows "\<exists>m h is. mold_run cb evs (m0, h0) = Some (m, h) \<and> delivered F cb h0 (first_seq evs) is (m, h) \<and>
    (ms_gap_messages (mu_stats m) = 0 \<longrightarrow> is = [first_seq evs..<unat (mu_expected m)]) \<and>
    (lossless m0 m evs \<longrightarrow> ms_gap_messages (mu_stats m) = 0 \<and>
      (\<forall>E. {first_seq evs..<E} \<subseteq> received evs \<longrightarrow> E \<le> unat (mu_expected m)))"
proof -
  have at0: "mold_at F sess cb h0 None (m0, h0)" using m0 mold_new_at by auto
  obtain m h where run: "mold_run cb evs (m0, h0) = Some (m, h)"
      and at: "mold_at F sess cb h0 (foldl start_after None evs) (m, h)"
    using mold_run_at [OF F at0 ff] by force
  have z: "mu_pending m0 = []" "ms_gap_timeouts (mu_stats m0) = 0" "ms_gap_messages (mu_stats m0) = 0"
      "mo_max_buffered (mu_opts m0) = 20000"
    using m0 by (auto simp: mold_new_def enable_recovery_def mold_stats0_def mold_options0_def)
  then have c0: "covers F sess {} m0" by (simp add: covers_def)
  have "covers F sess (arrivals evs) m" if "lossless m0 m evs"
    using that unfolding lossless_def
  proof (elim disjE conjE)
    assume "in_order None evs"
    then show ?thesis using run_in_order [OF F at0 ff c0 z(1) _ _ _ run] by simp
  next
    assume "mu_recovery m0" "ms_gap_timeouts (mu_stats m) = 0" "same_cuts (arrivals evs)" "length evs \<le> mo_max_buffered (mu_opts m0)"
    then show ?thesis using run_recovers [OF F at0 ff c0 _ _ _ _ run z(2)] z by simp
  qed
  then have "lossless m0 m evs \<longrightarrow> ms_gap_messages (mu_stats m) = 0 \<and>
      (\<forall>E. {first_seq evs..<E} \<subseteq> received evs \<longrightarrow> E \<le> unat (mu_expected m))"
    using covered_end [OF _ at] by (auto simp: covers_def)
  then show ?thesis using run mold_at_delivered [OF at] unfolding first_seq_def by blast
qed

end
