(* ===== verification/Flat_Hash.thy ===== *)
theory Flat_Hash
  imports Hash Interfaces
begin

unbundle bit_operations_syntax

text \<open>
  \<open>src/core/flat_hash.hpp\<close>: the open-addressing map \<open>FlatMap64\<close> (64-bit keys, linear
  probing, backward-shift deletion, growth by rehashing) and the set \<open>FlatSet64\<close> over it.
  The ITCH order book, the dedupe tables and the symbol indexes of the program live in it.

  A pointer into the table (\<open>V*\<close>) is the index of its slot. The probe loops are
  \<open>partial_function (option)\<close>, so a loop that never meets an empty slot is \<open>None\<close>; the
  invariant \<open>fm_inv\<close> rules that out, and every operation is shown to return.
\<close>

subsection \<open>State and operations\<close>

definition kEmpty :: u64 where
  "kEmpty = - 1"

record 'v slot =
  skey :: u64
  sval :: 'v

record 'v flat_map =
  fm_slots :: "'v slot list"
  fm_mask :: nat
  fm_size :: nat
  fm_grow_at :: nat
  fm_max_load :: double

definition fm_index :: "nat \<Rightarrow> u64 \<Rightarrow> nat" where
  \<comment> \<open>\<open>mix64(key) & mask_\<close>\<close>
  "fm_index msk key = unat (mix64 key) AND msk"

partial_function (option) probe_from ::
    "('v slot \<Rightarrow> bool) \<Rightarrow> 'v slot list \<Rightarrow> nat \<Rightarrow> nat \<Rightarrow> nat option" where
  \<comment> \<open>the loop every operation shares: from slot \<open>i\<close>, step by \<open>i = (i + 1) & mask_\<close> until \<open>stop\<close>\<close>
  "probe_from stop sl msk i =
     (if stop (sl ! i) then Some i else probe_from stop sl msk ((i + 1) AND msk))"

definition key_or_empty :: "u64 \<Rightarrow> 'v slot \<Rightarrow> bool" where
  "key_or_empty key s \<longleftrightarrow> skey s = key \<or> skey s = kEmpty"

definition slot_empty :: "'v slot \<Rightarrow> bool" where
  "slot_empty s \<longleftrightarrow> skey s = kEmpty"

fun rehash_into :: "nat \<Rightarrow> 'v slot list \<Rightarrow> 'v slot list \<Rightarrow> nat \<Rightarrow> ('v slot list \<times> nat) option" where
  \<comment> \<open>the loop over the old slots of \<open>rehash\<close>: new slots and their count\<close>
  "rehash_into msk [] sl n = Some (sl, n)"
| "rehash_into msk (s # old) sl n =
     (if skey s = kEmpty then rehash_into msk old sl n
      else case probe_from slot_empty sl msk (fm_index msk (skey s)) of
             None \<Rightarrow> None
           | Some i \<Rightarrow> rehash_into msk old (sl[i := s]) (n + 1))"

definition rehash :: "'v \<Rightarrow> nat \<Rightarrow> 'v flat_map \<Rightarrow> 'v flat_map option" where
  \<comment> \<open>\<open>dflt\<close> is the value-initialised \<open>V{}\<close>\<close>
  "rehash dflt new_cap m =
     (case rehash_into (new_cap - 1) (fm_slots m) (replicate new_cap \<lparr>skey = kEmpty, sval = dflt\<rparr>) 0 of
        None \<Rightarrow> None
      | Some (sl, n) \<Rightarrow>
          Some (m\<lparr>fm_slots := sl, fm_mask := new_cap - 1, fm_size := n,
                  fm_grow_at := nat \<lfloor>real new_cap * fm_max_load m\<rfloor>\<rparr>))"

definition flat_map_new :: "'v \<Rightarrow> nat \<Rightarrow> double \<Rightarrow> 'v flat_map option" where
  "flat_map_new dflt initial_capacity max_load =
     rehash dflt (next_pow2 (if initial_capacity < 8 then 8 else initial_capacity))
       \<lparr>fm_slots = [], fm_mask = 0, fm_size = 0, fm_grow_at = 0, fm_max_load = max_load\<rparr>"

definition fm_find :: "'v flat_map \<Rightarrow> u64 \<Rightarrow> nat option option" where
  \<comment> \<open>outer \<open>None\<close>: does not return; \<open>Some None\<close>: \<open>nullptr\<close>; \<open>Some (Some i)\<close>: \<open>&slots_[i].value\<close>\<close>
  "fm_find m key =
     (case probe_from (key_or_empty key) (fm_slots m) (fm_mask m) (fm_index (fm_mask m) key) of
        None \<Rightarrow> None
      | Some i \<Rightarrow> Some (if skey (fm_slots m ! i) = key then Some i else None))"

definition fm_contains :: "'v flat_map \<Rightarrow> u64 \<Rightarrow> bool option" where
  "fm_contains m key = map_option (\<lambda>p. p \<noteq> None) (fm_find m key)"

definition try_emplace :: "'v \<Rightarrow> 'v flat_map \<Rightarrow> u64 \<Rightarrow> ('v flat_map \<times> nat \<times> bool) option" where
  "try_emplace dflt m key =
     (case (if fm_size m + 1 > fm_grow_at m then rehash dflt (length (fm_slots m) * 2) m else Some m) of
        None \<Rightarrow> None
      | Some m \<Rightarrow>
          (case probe_from (key_or_empty key) (fm_slots m) (fm_mask m) (fm_index (fm_mask m) key) of
             None \<Rightarrow> None
           | Some i \<Rightarrow>
               if skey (fm_slots m ! i) = key then Some (m, i, False)
               else Some (m\<lparr>fm_slots := (fm_slots m)[i := \<lparr>skey = key, sval = dflt\<rparr>],
                            fm_size := fm_size m + 1\<rparr>, i, True)))"

definition value_at :: "'v flat_map \<Rightarrow> nat \<Rightarrow> 'v" where
  "value_at m i = sval (fm_slots m ! i)"

definition set_value :: "'v flat_map \<Rightarrow> nat \<Rightarrow> 'v \<Rightarrow> 'v flat_map" where
  \<comment> \<open>\<open>*p = v\<close> through a pointer to slot \<open>i\<close>\<close>
  "set_value m i v = m\<lparr>fm_slots := (fm_slots m)[i := (fm_slots m ! i)\<lparr>sval := v\<rparr>]\<rparr>"

definition insert_or_assign :: "'v \<Rightarrow> 'v flat_map \<Rightarrow> u64 \<Rightarrow> 'v \<Rightarrow> ('v flat_map \<times> nat) option" where
  "insert_or_assign dflt m key v =
     (case try_emplace dflt m key of
        None \<Rightarrow> None
      | Some (m, p, inserted) \<Rightarrow> Some (set_value m p v, p))"

definition movable :: "nat \<Rightarrow> nat \<Rightarrow> nat \<Rightarrow> bool" where
  \<comment> \<open>\<open>ideal\<close> is cyclically outside \<open>(hole, j]\<close>\<close>
  "movable hole j ideal =
     (if hole \<le> j then ideal \<le> hole \<or> ideal > j else ideal \<le> hole \<and> ideal > j)"

partial_function (option) shift_from ::
    "'v slot list \<Rightarrow> nat \<Rightarrow> nat \<Rightarrow> nat \<Rightarrow> ('v slot list \<times> nat) option" where
  \<comment> \<open>the backward-shift loop of \<open>erase\<close>: the slots and the final hole\<close>
  "shift_from sl msk hole j =
     (let j = (j + 1) AND msk in
      if skey (sl ! j) = kEmpty then Some (sl, hole)
      else if movable hole j (fm_index msk (skey (sl ! j)))
           then shift_from (sl[hole := sl ! j]) msk j j
           else shift_from sl msk hole j)"

definition erase :: "'v flat_map \<Rightarrow> u64 \<Rightarrow> ('v flat_map \<times> bool) option" where
  "erase m key =
     (case probe_from (key_or_empty key) (fm_slots m) (fm_mask m) (fm_index (fm_mask m) key) of
        None \<Rightarrow> None
      | Some i \<Rightarrow>
          if skey (fm_slots m ! i) = kEmpty then Some (m, False)
          else (case shift_from (fm_slots m) (fm_mask m) i i of
             None \<Rightarrow> None
           | Some (sl, hole) \<Rightarrow>
               Some (m\<lparr>fm_slots := sl[hole := (sl ! hole)\<lparr>skey := kEmpty\<rparr>],
                       fm_size := fm_size m - 1\<rparr>, True)))"

definition fm_clear :: "'v flat_map \<Rightarrow> 'v flat_map" where
  "fm_clear m = m\<lparr>fm_slots := map (\<lambda>s. s\<lparr>skey := kEmpty\<rparr>) (fm_slots m), fm_size := 0\<rparr>"

definition reserve :: "'v \<Rightarrow> 'v flat_map \<Rightarrow> nat \<Rightarrow> 'v flat_map option" where
  "reserve dflt m n =
     (let want = next_pow2 (nat \<lfloor>real n / fm_max_load m\<rfloor> + 1)
      in if want > length (fm_slots m) then rehash dflt want m else Some m)"

definition for_each :: "(u64 \<Rightarrow> 'v \<Rightarrow> 's \<Rightarrow> 's) \<Rightarrow> 'v flat_map \<Rightarrow> 's \<Rightarrow> 's" where
  "for_each f m = fold (\<lambda>s st. if skey s \<noteq> kEmpty then f (skey s) (sval s) st else st) (fm_slots m)"

subsection \<open>The set \<open>FlatSet64\<close>\<close>

type_synonym flat_set = "unit flat_map"

definition flat_set_new :: "nat \<Rightarrow> flat_set option" where
  "flat_set_new cap = flat_map_new () cap 0.7"

definition fs_insert :: "flat_set \<Rightarrow> u64 \<Rightarrow> (flat_set \<times> bool) option" where
  "fs_insert s k = map_option (\<lambda>(m, _, inserted). (m, inserted)) (try_emplace () s k)"

subsection \<open>Abstraction and invariant\<close>

definition entries :: "'v slot list \<Rightarrow> (u64 \<times> 'v) list" where
  "entries sl = map (\<lambda>s. (skey s, sval s)) (filter (\<lambda>s. skey s \<noteq> kEmpty) sl)"

definition fm_map :: "'v flat_map \<Rightarrow> u64 \<Rightarrow> 'v option" where
  \<comment> \<open>the finite map a table stands for\<close>
  "fm_map m = map_of (entries (fm_slots m))"

definition occ :: "'v slot list \<Rightarrow> nat \<Rightarrow> bool" where
  "occ sl i \<longleftrightarrow> skey (sl ! i) \<noteq> kEmpty"

definition home :: "'v slot list \<Rightarrow> nat \<Rightarrow> nat" where
  \<comment> \<open>the ideal slot of the entry stored at \<open>i\<close>\<close>
  "home sl i = fm_index (length sl - 1) (skey (sl ! i))"

definition reachable_from_home :: "'v slot list \<Rightarrow> nat \<Rightarrow> bool" where
  \<comment> \<open>no empty slot between an entry's ideal slot and its actual one\<close>
  "reachable_from_home sl i \<longleftrightarrow>
     (\<forall>t < rdist (length sl) (home sl i) i. occ sl ((home sl i + t) mod length sl))"

definition keys_distinct :: "'v slot list \<Rightarrow> bool" where
  "keys_distinct sl \<longleftrightarrow>
     (\<forall>i < length sl. \<forall>j < length sl. occ sl i \<longrightarrow> skey (sl ! i) = skey (sl ! j) \<longrightarrow> i = j)"

definition n_occ :: "'v slot list \<Rightarrow> nat" where
  "n_occ sl = length (filter (\<lambda>s. skey s \<noteq> kEmpty) sl)"

definition probe_inv :: "'v slot list \<Rightarrow> bool" where
  "probe_inv sl \<longleftrightarrow> is_pow2 (length sl) \<and> keys_distinct sl \<and>
     (\<forall>i < length sl. occ sl i \<longrightarrow> reachable_from_home sl i)"

definition table_inv :: "'v slot list \<Rightarrow> bool" where
  \<comment> \<open>with at least one empty slot, every probe stops\<close>
  "table_inv sl \<longleftrightarrow> probe_inv sl \<and> n_occ sl < length sl"

definition fm_inv :: "'v flat_map \<Rightarrow> bool" where
  "fm_inv m \<longleftrightarrow> table_inv (fm_slots m) \<and> fm_mask m = length (fm_slots m) - 1 \<and>
     fm_size m = n_occ (fm_slots m) \<and> fm_grow_at m < length (fm_slots m) \<and>
     0 < fm_max_load m \<and> fm_max_load m < 1"

subsection \<open>Slots and probing\<close>

lemma occ_update: "i < length sl \<Longrightarrow> occ (sl[i := s]) j \<longleftrightarrow> (if j = i then skey s \<noteq> kEmpty else occ sl j)"
  by (simp add: occ_def nth_list_update)

lemma home_update: "j < length sl \<Longrightarrow> home (sl[i := s]) j =
    (if j = i then fm_index (length sl - 1) (skey s) else home sl j)"
  by (simp add: home_def nth_list_update)

lemma fm_index_lt: "is_pow2 n \<Longrightarrow> fm_index (n - 1) k < n"
  by (simp add: fm_index_def ring_simps)

lemmas fm_index_lt_Suc = fm_index_lt [unfolded One_nat_def]

lemma home_lt: "is_pow2 (length sl) \<Longrightarrow> home sl i < length sl"
  by (simp add: home_def fm_index_lt_Suc)

lemma n_occ_update:
  "i < length sl \<Longrightarrow> n_occ (sl[i := s]) + (if occ sl i then 1 else 0) =
    n_occ sl + (if skey s \<noteq> kEmpty then 1 else 0)"
  unfolding n_occ_def occ_def by (rule length_filter_update)

lemma probe_from_first:
  assumes "is_pow2 n" and "i < n"
    and "stop (sl ! ((i + d) mod n))" and "\<forall>t < d. \<not> stop (sl ! ((i + t) mod n))"
  shows "probe_from stop sl (n - 1) i = Some ((i + d) mod n)"
  using assms
proof (induction d arbitrary: i)
  case 0
  then show ?case by (simp add: probe_from.simps)
next
  case (Suc d)
  let ?i = "Suc i mod n"
  have shift: "(?i + t) mod n = (i + Suc t) mod n" for t
    by (simp add: mod_add_left_eq)
  have "probe_from stop sl (n - 1) ?i = Some ((?i + d) mod n)"
    using Suc.prems by (intro Suc.IH) (auto simp: shift dest: spec [of _ "Suc _"])
  moreover have "\<not> stop (sl ! i)"
    using Suc.prems(2,4) by (metis Suc_neq_Zero add.right_neutral mod_less not_gr_zero)
  ultimately show ?case
    using Suc.prems(1) by (simp add: probe_from.simps [of _ _ _ i] ring_simps shift)
qed

text \<open>Every probe that has somewhere to stop returns, at the first such slot.\<close>

lemma probe_from_returns:
  assumes n: "is_pow2 n" and i: "i < n" and e: "e < n" "stop (sl ! e)"
  obtains d where "d < n" and "probe_from stop sl (n - 1) i = Some ((i + d) mod n)"
    and "stop (sl ! ((i + d) mod n))" and "\<forall>t < d. \<not> stop (sl ! ((i + t) mod n))"
proof -
  let ?P = "\<lambda>d. stop (sl ! ((i + d) mod n))"
  define d where "d = (LEAST d. ?P d)"
  have ex: "?P (rdist n i e)" using i e by (simp add: rdist_reach)
  then have "?P d" unfolding d_def by (rule LeastI)
  moreover have "\<forall>t < d. \<not> ?P t" unfolding d_def by (auto dest: not_less_Least)
  moreover have "d \<le> rdist n i e" unfolding d_def by (rule Least_le [of ?P, OF ex])
  then have "d < n" using rdist_lt [OF i e(1)] by simp
  ultimately show thesis using n i that probe_from_first by blast
qed

lemma empty_slot_ex: "n_occ sl < length sl \<Longrightarrow> \<exists>e < length sl. \<not> occ sl e"
  using filter_shorter_ex [of "\<lambda>s. skey s \<noteq> kEmpty" sl] by (auto simp: n_occ_def occ_def)

subsection \<open>The abstract map, slot by slot\<close>

lemma distinct_keys_filter:
  assumes "keys_distinct sl"
  shows "distinct (map skey (filter (\<lambda>s. skey s \<noteq> kEmpty) sl))"
  using assms
proof (induction sl)
  case (Cons s sl)
  have "keys_distinct sl"
    unfolding keys_distinct_def
  proof (intro allI impI)
    fix i j assume "i < length sl" "j < length sl" "occ sl i" "skey (sl ! i) = skey (sl ! j)"
    then have "Suc i = Suc j" using Cons.prems unfolding keys_distinct_def occ_def
      by (metis Suc_less_eq length_Cons nth_Cons_Suc)
    then show "i = j" by simp
  qed
  moreover have "skey s \<notin> skey ` set (filter (\<lambda>s. skey s \<noteq> kEmpty) sl)" if "skey s \<noteq> kEmpty"
  proof
    assume "skey s \<in> skey ` set (filter (\<lambda>s. skey s \<noteq> kEmpty) sl)"
    then obtain j where "j < length sl" "skey (sl ! j) = skey s" by (auto simp: in_set_conv_nth)
    with Cons.prems that have "0 = Suc j" unfolding keys_distinct_def occ_def
      by (metis Suc_less_eq length_Cons nth_Cons_0 nth_Cons_Suc zero_less_Suc)
    then show False by simp
  qed
  ultimately show ?case using Cons.IH by auto
qed simp

lemma map_of_entries_Some:
  assumes "keys_distinct sl"
  shows "map_of (entries sl) k = Some v \<longleftrightarrow>
    k \<noteq> kEmpty \<and> (\<exists>i < length sl. skey (sl ! i) = k \<and> sval (sl ! i) = v)"
proof -
  have "distinct (map fst (entries sl))"
    using distinct_keys_filter [OF assms] by (simp add: entries_def comp_def)
  then have "map_of (entries sl) k = Some v \<longleftrightarrow> (k, v) \<in> set (entries sl)"
    by (rule map_of_eq_Some_iff)
  then show ?thesis by (auto simp: entries_def in_set_conv_nth)
qed

lemma map_of_entries_None:
  "map_of (entries sl) k = None \<longleftrightarrow> k = kEmpty \<or> (\<forall>i < length sl. skey (sl ! i) \<noteq> k)"
  by (auto simp: map_of_eq_None_iff entries_def in_set_conv_nth image_iff)

lemma map_entries_cong:
  assumes "keys_distinct sl" and "keys_distinct sl'"
    and "\<And>k v. k \<noteq> kEmpty \<Longrightarrow>
      (\<exists>i < length sl'. skey (sl' ! i) = k \<and> sval (sl' ! i) = v) \<longleftrightarrow> M k = Some v"
    and "M kEmpty = None"
  shows "map_of (entries sl') = M"
proof
  fix k show "map_of (entries sl') k = M k"
    using assms(3) [of k] assms(4) map_of_entries_Some [OF assms(2), of k]
    by (cases "k = kEmpty"; cases "M k"; cases "map_of (entries sl') k") auto
qed

subsection \<open>Lookup\<close>

lemma keys_distinctD:
  "keys_distinct sl \<Longrightarrow> i < length sl \<Longrightarrow> j < length sl \<Longrightarrow> skey (sl ! i) = k \<Longrightarrow>
    skey (sl ! j) = k \<Longrightarrow> k \<noteq> kEmpty \<Longrightarrow> i = j"
  by (auto simp: keys_distinct_def occ_def)

lemma probe_present:
  assumes inv: "probe_inv sl" and p: "p < length sl" "skey (sl ! p) = k" and k: "k \<noteq> kEmpty"
  shows "probe_from (key_or_empty k) sl (length sl - 1) (fm_index (length sl - 1) k) = Some p"
proof -
  let ?n = "length sl"
  let ?h = "home sl p"
  from inv have n: "is_pow2 ?n" and kd: "keys_distinct sl" by (auto simp: probe_inv_def)
  have h: "?h < ?n" using n by (rule home_lt)
  have occp: "occ sl p" using p k by (simp add: occ_def)
  have d: "rdist ?n ?h p < ?n" using h p(1) by (rule rdist_lt)
  have before: "\<not> key_or_empty k (sl ! ((?h + t) mod ?n))" if t: "t < rdist ?n ?h p" for t
  proof -
    let ?q = "(?h + t) mod ?n"
    have q: "?q < ?n" using n by simp
    have "occ sl ?q" using inv p(1) occp t by (auto simp: probe_inv_def reachable_from_home_def)
    moreover have "?q \<noteq> p" using t d h rdist_of_step [of ?h ?n t] by auto
    then have "skey (sl ! ?q) \<noteq> k" using keys_distinctD [OF kd q p(1) _ p(2) k] by blast
    ultimately show ?thesis by (simp add: key_or_empty_def occ_def)
  qed
  have "(?h + rdist ?n ?h p) mod ?n = p" using h p(1) by (rule rdist_reach)
  then have "probe_from (key_or_empty k) sl (?n - 1) ?h = Some p"
    using probe_from_first [OF n h, of "key_or_empty k" sl "rdist ?n ?h p"] before p(2)
    by (simp add: key_or_empty_def)
  then show ?thesis using p(2) by (simp add: home_def)
qed

lemma probe_absent:
  assumes inv: "table_inv sl" and absent: "\<forall>i < length sl. skey (sl ! i) \<noteq> k"
  obtains d where "d < length sl"
    and "probe_from (key_or_empty k) sl (length sl - 1) (fm_index (length sl - 1) k) =
      Some ((fm_index (length sl - 1) k + d) mod length sl)"
    and "\<not> occ sl ((fm_index (length sl - 1) k + d) mod length sl)"
    and "\<forall>t < d. occ sl ((fm_index (length sl - 1) k + t) mod length sl)"
proof -
  let ?n = "length sl" and ?h = "fm_index (length sl - 1) k"
  from inv have n: "is_pow2 ?n" and "n_occ sl < ?n" by (auto simp: table_inv_def probe_inv_def)
  then obtain e where e: "e < ?n" "\<not> occ sl e" using empty_slot_ex by blast
  then have stop: "key_or_empty k (sl ! e)" by (simp add: key_or_empty_def occ_def)
  have q: "(?h + t) mod ?n < ?n" for t using n by simp
  have eq: "key_or_empty k (sl ! ((?h + t) mod ?n)) \<longleftrightarrow> \<not> occ sl ((?h + t) mod ?n)" for t
    using absent q [of t] by (simp add: key_or_empty_def occ_def)
  have h: "?h < ?n" using n by (rule fm_index_lt)
  obtain d where "d < ?n" "probe_from (key_or_empty k) sl (?n - 1) ?h = Some ((?h + d) mod ?n)"
      "key_or_empty k (sl ! ((?h + d) mod ?n))"
      "\<forall>t < d. \<not> key_or_empty k (sl ! ((?h + t) mod ?n))"
    using probe_from_returns [where stop = "key_or_empty k" and sl = sl, OF n h e(1) stop] by metis
  then show thesis using that [of d] unfolding eq not_not by blast
qed

subsection \<open>Insertion and overwriting\<close>

lemma insert_slot:
  assumes inv: "probe_inv sl" and s: "skey s \<noteq> kEmpty"
    and absent: "\<forall>i < length sl. skey (sl ! i) \<noteq> skey s"
    and d: "d < length sl" and i: "i = (fm_index (length sl - 1) (skey s) + d) mod length sl"
    and free: "\<not> occ sl i"
    and path: "\<forall>t < d. occ sl ((fm_index (length sl - 1) (skey s) + t) mod length sl)"
  shows "probe_inv (sl[i := s])" and "n_occ (sl[i := s]) = Suc (n_occ sl)"
    and "map_of (entries (sl[i := s])) = (map_of (entries sl))(skey s \<mapsto> sval s)"
proof -
  let ?n = "length sl" and ?sl = "sl[i := s]" and ?h = "fm_index (length sl - 1) (skey s)"
  from inv have n: "is_pow2 ?n" and kd: "keys_distinct sl" by (auto simp: probe_inv_def)
  have i_lt: "i < ?n" unfolding i using n by simp
  have kd': "keys_distinct ?sl"
    using kd absent i_lt s unfolding keys_distinct_def occ_def
    by (auto simp: nth_list_update)
  have occ': "occ ?sl j" if "occ sl j" for j
    using that s i_lt by (auto simp: occ_update)
  have "reachable_from_home ?sl j" if j: "j < ?n" "occ ?sl j" for j
  proof (cases "j = i")
    case True
    have "rdist ?n ?h i = d" unfolding i using rdist_of_step [OF fm_index_lt [OF n] d] .
    moreover have "home ?sl i = ?h" using i_lt by (simp add: home_update)
    ultimately show ?thesis using True path occ' by (simp add: reachable_from_home_def)
  next
    case False
    then have "reachable_from_home sl j" using inv j i_lt by (auto simp: probe_inv_def occ_update)
    then show ?thesis using False occ' i_lt j(1) by (simp add: reachable_from_home_def home_update)
  qed
  then show "probe_inv ?sl" using n kd' by (simp add: probe_inv_def)
  show "n_occ ?sl = Suc (n_occ sl)" using n_occ_update [OF i_lt, of s] free s by simp
  show "map_of (entries ?sl) = (map_of (entries sl))(skey s \<mapsto> sval s)"
  proof (rule map_entries_cong [OF kd kd'])
    fix k v assume "k \<noteq> kEmpty"
    then show "(\<exists>j < length ?sl. skey (?sl ! j) = k \<and> sval (?sl ! j) = v) \<longleftrightarrow>
        ((map_of (entries sl))(skey s \<mapsto> sval s)) k = Some v"
      using absent free i_lt map_of_entries_Some [OF kd, of k v]
      by (cases "k = skey s") (auto simp: nth_list_update occ_def)
  qed (simp add: s [symmetric] map_of_entries_None)
qed

lemma n_occ_keys: "n_occ sl = length (filter (\<lambda>k. k \<noteq> kEmpty) (map skey sl))"
  by (simp add: n_occ_def filter_map comp_def)

lemma probe_inv_keys:
  assumes "map skey sl' = map skey sl"
  shows "probe_inv sl' = probe_inv sl"
proof -
  have len: "length sl' = length sl" using assms by (rule map_eq_imp_length_eq)
  have key: "skey (sl' ! i) = skey (sl ! i)" if "i < length sl" for i
    using assms that len by (metis nth_map)
  have "occ sl' i = occ sl i" "home sl' i = home sl i" if "i < length sl" for i
    using key [OF that] len by (simp_all add: occ_def home_def)
  then show ?thesis
    using len key by (auto simp: probe_inv_def keys_distinct_def reachable_from_home_def)
qed

lemma overwrite_slot:
  fixes v :: 'v
  assumes inv: "probe_inv sl" and i: "i < length sl" "occ sl i"
  defines "sl' \<equiv> sl[i := (sl ! i)\<lparr>sval := v\<rparr>]"
  shows "probe_inv sl'" and "n_occ sl' = n_occ sl"
    and "map_of (entries sl') = (map_of (entries sl))(skey (sl ! i) \<mapsto> v)"
proof -
  have keys: "map skey sl' = map skey sl"
  proof -
    have "map skey sl ! i = skey (sl ! i)" using i(1) by simp
    then have "(map skey sl)[i := skey (sl ! i)] = map skey sl"
      using list_update_id [of "map skey sl" i] by simp
    then show ?thesis unfolding sl'_def map_update by simp
  qed
  show inv': "probe_inv sl'" using inv probe_inv_keys [OF keys] by blast
  show "n_occ sl' = n_occ sl" by (simp only: n_occ_keys keys)
  have kd: "keys_distinct sl" "keys_distinct sl'" using inv inv' by (auto simp: probe_inv_def)
  show "map_of (entries sl') = (map_of (entries sl))(skey (sl ! i) \<mapsto> v)"
  proof (rule map_entries_cong [OF kd])
    fix k v' assume k: "k \<noteq> kEmpty"
    show "(\<exists>j < length sl'. skey (sl' ! j) = k \<and> sval (sl' ! j) = v') \<longleftrightarrow>
        ((map_of (entries sl))(skey (sl ! i) \<mapsto> v)) k = Some v'"
      using i k map_of_entries_Some [OF kd(1), of k v'] keys_distinctD [OF kd(1) i(1)]
      unfolding sl'_def by (auto simp: nth_list_update)
  qed (use i(2) in \<open>auto simp: occ_def map_of_entries_None\<close>)
qed

subsection \<open>Backward-shift deletion\<close>

lemma movable_iff:
  "hole < n \<Longrightarrow> j < n \<Longrightarrow> ideal < n \<Longrightarrow> hole \<noteq> j \<Longrightarrow>
    movable hole j ideal \<longleftrightarrow> rdist n hole j \<le> rdist n ideal j"
  by (auto simp: movable_def rdist_def)

definition entry_off :: "'v slot list \<Rightarrow> nat \<Rightarrow> u64 \<Rightarrow> 'v \<Rightarrow> bool" where
  \<comment> \<open>the entries of a table whose slot \<open>h\<close> is a hole\<close>
  "entry_off sl h k v \<longleftrightarrow> (\<exists>i < length sl. i \<noteq> h \<and> skey (sl ! i) = k \<and> sval (sl ! i) = v)"

definition distinct_off :: "'v slot list \<Rightarrow> nat \<Rightarrow> bool" where
  "distinct_off sl h \<longleftrightarrow>
     (\<forall>a < length sl. \<forall>b < length sl. a \<noteq> h \<longrightarrow> b \<noteq> h \<longrightarrow> occ sl a \<longrightarrow>
        skey (sl ! a) = skey (sl ! b) \<longrightarrow> a = b)"

definition scanned :: "'v slot list \<Rightarrow> nat \<Rightarrow> nat \<Rightarrow> bool" where
  \<comment> \<open>the slots in \<open>(h, j]\<close> hold entries whose probe path does not cross the hole\<close>
  "scanned sl h j \<longleftrightarrow>
     (\<forall>p < length sl. p \<noteq> h \<longrightarrow> rdist (length sl) h p \<le> rdist (length sl) h j \<longrightarrow>
        occ sl p \<and> rdist (length sl) (home sl p) p < rdist (length sl) h p)"

definition hole_inv :: "'v slot list \<Rightarrow> nat \<Rightarrow> nat \<Rightarrow> bool" where
  \<comment> \<open>loop invariant: every entry is still reachable when the hole counts as occupied\<close>
  "hole_inv sl h j \<longleftrightarrow> is_pow2 (length sl) \<and> h < length sl \<and> j < length sl \<and> occ sl h \<and>
     (\<exists>e < length sl. \<not> occ sl e) \<and> distinct_off sl h \<and> scanned sl h j \<and>
     (\<forall>p < length sl. p \<noteq> h \<longrightarrow> occ sl p \<longrightarrow> reachable_from_home sl p)"

lemma hole_inv_next:
  assumes "hole_inv sl h j"
  shows "Suc j mod length sl < length sl" and "Suc j mod length sl \<noteq> h"
    and "rdist (length sl) h (Suc j mod length sl) = Suc (rdist (length sl) h j)"
    and "occ sl j"
proof -
  let ?n = "length sl" and ?j = "Suc j mod length sl"
  from assms have n: "is_pow2 ?n" and h: "h < ?n" and j: "j < ?n" and oh: "occ sl h"
    by (auto simp: hole_inv_def)
  from assms obtain e where e: "e < ?n" "\<not> occ sl e" by (auto simp: hole_inv_def)
  have scanned: "occ sl p" if "p < ?n" "rdist ?n h p \<le> rdist ?n h j" for p
    using assms that oh by (cases "p = h") (auto simp: hole_inv_def scanned_def)
  show "occ sl j" using scanned j by simp
  show "?j < ?n" using n by simp
  show neq: "?j \<noteq> h"
  proof
    assume "?j = h"
    then have "rdist ?n h j = ?n - 1" using h j by (cases "Suc j = ?n") (auto simp: rdist_def)
    moreover have "rdist ?n h e \<le> ?n - 1" using rdist_lt [OF h e(1)] by simp
    ultimately show False using scanned [OF e(1)] e(2) by simp
  qed
  show "rdist ?n h ?j = Suc (rdist ?n h j)" using h j neq by (rule rdist_Suc_right)
qed

lemma hole_inv_skip:
  assumes inv: "hole_inv sl h j" and occ: "occ sl (Suc j mod length sl)"
    and stay: "\<not> movable h (Suc j mod length sl) (home sl (Suc j mod length sl))"
  shows "hole_inv sl h (Suc j mod length sl)"
proof -
  let ?n = "length sl" and ?j = "Suc j mod length sl"
  note nxt = hole_inv_next [OF inv]
  from inv have n: "is_pow2 ?n" and h: "h < ?n" by (auto simp: hole_inv_def)
  have "rdist ?n (home sl ?j) ?j < rdist ?n h ?j"
    using stay movable_iff [OF h nxt(1) home_lt [OF n] nxt(2) [symmetric]] by simp
  moreover have "p = ?j" if "p < ?n" "rdist ?n h p = Suc (rdist ?n h j)" for p
    using rdist_reach [OF h that(1)] rdist_reach [OF h nxt(1)] that(2) nxt(3) by simp
  ultimately have "scanned sl h ?j"
    using inv occ nxt(3) by (auto simp: hole_inv_def scanned_def le_Suc_eq)
  then show ?thesis using inv nxt(1) by (simp add: hole_inv_def)
qed

lemma hole_inv_move:
  assumes inv: "hole_inv sl h j" and oj: "occ sl (Suc j mod length sl)"
    and mv: "movable h (Suc j mod length sl) (home sl (Suc j mod length sl))"
  defines "j' \<equiv> Suc j mod length sl"
  shows "hole_inv (sl[h := sl ! j']) j' j'"
    and "entry_off (sl[h := sl ! j']) j' k v = entry_off sl h k v"
    and "n_occ (sl[h := sl ! j']) = n_occ sl"
proof -
  let ?n = "length sl" and ?sl = "sl[h := sl ! j']"
  note nxt = hole_inv_next [OF inv, folded j'_def]
  note oj = oj [folded j'_def] and mv = mv [folded j'_def]
  from inv have n: "is_pow2 ?n" and h: "h < ?n" and oh: "occ sl h" by (auto simp: hole_inv_def)
  let ?c = "home sl j'"
  have c: "?c < ?n" using n by (rule home_lt)
  have far: "rdist ?n h j' \<le> rdist ?n ?c j'"
    using mv movable_iff [OF h nxt(1) c nxt(2) [symmetric]] by simp
  have d: "rdist ?n ?c j' = rdist ?n ?c h + rdist ?n h j'"
    using rdist_add [OF c h nxt(1) far] .
  have occ': "occ ?sl p = occ sl p" for p
    using h oh oj by (auto simp: occ_def nth_list_update)
  have home': "home ?sl p = (if p = h then ?c else home sl p)" if "p < ?n" for p
    using that h by (simp add: home_def nth_list_update)
  have rj: "reachable_from_home sl j'"
    using inv nxt(1,2) oj by (auto simp: hole_inv_def)
  have "reachable_from_home ?sl p" if p: "p < ?n" "p \<noteq> j'" "occ sl p" for p
  proof (cases "p = h")
    case True
    then show ?thesis using rj d p(1) by (auto simp: reachable_from_home_def occ' home')
  next
    case False
    then have "reachable_from_home sl p" using inv p by (auto simp: hole_inv_def)
    then show ?thesis using False p(1) by (simp add: reachable_from_home_def occ' home')
  qed
  moreover have "distinct_off ?sl j'"
    unfolding distinct_off_def
  proof (intro allI impI)
    fix a b assume a: "a < length ?sl" "b < length ?sl" "a \<noteq> j'" "b \<noteq> j'" "occ ?sl a"
      and eq: "skey (?sl ! a) = skey (?sl ! b)"
    let ?f = "\<lambda>x. if x = h then j' else x"
    have f: "?sl ! x = sl ! ?f x" for x using h by (simp add: nth_list_update)
    have "distinct_off sl h" using inv by (simp add: hole_inv_def)
    then have "?f a = ?f b"
      using a eq nxt(1,2) oj f [of a] f [of b] unfolding distinct_off_def occ' by auto
    then show "a = b" using a(3,4) by (auto split: if_splits)
  qed
  moreover have "scanned ?sl j' j'"
    using nxt(1) by (auto simp: scanned_def rdist_zero)
  ultimately show "hole_inv ?sl j' j'"
    using inv nxt(1) oj by (simp add: hole_inv_def occ')
  show "entry_off ?sl j' k v = entry_off sl h k v"
  proof
    assume "entry_off ?sl j' k v"
    then show "entry_off sl h k v"
      using h nxt(1,2) by (auto simp: entry_off_def nth_list_update split: if_splits)
  next
    assume "entry_off sl h k v"
    then obtain i where i: "i < ?n" "i \<noteq> h" "skey (sl ! i) = k" "sval (sl ! i) = v"
      by (auto simp: entry_off_def)
    then show "entry_off ?sl j' k v"
      using h nxt(1,2) unfolding entry_off_def
      by (intro exI [of _ "if i = j' then h else i"]) (auto simp: nth_list_update)
  qed
  show "n_occ ?sl = n_occ sl"
    using n_occ_update [OF h, of "sl ! j'"] oh oj by (simp add: occ_def)
qed

lemma hole_inv_done:
  assumes inv: "hole_inv sl h j" and emp: "\<not> occ sl (Suc j mod length sl)"
  defines "sl' \<equiv> sl[h := (sl ! h)\<lparr>skey := kEmpty\<rparr>]"
  shows "probe_inv sl'" and "Suc (n_occ sl') = n_occ sl"
    and "k \<noteq> kEmpty \<Longrightarrow> (\<exists>i < length sl'. skey (sl' ! i) = k \<and> sval (sl' ! i) = v) \<longleftrightarrow> entry_off sl h k v"
proof -
  let ?n = "length sl" and ?j = "Suc j mod length sl"
  note nxt = hole_inv_next [OF inv]
  from inv have n: "is_pow2 ?n" and h: "h < ?n" and oh: "occ sl h" by (auto simp: hole_inv_def)
  have occ': "occ sl' p \<longleftrightarrow> p \<noteq> h \<and> occ sl p" for p
    using h by (auto simp: sl'_def occ_def nth_list_update)
  have len: "length sl' = ?n" by (simp add: sl'_def)
  have key': "p \<noteq> h \<Longrightarrow> sl' ! p = sl ! p" for p by (simp add: sl'_def)
  have "reachable_from_home sl' p" if p: "p < ?n" "p \<noteq> h" "occ sl p" for p
  proof -
    let ?c = "home sl p"
    have c: "?c < ?n" using n by (rule home_lt)
    have r: "occ sl ((?c + t) mod ?n)" if "t < rdist ?n ?c p" for t
      using inv p that by (auto simp: hole_inv_def reachable_from_home_def)
    have "(?c + t) mod ?n \<noteq> h" if t: "t < rdist ?n ?c p" for t
    proof
      assume th: "(?c + t) mod ?n = h"
      have t_n: "t < ?n" using t rdist_lt [OF c p(1)] by simp
      have ch: "rdist ?n ?c h = t" using rdist_of_step [OF c t_n] th by simp
      have add: "rdist ?n ?c p = t + rdist ?n h p"
      proof -
        have "rdist ?n h p \<le> rdist ?n ?c p"
          using c h p ch t by (auto simp: rdist_def split: if_splits)
        then show ?thesis using rdist_add [OF c h p(1)] ch by simp
      qed
      show False
      proof (cases "rdist ?n h p \<le> rdist ?n h j")
        case True
        then have "rdist ?n ?c p < rdist ?n h p" using inv p by (auto simp: hole_inv_def scanned_def)
        then show False using add by simp
      next
        case False
        have "p \<noteq> ?j" using p(3) emp by auto
        then have "rdist ?n h p \<noteq> rdist ?n h ?j"
          using rdist_reach [OF h p(1)] rdist_reach [OF h nxt(1)] by metis
        then have "rdist ?n h ?j < rdist ?n h p" using False nxt(3) by simp
        then have "occ sl ((?c + (t + rdist ?n h ?j)) mod ?n)" using add by (intro r) simp
        moreover have "(?c + (t + rdist ?n h ?j)) mod ?n = ((?c + t) mod ?n + rdist ?n h ?j) mod ?n"
          by (simp add: mod_add_left_eq add.assoc)
        then have "(?c + (t + rdist ?n h ?j)) mod ?n = ?j"
          using th rdist_reach [OF h nxt(1)] by simp
        ultimately show False using emp by simp
      qed
    qed
    then show ?thesis
      using r len key' p(2) by (simp add: reachable_from_home_def occ' home_def)
  qed
  moreover have "keys_distinct sl'"
    unfolding keys_distinct_def len
  proof (intro allI impI)
    fix a b assume a: "a < ?n" "b < ?n" "occ sl' a" and eq: "skey (sl' ! a) = skey (sl' ! b)"
    then have "occ sl' b" by (simp add: occ_def)
    then have "a \<noteq> h" "b \<noteq> h" using a(3) by (auto simp: occ')
    moreover have "distinct_off sl h" using inv by (simp add: hole_inv_def)
    ultimately show "a = b" using a eq by (auto simp: distinct_off_def occ' key')
  qed
  ultimately show "probe_inv sl'" using n len by (auto simp: probe_inv_def occ')
  show "Suc (n_occ sl') = n_occ sl"
    using n_occ_update [OF h, of "(sl ! h)\<lparr>skey := kEmpty\<rparr>"] oh by (simp add: sl'_def)
  show "(\<exists>i < length sl'. skey (sl' ! i) = k \<and> sval (sl' ! i) = v) \<longleftrightarrow> entry_off sl h k v"
    if "k \<noteq> kEmpty"
    using that h by (auto simp: entry_off_def len sl'_def nth_list_update)
qed

text \<open>The deletion loop returns, and clearing the final hole leaves a valid table.\<close>

lemma shift_from_ok:
  assumes "hole_inv sl h j"
  shows "\<exists>sl' h' j'. shift_from sl (length sl - 1) h j = Some (sl', h') \<and> hole_inv sl' h' j' \<and>
    \<not> occ sl' (Suc j' mod length sl') \<and> n_occ sl' = n_occ sl \<and> length sl' = length sl \<and>
    (\<forall>k v. entry_off sl' h' k v = entry_off sl h k v)"
proof -
  from assms obtain e where "e < length sl" "\<not> occ sl e" by (auto simp: hole_inv_def)
  with assms show ?thesis
  proof (induction "rdist (length sl) j e" arbitrary: sl h j rule: less_induct)
    case less
    let ?n = "length sl" and ?j = "Suc j mod length sl"
    note nxt = hole_inv_next [OF less.prems(1)]
    have n: "is_pow2 ?n" and j: "j < ?n" and h: "h < ?n" and oh: "occ sl h"
      using less.prems(1) by (auto simp: hole_inv_def)
    have "j \<noteq> e" using nxt(4) less.prems(3) by auto
    then have dec: "rdist ?n ?j e < rdist ?n j e"
      using rdist_Suc_left [OF j less.prems(2)] by simp
    have unf: "shift_from sl (?n - 1) h j =
        (if \<not> occ sl ?j then Some (sl, h)
         else if movable h ?j (home sl ?j) then shift_from (sl[h := sl ! ?j]) (?n - 1) ?j ?j
         else shift_from sl (?n - 1) h ?j)"
      using n by (subst shift_from.simps) (simp add: ring_simps occ_def home_def Let_def)
    show ?case
    proof (cases "occ sl ?j")
      case False
      then show ?thesis using unf less.prems(1) by auto
    next
      case occ: True
      show ?thesis
      proof (cases "movable h ?j (home sl ?j)")
        case True
        note mv = hole_inv_move [OF less.prems(1) occ True]
        have "\<not> Flat_Hash.occ (sl[h := sl ! ?j]) e"
          using less.prems(3) oh occ h by (auto simp: occ_def nth_list_update)
        then show ?thesis
          using less.hyps [of "sl[h := sl ! ?j]" ?j ?j] dec mv less.prems(2) unf occ True by simp
      next
        case False
        then show ?thesis
          using less.hyps [of sl ?j h] dec hole_inv_skip [OF less.prems(1) occ False]
            less.prems(2,3) unf occ by simp
      qed
    qed
  qed
qed

lemma hole_inv_start:
  assumes "table_inv sl" and "i < length sl" and "occ sl i"
  shows "hole_inv sl i i"
  using assms empty_slot_ex [of sl]
  by (auto simp: table_inv_def probe_inv_def hole_inv_def scanned_def distinct_off_def
      keys_distinct_def rdist_zero)

subsection \<open>Rehashing\<close>

lemma probe_inv_replicate: "is_pow2 n \<Longrightarrow> probe_inv (replicate n \<lparr>skey = kEmpty, sval = d\<rparr>)"
  by (auto simp: probe_inv_def keys_distinct_def occ_def)

lemma rehash_into_ok:
  assumes "probe_inv sl" and "n_occ sl + length (filter (\<lambda>s. skey s \<noteq> kEmpty) old) < length sl"
    and "distinct (map skey (filter (\<lambda>s. skey s \<noteq> kEmpty) old))"
    and "\<forall>s \<in> set old. skey s \<noteq> kEmpty \<longrightarrow> map_of (entries sl) (skey s) = None"
  shows "\<exists>sl'. rehash_into (length sl - 1) old sl c = Some (sl', c + n_occ old) \<and> probe_inv sl' \<and>
    length sl' = length sl \<and> n_occ sl' = n_occ sl + n_occ old \<and>
    map_of (entries sl') = map_of (entries sl) ++ map_of (entries old)"
  using assms
proof (induction old arbitrary: sl c)
  case Nil
  then show ?case by (simp add: n_occ_def entries_def)
next
  case (Cons s old)
  show ?case
  proof (cases "skey s = kEmpty")
    case True
    then show ?thesis using Cons.IH [of sl c] Cons.prems by (simp add: n_occ_def entries_def)
  next
    case False
    have absent: "\<forall>i < length sl. skey (sl ! i) \<noteq> skey s"
      using Cons.prems(4) False map_of_entries_None [of sl "skey s"] by simp
    have inv: "table_inv sl" using Cons.prems(1,2) by (simp add: table_inv_def)
    let ?h = "fm_index (length sl - 1) (skey s)"
    obtain d where d: "d < length sl" "\<not> occ sl ((?h + d) mod length sl)"
        "\<forall>t < d. occ sl ((?h + t) mod length sl)"
      using probe_absent [OF inv absent] by metis
    have n: "is_pow2 (length sl)" using Cons.prems(1) by (simp add: probe_inv_def)
    let ?i = "(?h + d) mod length sl"
    have probe: "probe_from slot_empty sl (length sl - 1) ?h = Some ?i"
      using probe_from_first [where stop = slot_empty and sl = sl and d = d, OF n fm_index_lt [OF n, of "skey s"]] d
      by (simp add: slot_empty_def occ_def)
    note ins = insert_slot [OF Cons.prems(1) False absent d(1) refl d(2,3)]
    have dist: "\<forall>x \<in> set old. skey x \<noteq> kEmpty \<longrightarrow> skey x \<noteq> skey s"
      using Cons.prems(3) False by (auto simp: image_iff)
    have "\<exists>sl'. rehash_into (length sl - 1) old (sl[?i := s]) (c + 1) = Some (sl', (c + 1) + n_occ old) \<and>
        probe_inv sl' \<and> length sl' = length sl \<and> n_occ sl' = n_occ (sl[?i := s]) + n_occ old \<and>
        map_of (entries sl') = map_of (entries (sl[?i := s])) ++ map_of (entries old)"
    proof -
      have "\<forall>x \<in> set old. skey x \<noteq> kEmpty \<longrightarrow> map_of (entries (sl[?i := s])) (skey x) = None"
        using Cons.prems(4) dist unfolding ins(3) by simp
      moreover have "n_occ (sl[?i := s]) + length (filter (\<lambda>s. skey s \<noteq> kEmpty) old) < length (sl[?i := s])"
        using Cons.prems(2) False unfolding ins(2) by simp
      moreover have "distinct (map skey (filter (\<lambda>s. skey s \<noteq> kEmpty) old))"
        using Cons.prems(3) False by simp
      ultimately show ?thesis using Cons.IH [OF ins(1), of "c + 1"] by simp
    qed
    moreover have "map_of (entries (s # old)) (skey s) = Some (sval s)"
      using False by (simp add: entries_def)
    moreover have "(map_of (entries sl))(skey s \<mapsto> sval s) ++ map_of (entries old) =
        map_of (entries sl) ++ map_of (entries (s # old))"
    proof -
      have "map_of (entries old) (skey s) = None"
        using dist by (auto simp: map_of_eq_None_iff entries_def)
      then show ?thesis using False
        by (auto simp: entries_def map_add_def fun_eq_iff split: option.splits)
    qed
    ultimately show ?thesis using probe False ins(2,3) by (auto simp: n_occ_def)
  qed
qed

lemma rehash_ok:
  assumes kd: "keys_distinct (fm_slots m)" and cap: "is_pow2 new_cap" "n_occ (fm_slots m) < new_cap"
    and ml: "0 < fm_max_load m" "fm_max_load m < 1"
  shows "\<exists>m'. rehash d new_cap m = Some m' \<and> fm_inv m' \<and> fm_map m' = fm_map m \<and>
    length (fm_slots m') = new_cap \<and> fm_size m' = n_occ (fm_slots m)"
proof -
  let ?new = "replicate new_cap \<lparr>skey = kEmpty, sval = d\<rparr>"
  have empty: "n_occ ?new = 0" "map_of (entries ?new) = Map.empty"
    by (simp_all add: n_occ_def entries_def)
  have "\<exists>sl'. rehash_into (length ?new - 1) (fm_slots m) ?new 0 = Some (sl', 0 + n_occ (fm_slots m)) \<and>
      probe_inv sl' \<and> length sl' = length ?new \<and> n_occ sl' = n_occ ?new + n_occ (fm_slots m) \<and>
      map_of (entries sl') = map_of (entries ?new) ++ map_of (entries (fm_slots m))"
    using cap distinct_keys_filter [OF kd]
    by (intro rehash_into_ok [OF probe_inv_replicate]) (simp_all add: n_occ_def entries_def)
  then obtain sl' where sl': "rehash_into (new_cap - 1) (fm_slots m) ?new 0 = Some (sl', n_occ (fm_slots m))"
      "probe_inv sl'" "length sl' = new_cap" "n_occ sl' = n_occ (fm_slots m)"
      "map_of (entries sl') = map_of (entries (fm_slots m))"
    unfolding empty by auto
  have "real new_cap * fm_max_load m < real new_cap" using ml cap by simp
  then have "nat \<lfloor>real new_cap * fm_max_load m\<rfloor> < new_cap"
    using ml(1) cap(1) by (simp add: nat_less_iff floor_less_iff)
  then show ?thesis
    using sl' cap(2) ml by (simp add: rehash_def fm_inv_def table_inv_def fm_map_def)
qed

subsection \<open>The operations implement a finite map\<close>

lemma flat_map_new_ok:
  assumes "0 < ml" and "ml < 1"
  shows "\<exists>m. flat_map_new d cap ml = Some m \<and> fm_inv m \<and> fm_map m = Map.empty \<and> fm_size m = 0 \<and>
    max cap 8 \<le> length (fm_slots m)"
proof -
  let ?c = "if cap < 8 then 8 else cap"
  let ?m = "\<lparr>fm_slots = [] :: 'a slot list, fm_mask = 0, fm_size = 0, fm_grow_at = 0, fm_max_load = ml\<rparr>"
  have "?c \<le> next_pow2 ?c" by (rule next_pow2_ge)
  moreover have "\<exists>m'. rehash d (next_pow2 ?c) ?m = Some m' \<and> fm_inv m' \<and> fm_map m' = fm_map ?m \<and>
      length (fm_slots m') = next_pow2 ?c \<and> fm_size m' = n_occ (fm_slots ?m)"
    using assms next_pow2_pow2 [of ?c]
    by (intro rehash_ok) (simp_all add: keys_distinct_def n_occ_def)
  ultimately show ?thesis
    by (auto simp: flat_map_new_def fm_map_def entries_def n_occ_def)
qed

lemma fm_inv_D:
  "fm_inv m \<Longrightarrow> table_inv (fm_slots m)" "fm_inv m \<Longrightarrow> probe_inv (fm_slots m)"
  "fm_inv m \<Longrightarrow> keys_distinct (fm_slots m)" "fm_inv m \<Longrightarrow> is_pow2 (length (fm_slots m))"
  "fm_inv m \<Longrightarrow> fm_mask m = length (fm_slots m) - 1"
  by (simp_all add: fm_inv_def table_inv_def probe_inv_def)

lemma fm_find_present:
  assumes inv: "fm_inv m" and "fm_map m k = Some v"
  shows "\<exists>i < length (fm_slots m). fm_find m k = Some (Some i) \<and> skey (fm_slots m ! i) = k \<and>
    value_at m i = v"
proof -
  obtain i where i: "i < length (fm_slots m)" "skey (fm_slots m ! i) = k" "sval (fm_slots m ! i) = v"
      and k: "k \<noteq> kEmpty"
    using assms map_of_entries_Some [OF fm_inv_D(3) [OF inv], of k v] by (auto simp: fm_map_def)
  then show ?thesis
    using probe_present [OF fm_inv_D(2) [OF inv] i(1,2) k] fm_inv_D(5) [OF inv]
    by (auto simp: fm_find_def value_at_def)
qed

lemma fm_find_absent:
  assumes inv: "fm_inv m" and k: "k \<noteq> kEmpty" and "fm_map m k = None"
  shows "fm_find m k = Some None"
proof -
  have absent: "\<forall>i < length (fm_slots m). skey (fm_slots m ! i) \<noteq> k"
    using assms map_of_entries_None [of "fm_slots m" k] by (simp add: fm_map_def)
  let ?n = "length (fm_slots m)"
  obtain d where "probe_from (key_or_empty k) (fm_slots m) (?n - 1) (fm_index (?n - 1) k) =
      Some ((fm_index (?n - 1) k + d) mod ?n)"
    using probe_absent [OF fm_inv_D(1) [OF inv] absent] by metis
  moreover have "(fm_index (?n - 1) k + d) mod ?n < ?n"
    using fm_inv_D(4) [OF inv] by (rule is_pow2_mod_lt)
  ultimately show ?thesis
    using absent fm_inv_D(5) [OF inv] by (simp add: fm_find_def)
qed

lemma grow_ok:
  assumes inv: "fm_inv m"
  shows "\<exists>m1. (if fm_size m + 1 > fm_grow_at m then rehash d (length (fm_slots m) * 2) m else Some m) = Some m1 \<and>
    fm_inv m1 \<and> fm_map m1 = fm_map m \<and> fm_size m1 + 1 < length (fm_slots m1)"
proof (cases "fm_size m + 1 > fm_grow_at m")
  case True
  have "is_pow2 (length (fm_slots m) * 2)"
    using is_pow2_double [OF fm_inv_D(4) [OF inv]] by (simp add: mult.commute)
  moreover have "n_occ (fm_slots m) < length (fm_slots m)"
    using inv by (simp add: fm_inv_def table_inv_def)
  ultimately show ?thesis
    using True rehash_ok [of m "length (fm_slots m) * 2" d] inv fm_inv_D(3) [OF inv]
    by (fastforce simp: fm_inv_def)
next
  case False
  then show ?thesis using inv by (auto simp: fm_inv_def)
qed

lemma try_emplace_ok:
  assumes inv: "fm_inv m" and k: "k \<noteq> kEmpty"
  shows "\<exists>m' i. try_emplace d m k = Some (m', i, fm_map m k = None) \<and> fm_inv m' \<and>
    fm_map m' = (if fm_map m k = None then (fm_map m)(k \<mapsto> d) else fm_map m) \<and>
    i < length (fm_slots m') \<and> skey (fm_slots m' ! i) = k"
proof -
  define r where "r = (if fm_size m + 1 > fm_grow_at m then rehash d (length (fm_slots m) * 2) m else Some m)"
  have "\<exists>m1. r = Some m1 \<and> fm_inv m1 \<and> fm_map m1 = fm_map m \<and>
      fm_size m1 + 1 < length (fm_slots m1)"
    unfolding r_def using inv by (rule grow_ok)
  then obtain m1 where r: "r = Some m1" and m1: "fm_inv m1" "fm_map m1 = fm_map m"
      and room: "fm_size m1 + 1 < length (fm_slots m1)" by blast
  let ?sl = "fm_slots m1" and ?n = "length (fm_slots m1)"
  let ?h = "fm_index (?n - 1) k"
  have unf: "try_emplace d m k =
      (case probe_from (key_or_empty k) ?sl (?n - 1) ?h of None \<Rightarrow> None
       | Some i \<Rightarrow> if skey (?sl ! i) = k then Some (m1, i, False)
           else Some (m1\<lparr>fm_slots := ?sl[i := \<lparr>skey = k, sval = d\<rparr>], fm_size := fm_size m1 + 1\<rparr>, i, True))"
    unfolding try_emplace_def r_def [symmetric] r using fm_inv_D(5) [OF m1(1)] by simp
  show ?thesis
  proof (cases "fm_map m1 k")
    case (Some v)
    then obtain i where i: "i < ?n" "skey (?sl ! i) = k"
      using map_of_entries_Some [OF fm_inv_D(3) [OF m1(1)], of k v] by (auto simp: fm_map_def)
    then show ?thesis
      using probe_present [OF fm_inv_D(2) [OF m1(1)] i k] unf m1 Some by simp
  next
    case None
    then have absent: "\<forall>i < ?n. skey (?sl ! i) \<noteq> k"
      using k map_of_entries_None [of ?sl k] by (simp add: fm_map_def)
    obtain dd where dd: "dd < ?n" "\<not> occ ?sl ((?h + dd) mod ?n)" "\<forall>t < dd. occ ?sl ((?h + t) mod ?n)"
      "probe_from (key_or_empty k) ?sl (?n - 1) ?h = Some ((?h + dd) mod ?n)"
      using probe_absent [OF fm_inv_D(1) [OF m1(1)] absent] by metis
    let ?i = "(?h + dd) mod ?n" and ?s = "\<lparr>skey = k, sval = d\<rparr>"
    note ins = insert_slot [where s = ?s, OF fm_inv_D(2) [OF m1(1)], simplified,
        OF k absent dd(1) refl dd(2,3) [unfolded One_nat_def]]
    have i: "?i < ?n" using fm_inv_D(4) [OF m1(1)] by simp
    have "skey (?sl ! ?i) \<noteq> k" using absent i by simp
    then show ?thesis
      using unf dd(4) i ins m1 room None by (simp add: fm_inv_def table_inv_def fm_map_def)
  qed
qed

lemma set_value_ok:
  assumes inv: "fm_inv m" and i: "i < length (fm_slots m)" "skey (fm_slots m ! i) = k" and k: "k \<noteq> kEmpty"
  shows "fm_inv (set_value m i v)" and "fm_map (set_value m i v) = (fm_map m)(k \<mapsto> v)"
proof -
  have "occ (fm_slots m) i" using i k by (simp add: occ_def)
  note ow = overwrite_slot [OF fm_inv_D(2) [OF inv] i(1) this, of v]
  show "fm_inv (set_value m i v)"
    using inv ow by (simp add: fm_inv_def table_inv_def set_value_def)
  show "fm_map (set_value m i v) = (fm_map m)(k \<mapsto> v)"
    using ow(3) i(2) by (simp add: fm_map_def set_value_def)
qed

lemma insert_or_assign_ok:
  assumes "fm_inv m" and "k \<noteq> kEmpty"
  shows "\<exists>m' p. insert_or_assign d m k v = Some (m', p) \<and> fm_inv m' \<and> fm_map m' = (fm_map m)(k \<mapsto> v)"
proof -
  obtain m1 i b where m1: "try_emplace d m k = Some (m1, i, b)" "fm_inv m1"
      "fm_map m1 = (if fm_map m k = None then (fm_map m)(k \<mapsto> d) else fm_map m)"
      "i < length (fm_slots m1)" "skey (fm_slots m1 ! i) = k"
    using try_emplace_ok [OF assms] by metis
  then show ?thesis
    using set_value_ok [OF m1(2,4,5) assms(2), of v] by (auto simp: insert_or_assign_def)
qed

lemma erase_ok:
  assumes inv: "fm_inv m" and k: "k \<noteq> kEmpty"
  shows "\<exists>m'. erase m k = Some (m', fm_map m k \<noteq> None) \<and> fm_inv m' \<and> fm_map m' = (fm_map m)(k := None)"
proof (cases "fm_map m k")
  case None
  then have absent: "\<forall>i < length (fm_slots m). skey (fm_slots m ! i) \<noteq> k"
    using k map_of_entries_None [of "fm_slots m" k] by (simp add: fm_map_def)
  obtain i where "probe_from (key_or_empty k) (fm_slots m) (fm_mask m) (fm_index (fm_mask m) k) = Some i"
      "\<not> occ (fm_slots m) i"
    using probe_absent [OF fm_inv_D(1) [OF inv] absent] fm_inv_D(5) [OF inv] by metis
  then show ?thesis using inv None by (auto simp: erase_def occ_def)
next
  case (Some v)
  let ?sl = "fm_slots m"
  obtain i where i: "i < length ?sl" "skey (?sl ! i) = k"
    using Some map_of_entries_Some [OF fm_inv_D(3) [OF inv], of k v] by (auto simp: fm_map_def)
  have oi: "occ ?sl i" using i k by (simp add: occ_def)
  obtain sl' h' j' where sh: "shift_from ?sl (length ?sl - 1) i i = Some (sl', h')" "hole_inv sl' h' j'"
      "\<not> occ sl' (Suc j' mod length sl')" "n_occ sl' = n_occ ?sl" "length sl' = length ?sl"
      "\<And>k v. entry_off sl' h' k v = entry_off ?sl i k v"
    using shift_from_ok [OF hole_inv_start [OF fm_inv_D(1) [OF inv] i(1) oi]] by metis
  note fin = hole_inv_done [OF sh(2,3)]
  let ?sl' = "sl'[h' := (sl' ! h')\<lparr>skey := kEmpty\<rparr>]"
  have er: "erase m k = Some (m\<lparr>fm_slots := ?sl', fm_size := fm_size m - 1\<rparr>, True)"
    using probe_present [OF fm_inv_D(2) [OF inv] i k] fm_inv_D(5) [OF inv] i k sh(1)
    by (simp add: erase_def)
  have "map_of (entries ?sl') = (map_of (entries ?sl))(k := None)"
  proof (rule map_entries_cong [OF fm_inv_D(3) [OF inv]])
    show "keys_distinct ?sl'" using fin(1) by (simp add: probe_inv_def)
    fix k' v' assume k': "k' \<noteq> kEmpty"
    show "(\<exists>j < length ?sl'. skey (?sl' ! j) = k' \<and> sval (?sl' ! j) = v') \<longleftrightarrow>
        ((map_of (entries ?sl))(k := None)) k' = Some v'"
    proof -
      have "j \<noteq> i \<longleftrightarrow> k' \<noteq> k" if "j < length ?sl" "skey (?sl ! j) = k'" for j
        using that keys_distinctD [OF fm_inv_D(3) [OF inv] that(1) i(1) that(2) _ k'] i(2) by auto
      then have "entry_off ?sl i k' v' \<longleftrightarrow>
          k' \<noteq> k \<and> (\<exists>j < length ?sl. skey (?sl ! j) = k' \<and> sval (?sl ! j) = v')"
        unfolding entry_off_def by blast
      then show ?thesis
        unfolding fin(3) [OF k'] sh(6) using map_of_entries_Some [OF fm_inv_D(3) [OF inv], of k' v'] k'
        by simp
    qed
  qed (simp add: map_of_entries_None)
  then show ?thesis
    using er fin(1,2) sh(4,5) inv Some
    by (auto simp: fm_inv_def table_inv_def fm_map_def)
qed

lemma fm_clear_ok:
  assumes "fm_inv m"
  shows "fm_inv (fm_clear m)" and "fm_map (fm_clear m) = Map.empty"
  using assms is_pow2_pos [OF fm_inv_D(4) [OF assms]]
  by (auto simp: fm_inv_def fm_clear_def table_inv_def probe_inv_def keys_distinct_def occ_def n_occ_def
      fm_map_def entries_def filter_empty_conv)

lemma reserve_ok:
  assumes "fm_inv m"
  shows "\<exists>m'. reserve d m n = Some m' \<and> fm_inv m' \<and> fm_map m' = fm_map m \<and>
    length (fm_slots m) \<le> length (fm_slots m')"
proof -
  let ?want = "next_pow2 (nat \<lfloor>real n / fm_max_load m\<rfloor> + 1)"
  have "n_occ (fm_slots m) < length (fm_slots m)" using assms by (simp add: fm_inv_def table_inv_def)
  then show ?thesis
    using rehash_ok [of m ?want d] assms fm_inv_D(3) [OF assms] next_pow2_pow2
    by (cases "?want > length (fm_slots m)") (fastforce simp: reserve_def Let_def fm_inv_def)+
qed

lemma for_each_entries: "for_each f m st = fold (\<lambda>(k, v). f k v) (entries (fm_slots m)) st"
proof -
  have "fold (\<lambda>s st. if skey s \<noteq> kEmpty then f (skey s) (sval s) st else st) sl st =
      fold (\<lambda>(k, v). f k v) (entries sl) st" for sl
    by (induction sl arbitrary: st) (auto simp: entries_def)
  then show ?thesis by (simp add: for_each_def)
qed

subsection \<open>The table provides the \<open>ref_map\<close> interface\<close>

definition fm_put :: "'v \<Rightarrow> 'v flat_map \<Rightarrow> u64 \<Rightarrow> 'v \<Rightarrow> 'v flat_map option" where
  \<comment> \<open>the clients' idiom \<open>*m.try_emplace(k).first = v\<close>\<close>
  "fm_put d m k v = map_option fst (insert_or_assign d m k v)"

definition fm_del :: "'v flat_map \<Rightarrow> u64 \<Rightarrow> 'v flat_map option" where
  "fm_del m k = map_option fst (erase m k)"

interpretation flat: ref_map fm_map "fm_put d" fm_del fm_inv kEmpty
proof unfold_locales
  fix m :: "'a flat_map" and k v
  assume "fm_inv m" "k \<noteq> kEmpty"
  then show "\<exists>m'. fm_put d m k v = Some m' \<and> fm_inv m' \<and> fm_map m' = (fm_map m)(k \<mapsto> v)"
    using insert_or_assign_ok [of m k d v] by (auto simp: fm_put_def)
next
  fix m :: "'a flat_map" and k
  assume "fm_inv m" "k \<noteq> kEmpty"
  then show "\<exists>m'. fm_del m k = Some m' \<and> fm_inv m' \<and> fm_map m' = (fm_map m)(k := None)"
    using erase_ok [of m k] by (auto simp: fm_del_def)
qed

lemma fm_size_card:
  assumes "fm_inv m"
  shows "fm_size m = card (dom (fm_map m))"
proof -
  have "distinct (map fst (entries (fm_slots m)))"
    using distinct_keys_filter [OF fm_inv_D(3) [OF assms]] by (simp add: entries_def comp_def)
  then have "card (set (map fst (entries (fm_slots m)))) = length (entries (fm_slots m))"
    by (simp add: distinct_card del: set_map)
  then show ?thesis
    using assms by (simp add: fm_map_def dom_map_of_conv_image_fst fm_inv_def n_occ_def entries_def image_image)
qed

lemma fm_lookup_pointer:
  assumes "fm_inv m" and "k \<noteq> kEmpty"
  shows "\<exists>p. fm_find m k = Some p \<and> map_option (value_at m) p = fm_map m k"
proof (cases "fm_map m k")
  case None
  then show ?thesis using fm_find_absent [OF assms] by simp
next
  case (Some v)
  then show ?thesis using fm_find_present [OF assms(1) Some] by auto
qed

subsection \<open>The reserved key\<close>

text \<open>The all-ones key marks an empty slot, so every operation on it stops at the first empty
  slot of its probe sequence: \<open>find\<close> and \<open>try_emplace\<close> report a hit there, \<open>erase\<close> reports a miss.\<close>

lemma probe_reserved:
  assumes "fm_inv m"
  obtains i where "i < length (fm_slots m)" and "\<not> occ (fm_slots m) i"
    and "probe_from (key_or_empty kEmpty) (fm_slots m) (fm_mask m) (fm_index (fm_mask m) kEmpty) = Some i"
proof -
  let ?sl = "fm_slots m" and ?n = "length (fm_slots m)"
  have n: "is_pow2 ?n" by (rule fm_inv_D(4) [OF assms])
  have "n_occ ?sl < ?n" using assms by (simp add: fm_inv_def table_inv_def)
  then obtain e where e: "e < ?n" "\<not> occ ?sl e"
    unfolding n_occ_def using filter_shorter_ex [of "\<lambda>s. skey s \<noteq> kEmpty" ?sl] by (auto simp: occ_def)
  let ?h = "fm_index (?n - 1) kEmpty"
  have stop: "key_or_empty kEmpty (?sl ! e)" using e(2) by (simp add: key_or_empty_def occ_def)
  obtain d where d: "probe_from (key_or_empty kEmpty) ?sl (?n - 1) ?h = Some ((?h + d) mod ?n)"
      "key_or_empty kEmpty (?sl ! ((?h + d) mod ?n))"
    by (rule probe_from_returns [where stop = "key_or_empty kEmpty" and sl = ?sl, OF n fm_index_lt [OF n] e(1) stop])
  let ?i = "(?h + d) mod ?n"
  have "\<not> occ ?sl ?i" using d(2) by (simp add: key_or_empty_def occ_def)
  moreover have "?i < ?n" using e(1) by (intro mod_less_divisor) linarith
  ultimately show thesis using that [of ?i] d fm_inv_D(5) [OF assms] by simp
qed

lemma find_reserved:
  assumes "fm_inv m"
  shows "\<exists>i < length (fm_slots m). fm_find m kEmpty = Some (Some i) \<and> \<not> occ (fm_slots m) i"
proof -
  obtain i where "i < length (fm_slots m)" "\<not> occ (fm_slots m) i"
      "probe_from (key_or_empty kEmpty) (fm_slots m) (fm_mask m) (fm_index (fm_mask m) kEmpty) = Some i"
    using assms by (rule probe_reserved)
  then show ?thesis by (intro exI [of _ i]) (simp add: fm_find_def occ_def)
qed

lemma erase_reserved:
  assumes "fm_inv m"
  shows "erase m kEmpty = Some (m, False)"
proof -
  obtain i where "i < length (fm_slots m)" "\<not> occ (fm_slots m) i"
      "probe_from (key_or_empty kEmpty) (fm_slots m) (fm_mask m) (fm_index (fm_mask m) kEmpty) = Some i"
    using assms by (rule probe_reserved)
  then show ?thesis by (simp add: erase_def occ_def)
qed

lemma try_emplace_reserved:
  assumes "fm_inv m"
  shows "\<exists>m' i. try_emplace d m kEmpty = Some (m', i, False) \<and> fm_inv m' \<and> fm_map m' = fm_map m \<and>
    i < length (fm_slots m') \<and> \<not> occ (fm_slots m') i"
proof -
  obtain m1 where m1: "(if fm_size m + 1 > fm_grow_at m then rehash d (length (fm_slots m) * 2) m else Some m) = Some m1"
      "fm_inv m1" "fm_map m1 = fm_map m"
    using grow_ok [OF assms] by metis
  obtain i where "i < length (fm_slots m1)" "\<not> occ (fm_slots m1) i"
      "probe_from (key_or_empty kEmpty) (fm_slots m1) (fm_mask m1) (fm_index (fm_mask m1) kEmpty) = Some i"
    using m1(2) by (rule probe_reserved)
  then show ?thesis using m1 by (simp add: try_emplace_def occ_def)
qed

lemma set_value_empty:
  assumes inv: "fm_inv m" and i: "i < length (fm_slots m)" "\<not> occ (fm_slots m) i"
  shows "fm_inv (set_value m i v)" and "fm_map (set_value m i v) = fm_map m"
proof -
  let ?sl = "fm_slots m" and ?sl' = "(fm_slots m)[i := (fm_slots m ! i)\<lparr>sval := v\<rparr>]"
  have keys: "skey (?sl' ! j) = skey (?sl ! j)" for j
    by (cases "j = i") (use i in simp_all)
  have f: "map skey ?sl' = map skey ?sl" using keys by (intro nth_equalityI) simp_all
  have n: "n_occ xs = length (filter (\<lambda>k. k \<noteq> kEmpty) (map skey xs))" for xs :: "'a slot list"
    by (simp add: n_occ_def filter_map comp_def)
  have "n_occ ?sl' = n_occ ?sl" unfolding n f ..
  moreover have "probe_inv ?sl' = probe_inv ?sl"
    by (simp add: probe_inv_def keys_distinct_def reachable_from_home_def home_def occ_def keys)
  ultimately show "fm_inv (set_value m i v)"
    using inv by (simp add: fm_inv_def table_inv_def set_value_def)
  have "filter (\<lambda>s. skey s \<noteq> kEmpty) (xs @ y # zs) = filter (\<lambda>s. skey s \<noteq> kEmpty) (xs @ zs)"
    if "skey y = kEmpty" for xs zs and y :: "'a slot" using that by simp
  then have "entries ?sl' = entries ?sl"
    using i(2) by (subst (2) id_take_nth_drop [OF i(1)])
      (simp add: entries_def upd_conv_take_nth_drop [OF i(1)] occ_def)
  then show "fm_map (set_value m i v) = fm_map m" by (simp add: fm_map_def set_value_def)
qed

text \<open>Hence no key makes an operation diverge or break the table.\<close>

lemma insert_or_assign_total:
  assumes "fm_inv m"
  shows "\<exists>m' p. insert_or_assign d m k v = Some (m', p) \<and> fm_inv m' \<and>
    fm_map m' = (if k = kEmpty then fm_map m else (fm_map m)(k \<mapsto> v))"
proof (cases "k = kEmpty")
  case True
  obtain m1 i where "try_emplace d m kEmpty = Some (m1, i, False)" "fm_inv m1" "fm_map m1 = fm_map m"
      "i < length (fm_slots m1)" "\<not> occ (fm_slots m1) i"
    using try_emplace_reserved [OF assms] by metis
  then show ?thesis using True set_value_empty [of m1 i v] by (simp add: insert_or_assign_def)
next
  case False
  then show ?thesis using insert_or_assign_ok [OF assms False] by simp
qed

lemma erase_total:
  assumes "fm_inv m"
  shows "\<exists>m' b. erase m k = Some (m', b) \<and> fm_inv m' \<and>
    fm_map m' = (if k = kEmpty then fm_map m else (fm_map m)(k := None))"
proof (cases "k = kEmpty")
  case True
  then show ?thesis using erase_reserved [OF assms] assms by auto
next
  case False
  then show ?thesis using erase_ok [OF assms False] by auto
qed

lemma find_total:
  assumes "fm_inv m"
  shows "\<exists>p. fm_find m k = Some p"
  using find_reserved [OF assms] fm_lookup_pointer [OF assms, of k] by (cases "k = kEmpty") auto

end
