(* ===== verification/Ascii.thy ===== *)
theory Ascii
  imports Stok_Prelude
begin

text \<open>
  \<open>src/core/ascii.hpp\<close>: character classes and case mapping, \<open>trim\<close>, case-insensitive comparison
  and search, integer and decimal parsing, and the two non-allocating splitters. A
  \<open>std::string_view\<close> is a \<open>string\<close>; \<open>npos\<close> is \<open>None\<close>; a splitter that calls \<open>f\<close> on each piece
  is the list of pieces in call order.
\<close>

subsection \<open>Characters\<close>

definition code :: "char \<Rightarrow> nat" where
  "code c = of_char c"

definition to_lower :: "char \<Rightarrow> char" where
  "to_lower c = (if 65 \<le> code c \<and> code c \<le> 90 then char_of (code c + 32) else c)"

definition to_upper :: "char \<Rightarrow> char" where
  "to_upper c = (if 97 \<le> code c \<and> code c \<le> 122 then char_of (code c - 32) else c)"

definition is_digit :: "char \<Rightarrow> bool" where
  "is_digit c \<longleftrightarrow> 48 \<le> code c \<and> code c \<le> 57"

definition is_upper :: "char \<Rightarrow> bool" where
  "is_upper c \<longleftrightarrow> 65 \<le> code c \<and> code c \<le> 90"

definition is_alpha :: "char \<Rightarrow> bool" where
  "is_alpha c \<longleftrightarrow> (97 \<le> code c \<and> code c \<le> 122) \<or> (65 \<le> code c \<and> code c \<le> 90)"

definition is_alnum :: "char \<Rightarrow> bool" where
  "is_alnum c \<longleftrightarrow> is_alpha c \<or> is_digit c"

definition is_space :: "char \<Rightarrow> bool" where
  "is_space c \<longleftrightarrow> c \<in> {CHR '' '', CHR 0x09, CHR 0x0A, CHR 0x0D, CHR 0x0C, CHR 0x0B}"

subsection \<open>Views\<close>

definition substr :: "string \<Rightarrow> nat \<Rightarrow> nat \<Rightarrow> string" where
  "substr s pos n = take n (drop pos s)"

function trim_begin :: "string \<Rightarrow> nat \<Rightarrow> nat \<Rightarrow> nat" where
  "trim_begin s b e = (if b < e \<and> is_space (s ! b) then trim_begin s (b + 1) e else b)"
  by pat_completeness auto
termination
  by (relation "measure (\<lambda>(s, b, e). e - b)") auto

fun trim_end :: "string \<Rightarrow> nat \<Rightarrow> nat \<Rightarrow> nat" where
  "trim_end s b 0 = 0"
| "trim_end s b (Suc e) = (if Suc e > b \<and> is_space (s ! e) then trim_end s b e else Suc e)"

declare trim_begin.simps [simp del]

definition trim :: "string \<Rightarrow> string" where
  "trim s = (let b = trim_begin s 0 (length s); e = trim_end s b (length s) in substr s b (e - b))"

definition iequals :: "string \<Rightarrow> string \<Rightarrow> bool" where
  "iequals a b \<longleftrightarrow> length a = length b \<and> (\<forall>i \<in> set [0..<length a]. to_lower (a ! i) = to_lower (b ! i))"

definition istarts_with :: "string \<Rightarrow> string \<Rightarrow> bool" where
  "istarts_with s prefix \<longleftrightarrow> length prefix \<le> length s \<and> iequals (substr s 0 (length prefix)) prefix"

function match_len :: "string \<Rightarrow> string \<Rightarrow> nat \<Rightarrow> nat \<Rightarrow> nat" where
  \<comment> \<open>\<open>while (k < needle.size() && to_lower(hay[i + k]) == needle[k]) ++k\<close>\<close>
  "match_len hay needle i k =
     (if k < length needle \<and> to_lower (hay ! (i + k)) = needle ! k then match_len hay needle i (k + 1) else k)"
  by pat_completeness auto
termination
  by (relation "measure (\<lambda>(hay, needle, i, k). length needle - k)") auto

declare match_len.simps [simp del]

function ifind_loop :: "string \<Rightarrow> string \<Rightarrow> nat \<Rightarrow> nat \<Rightarrow> nat option" where
  "ifind_loop hay needle i lst =
     (if i \<le> lst
      then if to_lower (hay ! i) = needle ! 0 \<and> match_len hay needle i 1 = length needle then Some i
           else ifind_loop hay needle (i + 1) lst
      else None)"
  by pat_completeness auto
termination
  by (relation "measure (\<lambda>(hay, needle, i, lst). Suc lst - i)") auto

declare ifind_loop.simps [simp del]

definition ifind :: "string \<Rightarrow> string \<Rightarrow> nat \<Rightarrow> nat option" where
  "ifind hay needle frm =
     (if needle = [] then (if frm \<le> length hay then Some frm else None)
      else if length hay < length needle \<or> frm > length hay - length needle then None
      else ifind_loop hay needle frm (length hay - length needle))"

fun find_char :: "string \<Rightarrow> char \<Rightarrow> nat \<Rightarrow> nat option" where
  \<comment> \<open>\<open>s.find(c)\<close>, positions counted from \<open>i\<close>\<close>
  "find_char [] d i = None"
| "find_char (c # cs) d i = (if c = d then Some i else find_char cs d (i + 1))"

lemma find_char_bounds: "find_char s d i = Some p \<Longrightarrow> i \<le> p \<and> p < i + length s"
  by (induction s arbitrary: i) (fastforce split: if_splits)+

function split_str :: "string \<Rightarrow> char \<Rightarrow> string list" where
  "split_str s delim =
     (case find_char s delim 0 of
        None \<Rightarrow> [s]
      | Some pos \<Rightarrow> take pos s # split_str (drop (pos + 1) s) delim)"
  by pat_completeness auto
termination
  by (relation "measure (\<lambda>(s, delim). length s)") (auto dest: find_char_bounds)

declare split_str.simps [simp del]

definition strip_cr :: "string \<Rightarrow> string" where
  "strip_cr line = (if line \<noteq> [] \<and> last line = CHR 0x0D then butlast line else line)"

function lines :: "string \<Rightarrow> string list" where
  \<comment> \<open>\<open>for_each_line\<close>: \<open>\n\<close> and \<open>\r\n\<close> line ends; no call after a final newline\<close>
  "lines s =
     (if s = [] then []
      else let nl = (case find_char s (CHR 0x0A) 0 of None \<Rightarrow> length s | Some p \<Rightarrow> p)
           in strip_cr (take nl s) # lines (drop (nl + 1) s))"
  by pat_completeness auto
termination
  by (relation "measure length") auto

declare lines.simps [simp del]

definition to_upper_copy :: "string \<Rightarrow> string" where
  "to_upper_copy s = map to_upper s"

definition to_lower_copy :: "string \<Rightarrow> string" where
  "to_lower_copy s = map to_lower s"

subsection \<open>Numbers\<close>

definition digit_val :: "char \<Rightarrow> int" where
  "digit_val c = int (code c) - 48"

definition digits_val :: "string \<Rightarrow> int" where
  "digits_val ds = foldl (\<lambda>acc c. acc * 10 + digit_val c) 0 ds"

definition from_chars_int :: "bool \<Rightarrow> int \<Rightarrow> int \<Rightarrow> string \<Rightarrow> (int \<times> string) option" where
  \<comment> \<open>\<open>std::from_chars\<close>, base 10: an optional minus sign for signed types, then the longest run
     of digits; an empty run or a value outside \<open>[lo, hi]\<close> is an error\<close>
  "from_chars_int sgnd lo hi s =
     (let neg = sgnd \<and> s \<noteq> [] \<and> hd s = CHR ''-'';
          body = (if neg then tl s else s);
          ds = takeWhile is_digit body;
          v = (if neg then - digits_val ds else digits_val ds)
      in if ds = [] \<or> v < lo \<or> hi < v then None else Some (v, dropWhile is_digit body))"

definition parse_int :: "bool \<Rightarrow> int \<Rightarrow> int \<Rightarrow> string \<Rightarrow> int option" where
  "parse_int sgnd lo hi s =
     (case from_chars_int sgnd lo hi (trim s) of
        Some (v, []) \<Rightarrow> Some v
      | _ \<Rightarrow> None)"

abbreviation parse_i64 :: "string \<Rightarrow> int option" where
  "parse_i64 \<equiv> parse_int True (- (2 ^ 63)) (2 ^ 63 - 1)"

abbreviation parse_u64 :: "string \<Rightarrow> int option" where
  "parse_u64 \<equiv> parse_int False 0 (2 ^ 64 - 1)"

subsection \<open>Case mapping\<close>

lemma code_inject: "code c = code d \<longleftrightarrow> c = d"
  by (simp add: code_def)

lemma code_char_of: "n < 256 \<Longrightarrow> code (char_of n) = n"
  by (simp add: code_def)

lemma code_lt [simp]: "code c < 256"
  by (simp add: code_def)

lemma code_char_of_diff [simp]: "code (char_of (code c - n)) = code c - n"
  by (rule code_char_of) (rule less_imp_diff_less [OF code_lt])

lemma to_lower_idem [simp]: "to_lower (to_lower c) = to_lower c"
  by (simp add: to_lower_def code_char_of)

lemma to_upper_idem [simp]: "to_upper (to_upper c) = to_upper c"
proof (cases "97 \<le> code c \<and> code c \<le> 122")
  case True
  then have "code (to_upper c) < 97" by (auto simp: to_upper_def)
  then show ?thesis by (simp add: to_upper_def [of "to_upper c"])
qed (auto simp: to_upper_def)

lemma to_lower_to_upper [simp]: "to_lower (to_upper c) = to_lower c"
proof (cases "97 \<le> code c \<and> code c \<le> 122")
  case True
  then have u: "code (to_upper c) = code c - 32" by (simp add: to_upper_def code_char_of)
  have "65 \<le> code c - 32" "code c - 32 \<le> 90" "code c - 32 + 32 = code c" using True by auto
  then have "to_lower (to_upper c) = char_of (code c)" by (simp add: to_lower_def u)
  then show ?thesis using True by (simp add: to_lower_def code_def)
next
  case False
  then have "to_upper c = c" by (auto simp: to_upper_def)
  then show ?thesis by simp
qed

lemma iequals_iff: "iequals a b \<longleftrightarrow> map to_lower a = map to_lower b"
  unfolding iequals_def list_eq_iff_nth_eq [of "map to_lower a"] by auto

subsection \<open>\<open>trim\<close>\<close>

lemma trim_begin_eq:
  "b \<le> e \<Longrightarrow> e = length s \<Longrightarrow> trim_begin s b e = b + length (takeWhile is_space (drop b s))"
proof (induction s b e rule: trim_begin.induct)
  case (1 s b e)
  show ?case
  proof (cases "b < e")
    case True
    then have "drop b s = s ! b # drop (Suc b) s" using "1.prems" by (simp add: Cons_nth_drop_Suc)
    then show ?thesis using "1" True by (subst trim_begin.simps) simp
  next
    case False
    then show ?thesis using "1.prems" by (subst trim_begin.simps) simp
  qed
qed

lemma trim_end_eq:
  "b \<le> e \<Longrightarrow> e \<le> length s \<Longrightarrow>
    take (trim_end s b e - b) (drop b s) = rev (dropWhile is_space (rev (take (e - b) (drop b s))))"
proof (induction e)
  case (Suc e)
  show ?case
  proof (cases "Suc e > b")
    case True
    then have t: "take (Suc e - b) (drop b s) = take (e - b) (drop b s) @ [s ! e]"
      using Suc.prems by (simp add: Suc_diff_le take_Suc_conv_app_nth)
    show ?thesis
    proof (cases "is_space (s ! e)")
      case sp: True
      then show ?thesis using True t Suc by simp
    next
      case False
      then show ?thesis using True t by simp
    qed
  next
    case False
    then show ?thesis using Suc.prems by simp
  qed
qed simp

text \<open>\<open>trim\<close> drops the white space at both ends and nothing else.\<close>

lemma trim_eq: "trim s = rev (dropWhile is_space (rev (dropWhile is_space s)))"
proof -
  let ?b = "length (takeWhile is_space s)"
  have b: "trim_begin s 0 (length s) = ?b" by (simp add: trim_begin_eq)
  have le: "?b \<le> length s" by (rule length_takeWhile_le)
  have d: "drop ?b s = dropWhile is_space s" by (rule dropWhile_eq_drop [symmetric])
  have "take (length s - ?b) (drop ?b s) = drop ?b s" by simp
  then show ?thesis
    using trim_end_eq [OF le order_refl] unfolding trim_def b substr_def Let_def by (simp only: d)
qed

lemma trim_hd: "trim s \<noteq> [] \<Longrightarrow> \<not> is_space (hd (trim s)) \<and> \<not> is_space (last (trim s))"
proof -
  let ?d = "dropWhile is_space s"
  assume ne: "trim s \<noteq> []"
  then have r: "dropWhile is_space (rev ?d) \<noteq> []" by (simp add: trim_eq)
  have "\<not> is_space (last (trim s))"
    using hd_dropWhile [OF r] by (simp add: trim_eq last_rev)
  moreover have "hd (trim s) = hd ?d"
  proof -
    have "?d = trim s @ rev (takeWhile is_space (rev ?d))"
      unfolding trim_eq by (metis rev_append rev_rev_ident takeWhile_dropWhile_id)
    then show ?thesis using ne by (metis hd_append2)
  qed
  moreover have "?d \<noteq> []" using r by (cases "?d = []") simp_all
  then have "\<not> is_space (hd ?d)" by (rule hd_dropWhile)
  ultimately show ?thesis by simp
qed

lemma dropWhile_id: "xs = [] \<or> \<not> P (hd xs) \<Longrightarrow> dropWhile P xs = xs"
  by (cases xs) auto

lemma trim_trim [simp]: "trim (trim s) = trim s"
proof (cases "trim s = []")
  case False
  have "dropWhile is_space (trim s) = trim s" using trim_hd [OF False] by (simp add: dropWhile_id)
  moreover have "dropWhile is_space (rev (trim s)) = rev (trim s)"
    using trim_hd [OF False] False by (simp add: dropWhile_id hd_rev)
  ultimately show ?thesis by (simp add: trim_eq [of "trim s"])
next
  case True
  then show ?thesis by (simp add: trim_eq [of "[]"])
qed

subsection \<open>Splitting\<close>

lemma find_char_None: "find_char s d i = None \<longleftrightarrow> d \<notin> set s"
  by (induction s arbitrary: i) auto

lemma find_char_Some:
  "find_char s d i = Some p \<Longrightarrow> s ! (p - i) = d \<and> d \<notin> set (take (p - i) s)"
proof (induction s arbitrary: i)
  case (Cons c s)
  show ?case
  proof (cases "c = d")
    case False
    then have f: "find_char s d (Suc i) = Some p" using Cons.prems by simp
    have "p - i = Suc (p - Suc i)" using find_char_bounds [OF f] by arith
    then show ?thesis using Cons.IH [OF f] False by auto
  qed (use Cons.prems in simp)
qed simp

fun join :: "char \<Rightarrow> string list \<Rightarrow> string" where
  "join d [] = []"
| "join d [x] = x"
| "join d (x # y # xs) = x @ d # join d (y # xs)"

lemma split_str_ne: "split_str s d \<noteq> []"
  by (subst split_str.simps) (simp split: option.splits)

lemma split_str_join: "join d (split_str s d) = s"
proof (induction s d rule: split_str.induct)
  case (1 s d)
  show ?case
  proof (cases "find_char s d 0")
    case None
    then show ?thesis by (simp add: split_str.simps [of s d])
  next
    case (Some p)
    have p: "p < length s" "s ! p = d" using find_char_bounds [OF Some] find_char_Some [OF Some] by auto
    obtain y ys where ys: "split_str (drop (p + 1) s) d = y # ys"
      using split_str_ne by (metis list.exhaust)
    have "join d (split_str s d) = take p s @ d # join d (y # ys)"
      using Some ys by (simp add: split_str.simps [of s d])
    also have "\<dots> = take p s @ s ! p # drop (Suc p) s" using "1" [OF Some] ys p by simp
    also have "\<dots> = s" by (rule id_take_nth_drop [OF p(1), symmetric])
    finally show ?thesis .
  qed
qed

lemma split_str_no_delim: "x \<in> set (split_str s d) \<Longrightarrow> d \<notin> set x"
proof (induction s d rule: split_str.induct)
  case (1 s d)
  show ?case
  proof (cases "find_char s d 0")
    case None
    then have "d \<notin> set s" by (simp add: find_char_None)
    then show ?thesis using "1.prems" None by (simp add: split_str.simps [of s d])
  next
    case (Some p)
    then consider "x = take p s" | "x \<in> set (split_str (drop (p + 1) s) d)"
      using "1.prems" by (auto simp: split_str.simps [of s d])
    then show ?thesis using "1.IH" [OF Some] find_char_Some [OF Some] by cases auto
  qed
qed

subsection \<open>Search\<close>

definition imatch_at :: "string \<Rightarrow> string \<Rightarrow> nat \<Rightarrow> bool" where
  "imatch_at hay needle i \<longleftrightarrow> i + length needle \<le> length hay \<and>
     map to_lower (take (length needle) (drop i hay)) = needle"

lemma match_len_full:
  assumes "k \<le> length needle"
  shows "match_len hay needle i k = length needle \<longleftrightarrow>
    (\<forall>j. k \<le> j \<longrightarrow> j < length needle \<longrightarrow> to_lower (hay ! (i + j)) = needle ! j)"
  using assms
proof (induction hay needle i k rule: match_len.induct)
  case (1 hay needle i k)
  show ?case
  proof (cases "k < length needle \<and> to_lower (hay ! (i + k)) = needle ! k")
    case True
    then have "match_len hay needle i k = length needle \<longleftrightarrow>
        (\<forall>j. k + 1 \<le> j \<longrightarrow> j < length needle \<longrightarrow> to_lower (hay ! (i + j)) = needle ! j)"
      using "1.IH" [OF True] by (simp add: match_len.simps [of hay needle i k])
    then show ?thesis using True by (metis Suc_eq_plus1 Suc_leD le_neq_implies_less Suc_leI)
  next
    case False
    then have "match_len hay needle i k = k" by (subst match_len.simps) auto
    then show ?thesis using False "1.prems" by auto
  qed
qed

lemma ifind_test:
  assumes "needle \<noteq> []" and "i + length needle \<le> length hay"
  shows "to_lower (hay ! i) = needle ! 0 \<and> match_len hay needle i 1 = length needle \<longleftrightarrow> imatch_at hay needle i"
proof -
  have "1 \<le> length needle" using assms(1) by (cases needle) auto
  then have "to_lower (hay ! i) = needle ! 0 \<and> match_len hay needle i 1 = length needle \<longleftrightarrow>
      (\<forall>j < length needle. to_lower (hay ! (i + j)) = needle ! j)"
    using match_len_full [of 1 needle hay i]
    by (metis One_nat_def Suc_leI add.right_neutral bot_nat_0.not_eq_extremum less_le_trans zero_less_one)
  also have "\<dots> \<longleftrightarrow> imatch_at hay needle i"
    using assms(2) by (auto simp: imatch_at_def list_eq_iff_nth_eq)
  finally show ?thesis .
qed

lemma ifind_loop_spec:
  assumes "needle \<noteq> []" and "length needle \<le> length hay" and "lst = length hay - length needle"
  shows "(case ifind_loop hay needle i lst of
      None \<Rightarrow> \<forall>j \<ge> i. \<not> imatch_at hay needle j
    | Some p \<Rightarrow> i \<le> p \<and> imatch_at hay needle p \<and> (\<forall>j. i \<le> j \<longrightarrow> j < p \<longrightarrow> \<not> imatch_at hay needle j))"
  using assms
proof (induction hay needle i lst rule: ifind_loop.induct)
  case (1 hay needle i lst)
  show ?case
  proof (cases "i \<le> lst")
    case True
    then have len: "i + length needle \<le> length hay" using "1.prems" by simp
    note test = ifind_test [OF "1.prems"(1) len]
    show ?thesis
    proof (cases "imatch_at hay needle i")
      case m: True
      then show ?thesis using True test by (simp add: ifind_loop.simps [of hay needle i lst])
    next
      case m: False
      then have eq: "ifind_loop hay needle i lst = ifind_loop hay needle (i + 1) lst"
        using True test by (subst ifind_loop.simps) auto
      have less: "i \<le> j \<longleftrightarrow> i = j \<or> i + 1 \<le> j" for j by auto
      show ?thesis
        using "1.IH" [OF True _ "1.prems"] test m unfolding eq
        by (auto split: option.splits simp: less)
    qed
  next
    case False
    then have "ifind_loop hay needle i lst = None" by (subst ifind_loop.simps) simp
    then show ?thesis using "1.prems" False by (auto simp: imatch_at_def)
  qed
qed

lemma ifind_spec:
  "(case ifind hay needle frm of
      None \<Rightarrow> \<forall>j \<ge> frm. \<not> imatch_at hay needle j
    | Some p \<Rightarrow> frm \<le> p \<and> imatch_at hay needle p \<and> (\<forall>j. frm \<le> j \<longrightarrow> j < p \<longrightarrow> \<not> imatch_at hay needle j))"
proof (cases "needle = []")
  case True
  then show ?thesis by (auto simp: ifind_def imatch_at_def)
next
  case False
  show ?thesis
  proof (cases "length hay < length needle \<or> frm > length hay - length needle")
    case True
    then show ?thesis using False by (auto simp: ifind_def imatch_at_def)
  next
    case ok: False
    then show ?thesis using ifind_loop_spec [OF False, of hay _ frm] False by (simp add: ifind_def)
  qed
qed

end
