(* ===== verification/Symbols.thy ===== *)
theory Symbols
  imports Flat_Hash Ascii Itch
begin

text \<open>
  \<open>src/ref/symbols.hpp\<close>, \<open>src/ref/symbols.cpp\<close>: the security master. The three hash indexes are
  \<open>flat_map\<close>s, so an operation that inserts is partial like theirs; \<open>st_inv\<close> makes all of them
  total. \<open>std::unordered_map\<close> is a map. \<open>uint32_t\<close> ids are \<open>u32\<close> and \<open>kInvalid\<close> is the largest.
  The loaders of the two Nasdaq Trader directories are modelled; the loaders that read floating
  point columns or JSON are not.
\<close>

subsection \<open>Securities\<close>

datatype exchange = XUnknown | NasdaqGS | NasdaqGM | NasdaqCM | NYSE | NYSEAmerican | NYSEArca | CboeBZX | IEX | OTC

fun exchange_name :: "exchange \<Rightarrow> string" where
  "exchange_name NasdaqGS = ''Nasdaq GS''"
| "exchange_name NasdaqGM = ''Nasdaq GM''"
| "exchange_name NasdaqCM = ''Nasdaq CM''"
| "exchange_name NYSE = ''NYSE''"
| "exchange_name NYSEAmerican = ''NYSE American''"
| "exchange_name NYSEArca = ''NYSE Arca''"
| "exchange_name CboeBZX = ''Cboe BZX''"
| "exchange_name IEX = ''IEX''"
| "exchange_name OTC = ''OTC''"
| "exchange_name XUnknown = ''?''"

definition is_exchange_listed :: "exchange \<Rightarrow> bool" where
  "is_exchange_listed e \<longleftrightarrow> e \<noteq> XUnknown \<and> e \<noteq> OTC"

record symbol_info =
  ticker :: string
  si_key :: u64
  si_name :: string
  si_exchange :: exchange
  financial_status :: char
  etf :: bool
  test_issue :: bool
  round_lot :: u32
  cik :: u32
  shares_outstanding :: double
  shares_asof_day :: int
  public_float_usd :: double
  prev_close :: double
  adv20 :: double
  adv_days :: u32
  short_volume_ratio :: double

definition symbol_info0 :: symbol_info where
  "symbol_info0 = \<lparr>ticker = [], si_key = 0, si_name = [], si_exchange = XUnknown, financial_status = CHR ''N'',
     etf = False, test_issue = False, round_lot = 100, cik = 0, shares_outstanding = 0, shares_asof_day = 0,
     public_float_usd = 0, prev_close = 0, adv20 = 0, adv_days = 0, short_volume_ratio = - 1\<rparr>"

function has_word_from :: "string \<Rightarrow> string \<Rightarrow> nat \<Rightarrow> bool" where
  "has_word_from hay word_lower frm =
     (case ifind hay word_lower frm of
        None \<Rightarrow> False
      | Some p \<Rightarrow>
          let left_ok = (p = 0 \<or> \<not> is_alpha (hay ! (p - 1)));
              e = p + length word_lower;
              right_ok = (e \<ge> length hay \<or> \<not> is_alpha (hay ! e))
          in if left_ok \<and> right_ok then True else has_word_from hay word_lower (p + 1))"
  by pat_completeness auto

lemma ifind_le:
  assumes "ifind hay needle frm = Some p"
  shows "frm \<le> p \<and> p \<le> length hay"
  using ifind_spec [where hay = hay and needle = needle and frm = frm] assms by (auto simp: imatch_at_def)

termination has_word_from
  by (relation "measure (\<lambda>(hay, w, frm). Suc (length hay) - frm)") (auto dest: ifind_le)

declare has_word_from.simps [simp del]

definition has_word :: "string \<Rightarrow> string \<Rightarrow> bool" where
  "has_word hay word_lower = has_word_from hay word_lower 0"

definition is_derivative_security :: "symbol_info \<Rightarrow> bool" where
  "is_derivative_security s \<longleftrightarrow>
     has_word (si_name s) ''warrant'' \<or> has_word (si_name s) ''warrants'' \<or> has_word (si_name s) ''unit'' \<or>
     has_word (si_name s) ''units'' \<or> has_word (si_name s) ''right'' \<or> has_word (si_name s) ''rights''"

definition distressed :: "symbol_info \<Rightarrow> bool" where
  "distressed s \<longleftrightarrow> financial_status s \<noteq> CHR ''N'' \<and> financial_status s \<noteq> CHR '' '' \<and> financial_status s \<noteq> CHR 0x00"

subsection \<open>Names\<close>

fun find_sub :: "string \<Rightarrow> string \<Rightarrow> nat \<Rightarrow> nat option" where
  \<comment> \<open>\<open>s.find(pat)\<close>\<close>
  "find_sub [] pat i = (if pat = [] then Some i else None)"
| "find_sub (c # cs) pat i = (if take (length pat) (c # cs) = pat then Some i else find_sub cs pat (i + 1))"

definition flush :: "string \<Rightarrow> string list \<Rightarrow> string list" where
  "flush cur ws = (if cur \<noteq> [] then ws @ [cur] else ws)"

fun name_words :: "string \<Rightarrow> string \<Rightarrow> string list \<Rightarrow> string list" where
  \<comment> \<open>the character loop, \<open>cur\<close> and \<open>words\<close>\<close>
  "name_words [] cur ws = flush cur ws"
| "name_words (c # cs) cur ws =
     (if is_alnum c then name_words cs (cur @ [to_upper c]) ws
      else if c = CHR ''&'' then name_words cs [] (flush cur ws @ [''AND''])
      else if c = CHR 0x27 \<or> c = CHR ''.'' then name_words cs cur ws
      else name_words cs [] (flush cur ws))"

definition kSuffix :: "string list" where
  "kSuffix = [''INC'', ''INCORPORATED'', ''CORP'', ''CORPORATION'', ''CO'', ''COMPANY'', ''LTD'', ''LIMITED'',
     ''PLC'', ''LLC'', ''LP'', ''HOLDINGS'', ''HOLDING'', ''GROUP'', ''SA'', ''NV'', ''AG'', ''SE'', ''ADR'',
     ''ADS'', ''THE'', ''COMMON'', ''STOCK'', ''SHARES'', ''ORDINARY'', ''CLASS'', ''A'', ''B'']"

function drop_suffixes :: "string list \<Rightarrow> string list" where
  "drop_suffixes ws = (if length ws > 1 \<and> last ws \<in> set kSuffix then drop_suffixes (butlast ws) else ws)"
  by pat_completeness auto
termination
  by (relation "measure length") auto

declare drop_suffixes.simps [simp del]

fun join_words :: "string list \<Rightarrow> string \<Rightarrow> string" where
  "join_words [] out = out"
| "join_words (w # ws) out = join_words ws ((if out \<noteq> [] then out @ '' '' else out) @ w)"

definition normalize_company_name :: "string \<Rightarrow> string" where
  "normalize_company_name name =
     (let name = (case find_sub name '' - '' 0 of None \<Rightarrow> name | Some dash \<Rightarrow> take dash name);
          ws = drop_suffixes (name_words name [] []);
          ws = (if length ws > 1 \<and> hd ws = ''THE'' then tl ws else ws)
      in join_words ws [])"

subsection \<open>The table\<close>

definition kInvalid :: u32 where
  "kInvalid = - 1"

definition kAmbiguous :: u32 where
  "kAmbiguous = kInvalid - 1"

record symbol_table =
  syms :: "symbol_info list"
  by_norm :: "u32 flat_map"
  by_key :: "u32 flat_map"
  by_cik_map :: "u32 \<Rightarrow> u32 list option"
  by_name :: "u32 flat_map"

definition symbol_table_new :: "symbol_table option" where
  "symbol_table_new = do {
     a \<leftarrow> flat_map_new 0 1024 0.7;
     b \<leftarrow> flat_map_new 0 1024 0.7;
     c \<leftarrow> flat_map_new 0 1024 0.7;
     Some \<lparr>syms = [], by_norm = a, by_key = b, by_cik_map = Map.empty, by_name = c\<rparr> }"

definition make_key :: "string \<Rightarrow> u64" where
  "make_key s = le_word (map (\<lambda>i. byte_of_char (if i < length s then to_upper (s ! i) else CHR '' '')) [0..<8])"

definition norm_char :: "char \<Rightarrow> char" where
  "norm_char c = (if c = CHR ''-'' \<or> c = CHR ''/'' \<or> c = CHR '' '' \<or> c = CHR ''.'' then CHR ''.'' else to_upper c)"

definition normalize :: "string \<Rightarrow> string" where
  "normalize s = map norm_char (trim s)"

definition index_alias :: "symbol_table \<Rightarrow> string \<Rightarrow> u32 \<Rightarrow> symbol_table option" where
  "index_alias t alias sid =
     (if alias = [] then Some t
      else map_option (\<lambda>(m, _). t\<lparr>by_norm := m\<rparr>) (insert_or_assign 0 (by_norm t) (hash_sv (normalize alias)) sid))"

definition index_key :: "symbol_table \<Rightarrow> u64 \<Rightarrow> u32 \<Rightarrow> symbol_table option" where
  \<comment> \<open>\<open>by_key_.insert_or_assign(k, id)\<close>\<close>
  "index_key t k sid = map_option (\<lambda>(m, _). t\<lparr>by_key := m\<rparr>) (insert_or_assign 0 (by_key t) k sid)"

definition cik_list :: "symbol_table \<Rightarrow> u32 \<Rightarrow> u32 list" where
  \<comment> \<open>\<open>by_cik\<close>\<close>
  "cik_list t c = (case by_cik_map t c of None \<Rightarrow> [] | Some ids \<Rightarrow> ids)"

definition add :: "symbol_table \<Rightarrow> symbol_info \<Rightarrow> (symbol_table \<times> u32) option" where
  "add t info =
     (let sid = of_nat (length (syms t));
          info = (if si_key info = 0 then info\<lparr>si_key := make_key (ticker info)\<rparr> else info)
      in do {
        let t = t\<lparr>syms := syms t @ [info]\<rparr>;
        t \<leftarrow> index_alias t (ticker info) sid;
        t \<leftarrow> index_key t (si_key info) sid;
        let t = (if cik info \<noteq> 0
                 then t\<lparr>by_cik_map := (by_cik_map t)(cik info \<mapsto> cik_list t (cik info) @ [sid])\<rparr> else t);
        Some (t, sid) })"

definition find_id :: "u32 flat_map \<Rightarrow> u64 \<Rightarrow> u32 option" where
  \<comment> \<open>\<open>const uint32_t* v = m.find(k); return v ? *v : kInvalid\<close>\<close>
  "find_id m k = map_option (\<lambda>p. case p of None \<Rightarrow> kInvalid | Some i \<Rightarrow> value_at m i) (fm_find m k)"

definition st_find :: "symbol_table \<Rightarrow> string \<Rightarrow> u32 option" where
  \<comment> \<open>at most 32 characters fit \<open>buf\<close>; unlike \<open>normalize\<close>, nothing is trimmed\<close>
  "st_find t tk =
     (if tk = [] then Some kInvalid
      else if length tk > 32 then Some kInvalid
      else find_id (by_norm t) (hash_sv (map norm_char tk)))"

definition find_key :: "symbol_table \<Rightarrow> u64 \<Rightarrow> u32 option" where
  "find_key t k = find_id (by_key t) k"

definition upsert :: "symbol_table \<Rightarrow> string \<Rightarrow> (symbol_table \<times> u32) option" where
  "upsert t tk = do {
     existing \<leftarrow> st_find t tk;
     if existing \<noteq> kInvalid then Some (t, existing)
     else add t (symbol_info0\<lparr>ticker := normalize tk\<rparr>) }"

definition better_primary :: "symbol_info \<Rightarrow> symbol_info \<Rightarrow> bool" where
  \<comment> \<open>whether \<open>s\<close> replaces the best so far \<open>b\<close>\<close>
  "better_primary s b =
     (let s_listed = is_exchange_listed (si_exchange s); b_listed = is_exchange_listed (si_exchange b) in
      if s_listed \<noteq> b_listed then s_listed
      else if is_derivative_security b \<and> \<not> is_derivative_security s then True
      else is_derivative_security b = is_derivative_security s \<and> length (ticker s) < length (ticker b))"

definition primary_for_cik :: "symbol_table \<Rightarrow> u32 \<Rightarrow> u32" where
  "primary_for_cik t c =
     fold (\<lambda>sid best. if best = kInvalid then sid
                      else if better_primary (syms t ! unat sid) (syms t ! unat best) then sid else best)
       (cik_list t c) kInvalid"

subsection \<open>The issuer-name index\<close>

definition name_index_step ::
    "symbol_table \<Rightarrow> u32 flat_map \<times> (u64 \<Rightarrow> u32 option) \<Rightarrow> nat \<Rightarrow> (u32 flat_map \<times> (u64 \<Rightarrow> u32 option)) option" where
  \<comment> \<open>one iteration of the loop of \<open>build_name_index\<close>: \<open>by_name_\<close> and \<open>owner_cik\<close>\<close>
  "name_index_step t acc i =
     (let (m, owner) = acc; s = syms t ! i; sid = of_nat i in
      if \<not> is_exchange_listed (si_exchange s) \<or> etf s \<or> test_issue s \<or> is_derivative_security s \<or> si_name s = []
      then Some acc
      else let primary = (if cik s \<noteq> 0 then primary_for_cik t (cik s) else sid) in
        if primary \<noteq> sid then Some acc
        else let n = normalize_company_name (si_name s) in
          if length n < 4 then Some acc
          else let h = hash_sv n in do {
            (m, slot, inserted) \<leftarrow> try_emplace 0 m h;
            if inserted then Some (set_value m slot sid, owner(h \<mapsto> cik s))
            else if value_at m slot \<noteq> kAmbiguous then
              (let oc = (case owner h of None \<Rightarrow> 0 | Some c \<Rightarrow> c);
                   owner = owner(h \<mapsto> oc)
               in if oc \<noteq> cik s \<or> cik s = 0 then Some (set_value m slot kAmbiguous, owner) else Some (m, owner))
            else Some (m, owner) })"

fun fold_opt :: "('s \<Rightarrow> 'a \<Rightarrow> 's option) \<Rightarrow> 'a list \<Rightarrow> 's \<Rightarrow> 's option" where
  "fold_opt f [] s = Some s"
| "fold_opt f (x # xs) s = (case f s x of None \<Rightarrow> None | Some s \<Rightarrow> fold_opt f xs s)"

definition build_name_index :: "symbol_table \<Rightarrow> symbol_table option" where
  "build_name_index t =
     map_option (\<lambda>(m, _). t\<lparr>by_name := m\<rparr>)
       (fold_opt (name_index_step t) [0..<length (syms t)] (fm_clear (by_name t), Map.empty))"

definition find_by_name :: "symbol_table \<Rightarrow> string \<Rightarrow> u32 option" where
  "find_by_name t company_name =
     (let n = normalize_company_name company_name in
      if length n < 4 then Some kInvalid
      else map_option (\<lambda>p. case p of None \<Rightarrow> kInvalid
                           | Some i \<Rightarrow> if value_at (by_name t) i = kAmbiguous then kInvalid else value_at (by_name t) i)
             (fm_find (by_name t) (hash_sv n)))"

subsection \<open>Loaders\<close>

definition column_of :: "string list \<Rightarrow> string \<Rightarrow> nat option" where
  \<comment> \<open>the last header cell with this name; \<open>None\<close> is \<open>-1\<close>\<close>
  "column_of cells w =
     fold (\<lambda>i acc. if iequals (cells ! i) w then Some i else acc) [0..<length cells] None"

definition pipe_cells :: "string \<Rightarrow> string list" where
  "pipe_cells line = map trim (split_str line (CHR ''|''))"

definition pick_cells :: "nat option list \<Rightarrow> string list \<Rightarrow> string list" where
  "pick_cells idx cells =
     map (\<lambda>k. case k of None \<Rightarrow> [] | Some i \<Rightarrow> if i < length cells then cells ! i else []) idx"

definition pipe_rows :: "string \<Rightarrow> string list \<Rightarrow> string list list" where
  \<comment> \<open>\<open>for_each_pipe_row\<close>: the vectors \<open>f\<close> is called with\<close>
  "pipe_rows text wanted =
     (case filter (\<lambda>l. l \<noteq> []) (lines text) of
        [] \<Rightarrow> []
      | hdr # data \<Rightarrow>
          let idx = map (column_of (pipe_cells hdr)) wanted
          in map (\<lambda>l. pick_cells idx (pipe_cells l)) (filter (\<lambda>l. \<not> istarts_with l ''File Creation Time'') data))"

definition set_info :: "symbol_table \<Rightarrow> u32 \<Rightarrow> symbol_info \<Rightarrow> symbol_table" where
  \<comment> \<open>writing through \<open>syms_[id]\<close>\<close>
  "set_info t sid s = t\<lparr>syms := (syms t)[unat sid := s]\<rparr>"

definition cell_char :: "string \<Rightarrow> char \<Rightarrow> char" where
  "cell_char c d = (if c = [] then d else hd c)"

definition cell_yes :: "string \<Rightarrow> bool" where
  "cell_yes c \<longleftrightarrow> c \<noteq> [] \<and> hd c = CHR ''Y''"

definition lot_of :: "string \<Rightarrow> u32 \<Rightarrow> u32" where
  "lot_of c old = (case parse_int False 0 (2 ^ 32 - 1) c of None \<Rightarrow> old | Some v \<Rightarrow> word_of_int v)"

definition nasdaq_row :: "symbol_table \<Rightarrow> string list \<Rightarrow> symbol_table option" where
  "nasdaq_row t c =
     (if c ! 0 = [] then Some t
      else do {
        (t, sid) \<leftarrow> upsert t (c ! 0);
        let s = syms t ! unat sid;
        let cat = cell_char (c ! 2) (CHR '' '');
        let s = s\<lparr>si_name := c ! 1,
                  si_exchange := (if cat = CHR ''Q'' then NasdaqGS else if cat = CHR ''G'' then NasdaqGM else NasdaqCM),
                  test_issue := cell_yes (c ! 3),
                  financial_status := cell_char (c ! 4) (CHR ''N''),
                  round_lot := lot_of (c ! 5) (round_lot s),
                  etf := cell_yes (c ! 6),
                  si_key := make_key (c ! 0)\<rparr>;
        index_key (set_info t sid s) (make_key (c ! 0)) sid })"

definition load_nasdaq_listed :: "symbol_table \<Rightarrow> string \<Rightarrow> (symbol_table \<times> nat) option" where
  "load_nasdaq_listed t text =
     (let rows = pipe_rows text [''Symbol'', ''Security Name'', ''Market Category'', ''Test Issue'',
                                 ''Financial Status'', ''Round Lot Size'', ''ETF'']
      in map_option (\<lambda>t. (t, length rows)) (fold_opt nasdaq_row rows t))"

definition other_exchange :: "char \<Rightarrow> exchange" where
  "other_exchange c =
     (if c = CHR ''A'' then NYSEAmerican else if c = CHR ''N'' then NYSE else if c = CHR ''P'' then NYSEArca
      else if c = CHR ''Z'' then CboeBZX else if c = CHR ''V'' then IEX else XUnknown)"

definition other_row :: "symbol_table \<Rightarrow> string list \<Rightarrow> symbol_table option" where
  "other_row t c =
     (if c ! 0 = [] then Some t
      else do {
        (t, sid) \<leftarrow> upsert t (c ! 0);
        let s = syms t ! unat sid;
        let s = s\<lparr>si_name := c ! 1,
                  si_exchange := other_exchange (cell_char (c ! 2) (CHR '' '')),
                  etf := cell_yes (c ! 4),
                  round_lot := lot_of (c ! 5) (round_lot s),
                  test_issue := cell_yes (c ! 6)\<rparr>;
        let t = set_info t sid s;
        t \<leftarrow> index_alias t (c ! 3) sid;
        t \<leftarrow> index_alias t (c ! 7) sid;
        let itch_sym = (if c ! 7 = [] then c ! 0 else c ! 7);
        let t = set_info t sid (s\<lparr>si_key := make_key itch_sym\<rparr>);
        index_key t (make_key itch_sym) sid })"

definition load_other_listed :: "symbol_table \<Rightarrow> string \<Rightarrow> (symbol_table \<times> nat) option" where
  "load_other_listed t text =
     (let rows = pipe_rows text [''ACT Symbol'', ''Security Name'', ''Exchange'', ''CQS Symbol'', ''ETF'',
                                 ''Round Lot Size'', ''Test Issue'', ''NASDAQ Symbol'']
      in map_option (\<lambda>t. (t, length rows)) (fold_opt other_row rows t))"

subsection \<open>Primary securities\<close>

lemma better_primary_irrefl: "\<not> better_primary s s"
  by (simp add: better_primary_def)

lemma better_primary_asym: "better_primary a b \<Longrightarrow> \<not> better_primary b a"
  by (auto simp: better_primary_def Let_def split: if_splits)

lemma not_better_trans:
  "\<not> better_primary a b \<Longrightarrow> \<not> better_primary b c \<Longrightarrow> \<not> better_primary a c"
  by (auto simp: better_primary_def Let_def split: if_splits)

lemma primary_fold:
  assumes "kInvalid \<notin> set ids"
  shows "let r = fold (\<lambda>sid best. if best = kInvalid then sid
                      else if better_primary (f sid) (f best) then sid else best) ids best
     in (best = kInvalid \<and> ids = [] \<and> r = kInvalid) \<or>
        (r \<in> insert best (set ids) - {kInvalid} \<and>
         (\<forall>i \<in> insert best (set ids) - {kInvalid}. \<not> better_primary (f i) (f r)))"
  using assms
proof (induction ids arbitrary: best)
  case Nil
  then show ?case by (auto simp: better_primary_irrefl)
next
  case (Cons i ids)
  let ?b = "if best = kInvalid then i else if better_primary (f i) (f best) then i else best"
  have b: "?b \<noteq> kInvalid" using Cons.prems by auto
  have keep: "\<not> better_primary (f x) (f r)"
    if "\<not> better_primary (f ?b) (f r)" and "x \<in> {best, i} - {kInvalid}" for x r
  proof (cases "best = kInvalid \<or> x = ?b")
    case False
    then have "\<not> better_primary (f x) (f ?b)"
      using that(2) better_primary_asym by (auto split: if_splits)
    then show ?thesis using that(1) by (rule not_better_trans)
  qed (use that in auto)
  define r where "r = fold (\<lambda>sid best. if best = kInvalid then sid
      else if better_primary (f sid) (f best) then sid else best) ids ?b"
  have "kInvalid \<notin> set ids" using Cons.prems by simp
  then have IH: "r \<in> insert ?b (set ids) - {kInvalid}" "\<forall>x \<in> insert ?b (set ids) - {kInvalid}. \<not> better_primary (f x) (f r)"
    using Cons.IH [of ?b] b unfolding Let_def r_def by blast+
  have "?b \<in> {best, i}" by simp
  then have "r \<in> insert best (set (i # ids)) - {kInvalid}" using IH(1) by auto
  moreover have "\<not> better_primary (f x) (f r)" if "x \<in> insert best (set (i # ids)) - {kInvalid}" for x
    using that IH(2) keep [of r x] b by auto
  ultimately show ?case unfolding Let_def r_def fold_simps(2) o_apply by blast
qed

lemma primary_for_cik_best:
  assumes "kInvalid \<notin> set (cik_list t c)"
  shows "if cik_list t c = [] then primary_for_cik t c = kInvalid
    else primary_for_cik t c \<in> set (cik_list t c) \<and>
      (\<forall>i \<in> set (cik_list t c). \<not> better_primary (syms t ! unat i) (syms t ! unat (primary_for_cik t c)))"
  using primary_fold [OF assms, of "\<lambda>i. syms t ! unat i" kInvalid] assms
  by (auto simp: primary_for_cik_def Let_def)

subsection \<open>Invariant\<close>

definition st_inv :: "symbol_table \<Rightarrow> bool" where
  \<comment> \<open>the indexes are sound tables and name existing securities only\<close>
  "st_inv t \<longleftrightarrow> fm_inv (by_norm t) \<and> fm_inv (by_key t) \<and> fm_inv (by_name t) \<and>
     (\<forall>v \<in> ran (fm_map (by_norm t)) \<union> ran (fm_map (by_key t)). unat v < length (syms t)) \<and>
     (\<forall>c. \<forall>v \<in> set (cik_list t c). unat v < length (syms t))"

lemma symbol_table_new_ok: "\<exists>t. symbol_table_new = Some t \<and> st_inv t \<and> syms t = []"
proof -
  obtain m where "flat_map_new (0 :: u32) 1024 0.7 = Some m" "fm_inv m" "fm_map m = Map.empty"
    using flat_map_new_ok [of "0.7" "0 :: u32" 1024] by auto
  then show ?thesis by (simp add: symbol_table_new_def st_inv_def cik_list_def)
qed

lemma ran_upd: "ran (m(k \<mapsto> v)) \<subseteq> insert v (ran m)"
  by (auto simp: ran_def)

lemma index_alias_ok:
  assumes "st_inv t" and "unat sid < length (syms t)"
  shows "\<exists>t'. index_alias t alias sid = Some t' \<and> st_inv t' \<and> syms t' = syms t \<and> by_key t' = by_key t \<and>
    by_cik_map t' = by_cik_map t \<and> by_name t' = by_name t \<and>
    fm_map (by_norm t') = (if alias = [] \<or> hash_sv (normalize alias) = kEmpty then fm_map (by_norm t)
      else (fm_map (by_norm t))(hash_sv (normalize alias) \<mapsto> sid))"
proof (cases "alias = []")
  case False
  obtain m p where "insert_or_assign 0 (by_norm t) (hash_sv (normalize alias)) sid = Some (m, p)" "fm_inv m"
      "fm_map m = (if hash_sv (normalize alias) = kEmpty then fm_map (by_norm t)
        else (fm_map (by_norm t))(hash_sv (normalize alias) \<mapsto> sid))"
    using insert_or_assign_total [of "by_norm t"] assms(1) unfolding st_inv_def by metis
  then show ?thesis
    using False assms ran_upd [of "fm_map (by_norm t)" "hash_sv (normalize alias)" sid]
    by (auto simp: index_alias_def st_inv_def cik_list_def)
qed (use assms in \<open>simp add: index_alias_def\<close>)

lemma index_key_ok:
  assumes "st_inv t" and "unat sid < length (syms t)"
  shows "\<exists>t'. index_key t k sid = Some t' \<and> st_inv t' \<and> syms t' = syms t \<and> by_norm t' = by_norm t \<and>
    by_cik_map t' = by_cik_map t \<and> by_name t' = by_name t \<and>
    fm_map (by_key t') = (if k = kEmpty then fm_map (by_key t) else (fm_map (by_key t))(k \<mapsto> sid))"
proof -
  obtain m p where "insert_or_assign 0 (by_key t) k sid = Some (m, p)" "fm_inv m"
      "fm_map m = (if k = kEmpty then fm_map (by_key t) else (fm_map (by_key t))(k \<mapsto> sid))"
    using insert_or_assign_total [of "by_key t"] assms(1) unfolding st_inv_def by metis
  then show ?thesis
    using assms ran_upd [of "fm_map (by_key t)" k sid]
    by (auto simp: index_key_def st_inv_def cik_list_def)
qed

definition with_key :: "symbol_info \<Rightarrow> symbol_info" where
  "with_key info = (if si_key info = 0 then info\<lparr>si_key := make_key (ticker info)\<rparr> else info)"

lemma st_inv_push: "st_inv t \<Longrightarrow> st_inv (t\<lparr>syms := syms t @ [x]\<rparr>)"
  by (auto simp: st_inv_def cik_list_def less_Suc_eq)

lemma add_ok:
  assumes inv: "st_inv t" and room: "length (syms t) < 2 ^ 32 - 2"
  shows "\<exists>t'. add t info = Some (t', of_nat (length (syms t))) \<and> st_inv t' \<and> syms t' = syms t @ [with_key info] \<and>
    fm_map (by_norm t') = (if ticker info = [] \<or> hash_sv (normalize (ticker info)) = kEmpty then fm_map (by_norm t)
      else (fm_map (by_norm t))(hash_sv (normalize (ticker info)) \<mapsto> of_nat (length (syms t)))) \<and>
    fm_map (by_key t') = (if si_key (with_key info) = kEmpty then fm_map (by_key t)
      else (fm_map (by_key t))(si_key (with_key info) \<mapsto> of_nat (length (syms t)))) \<and>
    by_cik_map t' = (if cik info \<noteq> 0
      then (by_cik_map t)(cik info \<mapsto> cik_list t (cik info) @ [of_nat (length (syms t))]) else by_cik_map t)"
proof -
  let ?sid = "of_nat (length (syms t)) :: u32" and ?i = "with_key info"
  have sid: "unat ?sid = length (syms t)" using room by (simp add: unat_of_nat)
  define t1 where "t1 = t\<lparr>syms := syms t @ [?i]\<rparr>"
  have t1: "st_inv t1" "unat ?sid < length (syms t1)"
    using st_inv_push [OF inv] sid by (simp_all add: t1_def)
  obtain t2 where t2: "index_alias t1 (ticker info) ?sid = Some t2" "st_inv t2" "syms t2 = syms t1"
      "by_key t2 = by_key t1" "by_cik_map t2 = by_cik_map t1"
      "fm_map (by_norm t2) = (if ticker info = [] \<or> hash_sv (normalize (ticker info)) = kEmpty then fm_map (by_norm t1)
        else (fm_map (by_norm t1))(hash_sv (normalize (ticker info)) \<mapsto> ?sid))"
    using index_alias_ok [OF t1] by metis
  obtain t3 where t3: "index_key t2 (si_key ?i) ?sid = Some t3" "st_inv t3" "syms t3 = syms t2"
      "by_norm t3 = by_norm t2" "by_cik_map t3 = by_cik_map t2"
      "fm_map (by_key t3) = (if si_key ?i = kEmpty then fm_map (by_key t2) else (fm_map (by_key t2))(si_key ?i \<mapsto> ?sid))"
    using index_key_ok [of t2 ?sid] t2(2,3) t1(2) by metis
  have fields: "ticker ?i = ticker info" "cik ?i = cik info" by (simp_all add: with_key_def)
  have cl: "cik_list t3 c = cik_list t c" for c by (simp add: cik_list_def t3(5) t2(5) t1_def)
  define t4 where "t4 = (if cik info \<noteq> 0
      then t3\<lparr>by_cik_map := (by_cik_map t3)(cik info \<mapsto> cik_list t3 (cik info) @ [?sid])\<rparr> else t3)"
  have "add t info = Some (t4, ?sid)"
    using t2(1) t3(1) fields
    by (simp add: add_def Let_def with_key_def [symmetric] t1_def [symmetric] t4_def)
  moreover have "st_inv t4"
    using t3(2) sid by (auto simp: t4_def st_inv_def cik_list_def t3(3) t2(3) t1_def split: if_splits option.splits)
  ultimately show ?thesis
    using t3 t2 cl by (simp add: t4_def t1_def)
qed

subsection \<open>Lookups\<close>

lemma find_id_ok:
  assumes "fm_inv m" and "k \<noteq> kEmpty"
  shows "find_id m k = Some (case fm_map m k of None \<Rightarrow> kInvalid | Some v \<Rightarrow> v)"
proof -
  obtain p where p: "fm_find m k = Some p" "map_option (value_at m) p = fm_map m k"
    using fm_lookup_pointer [OF assms] by metis
  then show ?thesis by (cases p) (simp_all add: find_id_def flip: p(2))
qed

definition findable :: "string \<Rightarrow> bool" where
  \<comment> \<open>tickers both \<open>normalize\<close> and \<open>find\<close> treat alike, with a storable hash\<close>
  "findable tk \<longleftrightarrow> tk \<noteq> [] \<and> trim tk = tk \<and> length tk \<le> 32 \<and> hash_sv (map norm_char tk) \<noteq> kEmpty"

lemma st_find_map:
  assumes "st_inv t" and "tk \<noteq> []" "length tk \<le> 32" "hash_sv (map norm_char tk) \<noteq> kEmpty"
  shows "st_find t tk = Some (case fm_map (by_norm t) (hash_sv (map norm_char tk)) of None \<Rightarrow> kInvalid | Some v \<Rightarrow> v)"
  using assms find_id_ok [of "by_norm t"] by (simp add: st_find_def st_inv_def)

lemma upper_code: "to_upper c = c \<or> 65 \<le> code (to_upper c)"
proof (cases "97 \<le> code c \<and> code c \<le> 122")
  case True
  then have "code (to_upper c) = code c - 32" by (simp add: to_upper_def)
  moreover have "65 \<le> code c - 32" using True by arith
  ultimately show ?thesis by simp
qed (auto simp: to_upper_def)

lemma norm_char_idem [simp]: "norm_char (norm_char c) = norm_char c"
  using upper_code [of c] by (auto simp: norm_char_def code_def)

lemma id_not_invalid: "i < 2 ^ 32 - 2 \<Longrightarrow> (of_nat i :: u32) \<noteq> kInvalid"
proof
  assume i: "i < 2 ^ 32 - 2" and eq: "(of_nat i :: u32) = kInvalid"
  have "unat (of_nat i :: u32) = i" using i by (simp add: unat_of_nat)
  moreover have "unat kInvalid = 2 ^ 32 - 1" by (simp add: kInvalid_def unsigned_minus_1_eq_mask mask_eq_exp_minus_1)
  ultimately show False using eq i by simp
qed

lemma add_find:
  assumes "st_inv t" and "length (syms t) < 2 ^ 32 - 2" and f: "findable (ticker info)"
  shows "\<exists>t' sid. add t info = Some (t', sid) \<and> st_inv t' \<and> syms t' ! unat sid = with_key info \<and>
    st_find t' (ticker info) = Some sid \<and>
    (si_key (with_key info) \<noteq> kEmpty \<longrightarrow> find_key t' (si_key (with_key info)) = Some sid) \<and>
    (\<forall>i < length (syms t). syms t' ! i = syms t ! i)"
proof -
  let ?sid = "of_nat (length (syms t)) :: u32" and ?k = "si_key (with_key info)"
  obtain t' where a: "add t info = Some (t', ?sid)" "st_inv t'" "syms t' = syms t @ [with_key info]"
      "fm_map (by_norm t') = (if ticker info = [] \<or> hash_sv (normalize (ticker info)) = kEmpty then fm_map (by_norm t)
        else (fm_map (by_norm t))(hash_sv (normalize (ticker info)) \<mapsto> ?sid))"
      "fm_map (by_key t') = (if ?k = kEmpty then fm_map (by_key t) else (fm_map (by_key t))(?k \<mapsto> ?sid))"
    using add_ok [OF assms(1,2)] by metis
  have sid: "unat ?sid = length (syms t)" using assms(2) by (simp add: unat_of_nat)
  have n: "normalize (ticker info) = map norm_char (ticker info)" using f by (simp add: findable_def normalize_def)
  have "st_find t' (ticker info) = Some ?sid"
    using st_find_map [OF a(2), of "ticker info"] f a(4) n by (simp add: findable_def)
  moreover have "?k \<noteq> kEmpty \<longrightarrow> find_key t' ?k = Some ?sid"
    using find_id_ok [of "by_key t'" ?k] a(2,5) by (simp add: find_key_def st_inv_def)
  moreover have "syms t' ! unat ?sid = with_key info" "\<forall>i < length (syms t). syms t' ! i = syms t ! i"
    by (simp_all add: sid a(3) nth_append)
  ultimately show ?thesis using a(1,2) by blast
qed

lemma space_dot: "\<not> is_space (norm_char c)" if "\<not> is_space c"
proof -
  have "\<not> is_space (CHR ''.'')" by (simp add: is_space_def)
  moreover have "\<not> is_space (to_upper c)"
    using upper_code [of c] that by (auto simp: is_space_def code_def)
  ultimately show ?thesis by (simp add: norm_char_def)
qed

lemma trim_normalize: "trim (normalize tk) = normalize tk"
proof (cases "trim tk = []")
  case False
  then have "\<not> is_space (hd (map norm_char (trim tk)))" "\<not> is_space (last (map norm_char (trim tk)))"
    using trim_hd [of tk] space_dot by (simp_all add: hd_map last_map)
  then show ?thesis using False by (simp add: normalize_def trim_eq dropWhile_id hd_rev)
qed (simp add: normalize_def trim_eq [of "[]"])

lemma upsert_ok:
  assumes inv: "st_inv t" and room: "length (syms t) < 2 ^ 32 - 2"
    and tk: "tk \<noteq> []" "length tk \<le> 32 \<longrightarrow> hash_sv (map norm_char tk) \<noteq> kEmpty"
  shows "\<exists>t' sid. upsert t tk = Some (t', sid) \<and> st_inv t' \<and> unat sid < length (syms t') \<and>
    length (syms t) \<le> length (syms t') \<and> length (syms t') \<le> length (syms t) + 1 \<and>
    (findable tk \<longrightarrow> st_find t' tk = Some sid \<and> upsert t' tk = Some (t', sid))"
proof -
  obtain ex where ex: "st_find t tk = Some ex" "ex \<noteq> kInvalid \<longrightarrow> unat ex < length (syms t)"
  proof (cases "length tk \<le> 32")
    case True
    then have f: "st_find t tk = Some (case fm_map (by_norm t) (hash_sv (map norm_char tk)) of None \<Rightarrow> kInvalid | Some v \<Rightarrow> v)"
      using st_find_map [OF inv tk(1)] tk(2) by simp
    show thesis
      by (rule that [OF f]) (use inv in \<open>auto simp: st_inv_def ran_def split: option.splits\<close>)
  next
    case False
    then show thesis using that [of kInvalid] tk(1) by (simp add: st_find_def)
  qed
  show ?thesis
  proof (cases "ex = kInvalid")
    case False
    then have "upsert t tk = Some (t, ex)" using ex(1) by (simp add: upsert_def)
    then show ?thesis using ex False inv by simp
  next
    case True
    let ?i = "symbol_info0\<lparr>ticker := normalize tk\<rparr>" and ?sid = "of_nat (length (syms t)) :: u32"
    obtain t' where a: "add t ?i = Some (t', ?sid)" "st_inv t'" "syms t' = syms t @ [with_key ?i]"
        "fm_map (by_norm t') = (if ticker ?i = [] \<or> hash_sv (normalize (ticker ?i)) = kEmpty then fm_map (by_norm t)
          else (fm_map (by_norm t))(hash_sv (normalize (ticker ?i)) \<mapsto> ?sid))"
      using add_ok [OF inv room, of ?i] by metis
    have u: "upsert t tk = Some (t', ?sid)" using ex(1) True a(1) by (simp add: upsert_def)
    have sid: "unat ?sid = length (syms t)" using room by (simp add: unat_of_nat)
    have "st_find t' tk = Some ?sid" if "findable tk"
    proof -
      have n: "normalize (normalize tk) = map norm_char tk" "normalize tk \<noteq> []"
        using that trim_normalize [of tk] by (simp_all add: findable_def normalize_def comp_def)
      then show ?thesis using st_find_map [OF a(2), of tk] that a(4) by (simp add: findable_def)
    qed
    then show ?thesis using u a(2,3) sid id_not_invalid [OF room] by (simp add: upsert_def)
  qed
qed

lemma st_inv_set_info: "st_inv t \<Longrightarrow> st_inv (set_info t sid s)"
  by (simp add: st_inv_def set_info_def cik_list_def)

lemma nasdaq_row_ok:
  assumes "st_inv t" and "length (syms t) < 2 ^ 32 - 2"
    and "length (c ! 0) \<le> 32 \<longrightarrow> hash_sv (map norm_char (c ! 0)) \<noteq> kEmpty"
  shows "\<exists>t'. nasdaq_row t c = Some t' \<and> st_inv t' \<and> length (syms t') \<le> length (syms t) + 1"
proof (cases "c ! 0 = []")
  case False
  obtain t1 sid where u: "upsert t (c ! 0) = Some (t1, sid)" "st_inv t1" "unat sid < length (syms t1)"
      "length (syms t1) \<le> length (syms t) + 1"
    using upsert_ok [OF assms(1,2) False assms(3)] by metis
  have "\<exists>t'. index_key (set_info t1 sid s) k sid = Some t' \<and> st_inv t' \<and> length (syms t') \<le> length (syms t) + 1" for s k
    using index_key_ok [of "set_info t1 sid s" sid k] st_inv_set_info [OF u(2), of sid s] u(3,4)
    by (auto simp: set_info_def)
  then show ?thesis using u(1) False by (simp add: nasdaq_row_def Let_def)
qed (use assms in \<open>simp add: nasdaq_row_def\<close>)

lemma other_row_ok:
  assumes "st_inv t" and "length (syms t) < 2 ^ 32 - 2"
    and "length (c ! 0) \<le> 32 \<longrightarrow> hash_sv (map norm_char (c ! 0)) \<noteq> kEmpty"
  shows "\<exists>t'. other_row t c = Some t' \<and> st_inv t' \<and> length (syms t') \<le> length (syms t) + 1"
proof (cases "c ! 0 = []")
  case False
  obtain t1 sid where u: "upsert t (c ! 0) = Some (t1, sid)" "st_inv t1" "unat sid < length (syms t1)"
      "length (syms t1) \<le> length (syms t) + 1"
    using upsert_ok [OF assms(1,2) False assms(3)] by metis
  have "\<exists>t'. do { t2 \<leftarrow> index_alias (set_info t1 sid s) (c ! 3) sid; t3 \<leftarrow> index_alias t2 (c ! 7) sid;
      index_key (set_info t3 sid s') k sid } = Some t' \<and> st_inv t' \<and> length (syms t') \<le> length (syms t) + 1" for s s' k
  proof -
    obtain t2 where t2: "index_alias (set_info t1 sid s) (c ! 3) sid = Some t2" "st_inv t2"
        "syms t2 = syms (set_info t1 sid s)"
      using index_alias_ok [of "set_info t1 sid s" sid "c ! 3"] st_inv_set_info [OF u(2)] u(3)
      by (auto simp: set_info_def)
    then have l2: "length (syms t2) = length (syms t1)" by (simp add: set_info_def)
    obtain t3 where t3: "index_alias t2 (c ! 7) sid = Some t3" "st_inv t3" "syms t3 = syms t2"
      using index_alias_ok [of t2 sid "c ! 7"] t2(2) l2 u(3) by auto
    obtain t4 where "index_key (set_info t3 sid s') k sid = Some t4" "st_inv t4" "syms t4 = syms (set_info t3 sid s')"
      using index_key_ok [of "set_info t3 sid s'" sid k] st_inv_set_info [OF t3(2)] t3(3) l2 u(3)
      by (auto simp: set_info_def)
    then show ?thesis using t2(1) t3(1,3) l2 u(4) by (simp add: set_info_def)
  qed
  then show ?thesis using u(1) False by (simp add: other_row_def Let_def)
qed (use assms in \<open>simp add: other_row_def\<close>)

lemma fold_rows_ok:
  assumes step: "\<And>t c. st_inv t \<Longrightarrow> length (syms t) < 2 ^ 32 - 2 \<Longrightarrow> ok c \<Longrightarrow>
      \<exists>t'. row t c = Some t' \<and> st_inv t' \<and> length (syms t') \<le> length (syms t) + 1"
    and "st_inv t" and "length (syms t) + length rows < 2 ^ 32 - 2" and "\<forall>c \<in> set rows. ok c"
  shows "\<exists>t'. fold_opt row rows t = Some t' \<and> st_inv t' \<and> length (syms t') \<le> length (syms t) + length rows"
  using assms(2-4)
proof (induction rows arbitrary: t)
  case (Cons c rows)
  obtain t1 where t1: "row t c = Some t1" "st_inv t1" "length (syms t1) \<le> length (syms t) + 1"
    using step [of t c] Cons.prems by auto
  then obtain t2 where "fold_opt row rows t1 = Some t2" "st_inv t2" "length (syms t2) \<le> length (syms t1) + length rows"
    using Cons.IH [of t1] Cons.prems by auto
  then show ?case using t1 by auto
qed simp

lemma loaders_total:
  assumes "st_inv t" and "length (syms t) + length rows < 2 ^ 32 - 2"
    and "\<forall>c \<in> set rows. length (c ! 0) \<le> 32 \<longrightarrow> hash_sv (map norm_char (c ! 0)) \<noteq> kEmpty"
  shows "\<exists>t'. fold_opt nasdaq_row rows t = Some t' \<and> st_inv t'" "\<exists>t'. fold_opt other_row rows t = Some t' \<and> st_inv t'"
  using fold_rows_ok [where row = nasdaq_row, OF nasdaq_row_ok assms] fold_rows_ok [where row = other_row, OF other_row_ok assms]
  by blast+

subsection \<open>What the Nasdaq directory loader leaves in the table\<close>

definition listed_as :: "string list \<Rightarrow> symbol_info \<Rightarrow> bool" where
  \<comment> \<open>the security holds the name, market tier, flags and ITCH key of this row of the file\<close>
  "listed_as c s \<longleftrightarrow> si_name s = c ! 1 \<and>
     si_exchange s = (if c ! 2 = [] then NasdaqCM else if hd (c ! 2) = CHR ''Q'' then NasdaqGS
       else if hd (c ! 2) = CHR ''G'' then NasdaqGM else NasdaqCM) \<and>
     (test_issue s \<longleftrightarrow> c ! 3 \<noteq> [] \<and> hd (c ! 3) = CHR ''Y'') \<and>
     financial_status s = (if c ! 4 = [] then CHR ''N'' else hd (c ! 4)) \<and>
     (etf s \<longleftrightarrow> c ! 6 \<noteq> [] \<and> hd (c ! 6) = CHR ''Y'') \<and> si_key s = make_key (c ! 0)"

definition known :: "symbol_table \<Rightarrow> string \<Rightarrow> u32 \<Rightarrow> bool" where
  \<comment> \<open>the ticker leads to this security\<close>
  "known t tk sid \<longleftrightarrow> st_find t tk = Some sid \<and> unat sid < length (syms t)"

lemma st_find_findable:
  assumes "st_inv t" and "findable tk"
  shows "st_find t tk = Some (case fm_map (by_norm t) (hash_sv (map norm_char tk)) of None \<Rightarrow> kInvalid | Some v \<Rightarrow> v)"
  using assms st_find_map by (simp add: findable_def)

lemma known_map:
  assumes "st_inv t" and "findable tk" and "length (syms t) < 2 ^ 32 - 1"
  shows "known t tk sid \<longleftrightarrow> fm_map (by_norm t) (hash_sv (map norm_char tk)) = Some sid"
proof -
  have "unat kInvalid = 2 ^ 32 - 1" by (simp add: kInvalid_def unsigned_minus_1_eq_mask mask_eq_exp_minus_1)
  moreover have "unat v < length (syms t)" if "fm_map (by_norm t) k = Some v" for k v
    using assms(1) that by (auto simp: st_inv_def ran_def)
  ultimately show ?thesis
    using st_find_findable [OF assms(1,2)] assms(3) by (auto simp: known_def split: option.splits)
qed

lemma upsert_known:
  assumes inv: "st_inv t" and room: "length (syms t) < 2 ^ 32 - 2" and f: "findable tk"
  shows "\<exists>t' sid. upsert t tk = Some (t', sid) \<and> st_inv t' \<and> known t' tk sid \<and>
    length (syms t) \<le> length (syms t') \<and> length (syms t') \<le> length (syms t) + 1 \<and>
    (\<forall>i < length (syms t). syms t' ! i = syms t ! i) \<and>
    (\<forall>tk' sid'. findable tk' \<longrightarrow> known t tk' sid' \<longrightarrow> known t' tk' sid')"
proof (cases "fm_map (by_norm t) (hash_sv (map norm_char tk))")
  case (Some v)
  then have "known t tk v" using known_map [OF inv f] room by simp
  moreover from this have "st_find t tk = Some v" "v \<noteq> kInvalid"
    using room by (auto simp: known_def kInvalid_def unsigned_minus_1_eq_mask mask_eq_exp_minus_1)
  ultimately show ?thesis using inv by (auto simp: upsert_def)
next
  case None
  let ?i = "symbol_info0\<lparr>ticker := normalize tk\<rparr>" and ?sid = "of_nat (length (syms t)) :: u32"
  have n: "normalize tk = map norm_char tk" "normalize (normalize tk) = map norm_char tk" "normalize tk \<noteq> []"
    using f trim_normalize [of tk] by (simp_all add: findable_def normalize_def comp_def)
  obtain t' where a: "add t ?i = Some (t', ?sid)" "st_inv t'" "syms t' = syms t @ [with_key ?i]"
      "fm_map (by_norm t') = (fm_map (by_norm t))(hash_sv (map norm_char tk) \<mapsto> ?sid)"
    using add_ok [OF inv room, of ?i] n f by (auto simp: findable_def)
  have u: "upsert t tk = Some (t', ?sid)"
    using st_find_findable [OF inv f] None a(1) by (simp add: upsert_def)
  have len: "length (syms t') < 2 ^ 32 - 1" using a(3) room by simp
  have "known t' tk ?sid" using known_map [OF a(2) f len] a(4) by simp
  moreover have "known t' tk' sid'" if "findable tk'" "known t tk' sid'" for tk' sid'
  proof -
    have m: "fm_map (by_norm t) (hash_sv (map norm_char tk')) = Some sid'"
      using known_map [OF inv that(1)] that(2) room by simp
    then have "hash_sv (map norm_char tk') \<noteq> hash_sv (map norm_char tk)" using None by auto
    then show ?thesis using known_map [OF a(2) that(1) len] m a(4) by simp
  qed
  ultimately show ?thesis using u a(2,3) by (auto simp: nth_append)
qed

lemma nasdaq_row_listed:
  assumes inv: "st_inv t" and room: "length (syms t) < 2 ^ 32 - 2" and f: "findable (c ! 0)"
  shows "\<exists>t' sid. nasdaq_row t c = Some t' \<and> st_inv t' \<and> known t' (c ! 0) sid \<and> listed_as c (syms t' ! unat sid) \<and>
    length (syms t) \<le> length (syms t') \<and> length (syms t') \<le> length (syms t) + 1 \<and>
    (\<forall>i < length (syms t). i \<noteq> unat sid \<longrightarrow> syms t' ! i = syms t ! i) \<and>
    (\<forall>tk' sid'. findable tk' \<longrightarrow> known t tk' sid' \<longrightarrow> known t' tk' sid')"
proof -
  obtain t1 sid where u: "upsert t (c ! 0) = Some (t1, sid)" "st_inv t1" "known t1 (c ! 0) sid"
      "length (syms t) \<le> length (syms t1)" "length (syms t1) \<le> length (syms t) + 1"
      "\<forall>i < length (syms t). syms t1 ! i = syms t ! i"
      "\<forall>tk' sid'. findable tk' \<longrightarrow> known t tk' sid' \<longrightarrow> known t1 tk' sid'"
    using upsert_known [OF inv room f] by blast
  have sid: "unat sid < length (syms t1)" using u(3) by (simp add: known_def)
  have ne: "c ! 0 \<noteq> []" using f by (simp add: findable_def)
  have idx: "\<exists>t'. index_key (set_info t1 sid s) k sid = Some t' \<and> st_inv t' \<and> syms t' = (syms t1)[unat sid := s] \<and> by_norm t' = by_norm t1" for s k
    using index_key_ok [of "set_info t1 sid s" sid k] st_inv_set_info [OF u(2), of sid s] sid by (auto simp: set_info_def)
  obtain s t' where t': "nasdaq_row t c = Some t'" "st_inv t'" "syms t' = (syms t1)[unat sid := s]" "by_norm t' = by_norm t1"
      "listed_as c s"
  proof -
    let ?s = "syms t1 ! unat sid" and ?cat = "cell_char (c ! 2) (CHR '' '')"
    define s where "s = ?s\<lparr>si_name := c ! 1,
      si_exchange := (if ?cat = CHR ''Q'' then NasdaqGS else if ?cat = CHR ''G'' then NasdaqGM else NasdaqCM),
      test_issue := cell_yes (c ! 3), financial_status := cell_char (c ! 4) (CHR ''N''),
      round_lot := lot_of (c ! 5) (round_lot ?s), etf := cell_yes (c ! 6), si_key := make_key (c ! 0)\<rparr>"
    obtain t' where i: "index_key (set_info t1 sid s) (make_key (c ! 0)) sid = Some t'" "st_inv t'"
        "syms t' = (syms t1)[unat sid := s]" "by_norm t' = by_norm t1"
      using idx [of s "make_key (c ! 0)"] by blast
    have "nasdaq_row t c = Some t'" using u(1) ne i(1) by (simp add: nasdaq_row_def Let_def s_def)
    moreover have "listed_as c s" by (auto simp: listed_as_def s_def cell_char_def cell_yes_def)
    ultimately show thesis using that i by blast
  qed
  have k: "known t' tk v = known t1 tk v" for tk v by (simp add: known_def st_find_def t'(3,4))
  show ?thesis
    using t' u sid by (intro exI [of _ t'] exI [of _ sid]) (simp add: k)
qed

lemma fold_opt_snoc: "fold_opt f (xs @ [x]) s = (case fold_opt f xs s of None \<Rightarrow> None | Some s \<Rightarrow> f s x)"
  by (induction xs arbitrary: s) (auto split: option.splits)

definition row_listed :: "string list list \<Rightarrow> symbol_table \<Rightarrow> nat \<Rightarrow> bool" where
  \<comment> \<open>row \<open>i\<close> is found by its ticker, with the fields of the last row about that security\<close>
  "row_listed rows t i \<longleftrightarrow> rows ! i ! 0 = [] \<or> (\<exists>sid. known t (rows ! i ! 0) sid \<and>
     ((\<forall>j. i < j \<and> j < length rows \<and> rows ! j ! 0 \<noteq> [] \<longrightarrow> \<not> known t (rows ! j ! 0) sid) \<longrightarrow>
       listed_as (rows ! i) (syms t ! unat sid)))"

lemma nasdaq_rows_listed:
  assumes "st_inv t" and "length (syms t) + length rows < 2 ^ 32 - 2" and "\<forall>c \<in> set rows. c ! 0 = [] \<or> findable (c ! 0)"
  shows "\<exists>t'. fold_opt nasdaq_row rows t = Some t' \<and> st_inv t' \<and> length (syms t') \<le> length (syms t) + length rows \<and>
    (\<forall>tk sid. findable tk \<longrightarrow> known t tk sid \<longrightarrow> known t' tk sid) \<and> (\<forall>i < length rows. row_listed rows t' i)"
  using assms(2,3)
proof (induction rows rule: rev_induct)
  case Nil
  then show ?case using assms(1) by simp
next
  case (snoc c rows)
  obtain t1 where t1: "fold_opt nasdaq_row rows t = Some t1" "st_inv t1" "length (syms t1) \<le> length (syms t) + length rows"
      "\<forall>tk sid. findable tk \<longrightarrow> known t tk sid \<longrightarrow> known t1 tk sid" "\<forall>i < length rows. row_listed rows t1 i"
    using snoc by auto
  show ?case
  proof (cases "c ! 0 = []")
    case True
    then have "nasdaq_row t1 c = Some t1" by (simp add: nasdaq_row_def)
    moreover have "row_listed (rows @ [c]) t1 i" if "i < Suc (length rows)" for i
      using t1(5) that True by (fastforce simp: row_listed_def nth_append less_Suc_eq)
    ultimately show ?thesis using t1 by (auto simp: fold_opt_snoc)
  next
    case False
    have room: "length (syms t1) < 2 ^ 32 - 2" and f: "findable (c ! 0)" using t1(3) snoc.prems False by auto
    obtain t2 sid where t2: "nasdaq_row t1 c = Some t2" "st_inv t2" "known t2 (c ! 0) sid" "listed_as c (syms t2 ! unat sid)"
        "length (syms t1) \<le> length (syms t2)" "length (syms t2) \<le> length (syms t1) + 1"
        "\<forall>i < length (syms t1). i \<noteq> unat sid \<longrightarrow> syms t2 ! i = syms t1 ! i"
        "\<forall>tk' sid'. findable tk' \<longrightarrow> known t1 tk' sid' \<longrightarrow> known t2 tk' sid'"
      using nasdaq_row_listed [OF t1(2) room f] by blast
    have "row_listed (rows @ [c]) t2 i" if i: "i < Suc (length rows)" for i
    proof (cases "i = length rows")
      case True
      then show ?thesis using t2(3,4) by (auto simp: row_listed_def)
    next
      case il: False
      then have i': "i < length rows" using i by simp
      show ?thesis
      proof (cases "rows ! i ! 0 = []")
        case True
        then show ?thesis using i' by (simp add: row_listed_def nth_append)
      next
        case ne: False
        then obtain v where v: "known t1 (rows ! i ! 0) v" and li: "(\<forall>j. i < j \<and> j < length rows \<and> rows ! j ! 0 \<noteq> [] \<longrightarrow>
            \<not> known t1 (rows ! j ! 0) v) \<longrightarrow> listed_as (rows ! i) (syms t1 ! unat v)"
          using t1(5) [rule_format, OF i'] ne unfolding row_listed_def by metis
        have fi: "findable (rows ! j ! 0)" if "j < length rows" "rows ! j ! 0 \<noteq> []" for j using snoc.prems(2) that by auto
        have li2: "listed_as ((rows @ [c]) ! i) (syms t2 ! unat v)"
          if later: "\<forall>j. i < j \<and> j < length (rows @ [c]) \<and> (rows @ [c]) ! j ! 0 \<noteq> [] \<longrightarrow> \<not> known t2 ((rows @ [c]) ! j ! 0) v"
        proof -
          have "\<not> known t2 (c ! 0) v" using later [rule_format, of "length rows"] i' False by simp
          then have "unat v \<noteq> unat sid" using t2(3) by (auto simp flip: word_eq_iff_unsigned)
          then have "syms t2 ! unat v = syms t1 ! unat v" using t2(7) v by (simp add: known_def)
          moreover have "\<not> known t1 (rows ! j ! 0) v" if "i < j" "j < length rows" "rows ! j ! 0 \<noteq> []" for j
            using later [rule_format, of j] that t2(8) fi by (auto simp: nth_append)
          ultimately show ?thesis using li i' by (simp add: nth_append)
        qed
        have "known t2 ((rows @ [c]) ! i ! 0) v" using v t2(8) fi [OF i' ne] i' by (simp add: nth_append)
        then show ?thesis unfolding row_listed_def using li2 by blast
      qed
    qed
    then show ?thesis using t1(1,3,4) t2 by (auto simp: fold_opt_snoc)
  qed
qed

lemma make_key_wire:
  assumes "map to_upper s = s" and "CHR 0x00 \<notin> set s"
  shows "make_key s = le_word (pad_to 8 s)"
proof -
  have tw: "takeWhile (\<lambda>c. c \<noteq> CHR 0x00) s = s" using assms(2) by (auto simp: takeWhile_eq_all_conv)
  have up: "i < length s \<Longrightarrow> to_upper (s ! i) = s ! i" for i using assms(1) by (metis nth_map)
  have "map (\<lambda>i. byte_of_char (if i < length s then to_upper (s ! i) else CHR '' '')) [0..<8] = pad_to 8 s"
    by (rule nth_equalityI) (auto simp: pad_to_def tw up nth_append)
  then show ?thesis by (simp add: make_key_def)
qed

end
