(* ===== verification/Level_Book.thy ===== *)
theory Level_Book
  imports Stok_Prelude
begin

text \<open>
  \<open>src/market/level_book.hpp\<close>: one side of a price-level book (\<open>SideLadder\<close>), a vector of
  levels ordered worst to best with positions found by \<open>std::lower_bound\<close>, and \<open>LevelBook\<close>.
  The ladder is shown to implement a finite map from price to resting quantity, with the best
  price at the back. The \<open>pad\<close> member of a level is layout only and is left out.
\<close>

subsection \<open>Data and operations\<close>

record level =
  price :: u32
  qty :: u64

record side_ladder =
  lv :: "level list"
  is_bid :: bool

function lower_bound_loop :: "('a \<Rightarrow> bool) \<Rightarrow> 'a list \<Rightarrow> nat \<Rightarrow> nat \<Rightarrow> nat" where
  \<comment> \<open>\<open>std::lower_bound\<close>: halve the range \<open>[first, first + len)\<close>, keeping the side that holds
     the first element for which \<open>worse\<close> fails\<close>
  "lower_bound_loop worse xs first len =
     (if len = 0 then first
      else let half = len div 2; mid = first + half in
        if worse (xs ! mid) then lower_bound_loop worse xs (mid + 1) (len - half - 1)
        else lower_bound_loop worse xs first half)"
  by pat_completeness auto
termination
  by (relation "measure (\<lambda>(_, _, _, len). len)") auto

declare lower_bound_loop.simps [simp del]

definition lower_bound :: "('a \<Rightarrow> bool) \<Rightarrow> 'a list \<Rightarrow> nat" where
  "lower_bound worse xs = lower_bound_loop worse xs 0 (length xs)"

definition worse_than :: "bool \<Rightarrow> u32 \<Rightarrow> level \<Rightarrow> bool" where
  \<comment> \<open>the two comparators of \<open>position\<close>\<close>
  "worse_than bid p l = (if bid then price l < p else price l > p)"

definition position :: "side_ladder \<Rightarrow> u32 \<Rightarrow> nat" where
  "position s p = lower_bound (worse_than (is_bid s) p) (lv s)"

definition side_ladder_new :: "bool \<Rightarrow> side_ladder" where
  "side_ladder_new bid = \<lparr>lv = [], is_bid = bid\<rparr>"

definition ladder_add :: "side_ladder \<Rightarrow> u32 \<Rightarrow> u64 \<Rightarrow> side_ladder" where
  "ladder_add s p q =
     (if q = 0 then s
      else let it = position s p in
        if it \<noteq> length (lv s) \<and> price (lv s ! it) = p
        then s\<lparr>lv := (lv s)[it := (lv s ! it)\<lparr>qty := qty (lv s ! it) + q\<rparr>]\<rparr>
        else s\<lparr>lv := take it (lv s) @ \<lparr>price = p, qty = q\<rparr> # drop it (lv s)\<rparr>)"

definition ladder_remove :: "side_ladder \<Rightarrow> u32 \<Rightarrow> u64 \<Rightarrow> side_ladder" where
  "ladder_remove s p q =
     (if q = 0 \<or> lv s = [] then s
      else if price (last (lv s)) = p \<comment> \<open>fast path: the touch\<close>
      then (if q \<ge> qty (last (lv s)) then s\<lparr>lv := butlast (lv s)\<rparr>
            else s\<lparr>lv := butlast (lv s) @ [(last (lv s))\<lparr>qty := qty (last (lv s)) - q\<rparr>]\<rparr>)
      else let it = position s p in
        if it = length (lv s) \<or> price (lv s ! it) \<noteq> p then s \<comment> \<open>unknown level (partial book)\<close>
        else if q \<ge> qty (lv s ! it) then s\<lparr>lv := take it (lv s) @ drop (it + 1) (lv s)\<rparr>
        else s\<lparr>lv := (lv s)[it := (lv s ! it)\<lparr>qty := qty (lv s ! it) - q\<rparr>]\<rparr>)"

definition best_price :: "side_ladder \<Rightarrow> u32" where
  "best_price s = (if lv s = [] then 0 else price (last (lv s)))"

definition best_qty :: "side_ladder \<Rightarrow> u64" where
  "best_qty s = (if lv s = [] then 0 else qty (last (lv s)))"

definition depth :: "side_ladder \<Rightarrow> nat" where
  "depth s = length (lv s)"

definition ladder_clear :: "side_ladder \<Rightarrow> side_ladder" where
  "ladder_clear s = s\<lparr>lv := []\<rparr>"

record level_book =
  bids :: side_ladder
  asks :: side_ladder
  pub_bid :: u32
  pub_ask :: u32
  pub_bid_q :: u64
  pub_ask_q :: u64

definition level_book_new :: level_book where
  "level_book_new = \<lparr>bids = side_ladder_new True, asks = side_ladder_new False,
     pub_bid = 0, pub_ask = 0, pub_bid_q = 0, pub_ask_q = 0\<rparr>"

subsection \<open>Abstraction and invariant\<close>

definition before :: "bool \<Rightarrow> u32 \<Rightarrow> u32 \<Rightarrow> bool" where
  \<comment> \<open>\<open>a\<close> is a worse price than \<open>b\<close> on this side\<close>
  "before bid a b = (if bid then a < b else b < a)"

definition ladder_map :: "side_ladder \<Rightarrow> u32 \<Rightarrow> u64 option" where
  "ladder_map s = map_of (map (\<lambda>l. (price l, qty l)) (lv s))"

definition ladder_inv :: "side_ladder \<Rightarrow> bool" where
  "ladder_inv s \<longleftrightarrow> sorted_wrt (before (is_bid s)) (map price (lv s)) \<and> (\<forall>l \<in> set (lv s). qty l \<noteq> 0)"

definition level_qty :: "side_ladder \<Rightarrow> u32 \<Rightarrow> u64" where
  "level_qty s p = (case ladder_map s p of None \<Rightarrow> 0 | Some q \<Rightarrow> q)"

subsection \<open>Binary search\<close>

definition partitioned :: "('a \<Rightarrow> bool) \<Rightarrow> 'a list \<Rightarrow> bool" where
  "partitioned P xs \<longleftrightarrow> (\<forall>i j. i < j \<longrightarrow> j < length xs \<longrightarrow> P (xs ! j) \<longrightarrow> P (xs ! i))"

lemma lower_bound_loop_correct:
  assumes "partitioned P xs" and "first + len \<le> length xs"
    and "\<forall>i < first. P (xs ! i)" and "\<forall>i. first + len \<le> i \<longrightarrow> i < length xs \<longrightarrow> \<not> P (xs ! i)"
  shows "lower_bound_loop P xs first len \<le> length xs \<and>
    (\<forall>i < lower_bound_loop P xs first len. P (xs ! i)) \<and>
    (\<forall>i. lower_bound_loop P xs first len \<le> i \<longrightarrow> i < length xs \<longrightarrow> \<not> P (xs ! i))"
  using assms
proof (induction P xs first len rule: lower_bound_loop.induct)
  case (1 P xs first len)
  let ?half = "len div 2" and ?mid = "first + len div 2"
  show ?case
  proof (cases "len = 0")
    case True
    then show ?thesis using "1.prems" by (simp add: lower_bound_loop.simps [of P xs first 0])
  next
    case False
    then have mid: "?mid < length xs" using "1.prems"(2) by linarith
    show ?thesis
    proof (cases "P (xs ! ?mid)")
      case True
      have low: "\<forall>i < ?mid + 1. P (xs ! i)"
      proof (intro allI impI)
        fix i assume "i < ?mid + 1"
        then consider "i = ?mid" | "i < ?mid" by linarith
        then show "P (xs ! i)" using True "1.prems"(1) mid by cases (auto simp: partitioned_def)
      qed
      have "?mid + 1 + (len - ?half - 1) = first + len" using False by linarith
      then have rng: "?mid + 1 + (len - ?half - 1) \<le> length xs"
          "\<forall>i. ?mid + 1 + (len - ?half - 1) \<le> i \<longrightarrow> i < length xs \<longrightarrow> \<not> P (xs ! i)"
        using "1.prems"(2,4) by simp_all
      have "lower_bound_loop P xs first len = lower_bound_loop P xs (?mid + 1) (len - ?half - 1)"
        using False True by (subst lower_bound_loop.simps) (simp add: Let_def)
      then show ?thesis
        using "1.IH"(1) [OF False refl refl True "1.prems"(1) rng(1) low rng(2)] by presburger
    next
      case nP: False
      have up: "\<forall>i. first + ?half \<le> i \<longrightarrow> i < length xs \<longrightarrow> \<not> P (xs ! i)"
      proof (intro allI impI)
        fix i assume "?mid \<le> i" "i < length xs"
        then consider "i = ?mid" | "?mid < i" by linarith
        then show "\<not> P (xs ! i)"
          using nP "1.prems"(1) \<open>i < length xs\<close> by cases (auto simp: partitioned_def)
      qed
      have "lower_bound_loop P xs first len = lower_bound_loop P xs first ?half"
        using False nP by (subst lower_bound_loop.simps) (simp add: Let_def)
      then show ?thesis
        using "1.IH"(2) [OF False refl refl nP "1.prems"(1) less_imp_le [OF mid] "1.prems"(3) up]
        by presburger
    qed
  qed
qed

text \<open>On a partitioned vector the binary search finds the partition point.\<close>

lemma lower_bound_correct:
  assumes "partitioned P xs"
  shows "lower_bound P xs \<le> length xs" and "i < lower_bound P xs \<Longrightarrow> P (xs ! i)"
    and "lower_bound P xs \<le> i \<Longrightarrow> i < length xs \<Longrightarrow> \<not> P (xs ! i)"
  using lower_bound_loop_correct [OF assms, of 0 "length xs"] by (auto simp: lower_bound_def)

subsection \<open>Positions in an ordered ladder\<close>

lemma before_trans: "before b x y \<Longrightarrow> before b y z \<Longrightarrow> before b x z"
  by (auto simp: before_def split: if_splits)

lemma before_irrefl [simp]: "\<not> before b x x"
  by (simp add: before_def)

lemma before_total: "x = y \<or> before b x y \<or> before b y x"
  by (auto simp: before_def)

lemma worse_than_before: "worse_than b p l = before b (price l) p"
  by (simp add: worse_than_def before_def)

lemma ladder_partitioned:
  assumes "ladder_inv s"
  shows "partitioned (worse_than (is_bid s) p) (lv s)"
  unfolding partitioned_def worse_than_before
proof (intro allI impI)
  fix i j assume "i < j" "j < length (lv s)" "before (is_bid s) (price (lv s ! j)) p"
  moreover have "before (is_bid s) (price (lv s ! i)) (price (lv s ! j))"
    using assms \<open>i < j\<close> \<open>j < length (lv s)\<close> by (auto simp: ladder_inv_def sorted_wrt_iff_nth_less)
  ultimately show "before (is_bid s) (price (lv s ! i)) p" by (blast intro: before_trans)
qed

lemma position_split:
  assumes "ladder_inv s"
  shows "position s p \<le> length (lv s)"
    and "l \<in> set (take (position s p) (lv s)) \<Longrightarrow> before (is_bid s) (price l) p"
    and "l \<in> set (drop (position s p) (lv s)) \<Longrightarrow> price l = p \<or> before (is_bid s) p (price l)"
proof -
  note lb = lower_bound_correct [OF ladder_partitioned [OF assms, of p], folded position_def]
  show le: "position s p \<le> length (lv s)" by (rule lb(1))
  show "before (is_bid s) (price l) p" if "l \<in> set (take (position s p) (lv s))"
    using that le lb(2) by (auto simp: in_set_conv_nth worse_than_before)
  show "price l = p \<or> before (is_bid s) p (price l)" if "l \<in> set (drop (position s p) (lv s))"
  proof -
    from that obtain i where i: "i < length (lv s) - position s p" "l = lv s ! (position s p + i)"
      by (auto simp: in_set_conv_nth)
    then have "\<not> before (is_bid s) (price l) p"
      using lb(3) [of "position s p + i"] by (simp add: worse_than_before)
    then show ?thesis using before_total by metis
  qed
qed

lemma position_known:
  assumes inv: "ladder_inv s" and "position s p \<noteq> length (lv s)"
  defines "it \<equiv> position s p"
  shows "lv s = take it (lv s) @ lv s ! it # drop (Suc it) (lv s)"
  using position_split(1) [OF inv, of p] assms(2) unfolding it_def
  by (simp add: id_take_nth_drop)

subsection \<open>Levels as a map\<close>

definition lvmap :: "level list \<Rightarrow> u32 \<Rightarrow> u64 option" where
  "lvmap xs = map_of (map (\<lambda>l. (price l, qty l)) xs)"

lemma ladder_map_lvmap: "ladder_map s = lvmap (lv s)"
  by (simp add: ladder_map_def lvmap_def)

lemma lvmap_None: "lvmap xs p = None \<longleftrightarrow> p \<notin> price ` set xs"
  by (auto simp: lvmap_def map_of_eq_None_iff image_image)

lemma lvmap_mid:
  "price l \<notin> price ` set A \<Longrightarrow> lvmap (A @ l # B) = (lvmap (A @ B))(price l \<mapsto> qty l)"
proof (induction A)
  case (Cons a A)
  then show ?case by (auto simp: lvmap_def fun_upd_twist)
qed (simp add: lvmap_def)

lemma lvmap_drop:
  "price l \<notin> price ` set A \<Longrightarrow> price l \<notin> price ` set B \<Longrightarrow>
    lvmap (A @ B) = (lvmap (A @ l # B))(price l := None)"
  using lvmap_None [of "A @ B" "price l"] by (auto simp: lvmap_mid image_Un)

definition ordered :: "bool \<Rightarrow> level list \<Rightarrow> bool" where
  "ordered b xs \<longleftrightarrow> sorted_wrt (before b) (map price xs)"

lemma ordered_mid:
  "ordered b (A @ l # B) \<longleftrightarrow> ordered b (A @ B) \<and>
    (\<forall>x \<in> set A. before b (price x) (price l)) \<and> (\<forall>x \<in> set B. before b (price l) (price x))"
  by (auto simp: ordered_def sorted_wrt_append intro: before_trans)

lemma ordered_notin:
  assumes "ordered b (A @ l # B)"
  shows "price l \<notin> price ` set A" and "price l \<notin> price ` set B"
  using assms by (auto simp: ordered_mid)

lemma ladder_inv_ordered: "ladder_inv s \<longleftrightarrow> ordered (is_bid s) (lv s) \<and> (\<forall>l \<in> set (lv s). qty l \<noteq> 0)"
  by (simp add: ladder_inv_def ordered_def)

subsection \<open>Refinement\<close>

text \<open>The three shapes every update takes: change one level, drop one, insert one.\<close>

lemma ladder_change:
  assumes inv: "ladder_inv s" and eq: "lv s = A @ l # B" and q: "q \<noteq> 0"
  shows "ladder_inv (s\<lparr>lv := A @ l\<lparr>qty := q\<rparr> # B\<rparr>)"
    and "ladder_map (s\<lparr>lv := A @ l\<lparr>qty := q\<rparr> # B\<rparr>) = (ladder_map s)(price l \<mapsto> q)"
    and "ladder_map s (price l) = Some (qty l)"
proof -
  have ord: "ordered (is_bid s) (A @ l # B)" using inv eq by (simp add: ladder_inv_ordered)
  then show "ladder_inv (s\<lparr>lv := A @ l\<lparr>qty := q\<rparr> # B\<rparr>)"
    using inv eq q by (simp add: ladder_inv_ordered ordered_mid)
  note nin = ordered_notin [OF ord]
  show "ladder_map (s\<lparr>lv := A @ l\<lparr>qty := q\<rparr> # B\<rparr>) = (ladder_map s)(price l \<mapsto> q)"
    using nin lvmap_mid [of l A B] lvmap_mid [of "l\<lparr>qty := q\<rparr>" A B] by (simp add: ladder_map_lvmap eq)
  show "ladder_map s (price l) = Some (qty l)"
    using nin lvmap_mid [of l A B] by (simp add: ladder_map_lvmap eq)
qed

lemma ladder_drop:
  assumes inv: "ladder_inv s" and eq: "lv s = A @ l # B"
  shows "ladder_inv (s\<lparr>lv := A @ B\<rparr>)"
    and "ladder_map (s\<lparr>lv := A @ B\<rparr>) = (ladder_map s)(price l := None)"
proof -
  have ord: "ordered (is_bid s) (A @ l # B)" using inv eq by (simp add: ladder_inv_ordered)
  then show "ladder_inv (s\<lparr>lv := A @ B\<rparr>)" using inv eq by (simp add: ladder_inv_ordered ordered_mid)
  show "ladder_map (s\<lparr>lv := A @ B\<rparr>) = (ladder_map s)(price l := None)"
    using lvmap_drop [OF ordered_notin [OF ord]] by (simp add: ladder_map_lvmap eq)
qed

lemma ladder_insert:
  assumes inv: "ladder_inv s" and eq: "lv s = A @ B" and q: "qty l \<noteq> 0"
    and A: "\<forall>x \<in> set A. before (is_bid s) (price x) (price l)"
    and B: "\<forall>x \<in> set B. before (is_bid s) (price l) (price x)"
  shows "ladder_inv (s\<lparr>lv := A @ l # B\<rparr>)"
    and "ladder_map (s\<lparr>lv := A @ l # B\<rparr>) = (ladder_map s)(price l \<mapsto> qty l)"
    and "ladder_map s (price l) = None"
proof -
  have ord: "ordered (is_bid s) (A @ l # B)"
    using inv eq A B by (simp add: ladder_inv_ordered ordered_mid)
  then show "ladder_inv (s\<lparr>lv := A @ l # B\<rparr>)" using inv eq q by (simp add: ladder_inv_ordered ordered_mid)
  note nin = ordered_notin [OF ord]
  show "ladder_map (s\<lparr>lv := A @ l # B\<rparr>) = (ladder_map s)(price l \<mapsto> qty l)"
    using nin lvmap_mid [of l A B] by (simp add: ladder_map_lvmap eq)
  show "ladder_map s (price l) = None"
    using nin lvmap_None [of "A @ B" "price l"] by (auto simp: ladder_map_lvmap eq)
qed

lemma ladder_add_refines:
  assumes inv: "ladder_inv s" and q: "q \<noteq> 0" and nowrap: "level_qty s p + q \<noteq> 0"
  shows "ladder_inv (ladder_add s p q)"
    and "ladder_map (ladder_add s p q) = (ladder_map s)(p \<mapsto> level_qty s p + q)"
proof -
  let ?it = "position s p"
  have *: "ladder_inv (ladder_add s p q) \<and>
      ladder_map (ladder_add s p q) = (ladder_map s)(p \<mapsto> level_qty s p + q)"
  proof (cases "?it \<noteq> length (lv s) \<and> price (lv s ! ?it) = p")
    case True
    then have eq: "lv s = take ?it (lv s) @ lv s ! ?it # drop (Suc ?it) (lv s)"
      using position_known [OF inv] by blast
    have it: "?it < length (lv s)" using True position_split(1) [OF inv, of p] by simp
    have lq: "level_qty s p = qty (lv s ! ?it)"
      using ladder_change(3) [OF inv eq q] True by (simp add: level_qty_def)
    have "ladder_add s p q = s\<lparr>lv := take ?it (lv s) @
        (lv s ! ?it)\<lparr>qty := qty (lv s ! ?it) + q\<rparr> # drop (Suc ?it) (lv s)\<rparr>"
      using True q it by (simp add: ladder_add_def Let_def upd_conv_take_nth_drop)
    then show ?thesis
      using ladder_change(1,2) [OF inv eq, of "qty (lv s ! ?it) + q"] nowrap lq True by simp
  next
    case False
    let ?l = "\<lparr>price = p, qty = q\<rparr>"
    have B: "\<forall>x \<in> set (drop ?it (lv s)). before (is_bid s) p (price x)"
    proof
      fix x assume x: "x \<in> set (drop ?it (lv s))"
      then have it: "?it < length (lv s)" by (cases "?it < length (lv s)") auto
      then have eq: "lv s = take ?it (lv s) @ lv s ! ?it # drop (Suc ?it) (lv s)"
        by (simp add: id_take_nth_drop)
      have hd: "before (is_bid s) p (price (lv s ! ?it))"
        using position_split(3) [OF inv, of "lv s ! ?it" p] False it
        by (simp add: Cons_nth_drop_Suc [symmetric])
      have "ordered (is_bid s) (take ?it (lv s) @ lv s ! ?it # drop (Suc ?it) (lv s))"
        using inv eq by (simp add: ladder_inv_ordered)
      then have "\<forall>y \<in> set (drop (Suc ?it) (lv s)). before (is_bid s) (price (lv s ! ?it)) (price y)"
        unfolding ordered_mid by blast
      moreover have "drop ?it (lv s) = lv s ! ?it # drop (Suc ?it) (lv s)"
        using it by (simp add: Cons_nth_drop_Suc)
      ultimately show "before (is_bid s) p (price x)" using x hd by (auto intro: before_trans)
    qed
    have A: "\<forall>x \<in> set (take ?it (lv s)). before (is_bid s) (price x) p"
      using position_split(2) [OF inv] by blast
    have "ladder_add s p q = s\<lparr>lv := take ?it (lv s) @ ?l # drop ?it (lv s)\<rparr>"
      using False q by (auto simp: ladder_add_def Let_def)
    then show ?thesis
      using ladder_insert [OF inv, of "take ?it (lv s)" "drop ?it (lv s)" ?l] A B q
      by (simp add: level_qty_def)
  qed
  then show "ladder_inv (ladder_add s p q)"
    and "ladder_map (ladder_add s p q) = (ladder_map s)(p \<mapsto> level_qty s p + q)" by simp_all
qed

definition remove_spec :: "(u32 \<Rightarrow> u64 option) \<Rightarrow> u32 \<Rightarrow> u64 \<Rightarrow> (u32 \<Rightarrow> u64 option)" where
  \<comment> \<open>take up to \<open>q\<close> at \<open>p\<close>; an emptied level disappears, an unknown one is ignored\<close>
  "remove_spec M p q =
     (case M p of None \<Rightarrow> M | Some r \<Rightarrow> if q \<ge> r then M(p := None) else M(p \<mapsto> r - q))"

lemma remove_level:
  assumes inv: "ladder_inv s" and eq: "lv s = A @ l # B" and p: "price l = p"
  shows "ladder_inv (if q \<ge> qty l then s\<lparr>lv := A @ B\<rparr> else s\<lparr>lv := A @ l\<lparr>qty := qty l - q\<rparr> # B\<rparr>)"
    and "ladder_map (if q \<ge> qty l then s\<lparr>lv := A @ B\<rparr> else s\<lparr>lv := A @ l\<lparr>qty := qty l - q\<rparr> # B\<rparr>) =
      remove_spec (ladder_map s) p q"
proof -
  have nz: "q < qty l \<Longrightarrow> qty l - q \<noteq> 0" by auto
  have mp: "ladder_map s p = Some (qty l)" using ladder_change(3) [OF inv eq, of 1] p by simp
  show "ladder_inv (if q \<ge> qty l then s\<lparr>lv := A @ B\<rparr> else s\<lparr>lv := A @ l\<lparr>qty := qty l - q\<rparr> # B\<rparr>)"
    using ladder_drop(1) [OF inv eq] ladder_change(1) [OF inv eq nz] by (auto simp: not_le)
  show "ladder_map (if q \<ge> qty l then s\<lparr>lv := A @ B\<rparr> else s\<lparr>lv := A @ l\<lparr>qty := qty l - q\<rparr> # B\<rparr>) =
      remove_spec (ladder_map s) p q"
    using ladder_drop(2) [OF inv eq] ladder_change(2) [OF inv eq nz] mp p
    by (auto simp: remove_spec_def not_le)
qed

lemma ladder_map_absent:
  assumes inv: "ladder_inv s" and "position s p = length (lv s) \<or> price (lv s ! position s p) \<noteq> p"
  shows "ladder_map s p = None"
proof (rule ccontr)
  assume "ladder_map s p \<noteq> None"
  then obtain l where l: "l \<in> set (lv s)" "price l = p"
    using lvmap_None [of "lv s" p] by (auto simp: ladder_map_lvmap)
  let ?it = "position s p"
  have "l \<notin> set (take ?it (lv s))" using position_split(2) [OF inv, of l p] l(2) by auto
  then have ld: "l \<in> set (drop ?it (lv s))" using l(1) by (metis Un_iff append_take_drop_id set_append)
  then have it: "?it < length (lv s)" by (cases "?it < length (lv s)") auto
  have eq: "lv s = take ?it (lv s) @ lv s ! ?it # drop (Suc ?it) (lv s)"
    using it by (simp add: id_take_nth_drop)
  have d: "drop ?it (lv s) = lv s ! ?it # drop (Suc ?it) (lv s)" using it by (simp add: Cons_nth_drop_Suc)
  have "ordered (is_bid s) (take ?it (lv s) @ lv s ! ?it # drop (Suc ?it) (lv s))"
    using inv eq by (simp add: ladder_inv_ordered)
  then have later: "before (is_bid s) (price (lv s ! ?it)) p" if "l \<in> set (drop (Suc ?it) (lv s))"
    using that l(2) unfolding ordered_mid by blast
  have "price (lv s ! ?it) \<noteq> p" using assms(2) it by simp
  then have "l \<noteq> lv s ! ?it" using l(2) by auto
  then have "before (is_bid s) (price (lv s ! ?it)) p" using ld d later by auto
  moreover have "price (lv s ! ?it) = p \<or> before (is_bid s) p (price (lv s ! ?it))"
    using position_split(3) [OF inv, of "lv s ! ?it" p] d by simp
  ultimately show False using before_trans before_irrefl by metis
qed

lemma ladder_remove_refines:
  assumes inv: "ladder_inv s"
  shows "ladder_inv (ladder_remove s p q)"
    and "ladder_map (ladder_remove s p q) = remove_spec (ladder_map s) p q"
proof -
  have "ladder_inv (ladder_remove s p q) \<and> ladder_map (ladder_remove s p q) = remove_spec (ladder_map s) p q"
  proof (cases "q = 0 \<or> lv s = []")
    case True
    moreover have "remove_spec (ladder_map s) p q = ladder_map s"
    proof (cases "ladder_map s p")
      case (Some r)
      then have "r \<noteq> 0" using inv by (auto simp: ladder_map_def ladder_inv_def dest!: map_of_SomeD)
      then show ?thesis using True Some by (auto simp: remove_spec_def ladder_map_def map_upd_triv)
    qed (simp add: remove_spec_def)
    ultimately show ?thesis using inv by (auto simp: ladder_remove_def)
  next
    case nt: False
    show ?thesis
    proof (cases "price (last (lv s)) = p")
      case True
      have eq: "lv s = butlast (lv s) @ last (lv s) # []" using nt by simp
      have "ladder_remove s p q =
          (if q \<ge> qty (last (lv s)) then s\<lparr>lv := butlast (lv s) @ []\<rparr>
           else s\<lparr>lv := butlast (lv s) @ (last (lv s))\<lparr>qty := qty (last (lv s)) - q\<rparr> # []\<rparr>)"
        using nt True by (simp add: ladder_remove_def)
      then show ?thesis using remove_level [OF inv eq True, of q] by simp
    next
      case touch: False
      let ?it = "position s p"
      show ?thesis
      proof (cases "?it = length (lv s) \<or> price (lv s ! ?it) \<noteq> p")
        case True
        then have "ladder_remove s p q = s" using nt touch by (auto simp: ladder_remove_def)
        then show ?thesis using ladder_map_absent [OF inv True] inv by (simp add: remove_spec_def)
      next
        case False
        then have it: "?it < length (lv s)" and pr: "price (lv s ! ?it) = p"
          using position_split(1) [OF inv, of p] by auto
        have eq: "lv s = take ?it (lv s) @ lv s ! ?it # drop (Suc ?it) (lv s)"
          using it by (simp add: id_take_nth_drop)
        have "ladder_remove s p q =
            (if q \<ge> qty (lv s ! ?it) then s\<lparr>lv := take ?it (lv s) @ drop (Suc ?it) (lv s)\<rparr>
             else s\<lparr>lv := take ?it (lv s) @ (lv s ! ?it)\<lparr>qty := qty (lv s ! ?it) - q\<rparr> # drop (Suc ?it) (lv s)\<rparr>)"
          using nt touch False it by (simp add: ladder_remove_def Let_def upd_conv_take_nth_drop)
        then show ?thesis using remove_level [OF inv eq pr, of q] by simp
      qed
    qed
  qed
  then show "ladder_inv (ladder_remove s p q)"
    and "ladder_map (ladder_remove s p q) = remove_spec (ladder_map s) p q" by simp_all
qed

lemma ladder_best:
  assumes inv: "ladder_inv s" and "ladder_map s p = Some q"
  shows "ladder_map s (best_price s) = Some (best_qty s)"
    and "p = best_price s \<or> before (is_bid s) p (best_price s)"
proof -
  have l: "p \<in> price ` set (lv s)" using assms(2) lvmap_None [of "lv s" p] by (auto simp: ladder_map_lvmap)
  then have ne: "lv s \<noteq> []" by auto
  then have eq: "lv s = butlast (lv s) @ last (lv s) # []" by simp
  show "ladder_map s (best_price s) = Some (best_qty s)"
    using ladder_change(3) [OF inv eq, of 1] ne by (simp add: best_price_def best_qty_def)
  have "ordered (is_bid s) (butlast (lv s) @ last (lv s) # [])" using inv eq by (simp add: ladder_inv_ordered)
  then have "\<forall>x \<in> set (butlast (lv s)). before (is_bid s) (price x) (price (last (lv s)))"
    unfolding ordered_mid by blast
  moreover have "set (lv s) = insert (last (lv s)) (set (butlast (lv s)))"
    by (subst eq) simp
  ultimately show "p = best_price s \<or> before (is_bid s) p (best_price s)"
    using l ne by (auto simp: best_price_def)
qed

lemma ladder_side [simp]:
  "is_bid (ladder_add s p q) = is_bid s" "is_bid (ladder_remove s p q) = is_bid s"
  by (simp_all add: ladder_add_def ladder_remove_def Let_def)

lemma ladder_new_ok: "ladder_inv (side_ladder_new b)" "ladder_map (side_ladder_new b) = Map.empty"
  by (simp_all add: side_ladder_new_def ladder_inv_def ladder_map_def)

subsection \<open>Quantities per price\<close>

lemma level_qty_add:
  assumes "ladder_inv s" and "q \<noteq> 0 \<Longrightarrow> level_qty s p + q \<noteq> 0"
  shows "ladder_inv (ladder_add s p q)"
    and "level_qty (ladder_add s p q) p' = (if p' = p then level_qty s p + q else level_qty s p')"
proof -
  have "ladder_inv (ladder_add s p q) \<and>
      level_qty (ladder_add s p q) p' = (if p' = p then level_qty s p + q else level_qty s p')"
  proof (cases "q = 0")
    case True
    then show ?thesis using assms(1) by (simp add: ladder_add_def)
  next
    case False
    then show ?thesis
      using ladder_add_refines [OF assms(1) False] assms(2) by (simp add: level_qty_def)
  qed
  then show "ladder_inv (ladder_add s p q)"
    and "level_qty (ladder_add s p q) p' = (if p' = p then level_qty s p + q else level_qty s p')"
    by simp_all
qed

lemma level_qty_remove:
  assumes "ladder_inv s" and "q \<le> level_qty s p"
  shows "level_qty (ladder_remove s p q) p' = (if p' = p then level_qty s p - q else level_qty s p')"
  using assms(2) ladder_remove_refines(2) [OF assms(1), of p q]
  by (auto simp: level_qty_def remove_spec_def split: option.splits)

end
