(* ===== verification/Seqlock.thy ===== *)
theory Seqlock
  imports Stok_Prelude
begin

text \<open>
  \<open>src/core/seqlock.hpp\<close>: the single-writer sequence lock that publishes the per-symbol market
  state. The writer's view comes first. The concurrent part is a step relation over a memory of
  words: the writer may store to any word in any order between \<open>begin_write\<close> and \<open>end_write\<close>, and
  the reader's \<open>memcpy\<close> copies words one at a time in any order; every load and store is one step.
  The fences order the data accesses with the sequence accesses, so the steps interleave
  sequentially. The counter is 32 bits wide, as in the code: \<open>cnt\<close> is its unbounded ghost.
\<close>

subsection \<open>The writer's view\<close>

record 'a seq_locked =
  sl_seq :: u32
  sl_data :: 'a

definition seq_locked_new :: "'a \<Rightarrow> 'a seq_locked" where
  "seq_locked_new d = \<lparr>sl_seq = 0, sl_data = d\<rparr>"

definition begin_write :: "'a seq_locked \<Rightarrow> 'a seq_locked" where
  "begin_write s = s\<lparr>sl_seq := sl_seq s + 1\<rparr>"

definition end_write :: "'a seq_locked \<Rightarrow> 'a seq_locked" where
  "end_write s = s\<lparr>sl_seq := sl_seq s + 1\<rparr>"

definition locked_update :: "('a \<Rightarrow> 'a) \<Rightarrow> 'a seq_locked \<Rightarrow> 'a seq_locked" where
  \<comment> \<open>\<open>T& d = s.begin_write(); d = f(d); s.end_write();\<close>\<close>
  "locked_update f s =
     (let s = begin_write s; s = s\<lparr>sl_data := f (sl_data s)\<rparr> in end_write s)"

lemma locked_update_data [simp]: "sl_data (locked_update f s) = f (sl_data s)"
  by (simp add: locked_update_def begin_write_def end_write_def Let_def)

lemma locked_update_seq: "sl_seq (locked_update f s) = sl_seq s + 2"
  by (simp add: locked_update_def begin_write_def end_write_def Let_def)

subsection \<open>Interleaved writer and reader\<close>

datatype writer_pc = WIdle | WWriting

datatype 'w reader_pc =
    RIdle
  | RCopy nat "'w list" "nat set" \<comment> \<open>ghost of \<open>s1\<close>, destination, words copied so far\<close>
  | RDone nat nat "'w list" \<comment> \<open>ghosts of \<open>s1\<close> and \<open>s2\<close>, the returned copy\<close>

record 'w seq_sys =
  cnt :: nat
  mem :: "'w list"
  w_pc :: writer_pc
  r_pc :: "'w reader_pc"
  hist :: "'w list list" \<comment> \<open>the initial data and every completed write, oldest first\<close>

definition seq_of :: "'w seq_sys \<Rightarrow> u32" where
  "seq_of s = of_nat (cnt s)"

inductive seq_step :: "nat \<Rightarrow> 'w seq_sys \<Rightarrow> 'w seq_sys \<Rightarrow> bool" for m where
  \<comment> \<open>\<open>m\<close>: the number of words \<open>load_prefix\<close> copies\<close>
  w_begin: "w_pc s = WIdle \<Longrightarrow> seq_step m s (s\<lparr>cnt := cnt s + 1, w_pc := WWriting\<rparr>)"
| w_store: "w_pc s = WWriting \<Longrightarrow> k < length (mem s) \<Longrightarrow> seq_step m s (s\<lparr>mem := (mem s)[k := v]\<rparr>)"
| w_end: "w_pc s = WWriting \<Longrightarrow>
    seq_step m s (s\<lparr>cnt := cnt s + 1, w_pc := WIdle, hist := hist s @ [mem s]\<rparr>)"
| r_spin: "r_pc s = RIdle \<Longrightarrow> odd (unat (seq_of s)) \<Longrightarrow> seq_step m s s"
| r_load: "r_pc s = RIdle \<Longrightarrow> even (unat (seq_of s)) \<Longrightarrow> length buf = m \<Longrightarrow>
    seq_step m s (s\<lparr>r_pc := RCopy (cnt s) buf {}\<rparr>)"
| r_copy: "r_pc s = RCopy n1 buf cop \<Longrightarrow> k < m \<Longrightarrow>
    seq_step m s (s\<lparr>r_pc := RCopy n1 (buf[k := mem s ! k]) (insert k cop)\<rparr>)"
| r_return: "r_pc s = RCopy n1 buf {..<m} \<Longrightarrow> (of_nat n1 :: u32) = seq_of s \<Longrightarrow>
    seq_step m s (s\<lparr>r_pc := RDone n1 (cnt s) buf\<rparr>)"
| r_retry: "r_pc s = RCopy n1 buf {..<m} \<Longrightarrow> (of_nat n1 :: u32) \<noteq> seq_of s \<Longrightarrow>
    seq_step m s (s\<lparr>r_pc := RIdle\<rparr>)"
| r_again: "r_pc s = RDone n1 n2 buf \<Longrightarrow> seq_step m s (s\<lparr>r_pc := RIdle\<rparr>)"

definition seq_init :: "'w list \<Rightarrow> 'w seq_sys" where
  "seq_init d = \<lparr>cnt = 0, mem = d, w_pc = WIdle, r_pc = RIdle, hist = [d]\<rparr>"

inductive seq_reachable :: "nat \<Rightarrow> 'w list \<Rightarrow> 'w seq_sys \<Rightarrow> bool" for m d where
  start: "seq_reachable m d (seq_init d)"
| step: "seq_reachable m d s \<Longrightarrow> seq_step m s t \<Longrightarrow> seq_reachable m d t"

subsection \<open>Invariant\<close>

lemma even_unat_of_nat: "even (unat (of_nat n :: u32)) \<longleftrightarrow> even n"
  by (simp add: unat_of_nat even_mod_2_iff dvd_mod_iff)

fun reader_ok :: "nat \<Rightarrow> 'w seq_sys \<Rightarrow> 'w reader_pc \<Rightarrow> bool" where
  "reader_ok m s RIdle = True"
| "reader_ok m s (RCopy n1 buf cop) = (even n1 \<and> n1 \<le> cnt s \<and> length buf = m \<and> cop \<subseteq> {..<m} \<and>
     (cnt s = n1 \<longrightarrow> (\<forall>k \<in> cop. buf ! k = mem s ! k)))"
| "reader_ok m s (RDone n1 n2 buf) = (even n1 \<and> n1 \<le> n2 \<and> n2 \<le> cnt s \<and> length buf = m \<and>
     (of_nat n1 :: u32) = of_nat n2 \<and> (n1 = n2 \<longrightarrow> (\<forall>k < m. buf ! k = hist s ! (n1 div 2) ! k)))"

definition seq_inv :: "nat \<Rightarrow> nat \<Rightarrow> 'w seq_sys \<Rightarrow> bool" where
  "seq_inv m len s \<longleftrightarrow> length (mem s) = len \<and> length (hist s) = cnt s div 2 + 1 \<and>
     (\<forall>d \<in> set (hist s). length d = len) \<and>
     (if even (cnt s) then w_pc s = WIdle \<and> mem s = hist s ! (cnt s div 2) else w_pc s = WWriting) \<and>
     reader_ok m s (r_pc s)"

lemma seq_inv_init: "seq_inv m (length d) (seq_init d)"
  by (simp add: seq_inv_def seq_init_def)

lemma seq_step_inv:
  assumes "seq_step m s t" and "seq_inv m len s" and "m \<le> len"
  shows "seq_inv m len t"
  using assms(1)
proof cases
  case w_begin
  then show ?thesis using assms(2) by (cases "r_pc s") (auto simp: seq_inv_def split: if_splits)
next
  case (w_store k v)
  then show ?thesis using assms(2) by (cases "r_pc s") (auto simp: seq_inv_def split: if_splits)
next
  case w_end
  have "odd (cnt s)" using w_end assms(2) by (auto simp: seq_inv_def split: if_splits)
  then obtain j where j: "cnt s = Suc (2 * j)" by (elim oddE) simp
  then have h: "length (hist s) = Suc j" using assms(2) by (simp add: seq_inv_def)
  have keep: "(hist s @ [mem s]) ! (n1 div 2) = hist s ! (n1 div 2)" if "n1 \<le> cnt s" for n1
  proof -
    have "n1 div 2 < length (hist s)" using that h j by linarith
    then show ?thesis by (simp add: nth_append)
  qed
  have top: "(hist s @ [mem s]) ! Suc j = mem s" using h by (simp add: nth_append)
  have "reader_ok m t (r_pc s)"
    using assms(2) unfolding w_end(1)
    by (cases "r_pc s") (auto simp: seq_inv_def keep)
  then show ?thesis
    using w_end assms(2) j h top by (auto simp: seq_inv_def)
next
  case r_spin
  then show ?thesis using assms(2) by simp
next
  case (r_load buf)
  then show ?thesis using assms(2) by (auto simp: seq_inv_def seq_of_def even_unat_of_nat)
next
  case (r_copy n1 buf cop k)
  then show ?thesis using assms(2) by (auto simp: seq_inv_def nth_list_update)
next
  case (r_return n1 buf)
  then show ?thesis using assms(2) by (auto simp: seq_inv_def seq_of_def split: if_splits)
next
  case (r_retry n1 buf)
  then show ?thesis using assms(2) by (auto simp: seq_inv_def)
next
  case (r_again n1 n2 buf)
  then show ?thesis using assms(2) by (auto simp: seq_inv_def)
qed

lemma seq_reachable_inv:
  assumes "seq_reachable m d s" and "m \<le> length d"
  shows "seq_inv m (length d) s"
  using assms(1)
proof induction
  case start
  show ?case by (rule seq_inv_init)
next
  case (step s t)
  show ?case using seq_step_inv [OF step.hyps(2) step.IH assms(2)] .
qed

lemma of_nat_u32_near:
  assumes "a \<le> b" and "b - a < 2 ^ 32"
  shows "(of_nat a :: u32) = of_nat b \<longleftrightarrow> a = b"
proof
  assume "(of_nat a :: u32) = of_nat b"
  then have "(of_nat (b - a) :: u32) = 0" using assms(1) by (simp add: of_nat_diff)
  then have "unat (of_nat (b - a) :: u32) = 0" by (simp only: unat_0)
  then have "(b - a) mod 2 ^ 32 = 0" by (simp only: unat_of_nat) simp
  then show "a = b" using assms by simp
qed simp

lemma snapshot_consistent:
  assumes "seq_reachable m d s" and "m \<le> length d"
    and "r_pc s = RDone n1 n2 out" and "n2 - n1 < 2 ^ 32"
  shows "\<exists>v \<in> set (hist s). out = take m v"
proof -
  have inv: "seq_inv m (length d) s" using assms(1,2) by (rule seq_reachable_inv)
  then have r: "reader_ok m s (RDone n1 n2 out)" using assms(3) by (simp add: seq_inv_def)
  then have eq: "n1 = n2" using of_nat_u32_near [of n1 n2] assms(4) by simp
  have "n1 div 2 < length (hist s)" using r inv eq by (auto simp: seq_inv_def)
  moreover have "length (hist s ! (n1 div 2)) = length d"
    using inv calculation by (simp add: seq_inv_def)
  then have "out = take m (hist s ! (n1 div 2))"
    using r eq assms(2) by (intro nth_equalityI) auto
  ultimately show ?thesis by (metis nth_mem)
qed

end
