(* ===== verification/Civil_Time.thy ===== *)
theory Civil_Time
  imports Ascii
begin

text \<open>
  \<open>src/util/time.hpp\<close>, \<open>src/util/time.cpp\<close>: proleptic Gregorian dates, the US Eastern daylight
  rule, the three timestamp parsers and the two formatters. \<open>int64_t\<close> values are \<open>int\<close>; the year of a
  date is cut to the 32 bits of \<open>int\<close> and a midnight to 64 bits of nanoseconds, so the theorems about them
  have ranges. C++ division is
  \<open>trunc_div\<close>, and the \<open>unsigned\<close> month and day are \<open>int\<close>: the callers pass 1--12 and 1--31, for
  which no unsigned subtraction wraps. A \<open>Cursor\<close> is the rest of the text it has not read.
\<close>

subsection \<open>Dates\<close>

definition b2i :: "bool \<Rightarrow> int" where
  "b2i b = (if b then 1 else 0)"

definition days_from_civil :: "int \<Rightarrow> int \<Rightarrow> int \<Rightarrow> int" where
  "days_from_civil y m d =
     (let y = y - b2i (m \<le> 2);
          era = trunc_div (if y \<ge> 0 then y else y - 399) 400;
          yoe = y - era * 400;
          doy = trunc_div (153 * (m + (if m > 2 then - 3 else 9)) + 2) 5 + d - 1;
          doe = yoe * 365 + trunc_div yoe 4 - trunc_div yoe 100 + doy
      in era * 146097 + doe - 719468)"

definition civil_of_days :: "int \<Rightarrow> int \<times> int \<times> int" where
  \<comment> \<open>the date before the year is cut to an \<open>int\<close>\<close>
  "civil_of_days z =
     (let z = z + 719468;
          era = trunc_div (if z \<ge> 0 then z else z - 146096) 146097;
          doe = z - era * 146097;
          yoe = trunc_div (doe - trunc_div doe 1460 + trunc_div doe 36524 - trunc_div doe 146096) 365;
          yy = yoe + era * 400;
          doy = doe - (365 * yoe + trunc_div yoe 4 - trunc_div yoe 100);
          mp = trunc_div (5 * doy + 2) 153;
          d = doy - trunc_div (153 * mp + 2) 5 + 1;
          m = (if mp < 10 then mp + 3 else mp - 9);
          y = yy + b2i (m \<le> 2)
      in (y, m, d))"

definition civil_from_days :: "int \<Rightarrow> int \<times> int \<times> int" where
  \<comment> \<open>\<open>y = static_cast<int>(...)\<close>\<close>
  "civil_from_days z = (case civil_of_days z of (y, m, d) \<Rightarrow> (sint (word_of_int y :: i32), m, d))"

definition weekday_from_days :: "int \<Rightarrow> int" where
  "weekday_from_days z = (if z \<ge> - 4 then trunc_mod (z + 4) 7 else trunc_mod (z + 5) 7 + 6)"

subsection \<open>US Eastern time\<close>

definition kNs :: int where
  "kNs = 1000000000"

definition floor_days :: "int \<Rightarrow> int" where
  \<comment> \<open>the expression \<open>s >= 0 ? s / 86400 : (s - 86399) / 86400\<close> of four functions\<close>
  "floor_days s = (if s \<ge> 0 then trunc_div s 86400 else trunc_div (s - 86399) 86400)"

definition eastern_utc_offset_s :: "int \<Rightarrow> int" where
  "eastern_utc_offset_s epoch_s =
     (let days = floor_days epoch_s;
          (y, m, d) = civil_from_days days;
          mar1 = days_from_civil y 3 1;
          nov1 = days_from_civil y 11 1;
          first_sun_mar = mar1 + trunc_mod (7 - weekday_from_days mar1) 7;
          second_sun_mar = first_sun_mar + 7;
          first_sun_nov = nov1 + trunc_mod (7 - weekday_from_days nov1) 7;
          dst_start = second_sun_mar * 86400 + 7 * 3600;
          dst_end = first_sun_nov * 86400 + 6 * 3600
      in if epoch_s \<ge> dst_start \<and> epoch_s < dst_end then - 4 * 3600 else - 5 * 3600)"

definition eastern_midnight_ns :: "int \<Rightarrow> int \<Rightarrow> int \<Rightarrow> int" where
  "eastern_midnight_ns y m d =
     (let days = days_from_civil y m d;
          off = eastern_utc_offset_s (days * 86400 + 5 * 3600)
      in wrap_i64 ((days * 86400 - off) * kNs))"

definition eastern_date :: "int \<Rightarrow> int \<times> int \<times> int" where
  "eastern_date epoch_ns =
     (let s = trunc_div epoch_ns kNs;
          loc = s + eastern_utc_offset_s s
      in civil_from_days (floor_days loc))"

definition eastern_minute_of_day :: "int \<Rightarrow> int" where
  "eastern_minute_of_day epoch_ns =
     (let s = trunc_div epoch_ns kNs;
          loc = trunc_mod (s + eastern_utc_offset_s s) 86400;
          loc = (if loc < 0 then loc + 86400 else loc)
      in trunc_div loc 60)"

subsection \<open>Reading digits and words\<close>

definition peek :: "string \<Rightarrow> char" where
  "peek c = (if c = [] then CHR 0x00 else hd c)"

definition skip_ws :: "string \<Rightarrow> string" where
  "skip_ws c = dropWhile (\<lambda>x. is_space x \<or> x = CHR '','') c"

fun read_int_loop :: "nat \<Rightarrow> string \<Rightarrow> int \<Rightarrow> nat \<Rightarrow> int \<times> nat \<times> string" where
  \<comment> \<open>at most \<open>k\<close> more digits: value, digits read, rest\<close>
  "read_int_loop 0 c v n = (v, n, c)"
| "read_int_loop (Suc k) [] v n = (v, n, [])"
| "read_int_loop (Suc k) (x # c) v n =
     (if is_digit x then read_int_loop k c (v * 10 + digit_val x) (n + 1) else (v, n, x # c))"

definition read_int :: "nat \<Rightarrow> string \<Rightarrow> int \<times> nat \<times> string" where
  \<comment> \<open>value (\<open>-1\<close> if there is no digit), \<open>*ndigits\<close>, rest\<close>
  "read_int max_digits c =
     (case read_int_loop max_digits c 0 0 of (v, n, r) \<Rightarrow> (if n \<noteq> 0 then v else - 1, n, r))"

definition read_alpha :: "string \<Rightarrow> string \<times> string" where
  "read_alpha c = (takeWhile is_alpha c, dropWhile is_alpha c)"

definition month_names :: "string list" where
  "month_names = [''jan'', ''feb'', ''mar'', ''apr'', ''may'', ''jun'',
                  ''jul'', ''aug'', ''sep'', ''oct'', ''nov'', ''dec'']"

fun month_search :: "string \<Rightarrow> string list \<Rightarrow> int \<Rightarrow> int" where
  "month_search n [] k = 0"
| "month_search n (mn # ms) k =
     (if to_lower (n ! 0) = mn ! 0 \<and> to_lower (n ! 1) = mn ! 1 \<and> to_lower (n ! 2) = mn ! 2 then k + 1
      else month_search n ms (k + 1))"

definition month_from_name :: "string \<Rightarrow> int" where
  "month_from_name n = (if length n < 3 then 0 else month_search n month_names 0)"

definition zone_table :: "(string \<times> int) list" where
  "zone_table = [(''gmt'', 0), (''ut'', 0), (''utc'', 0), (''z'', 0),
     (''est'', - 5 * 3600), (''edt'', - 4 * 3600), (''cst'', - 6 * 3600), (''cdt'', - 5 * 3600),
     (''mst'', - 7 * 3600), (''mdt'', - 6 * 3600), (''pst'', - 8 * 3600), (''pdt'', - 7 * 3600),
     (''bst'', 1 * 3600), (''cet'', 1 * 3600), (''cest'', 2 * 3600)]"

definition two_digits :: "string \<Rightarrow> nat \<Rightarrow> int" where
  "two_digits r k = digit_val (r ! k) * 10 + digit_val (r ! (k + 1))"

definition zone_offset_s :: "string \<Rightarrow> int option" where
  \<comment> \<open>\<open>None\<close> is \<open>INT32_MIN\<close>\<close>
  "zone_offset_s z =
     (if z = [] then Some 0
      else if hd z = CHR ''+'' \<or> hd z = CHR ''-'' then
        (let sg = (if hd z = CHR ''-'' then - 1 else 1); r = tl z in
         if length r \<ge> 4 \<and> is_digit (r ! 0) \<and> is_digit (r ! 1) then
           (let hh = two_digits r 0;
                k = (if r ! 2 = CHR '':'' then 3 else 2);
                mm = (if k + 2 \<le> length r \<and> is_digit (r ! k) \<and> is_digit (r ! (k + 1))
                      then two_digits r k else 0)
            in Some (sg * (hh * 3600 + mm * 60)))
         else if length r = 2 \<and> is_digit (r ! 0) \<and> is_digit (r ! 1)
           then Some (sg * two_digits r 0 * 3600)
         else None)
      else map_option snd (find (\<lambda>zz. iequals z (fst zz)) zone_table))"

subsection \<open>The parsers\<close>

definition read_hms :: "string \<Rightarrow> (int \<times> int \<times> int \<times> string) option" where
  \<comment> \<open>\<open>HH:MM[:SS]\<close>, the code all three parsers repeat; \<open>parse_rfc822\<close> omits the test of \<open>hh\<close>,
     which it has made by peeking at a digit\<close>
  "read_hms c =
     (case read_int 2 c of (hh, _, c) \<Rightarrow>
      if hh < 0 \<or> peek c \<noteq> CHR '':'' then None
      else case read_int 2 (tl c) of (mi, _, c) \<Rightarrow>
        if mi < 0 then None
        else if peek c = CHR '':'' then
          (case read_int 2 (tl c) of (ss, _, c) \<Rightarrow> if ss < 0 then None else Some (hh, mi, ss, c))
        else Some (hh, mi, 0, c))"

definition skip_sep :: "string \<Rightarrow> string" where
  "skip_sep c = dropWhile (\<lambda>x. x = CHR '' '' \<or> x = CHR ''-'') c"

definition parse_rfc822 :: "string \<Rightarrow> int option" where
  "parse_rfc822 s =
     (let c = skip_ws (trim s);
          c = (if is_alpha (peek c) then skip_ws (snd (read_alpha c)) else c)
      in case read_int 2 c of (day, _, c) \<Rightarrow>
         if day < 1 \<or> day > 31 then None
         else case read_alpha (skip_sep c) of (mname, c) \<Rightarrow>
           let mon = month_from_name mname in
           if mon = 0 then None
           else case read_int 4 (skip_sep c) of (year, ydigits, c) \<Rightarrow>
             if year < 0 then None
             else
               let year = (if ydigits = 2 then year + (if year < 70 then 2000 else 1900) else year);
                   c = skip_ws c
               in case (if is_digit (peek c) then read_hms c else Some (0, 0, 0, c)) of
                    None \<Rightarrow> None
                  | Some (hh, mi, ss, c) \<Rightarrow>
                      let off = (case zone_offset_s (trim (skip_ws c)) of None \<Rightarrow> 0 | Some off \<Rightarrow> off);
                          days = days_from_civil year mon day
                      in Some ((days * 86400 + hh * 3600 + mi * 60 + ss - off) * kNs))"

definition read_frac_ns :: "string \<Rightarrow> int \<times> string" where
  \<comment> \<open>\<open>.fff\<close> scaled to nanoseconds; digits beyond the ninth are dropped\<close>
  "read_frac_ns c =
     (if peek c = CHR ''.'' \<or> peek c = CHR '','' then
        (case read_int 9 (tl c) of (f, nd, c) \<Rightarrow>
           (if f > 0 then f * 10 ^ (9 - nd) else 0, dropWhile is_digit c))
      else (0, c))"

definition parse_iso8601 :: "string \<Rightarrow> int option" where
  "parse_iso8601 s =
     (case read_int 4 (trim s) of (y, _, c) \<Rightarrow>
      if y < 0 \<or> peek c \<noteq> CHR ''-'' then None
      else case read_int 2 (tl c) of (mo, _, c) \<Rightarrow>
        if mo < 1 \<or> mo > 12 \<or> peek c \<noteq> CHR ''-'' then None
        else case read_int 2 (tl c) of (d, _, c) \<Rightarrow>
          if d < 1 \<or> d > 31 then None
          else
            let days = days_from_civil y mo d in
            if peek c = CHR ''T'' \<or> peek c = CHR ''t'' \<or> peek c = CHR '' '' then
              (case read_hms (tl c) of
                 None \<Rightarrow> None
               | Some (hh, mi, ss, c) \<Rightarrow>
                   (case read_frac_ns c of (frac_ns, zone) \<Rightarrow>
                      (case zone_offset_s zone of
                         None \<Rightarrow> None
                       | Some off \<Rightarrow>
                           Some ((days * 86400 + hh * 3600 + mi * 60 + ss - off) * kNs + frac_ns))))
            else Some (days * 86400 * kNs))"

definition parse_any_datetime :: "string \<Rightarrow> int option" where
  "parse_any_datetime s =
     (let s = trim s in
      if length s \<ge> 10 \<and> is_digit (s ! 0) \<and> is_digit (s ! 1) \<and> is_digit (s ! 2) \<and> is_digit (s ! 3) \<and>
         s ! 4 = CHR ''-''
      then parse_iso8601 s else parse_rfc822 s)"

definition parse_eastern_mdy_time :: "string \<Rightarrow> string \<Rightarrow> int option" where
  "parse_eastern_mdy_time mdy hms =
     (case read_int 2 (trim mdy) of (mo, _, c) \<Rightarrow>
      if mo < 1 \<or> mo > 12 \<or> peek c \<noteq> CHR ''/'' then None
      else case read_int 2 (tl c) of (d, _, c) \<Rightarrow>
        if d < 1 \<or> d > 31 \<or> peek c \<noteq> CHR ''/'' then None
        else case read_int 4 (tl c) of (y, _, c) \<Rightarrow>
          if y < 1900 then None
          else let t = trim hms in
            (case (if t \<noteq> [] then read_hms t else Some (0, 0, 0, t)) of
               None \<Rightarrow> None
             | Some (hh, mi, ss, t) \<Rightarrow>
                 let ms = (if peek t = CHR ''.''
                           then (case read_int 3 (tl t) of (ms, nd, _) \<Rightarrow> (if ms < 0 then 0 else ms) * 10 ^ (3 - nd))
                           else 0)
                 in Some (eastern_midnight_ns y mo d + (hh * 3600 + mi * 60 + ss) * kNs + ms * 1000000)))"

definition parse_ymd :: "string \<Rightarrow> (int \<times> int \<times> int) option" where
  "parse_ymd s =
     (let s = trim s in
      if length s < 10 \<or> s ! 4 \<noteq> CHR ''-'' \<or> s ! 7 \<noteq> CHR ''-'' then None
      else case (parse_int True (- (2 ^ 31)) (2 ^ 31 - 1) (substr s 0 4),
                 parse_int False 0 (2 ^ 32 - 1) (substr s 5 2),
                 parse_int False 0 (2 ^ 32 - 1) (substr s 8 2)) of
             (Some y, Some m, Some d) \<Rightarrow>
               if m < 1 \<or> m > 12 \<or> d < 1 \<or> d > 31 then None else Some (y, m, d)
           | _ \<Rightarrow> None)"

subsection \<open>The formatters\<close>

definition digit_char :: "nat \<Rightarrow> char" where
  "digit_char n = char_of (48 + n mod 10)"

fun dec_digits :: "nat \<Rightarrow> string" where
  "dec_digits n = (if n < 10 then [digit_char n] else dec_digits (n div 10) @ [digit_char n])"

declare dec_digits.simps [simp del]

definition pad0 :: "nat \<Rightarrow> int \<Rightarrow> string" where
  \<comment> \<open>\<open>printf\<close>'s \<open>%0wd\<close>: a minus sign counts towards the width\<close>
  "pad0 w i =
     (let ds = dec_digits (nat \<bar>i\<bar>) in
      if i < 0 then ''-'' @ replicate (w - 1 - length ds) (CHR ''0'') @ ds
      else replicate (w - length ds) (CHR ''0'') @ ds)"

definition format_utc_iso :: "int \<Rightarrow> string" where
  "format_utc_iso epoch_ns =
     (let s = (if epoch_ns \<ge> 0 then trunc_div epoch_ns kNs else trunc_div (epoch_ns - kNs + 1) kNs);
          ms = trunc_div (epoch_ns - s * kNs) 1000000;
          days = floor_days s;
          sod = s - days * 86400
      in case civil_from_days days of (y, m, d) \<Rightarrow>
           pad0 4 y @ ''-'' @ pad0 2 m @ ''-'' @ pad0 2 d @ ''T'' @ pad0 2 (trunc_div sod 3600) @ '':'' @
           pad0 2 (trunc_mod (trunc_div sod 60) 60) @ '':'' @ pad0 2 (trunc_mod sod 60) @ ''.'' @
           pad0 3 ms @ ''Z'')"

definition format_utc_iso_buf :: "int \<Rightarrow> nat \<Rightarrow> string \<times> nat" where
  \<comment> \<open>\<open>snprintf\<close> into \<open>cap\<close> bytes: the characters written before the terminator, and the result\<close>
  "format_utc_iso_buf epoch_ns cap = (let t = format_utc_iso epoch_ns in (take (cap - 1) t, length t))"

definition eastern_date_str :: "int \<Rightarrow> string" where
  "eastern_date_str epoch_ns =
     (case eastern_date epoch_ns of (y, m, d) \<Rightarrow> pad0 4 y @ ''-'' @ pad0 2 m @ ''-'' @ pad0 2 d)"

definition eastern_hms :: "int \<Rightarrow> string" where
  "eastern_hms epoch_ns =
     (let s = trunc_div epoch_ns kNs;
          loc = trunc_mod (s + eastern_utc_offset_s s) 86400;
          loc = (if loc < 0 then loc + 86400 else loc)
      in pad0 2 (trunc_div loc 3600) @ '':'' @ pad0 2 (trunc_mod (trunc_div loc 60) 60) @ '':'' @
         pad0 2 (trunc_mod loc 60))"

subsection \<open>Calendar arithmetic\<close>

lemma trunc_floor:
  assumes n: "0 < n"
  shows "trunc_div (if z \<ge> 0 then z else z - (n - 1)) n = z div n"
proof (cases "z \<ge> 0")
  case False
  have "(n - 1 - z) div n = - (z div n)"
  proof (rule int_div_pos_eq)
    show "n - 1 - z = n * - (z div n) + (n - 1 - z mod n)"
      by (simp add: minus_mod_eq_mult_div [symmetric])
    show "0 \<le> n - 1 - z mod n" "n - 1 - z mod n < n"
      using pos_mod_bound [OF n, of z] pos_mod_sign [OF n, of z] by linarith+
  qed
  then show ?thesis using n False by (simp add: trunc_div_nonpos algebra_simps)
qed (simp add: trunc_div_nonneg n)

lemma trunc_floor_400: "trunc_div (if y \<ge> 0 then y else y - 399) 400 = y div 400"
  using trunc_floor [of 400 y] by (simp split: if_splits)

lemma trunc_floor_146097: "trunc_div (if z \<ge> 0 then z else z - 146096) 146097 = z div 146097"
  using trunc_floor [of 146097 z] by (simp split: if_splits)

lemma floor_days_eq: "floor_days s = s div 86400"
  using trunc_floor [of 86400 s] by (simp add: floor_days_def split: if_splits)

lemma weekday_eq: "weekday_from_days z = (z + 4) mod 7"
proof (cases "z \<ge> - 4")
  case False
  have "trunc_mod (z + 5) 7 = - ((- z - 5) mod 7)"
    using False trunc_mod_nonpos [of "z + 5" 7] by (simp add: algebra_simps)
  moreover have "6 - ((- z - 5) mod 7) = (z + 4) mod 7" by presburger
  ultimately show ?thesis using False by (simp add: weekday_from_days_def)
qed (simp add: weekday_from_days_def trunc_mod_nonneg)

text \<open>A day of a 400-year era is 36524 c + 1461 k + 365 r + doy: century, leap cycle, year, day.\<close>

definition yoe_of :: "int \<Rightarrow> int" where
  "yoe_of doe = (doe - doe div 1460 + doe div 36524 - doe div 146096) div 365"

definition year_start :: "int \<Rightarrow> int" where
  "year_start yoe = 365 * yoe + yoe div 4 - yoe div 100"

definition era_parts :: "int \<Rightarrow> int \<Rightarrow> int \<Rightarrow> int \<Rightarrow> bool" where
  "era_parts c k r doy \<longleftrightarrow> 0 \<le> c \<and> c \<le> 3 \<and> 0 \<le> k \<and> k \<le> 24 \<and> 0 \<le> r \<and> r \<le> 3 \<and> 0 \<le> doy \<and> doy \<le> 365 \<and>
     (doy = 365 \<longrightarrow> r = 3 \<and> (k = 24 \<longrightarrow> c = 3))"

lemma era_parts_yoe:
  assumes p: "era_parts c k r doy" and doe: "doe = 36524 * c + 1461 * k + 365 * r + doy"
  shows "yoe_of doe = 100 * c + 4 * k + r" and "doe < 146097"
proof -
  show "doe < 146097" using p doe by (auto simp: era_parts_def)
  define fin where "fin = (if c = 3 \<and> k = 24 \<and> r = 3 \<and> doy = 365 then 1 else 0 :: int)"
  define ex where "ex = (if 24 * c + k + 365 * r + doy \<ge> 1460 then 1 else 0 :: int)"
  have a: "doe div 1460 = 25 * c + k + ex"
    by (rule int_div_pos_eq [of _ _ _ "24 * c + k + 365 * r + doy - 1460 * ex"])
      (use p doe in \<open>auto simp: era_parts_def ex_def\<close>)
  have b: "doe div 36524 = c + fin"
    by (rule int_div_pos_eq [of _ _ _ "1461 * k + 365 * r + doy - 36524 * fin"])
      (use p doe in \<open>auto simp: era_parts_def fin_def\<close>)
  have e: "doe div 146096 = fin"
    by (rule int_div_pos_eq [of _ _ _ "doe - 146096 * fin"])
      (use p doe in \<open>auto simp: era_parts_def fin_def\<close>)
  have "doe - doe div 1460 + doe div 36524 - doe div 146096 = 365 * (100 * c + 4 * k + r) + (doy - ex)"
    unfolding a b e using doe by simp
  moreover have "0 \<le> doy - ex" "doy - ex < 365"
    using p by (auto simp: era_parts_def ex_def)
  ultimately show "yoe_of doe = 100 * c + 4 * k + r"
    unfolding yoe_of_def by (metis int_div_pos_eq)
qed

lemma era_parts_start:
  assumes "era_parts c k r doy"
  shows "year_start (100 * c + 4 * k + r) = 36524 * c + 1461 * k + 365 * r"
proof -
  have "(100 * c + 4 * k + r) div 4 = 25 * c + k"
    by (rule int_div_pos_eq [of _ _ _ r]) (use assms in \<open>auto simp: era_parts_def\<close>)
  moreover have "(100 * c + 4 * k + r) div 100 = c"
    by (rule int_div_pos_eq [of _ _ _ "4 * k + r"]) (use assms in \<open>auto simp: era_parts_def\<close>)
  ultimately show ?thesis by (simp add: year_start_def)
qed

lemma div_bounds: "0 < n \<Longrightarrow> n * (z div n) \<le> z \<and> z < n * (z div n) + n" for n z :: int
  using pos_mod_sign [of n z] pos_mod_bound [of n z] by (simp add: minus_mod_eq_mult_div [symmetric])

lemma year_of_cycle:
  assumes "0 \<le> w" and "w \<le> (1460 :: int)"
  shows "\<exists>r. 0 \<le> r \<and> r \<le> 3 \<and> 0 \<le> w - 365 * r \<and> w - 365 * r \<le> 365 \<and>
    (w - 365 * r = 365 \<longrightarrow> r = 3 \<and> w = 1460)"
proof -
  consider "w < 365" | "365 \<le> w \<and> w < 730" | "730 \<le> w \<and> w < 1095" | "1095 \<le> w" by linarith
  then show ?thesis
  proof cases
    case 1 then show ?thesis using assms by (intro exI [of _ 0]) simp
  next
    case 2 then show ?thesis using assms by (intro exI [of _ 1]) simp
  next
    case 3 then show ?thesis using assms by (intro exI [of _ 2]) simp
  next
    case 4 then show ?thesis using assms by (intro exI [of _ 3]) simp
  qed
qed

lemma era_parts_exist:
  assumes "0 \<le> doe" and "doe < 146097"
  shows "\<exists>c k r doy. era_parts c k r doy \<and> doe = 36524 * c + 1461 * k + 365 * r + doy"
proof -
  define c where "c = min 3 (doe div 36524)"
  define x where "x = doe - 36524 * c"
  have "36524 * (doe div 36524) \<le> doe" "doe < 36524 * (doe div 36524) + 36524"
    using div_bounds [of 36524 doe] by simp_all
  then have c: "0 \<le> c" "c \<le> 3" "0 \<le> x" "x \<le> 36524" "x = 36524 \<longrightarrow> c = 3"
    using assms unfolding c_def x_def min_def by (auto split: if_splits)
  define k where "k = x div 1461"
  define w where "w = x - 1461 * k"
  have "1461 * k \<le> x" "x < 1461 * k + 1461"
    using div_bounds [of 1461 x] by (simp_all add: k_def)
  then have k: "0 \<le> k" "k \<le> 24" "0 \<le> w" "w \<le> 1460" "w = 1460 \<and> k = 24 \<longrightarrow> c = 3"
    using c unfolding w_def by auto
  obtain r where r: "0 \<le> r" "r \<le> 3" "0 \<le> w - 365 * r" "w - 365 * r \<le> 365"
      "w - 365 * r = 365 \<longrightarrow> r = 3 \<and> w = 1460"
    using year_of_cycle [OF k(3,4)] by metis
  have "era_parts c k r (w - 365 * r)" using c(1,2) k(1,2,5) r unfolding era_parts_def by blast
  moreover have "doe = 36524 * c + 1461 * k + 365 * r + (w - 365 * r)" by (simp add: w_def x_def)
  ultimately show ?thesis by metis
qed

definition month_of :: "int \<Rightarrow> int" where
  "month_of mp = (if mp < 10 then mp + 3 else mp - 9)"

lemma civil_parts:
  assumes p: "era_parts c k r doy"
  shows "civil_of_days (era * 146097 + (36524 * c + 1461 * k + 365 * r + doy) - 719468) =
    (let mp = (5 * doy + 2) div 153
     in (era * 400 + (100 * c + 4 * k + r) + b2i (month_of mp \<le> 2), month_of mp, doy - (153 * mp + 2) div 5 + 1))"
proof -
  let ?doe = "36524 * c + 1461 * k + 365 * r + doy" and ?yoe = "100 * c + 4 * k + r"
  let ?z = "era * 146097 + ?doe"
  have nn: "0 \<le> doy" "0 \<le> ?doe" "0 \<le> ?yoe" using p by (simp_all add: era_parts_def)
  note yoe = era_parts_yoe [OF p refl]
  have era: "?z div 146097 = era"
    by (rule int_div_pos_eq [of _ _ _ ?doe]) (use nn yoe(2) in simp_all)
  have E: "0 \<le> ?doe - ?doe div 1460 + ?doe div 36524 - ?doe div 146096"
    using nn(3) yoe(1) unfolding yoe_of_def by (simp add: pos_imp_zdiv_nonneg_iff)
  have tdiv: "trunc_div (?doe - trunc_div ?doe 1460 + trunc_div ?doe 36524 - trunc_div ?doe 146096) 365 = ?yoe"
    using yoe(1) E nn by (simp add: trunc_div_nonneg yoe_of_def)
  have start: "365 * ?yoe + trunc_div ?yoe 4 - trunc_div ?yoe 100 = 36524 * c + 1461 * k + 365 * r"
    using era_parts_start [OF p] nn by (simp add: trunc_div_nonneg year_start_def)
  have tera: "trunc_div (if ?z \<ge> 0 then ?z else ?z - 146096) 146097 = era"
    unfolding trunc_floor_146097 by (rule era)
  define mp where "mp = (5 * doy + 2) div 153"
  have mp: "trunc_div (5 * doy + 2) 153 = mp" "trunc_div (153 * mp + 2) 5 = (153 * mp + 2) div 5"
    using nn(1) by (simp_all add: trunc_div_nonneg mp_def)
  have zz: "era * 146097 + ?doe - 719468 + 719468 = ?z" and dd: "?z - era * 146097 = ?doe" by simp_all
  have doy: "?doe - (36524 * c + 1461 * k + 365 * r) = doy" by simp
  show ?thesis
    unfolding civil_of_days_def Let_def zz tera dd tdiv start doy mp month_of_def
    by (simp add: mp_def [symmetric])
qed

lemma days_parts:
  assumes y: "0 \<le> yoe" "yoe < 400" and mp: "0 \<le> mp" "mp < 12"
  shows "days_from_civil (era * 400 + yoe + b2i (month_of mp \<le> 2)) (month_of mp) d =
    era * 146097 + (year_start yoe + (153 * mp + 2) div 5 + d - 1) - 719468"
proof -
  have era: "(era * 400 + yoe) div 400 = era"
    by (rule int_div_pos_eq [of _ _ _ yoe]) (use y in simp_all)
  have tera: "trunc_div (if era * 400 + yoe \<ge> 0 then era * 400 + yoe else era * 400 + yoe - 399) 400 = era"
    unfolding trunc_floor_400 by (rule era)
  have yy: "era * 400 + yoe + b2i (month_of mp \<le> 2) - b2i (month_of mp \<le> 2) = era * 400 + yoe"
    and yoe: "era * 400 + yoe - era * 400 = yoe" by simp_all
  have m: "month_of mp + (if month_of mp > 2 then - 3 else 9) = mp"
    using mp by (simp add: month_of_def)
  show ?thesis
    unfolding days_from_civil_def Let_def yy tera yoe m
    using y mp by (simp add: trunc_div_nonneg year_start_def)
qed

lemma days_civil_roundtrip:
  "case civil_of_days z of (y, m, d) \<Rightarrow> days_from_civil y m d = z \<and> 1 \<le> m \<and> m \<le> 12 \<and> 1 \<le> d \<and> d \<le> 31"
proof -
  define era where "era = (z + 719468) div 146097"
  have "0 \<le> (z + 719468) mod 146097" "(z + 719468) mod 146097 < 146097" by simp_all
  then obtain c k r doy where p: "era_parts c k r doy"
      and doe: "(z + 719468) mod 146097 = 36524 * c + 1461 * k + 365 * r + doy"
    using era_parts_exist by metis
  have z: "z = era * 146097 + (36524 * c + 1461 * k + 365 * r + doy) - 719468"
    unfolding doe [symmetric] era_def using div_mult_mod_eq [of "z + 719468" 146097] by simp
  define mp where "mp = (5 * doy + 2) div 153"
  have "153 * mp \<le> 5 * doy + 2" "5 * doy + 2 < 153 * mp + 153"
    using div_bounds [of 153 "5 * doy + 2"] by (simp_all add: mp_def)
  moreover have doy: "0 \<le> doy" "doy \<le> 365" using p by (simp_all add: era_parts_def)
  ultimately have mp: "0 \<le> mp" "mp < 12" "153 * mp \<le> 5 * doy + 2" "5 * doy + 2 < 153 * mp + 153"
    by linarith+
  define q where "q = (153 * mp + 2) div 5"
  have "5 * q \<le> 153 * mp + 2" "153 * mp + 2 < 5 * q + 5"
    using div_bounds [of 5 "153 * mp + 2"] by (simp_all add: q_def)
  then have d: "1 \<le> doy - (153 * mp + 2) div 5 + 1" "doy - (153 * mp + 2) div 5 + 1 \<le> 31"
    using mp(3,4) unfolding q_def [symmetric] by linarith+
  have m: "1 \<le> month_of mp" "month_of mp \<le> 12" using mp(1,2) by (simp_all add: month_of_def)
  have y: "0 \<le> 100 * c + 4 * k + r" "100 * c + 4 * k + r < 400" using p by (simp_all add: era_parts_def)
  have "civil_of_days z = (era * 400 + (100 * c + 4 * k + r) + b2i (month_of mp \<le> 2), month_of mp,
      doy - (153 * mp + 2) div 5 + 1)"
    unfolding z civil_parts [OF p] by (simp add: Let_def mp_def)
  then show ?thesis
    using days_parts [OF y mp(1,2), of era] era_parts_start [OF p] d m by (simp add: z)
qed

lemma civil_year_fits:
  assumes "civil_of_days z = (y, m, d)" and "- (2 ^ 31) \<le> y" and "y < 2 ^ 31"
  shows "civil_from_days z = (y, m, d)"
proof -
  have "sint (word_of_int y :: i32) = y" using assms(2,3) by (simp add: sint_sbintrunc' signed_take_bit_int_eq_self)
  then show ?thesis using assms(1) by (simp add: civil_from_days_def)
qed

lemma civil_year_range:
  assumes "civil_of_days z = (y, m, d)" and "- 700000000000 \<le> z" and "z \<le> 700000000000"
  shows "- (2 ^ 31) \<le> y" and "y < 2 ^ 31"
proof -
  define yp where "yp = y - b2i (m \<le> 2)"
  have r: "days_from_civil y m d = z" "1 \<le> m" "m \<le> 12" "1 \<le> d" "d \<le> 31" using days_civil_roundtrip [of z] assms(1) by auto
  have b: "0 \<le> b2i (m \<le> 2)" "b2i (m \<le> 2) \<le> 1" by (simp_all add: b2i_def)
  define mp where "mp = m + (if m > 2 then - 3 else 9)"
  define yoe where "yoe = yp - yp div 400 * 400"
  have mp: "0 \<le> mp" "mp \<le> 11" using r(2,3) by (simp_all add: mp_def)
  have yoe: "0 \<le> yoe" "yoe < 400" using div_bounds [of 400 yp] by (simp_all add: yoe_def)
  have z: "z = yp div 400 * 146097 + (yoe * 365 + yoe div 4 - yoe div 100 + ((153 * mp + 2) div 5 + d - 1)) - 719468"
    using r(1) mp(1) yoe(1) unfolding days_from_civil_def Let_def yp_def [symmetric] trunc_floor_400 mp_def [symmetric]
    by (simp add: yoe_def [symmetric] trunc_div_nonneg)
  have "(153 * mp + 2) div 5 \<le> 337" "0 \<le> (153 * mp + 2) div 5" using mp by linarith+
  moreover have "yoe div 4 \<le> 100" "0 \<le> yoe div 4" "yoe div 100 \<le> 4" "0 \<le> yoe div 100" using yoe by linarith+
  ultimately have "- 700000000000 - 200000 \<le> yp div 400 * 146097 - 719468 \<and> yp div 400 * 146097 - 719468 \<le> 700000000000 + 200000"
    using z assms(2,3) yoe r(4,5) by linarith
  then have "- 4792000 \<le> yp div 400" "yp div 400 \<le> 4792000" by linarith+
  then have "- 1916800000 \<le> yp" "yp < 1916800400" using div_bounds [of 400 yp] by linarith+
  then show "- (2 ^ 31) \<le> y" "y < 2 ^ 31" using b by (simp_all add: yp_def)
qed

lemma civil_from_days_roundtrip:
  assumes "- 700000000000 \<le> z" and "z \<le> 700000000000"
  shows "case civil_from_days z of (y, m, d) \<Rightarrow> days_from_civil y m d = z \<and> 1 \<le> m \<and> m \<le> 12 \<and> 1 \<le> d \<and> d \<le> 31"
proof -
  obtain y m d where c: "civil_of_days z = (y, m, d)" by (metis prod_cases3)
  then show ?thesis
    using civil_year_fits [OF c civil_year_range [OF c assms]] days_civil_roundtrip [of z] by simp
qed

definition leap :: "int \<Rightarrow> bool" where
  "leap y \<longleftrightarrow> y mod 4 = 0 \<and> (y mod 100 \<noteq> 0 \<or> y mod 400 = 0)"

definition days_in_month :: "int \<Rightarrow> int \<Rightarrow> int" where
  "days_in_month y m = (if m = 2 then (if leap y then 29 else 28) else if m \<in> {4, 6, 9, 11} then 30 else 31)"

definition valid_date :: "int \<Rightarrow> int \<Rightarrow> int \<Rightarrow> bool" where
  "valid_date y m d \<longleftrightarrow> 1 \<le> m \<and> m \<le> 12 \<and> 1 \<le> d \<and> d \<le> days_in_month y m"

definition slot_of_month :: "int \<Rightarrow> int" where
  "slot_of_month m = (if m > 2 then m - 3 else m + 9)"

lemma month_cases:
  assumes "1 \<le> m" and "m \<le> (12 :: int)"
  shows "m = 1 \<or> m = 2 \<or> m = 3 \<or> m = 4 \<or> m = 5 \<or> m = 6 \<or> m = 7 \<or> m = 8 \<or> m = 9 \<or> m = 10 \<or> m = 11 \<or> m = 12"
  using assms by presburger

lemma doy_month:
  assumes v: "valid_date y m d" and doy: "doy = (153 * slot_of_month m + 2) div 5 + d - 1"
  shows "0 \<le> doy" and "doy \<le> 365" and "(5 * doy + 2) div 153 = slot_of_month m"
    and "doy = 365 \<longrightarrow> m = 2 \<and> leap y"
proof -
  have m: "1 \<le> m" "m \<le> 12" and d: "1 \<le> d" "d \<le> days_in_month y m" using v by (simp_all add: valid_date_def)
  show "0 \<le> doy"
    using month_cases [OF m] d doy by (auto simp: slot_of_month_def)
  show "doy \<le> 365"
    using month_cases [OF m] d doy by (auto simp: slot_of_month_def days_in_month_def split: if_splits)
  show "doy = 365 \<longrightarrow> m = 2 \<and> leap y"
    using month_cases [OF m] d doy by (auto simp: slot_of_month_def days_in_month_def split: if_splits)
  show "(5 * doy + 2) div 153 = slot_of_month m"
    by (rule int_div_pos_eq [of _ _ _ "5 * doy + 2 - 153 * slot_of_month m"])
      (use month_cases [OF m] d doy in \<open>auto simp: slot_of_month_def days_in_month_def split: if_splits\<close>)
qed

lemma month_of_slot: "1 \<le> m \<Longrightarrow> m \<le> 12 \<Longrightarrow> month_of (slot_of_month m) = m"
  by (simp add: month_of_def slot_of_month_def)

lemma leap_parts:
  assumes "leap (era * 400 + (100 * c + 4 * k + r) + 1)"
    and "0 \<le> c" "c \<le> 3" "0 \<le> k" "k \<le> 24" "0 \<le> r" "r \<le> 3"
  shows "r = 3" and "k = 24 \<longrightarrow> c = 3"
proof -
  let ?y = "era * 400 + (100 * c + 4 * k + r) + 1"
  have l: "?y mod 4 = 0" "?y mod 100 \<noteq> 0 \<or> ?y mod 400 = 0" using assms(1) by (simp_all add: leap_def)
  have "?y = 4 * (100 * era + 25 * c + k) + (r + 1)" by simp
  then have "(r + 1) mod 4 = 0" using l(1) by (metis mod_mult_self4)
  then show r: "r = 3" using assms(6,7) by presburger
  show "k = 24 \<longrightarrow> c = 3"
  proof
    assume k: "k = 24"
    have "?y = 100 * (4 * era + c + 1)" using r k by simp
    then have "?y mod 100 = 0" by (metis mod_mult_self1_is_0)
    then have "?y mod 400 = 0" using l(2) by simp
    moreover have "?y = 400 * era + 100 * (c + 1)" using r k by simp
    ultimately have "(100 * (c + 1)) mod 400 = 0" by (metis mod_mult_self4)
    moreover have "c = 0 \<or> c = 1 \<or> c = 2 \<or> c = 3" using assms(2,3) by linarith
    ultimately show "c = 3" by auto
  qed
qed

lemma civil_days_roundtrip:
  assumes v: "valid_date y m d"
  shows "civil_of_days (days_from_civil y m d) = (y, m, d)"
proof -
  have m: "1 \<le> m" "m \<le> 12" using v by (simp_all add: valid_date_def)
  define mp where "mp = slot_of_month m"
  have mp: "0 \<le> mp" "mp < 12" "month_of mp = m"
    using m by (simp_all add: mp_def month_of_slot) (simp_all add: slot_of_month_def)
  define yp where "yp = y - b2i (m \<le> 2)"
  define era yoe where "era = yp div 400" and "yoe = yp mod 400"
  define c where "c = yoe div 100"
  define k where "k = (yoe - 100 * c) div 4"
  define r where "r = yoe - 100 * c - 4 * k"
  have yoe: "0 \<le> yoe" "yoe < 400" by (simp_all add: yoe_def)
  have c: "100 * c \<le> yoe" "yoe < 100 * c + 100" using div_bounds [of 100 yoe] by (simp_all add: c_def)
  have k: "4 * k \<le> yoe - 100 * c" "yoe - 100 * c < 4 * k + 4"
    using div_bounds [of 4 "yoe - 100 * c"] by (simp_all add: k_def)
  have rng: "0 \<le> c" "c \<le> 3" "0 \<le> k" "k \<le> 24" "0 \<le> r" "r \<le> 3" using yoe c k unfolding r_def by linarith+
  have yp: "era * 400 + yoe = yp" by (simp add: era_def yoe_def)
  have yoe_parts: "yoe = 100 * c + 4 * k + r" by (simp add: r_def)
  have y: "y = era * 400 + yoe + b2i (month_of mp \<le> 2)" by (simp add: mp(3) yp) (simp add: yp_def)
  define doy where "doy = (153 * mp + 2) div 5 + d - 1"
  note dm = doy_month [OF v doy_def [unfolded mp_def]]
  have "doy = 365 \<longrightarrow> r = 3 \<and> (k = 24 \<longrightarrow> c = 3)"
  proof
    assume "doy = 365"
    then have "m = 2" "leap y" using dm(4) by simp_all
    then have "leap (era * 400 + (100 * c + 4 * k + r) + 1)" using y mp(3) yoe_parts by (simp add: b2i_def)
    then show "r = 3 \<and> (k = 24 \<longrightarrow> c = 3)" using leap_parts rng by metis
  qed
  then have p: "era_parts c k r doy" using dm(1,2) rng unfolding era_parts_def by blast
  have days: "days_from_civil y m d = era * 146097 + (36524 * c + 1461 * k + 365 * r + doy) - 719468"
    using days_parts [OF yoe mp(1,2), of era d] era_parts_start [OF p] y mp(3) yoe_parts by (simp add: doy_def)
  show ?thesis
    unfolding days civil_parts [OF p] Let_def dm(3) mp_def [symmetric]
    using mp(3) y yoe_parts by (simp add: doy_def)
qed

subsection \<open>Daylight saving\<close>

definition sunday_on_or_after :: "int \<Rightarrow> int" where
  "sunday_on_or_after z = z + trunc_mod (7 - weekday_from_days z) 7"

lemma sunday_on_or_after_ok:
  "weekday_from_days (sunday_on_or_after z) = 0" "z \<le> sunday_on_or_after z" "sunday_on_or_after z \<le> z + 6"
proof -
  have w: "0 \<le> weekday_from_days z" "weekday_from_days z < 7" by (simp_all add: weekday_eq)
  have eq: "sunday_on_or_after z = z + (7 - (z + 4) mod 7) mod 7"
    using w by (simp add: sunday_on_or_after_def trunc_mod_nonneg weekday_eq)
  show "weekday_from_days (sunday_on_or_after z) = 0" unfolding eq weekday_eq by presburger
  show "z \<le> sunday_on_or_after z" "sunday_on_or_after z \<le> z + 6" unfolding eq by simp_all
qed

definition dst_start_day :: "int \<Rightarrow> int" where
  \<comment> \<open>the second Sunday of March\<close>
  "dst_start_day y = sunday_on_or_after (days_from_civil y 3 1) + 7"

definition dst_end_day :: "int \<Rightarrow> int" where
  \<comment> \<open>the first Sunday of November\<close>
  "dst_end_day y = sunday_on_or_after (days_from_civil y 11 1)"

lemma eastern_offset_eq:
  "eastern_utc_offset_s t =
     (let y = fst (civil_from_days (t div 86400))
      in if dst_start_day y * 86400 + 25200 \<le> t \<and> t < dst_end_day y * 86400 + 21600 then - 14400 else - 18000)"
  by (simp add: eastern_utc_offset_s_def floor_days_eq sunday_on_or_after_def dst_start_day_def
      dst_end_day_def Let_def case_prod_beta)

lemma eastern_offset_cases: "eastern_utc_offset_s t = - 14400 \<or> eastern_utc_offset_s t = - 18000"
  by (simp add: eastern_offset_eq Let_def)

lemma trunc_div_kNs: "trunc_div (s * kNs) kNs = s"
  by (cases "s \<ge> 0") (simp_all add: kNs_def trunc_div_nonneg trunc_div_nonpos)

lemma offset_at_midnight:
  \<comment> \<open>the offset read at 05:00 UTC is the one in force at local midnight\<close>
  assumes off: "off = eastern_utc_offset_s (n * 86400 + 18000)"
  shows "eastern_utc_offset_s (n * 86400 - off) = off"
proof (cases "off = - 18000")
  case False
  then have o: "off = - 14400" using off eastern_offset_cases by metis
  have d1: "(n * 86400 + 18000) div 86400 = n" and d2: "(n * 86400 + 14400) div 86400 = n" by simp_all
  let ?y = "fst (civil_from_days n)"
  have "dst_start_day ?y * 86400 + 25200 \<le> n * 86400 + 18000" "n * 86400 + 18000 < dst_end_day ?y * 86400 + 21600"
    using off o by (simp_all add: eastern_offset_eq d1 Let_def split: if_splits)
  moreover from this(1) have "dst_start_day ?y + 1 \<le> n" by linarith
  ultimately have "dst_start_day ?y * 86400 + 25200 \<le> n * 86400 + 14400"
      "n * 86400 + 14400 < dst_end_day ?y * 86400 + 21600"
    by linarith+
  then show ?thesis using o by (simp add: eastern_offset_eq d2 Let_def)
qed (use off in simp)

lemma civil_days_in_int:
  assumes "valid_date y m d" and "- (2 ^ 31) \<le> y" and "y < 2 ^ 31"
  shows "civil_from_days (days_from_civil y m d) = (y, m, d)"
  by (rule civil_year_fits [OF civil_days_roundtrip [OF assms(1)] assms(2,3)])

lemma days_from_civil_range:
  assumes v: "valid_date y m d" and y: "1900 \<le> y" "y \<le> 2261"
  shows "- 30000 \<le> days_from_civil y m d" and "days_from_civil y m d \<le> 106750"
proof -
  define yp where "yp = y - b2i (m \<le> 2)"
  define yoe where "yoe = yp - yp div 400 * 400"
  define doy where "doy = (153 * slot_of_month m + 2) div 5 + d - 1"
  have m: "1 \<le> m" "m \<le> 12" using v by (simp_all add: valid_date_def)
  have yp: "1899 \<le> yp" "yp \<le> 2261" using y by (simp_all add: yp_def b2i_def)
  have yoe: "0 \<le> yoe" "yoe < 400" using div_bounds [of 400 yp] by (simp_all add: yoe_def)
  note doy = doy_month(1,2) [OF v doy_def]
  have slot: "m + (if m > 2 then - 3 else 9) = slot_of_month m" "0 \<le> slot_of_month m"
    using m by (simp_all add: slot_of_month_def)
  have z: "days_from_civil y m d = yp div 400 * 146097 + (yoe * 365 + yoe div 4 - yoe div 100 + doy) - 719468"
    unfolding days_from_civil_def Let_def yp_def [symmetric] trunc_floor_400 slot(1)
    using slot(2) yoe(1) by (simp add: yoe_def [symmetric] trunc_div_nonneg doy_def)
  have d: "4 * (yoe div 4) \<le> yoe" "yoe < 4 * (yoe div 4) + 4" "100 * (yoe div 100) \<le> yoe" "yoe < 100 * (yoe div 100) + 100"
    using div_bounds [of 4 yoe] div_bounds [of 100 yoe] by simp_all
  have e: "yp div 400 = 4 \<or> yp div 400 = 5" using yp by linarith
  then have q: "yp div 400 = 4 \<and> 299 \<le> yoe \<or> yp div 400 = 5 \<and> yoe \<le> 261" using yp by (auto simp: yoe_def)
  then show "- 30000 \<le> days_from_civil y m d" using z d doy yoe by (elim disjE conjE) linarith+
  show "days_from_civil y m d \<le> 106750" using q z d doy yoe by (elim disjE conjE) linarith+
qed

lemma eastern_midnight_date:
  assumes "valid_date y m d" and "1900 \<le> y" and "y \<le> 2261"
  shows "eastern_date (eastern_midnight_ns y m d) = (y, m, d)"
    and "eastern_minute_of_day (eastern_midnight_ns y m d) = 0"
proof -
  let ?n = "days_from_civil y m d"
  define off where "off = eastern_utc_offset_s (?n * 86400 + 18000)"
  have "- 18000 \<le> off" "off \<le> 0" using eastern_offset_cases [of "?n * 86400 + 18000"] by (auto simp: off_def)
  then have "- (2 ^ 63) \<le> (?n * 86400 - off) * kNs" "(?n * 86400 - off) * kNs < 2 ^ 63"
    using days_from_civil_range [OF assms] by (simp_all add: kNs_def)
  then have mid: "eastern_midnight_ns y m d = (?n * 86400 - off) * kNs"
    by (simp add: eastern_midnight_ns_def off_def [symmetric] Let_def wrap_i64_id)
  have loc: "?n * 86400 - off + eastern_utc_offset_s (?n * 86400 - off) = ?n * 86400"
    by (simp add: offset_at_midnight [OF off_def])
  show "eastern_date (eastern_midnight_ns y m d) = (y, m, d)"
    unfolding eastern_date_def mid trunc_div_kNs Let_def loc floor_days_eq
    using civil_days_in_int [OF assms(1)] assms(2,3) by simp
  have "trunc_mod (?n * 86400) 86400 = 0"
    by (cases "?n \<ge> 0") (simp_all add: trunc_mod_nonneg trunc_mod_nonpos)
  then show "eastern_minute_of_day (eastern_midnight_ns y m d) = 0"
    unfolding eastern_minute_of_day_def mid trunc_div_kNs Let_def loc by (simp add: trunc_div_def)
qed

lemma eastern_minute_range: "0 \<le> eastern_minute_of_day t" "eastern_minute_of_day t < 1440"
proof -
  define x where "x = trunc_mod (trunc_div t kNs + eastern_utc_offset_s (trunc_div t kNs)) 86400"
  define w where "w = (if x < 0 then x + 86400 else x)"
  have "\<bar>x\<bar> < 86400" unfolding x_def by (rule trunc_mod_range) simp
  then have w: "0 \<le> w" "w < 86400" by (auto simp: w_def)
  have eq: "eastern_minute_of_day t = w div 60"
    unfolding eastern_minute_of_day_def Let_def x_def [symmetric] w_def [symmetric]
    using w by (simp add: trunc_div_nonneg)
  show "0 \<le> eastern_minute_of_day t" "eastern_minute_of_day t < 1440" unfolding eq using w by simp_all
qed

subsection \<open>Printing and reading\<close>

lemma code_digit_char [simp]: "code (digit_char n) = 48 + n mod 10"
proof -
  have "48 + n mod 10 < 256" using mod_less_divisor [of 10 n] by linarith
  then show ?thesis by (simp add: digit_char_def code_char_of)
qed

lemma digit_char_digit [simp]: "is_digit (digit_char n)" "digit_val (digit_char n) = int (n mod 10)"
proof -
  have "n mod 10 \<le> 9" using mod_less_divisor [of 10 n] by linarith
  then show "is_digit (digit_char n)" "digit_val (digit_char n) = int (n mod 10)"
    by (simp_all add: is_digit_def digit_val_def)
qed

definition add_digits :: "int \<Rightarrow> string \<Rightarrow> int" where
  "add_digits v ds = foldl (\<lambda>acc c. acc * 10 + digit_val c) v ds"

lemma add_digits_simps [simp]:
  "add_digits v [] = v" "add_digits v (c # ds) = add_digits (v * 10 + digit_val c) ds"
  "add_digits v (ds @ es) = add_digits (add_digits v ds) es"
  by (simp_all add: add_digits_def)

lemma add_digits_zeros: "add_digits 0 (replicate n (CHR ''0'')) = 0"
  by (induction n) (simp_all add: digit_val_def code_def)

lemma dec_digits_digits: "\<forall>c \<in> set (dec_digits n). is_digit c"
  by (induction n rule: dec_digits.induct) (subst dec_digits.simps, simp)

lemma dec_digits_val: "add_digits 0 (dec_digits n) = int n"
proof (induction n rule: dec_digits.induct)
  case (1 n)
  have e: "int (n div 10) * 10 + int (n mod 10) = int n" by presburger
  show ?case
  proof (cases "n < 10")
    case True then show ?thesis by (subst dec_digits.simps) simp
  next
    case False
    then have "add_digits 0 (dec_digits n) = int (n div 10) * 10 + int (n mod 10)"
      using 1 by (subst dec_digits.simps) (simp del: of_nat_mod of_nat_div)
    then show ?thesis unfolding e .
  qed
qed

lemma dec_digits_length: "n < 10 ^ w \<Longrightarrow> 0 < w \<Longrightarrow> length (dec_digits n) \<le> w"
proof (induction w arbitrary: n)
  case (Suc w)
  show ?case
  proof (cases "n < 10")
    case False
    then have "w \<noteq> 0" using Suc.prems(1) by (cases w) simp_all
    moreover have "n div 10 < 10 ^ w" using Suc.prems(1) by (simp add: less_mult_imp_div_less algebra_simps)
    ultimately show ?thesis using Suc.IH [of "n div 10"] False by (subst dec_digits.simps) simp
  qed (subst dec_digits.simps, simp)
qed simp

lemma pad0_ok:
  assumes "0 \<le> i" and "i < 10 ^ w" and "0 < w"
  shows "length (pad0 w i) = w" and "\<forall>c \<in> set (pad0 w i). is_digit c" and "add_digits 0 (pad0 w i) = i"
proof -
  have "nat i < 10 ^ w" using assms(1,2) by (simp add: nat_less_iff)
  then have "length (dec_digits (nat i)) \<le> w" using assms(3) by (rule dec_digits_length)
  then show "length (pad0 w i) = w" using assms(1) by (simp add: pad0_def Let_def)
  show "\<forall>c \<in> set (pad0 w i). is_digit c"
    using assms(1) dec_digits_digits [of "nat i"] by (auto simp: pad0_def Let_def is_digit_def code_def)
  show "add_digits 0 (pad0 w i) = i"
    using assms(1) dec_digits_val [of "nat i"] by (simp add: pad0_def Let_def add_digits_zeros)
qed

lemma read_int_loop_digits:
  assumes "\<forall>c \<in> set ds. is_digit c" and "length ds \<le> k"
    and "length ds = k \<or> rest = [] \<or> \<not> is_digit (hd rest)"
  shows "read_int_loop k (ds @ rest) v n = (add_digits v ds, n + length ds, rest)"
  using assms
proof (induction ds arbitrary: k v n)
  case Nil
  then show ?case by (cases k; cases rest) simp_all
next
  case (Cons c ds)
  then show ?case by (cases k) simp_all
qed

lemma read_int_pad0:
  assumes "0 \<le> i" and "i < 10 ^ w" and "0 < w" and "w \<le> k" and "w = k \<or> rest = [] \<or> \<not> is_digit (hd rest)"
  shows "read_int k (pad0 w i @ rest) = (i, w, rest)"
  using read_int_loop_digits [of "pad0 w i" k rest 0 0] pad0_ok [OF assms(1-3)] assms(3-5)
  by (simp add: read_int_def)

lemma pad0_nonempty: "pad0 w i \<noteq> []"
  using dec_digits.simps [of "nat \<bar>i\<bar>"] by (auto simp: pad0_def Let_def)

lemma format_utc_iso_eq:
  "format_utc_iso t =
     (let s = t div kNs; days = s div 86400; sod = s mod 86400
      in case civil_from_days days of (y, m, d) \<Rightarrow>
           pad0 4 y @ ''-'' @ pad0 2 m @ ''-'' @ pad0 2 d @ ''T'' @ pad0 2 (sod div 3600) @ '':'' @
           pad0 2 (sod div 60 mod 60) @ '':'' @ pad0 2 (sod mod 60) @ ''.'' @ pad0 3 (t mod kNs div 1000000) @ ''Z'')"
proof -
  have s: "(if t \<ge> 0 then trunc_div t kNs else trunc_div (t - kNs + 1) kNs) = t div kNs"
    using trunc_floor [of kNs t] by (simp add: kNs_def algebra_simps split: if_splits)
  have ms: "t - t div kNs * kNs = t mod kNs" and sod: "x - x div 86400 * 86400 = x mod 86400" for x :: int
    by (simp_all add: minus_div_mult_eq_mod)
  have nn: "0 \<le> t mod kNs" "0 \<le> x mod 86400" for x :: int by (simp_all add: kNs_def)
  have nn2: "0 \<le> x mod 86400 div 60" for x :: int by (simp add: pos_imp_zdiv_nonneg_iff)
  show ?thesis
    unfolding format_utc_iso_def Let_def s ms floor_days_eq sod
    by (simp add: trunc_div_nonneg trunc_mod_nonneg nn nn2)
qed

lemma trim_id: "s = [] \<or> (\<not> is_space (hd s) \<and> \<not> is_space (last s)) \<Longrightarrow> trim s = s"
  by (cases "s = []") (simp_all add: trim_eq dropWhile_id hd_rev)

lemma digit_not_space: "is_digit c \<Longrightarrow> \<not> is_space c"
  by (auto simp: is_digit_def is_space_def code_def)

lemma read_hms_pad0:
  assumes "0 \<le> hh" "hh < 100" "0 \<le> mi" "mi < 100" "0 \<le> ss" "ss < 100"
  shows "read_hms (pad0 2 hh @ CHR '':'' # pad0 2 mi @ CHR '':'' # pad0 2 ss @ rest) = Some (hh, mi, ss, rest)"
  using assms by (simp add: read_hms_def read_int_pad0 peek_def)

lemma read_frac_pad0:
  assumes "0 \<le> ms" "ms < 1000"
  shows "read_frac_ns (CHR ''.'' # pad0 3 ms @ ''Z'') = (ms * 1000000, ''Z'')"
  using assms by (auto simp: read_frac_ns_def read_int_pad0 peek_def is_digit_def code_def)

lemma zone_Z: "zone_offset_s ''Z'' = Some 0"
  by code_simp

lemma hms_sum: "x div 3600 * 3600 + x div 60 mod 60 * 60 + x mod 60 = x" for x :: int
proof -
  define q where "q = x div 60"
  have "x div 3600 = q div 60" using zdiv_zmult2_eq [of 60 x 60] by (simp add: q_def)
  moreover have "q div 60 * 60 + q mod 60 = q" "q * 60 + x mod 60 = x" by (simp_all add: q_def)
  ultimately show ?thesis unfolding q_def [symmetric] by linarith
qed

definition iso_text :: "int \<Rightarrow> int \<Rightarrow> int \<Rightarrow> int \<Rightarrow> int \<Rightarrow> int \<Rightarrow> int \<Rightarrow> string" where
  "iso_text y m d hh mi ss ms = pad0 4 y @ CHR ''-'' # pad0 2 m @ CHR ''-'' # pad0 2 d @ CHR ''T'' #
     pad0 2 hh @ CHR '':'' # pad0 2 mi @ CHR '':'' # pad0 2 ss @ CHR ''.'' # pad0 3 ms @ ''Z''"

lemma parse_iso_text:
  assumes "0 \<le> y" "y < 10000" "1 \<le> m" "m \<le> 12" "1 \<le> d" "d \<le> 31" "0 \<le> hh" "hh < 100" "0 \<le> mi" "mi < 100"
    "0 \<le> ss" "ss < 100" "0 \<le> ms" "ms < 1000"
  shows "parse_iso8601 (iso_text y m d hh mi ss ms) =
    Some ((days_from_civil y m d * 86400 + hh * 3600 + mi * 60 + ss) * kNs + ms * 1000000)"
proof -
  have "is_digit (hd (pad0 4 y))"
    using pad0_ok(2) [of y 4] pad0_nonempty [of 4 y] assms(1,2) by simp
  moreover have "\<not> is_space (CHR ''Z'')" by (simp add: is_space_def)
  ultimately have t: "trim (iso_text y m d hh mi ss ms) = iso_text y m d hh mi ss ms"
    by (intro trim_id disjI2) (simp add: iso_text_def pad0_nonempty digit_not_space)
  have 1: "read_int 4 (iso_text y m d hh mi ss ms) =
      (y, 4, CHR ''-'' # pad0 2 m @ CHR ''-'' # pad0 2 d @ CHR ''T'' # pad0 2 hh @ CHR '':'' # pad0 2 mi @
        CHR '':'' # pad0 2 ss @ CHR ''.'' # pad0 3 ms @ ''Z'')"
    unfolding iso_text_def using assms(1,2) by (intro read_int_pad0) simp_all
  have 2: "read_int 2 (pad0 2 m @ c) = (m, 2, c)" "read_int 2 (pad0 2 d @ c) = (d, 2, c)" for c
    using assms by (simp_all add: read_int_pad0)
  show ?thesis
    unfolding parse_iso8601_def t 1
    using assms(1,3-6) read_hms_pad0 [OF assms(7-12)] read_frac_pad0 [OF assms(13,14)]
    by (simp add: peek_def 2 zone_Z Let_def)
qed

lemma iso8601_roundtrip_lemma:
  assumes y: "0 \<le> fst (civil_of_days (t div (86400 * kNs)))" "fst (civil_of_days (t div (86400 * kNs))) < 10000"
  shows "parse_iso8601 (format_utc_iso t) = Some (t - t mod 1000000)"
proof -
  define s where "s = t div kNs"
  define sod where "sod = s mod 86400"
  define ms where "ms = t mod kNs div 1000000"
  obtain y m d where c: "civil_of_days (s div 86400) = (y, m, d)" by (metis prod_cases3)
  have "s div 86400 = t div (86400 * kNs)"
    unfolding s_def by (subst zdiv_zmult2_eq) (simp_all add: kNs_def mult.commute div_mult2_eq)
  then have yr: "0 \<le> y" "y < 10000" using y c by simp_all
  have cf: "civil_from_days (s div 86400) = (y, m, d)" by (rule civil_year_fits [OF c]) (use yr in simp_all)
  have md: "days_from_civil y m d = s div 86400" "1 \<le> m" "m \<le> 12" "1 \<le> d" "d \<le> 31"
    using days_civil_roundtrip [of "s div 86400"] by (simp_all add: c)
  have sod: "0 \<le> sod" "sod < 86400" by (simp_all add: sod_def)
  have hms: "0 \<le> sod div 3600" "sod div 3600 < 100" "0 \<le> sod div 60 mod 60" "sod div 60 mod 60 < 100"
      "0 \<le> sod mod 60" "sod mod 60 < 100"
    using sod pos_mod_bound [of 60 "sod div 60"] pos_mod_bound [of 60 sod] by simp_all
  have ms: "0 \<le> ms" "ms < 1000"
    using pos_mod_bound [of kNs t] by (simp_all add: ms_def kNs_def pos_imp_zdiv_nonneg_iff)
  have fmt: "format_utc_iso t = iso_text y m d (sod div 3600) (sod div 60 mod 60) (sod mod 60) ms"
    by (simp add: format_utc_iso_eq iso_text_def Let_def s_def [symmetric] sod_def [symmetric] ms_def [symmetric] cf)
  have "t mod kNs = ms * 1000000 + t mod kNs mod 1000000" by (simp add: ms_def)
  moreover have "t mod kNs mod 1000000 = t mod 1000000" by (rule mod_mod_cancel) (simp add: kNs_def)
  moreover have "t = s * kNs + t mod kNs" by (simp add: s_def)
  ultimately have ns: "s * kNs + ms * 1000000 = t - t mod 1000000" by linarith
  have "s div 86400 * 86400 + sod = s" by (simp add: sod_def)
  then have "s div 86400 * 86400 + sod div 3600 * 3600 + sod div 60 mod 60 * 60 + sod mod 60 = s"
    using hms_sum [of sod] by linarith
  then show ?thesis
    unfolding fmt parse_iso_text [OF yr md(2-5) hms ms] md(1) by (simp only: ns)
qed

end
