(* ===== verification/Board.thy ===== *)
theory Board
  imports Seqlock Civil_Time
begin

unbundle bit_operations_syntax

text \<open>
  \<open>src/market/board.hpp\<close>, \<open>src/market/board.cpp\<close>: the per-symbol market state (\<open>MarketHot\<close>, a
  ring of 64 minute bars) and the board of seqlocked states the market-data thread writes. Prices
  (\<open>int32_t\<close>) and instants (\<open>int64_t\<close>) are \<open>int\<close>; sizes, volumes and the notional are words and
  wrap as in the code. Symbol ids are \<open>u32\<close>; an id outside the board is ignored by every writer.
\<close>

subsection \<open>State\<close>

definition kNsPerMinute :: u64 where
  "kNsPerMinute = 60000000000"

definition kRthOpenNs :: u64 where
  "kRthOpenNs = (9 * 60 + 30) * kNsPerMinute"

definition kRthCloseNs :: u64 where
  "kRthCloseNs = 16 * 60 * kNsPerMinute"

definition kBarRing :: nat where
  "kBarRing = 64"

record market_hot =
  last_px :: int
  open_px :: int
  high_px :: int
  low_px :: int
  rth_last_px :: int
  close_px :: int
  pm_high_px :: int
  day_volume :: u64
  notional_e4 :: u64
  trades :: u64
  last_trade_ns :: int
  trading_state :: char
  halt_reason :: string \<comment> \<open>\<open>char[5]\<close>\<close>
  reg_sho_restricted :: bool
  bid_px :: int
  ask_px :: int
  bid_sz :: u32
  ask_sz :: u32
  quote_ns :: int

record minute_bar =
  bar_minute :: int
  bar_open :: int
  bar_high :: int
  bar_low :: int
  bar_close :: int
  bar_volume :: u64

record market_state =
  hot :: market_hot
  bars :: "minute_bar list"

definition hot0 :: market_hot where
  "hot0 = \<lparr>last_px = 0, open_px = 0, high_px = 0, low_px = 0, rth_last_px = 0, close_px = 0, pm_high_px = 0,
     day_volume = 0, notional_e4 = 0, trades = 0, last_trade_ns = 0, trading_state = CHR 0x00,
     halt_reason = replicate 5 (CHR 0x00), reg_sho_restricted = False,
     bid_px = 0, ask_px = 0, bid_sz = 0, ask_sz = 0, quote_ns = 0\<rparr>"

definition bar0 :: minute_bar where
  "bar0 = \<lparr>bar_minute = - 1, bar_open = 0, bar_high = 0, bar_low = 0, bar_close = 0, bar_volume = 0\<rparr>"

definition state0 :: market_state where
  "state0 = \<lparr>hot = hot0, bars = replicate kBarRing bar0\<rparr>"

subsection \<open>Reading a state\<close>

definition last_price :: "market_hot \<Rightarrow> double" where
  "last_price h = of_int (last_px h) / 10000"

definition quote_valid :: "market_hot \<Rightarrow> bool" where
  "quote_valid h \<longleftrightarrow> bid_px h > 0 \<and> ask_px h > 0 \<and> ask_px h > bid_px h"

definition spread_pct :: "market_hot \<Rightarrow> double" where
  "spread_pct h =
     (if quote_valid h then of_int (ask_px h - bid_px h) * 200 / of_int (ask_px h + bid_px h) else 0)"

definition vwap :: "market_hot \<Rightarrow> double" where
  "vwap h = (if day_volume h \<noteq> 0 then real (unat (notional_e4 h)) / 10000 / real (unat (day_volume h)) else 0)"

definition halted :: "market_hot \<Rightarrow> bool" where
  "halted h \<longleftrightarrow> trading_state h = CHR ''H'' \<or> trading_state h = CHR ''P'' \<or> trading_state h = CHR ''Q''"

definition volume_since_minute :: "market_state \<Rightarrow> int \<Rightarrow> u64" where
  "volume_since_minute s from_minute =
     fold (\<lambda>b v. if bar_minute b \<ge> from_minute then v + bar_volume b else v) (bars s) 0"

definition price_at_minute :: "market_state \<Rightarrow> int \<Rightarrow> int" where
  "price_at_minute s minute =
     snd (fold (\<lambda>b (best_min, px). if bar_minute b \<ge> 0 \<and> bar_minute b \<le> minute \<and> bar_minute b > best_min
                                    then (bar_minute b, bar_close b) else (best_min, px)) (bars s) (- 1, 0))"

subsection \<open>The board and its writers\<close>

record market_board =
  states :: "market_state seq_locked list"
  midnight_ns :: int

definition init_bars :: "market_state \<Rightarrow> market_state" where
  "init_bars st = st\<lparr>bars := map (\<lambda>b. b\<lparr>bar_minute := - 1\<rparr>) (bars st)\<rparr>"

definition market_board_new :: "nat \<Rightarrow> market_board" where
  "market_board_new n_symbols =
     \<lparr>states = map (locked_update init_bars) (replicate n_symbols (seq_locked_new state0)), midnight_ns = 0\<rparr>"

definition set_session_date :: "market_board \<Rightarrow> int \<Rightarrow> int \<Rightarrow> int \<Rightarrow> market_board" where
  "set_session_date b y m d = b\<lparr>midnight_ns := eastern_midnight_ns y m d\<rparr>"

definition minute_of :: "u64 \<Rightarrow> int" where
  \<comment> \<open>\<open>static_cast<int>(ns / kNsPerMinute)\<close>\<close>
  "minute_of ns = sint (ucast (ns div kNsPerMinute) :: u32)"

definition bar_index :: "int \<Rightarrow> nat" where
  \<comment> \<open>\<open>minute & (kBarRing - 1)\<close>\<close>
  "bar_index minute = nat (minute AND int (kBarRing - 1))"

definition raise_high :: "int \<Rightarrow> market_hot \<Rightarrow> market_hot" where
  "raise_high px h = (if high_px h = 0 \<or> px > high_px h then h\<lparr>high_px := px\<rparr> else h)"

definition drop_low :: "int \<Rightarrow> market_hot \<Rightarrow> market_hot" where
  "drop_low px h = (if low_px h = 0 \<or> px < low_px h then h\<lparr>low_px := px\<rparr> else h)"

definition session_px :: "int \<Rightarrow> u64 \<Rightarrow> market_hot \<Rightarrow> market_hot" where
  \<comment> \<open>pre-market high before the open; opening and last regular-hours price before the close\<close>
  "session_px px ns h =
     (if ns < kRthOpenNs then (if px > pm_high_px h then h\<lparr>pm_high_px := px\<rparr> else h)
      else if ns < kRthCloseNs
      then (let h = (if open_px h = 0 then h\<lparr>open_px := px\<rparr> else h) in h\<lparr>rth_last_px := px\<rparr>)
      else h)"

definition trade_hot :: "int \<Rightarrow> int \<Rightarrow> u64 \<Rightarrow> u64 \<Rightarrow> market_hot \<Rightarrow> market_hot" where
  \<comment> \<open>the part of \<open>apply_trade\<close> that updates \<open>s.hot\<close>\<close>
  "trade_hot midnight px shares ns h =
     (let h = h\<lparr>last_px := px\<rparr>;
          h = raise_high px h;
          h = drop_low px h;
          h = h\<lparr>day_volume := day_volume h + shares\<rparr>;
          h = h\<lparr>notional_e4 := notional_e4 h + u64_of_int px * shares\<rparr>;
          h = h\<lparr>trades := trades h + 1\<rparr>;
          h = h\<lparr>last_trade_ns := midnight + i64_of_u64 ns\<rparr>
      in session_px px ns h)"

definition trade_bar :: "int \<Rightarrow> u64 \<Rightarrow> int \<Rightarrow> minute_bar \<Rightarrow> minute_bar" where
  \<comment> \<open>the part of \<open>apply_trade\<close> that updates the bar of the minute\<close>
  "trade_bar px shares minute b =
     (let b = (if bar_minute b \<noteq> minute
               then \<lparr>bar_minute = minute, bar_open = px, bar_high = px, bar_low = px, bar_close = px, bar_volume = 0\<rparr>
               else b);
          b = (if px > bar_high b then b\<lparr>bar_high := px\<rparr> else b);
          b = (if px < bar_low b then b\<lparr>bar_low := px\<rparr> else b);
          b = b\<lparr>bar_close := px\<rparr>
      in b\<lparr>bar_volume := bar_volume b + shares\<rparr>)"

definition apply_trade :: "int \<Rightarrow> int \<Rightarrow> u64 \<Rightarrow> u64 \<Rightarrow> market_state \<Rightarrow> market_state" where
  "apply_trade midnight px shares ns s =
     (let s = s\<lparr>hot := trade_hot midnight px shares ns (hot s)\<rparr>;
          minute = minute_of ns;
          i = bar_index minute
      in s\<lparr>bars := (bars s)[i := trade_bar px shares minute (bars s ! i)]\<rparr>)"

definition write_state :: "(market_state \<Rightarrow> market_state) \<Rightarrow> u32 \<Rightarrow> market_board \<Rightarrow> market_board" where
  \<comment> \<open>\<open>states_[sym].begin_write() ... end_write()\<close>\<close>
  "write_state f sid b = b\<lparr>states := (states b)[unat sid := locked_update f (states b ! unat sid)]\<rparr>"

definition board_on_trade :: "market_board \<Rightarrow> u32 \<Rightarrow> int \<Rightarrow> u64 \<Rightarrow> u64 \<Rightarrow> market_board" where
  "board_on_trade b sid px shares ns =
     (if unat sid \<ge> length (states b) \<or> px \<le> 0 \<or> shares = 0 then b
      else write_state (apply_trade (midnight_ns b) px shares ns) sid b)"

definition board_on_cross :: "market_board \<Rightarrow> u32 \<Rightarrow> int \<Rightarrow> u64 \<Rightarrow> u64 \<Rightarrow> char \<Rightarrow> market_board" where
  "board_on_cross b sid px shares ns cross_type =
     (if unat sid \<ge> length (states b) \<or> px \<le> 0 then b
      else write_state (\<lambda>s.
        let s = (if shares > 0 then apply_trade (midnight_ns b) px shares ns s else s)
        in if cross_type = CHR ''O'' then s\<lparr>hot := (hot s)\<lparr>open_px := px\<rparr>\<rparr>
           else if cross_type = CHR ''C'' then s\<lparr>hot := (hot s)\<lparr>close_px := px\<rparr>\<rparr>
           else s) sid b)"

fun copy_reason :: "nat \<Rightarrow> string \<Rightarrow> string \<Rightarrow> string" where
  \<comment> \<open>\<open>for (; n < 4 && reason4[n] && reason4[n] != ' '; ++n) dst[n] = reason4[n]; dst[n] = '\0'\<close>,
     from position \<open>n\<close>\<close>
  "copy_reason n (c # src) dst =
     (if n < 4 \<and> c \<noteq> CHR 0x00 \<and> c \<noteq> CHR '' '' then copy_reason (n + 1) src (dst[n := c])
      else dst[n := CHR 0x00])"
| "copy_reason n [] dst = dst[n := CHR 0x00]"

definition board_on_trading_action :: "market_board \<Rightarrow> u32 \<Rightarrow> char \<Rightarrow> string \<Rightarrow> market_board" where
  "board_on_trading_action b sid state reason4 =
     (if unat sid \<ge> length (states b) then b
      else write_state (\<lambda>s. s\<lparr>hot := (hot s)\<lparr>trading_state := state,
                               halt_reason := copy_reason 0 reason4 (halt_reason (hot s))\<rparr>\<rparr>) sid b)"

definition clamp_u32 :: "u64 \<Rightarrow> u32" where
  "clamp_u32 w = ucast (if w > 0xFFFFFFFF then 0xFFFFFFFF else w)"

definition board_on_quote :: "market_board \<Rightarrow> u32 \<Rightarrow> int \<Rightarrow> u64 \<Rightarrow> int \<Rightarrow> u64 \<Rightarrow> u64 \<Rightarrow> market_board" where
  "board_on_quote b sid bid bsz ask asz ns =
     (if unat sid \<ge> length (states b) then b
      else write_state (\<lambda>s. s\<lparr>hot := (hot s)\<lparr>bid_px := bid, ask_px := ask, bid_sz := clamp_u32 bsz,
             ask_sz := clamp_u32 asz, quote_ns := midnight_ns b + i64_of_u64 ns\<rparr>\<rparr>) sid b)"

definition board_on_reg_sho :: "market_board \<Rightarrow> u32 \<Rightarrow> char \<Rightarrow> market_board" where
  "board_on_reg_sho b sid action =
     (if unat sid \<ge> length (states b) then b
      else write_state (\<lambda>s. s\<lparr>hot := (hot s)\<lparr>reg_sho_restricted := (action = CHR ''1'' \<or> action = CHR ''2'')\<rparr>\<rparr>) sid b)"

definition writer_view :: "market_board \<Rightarrow> u32 \<Rightarrow> market_state" where
  "writer_view b sid = sl_data (states b ! unat sid)"

subsection \<open>Invariant\<close>

definition bar_ok :: "nat \<Rightarrow> minute_bar \<Rightarrow> bool" where
  \<comment> \<open>the bar in slot \<open>i\<close> holds a minute of that slot and an ordered price range\<close>
  "bar_ok i b \<longleftrightarrow> bar_minute b = - 1 \<or>
     (bar_index (bar_minute b) = i \<and> 0 < bar_low b \<and> bar_low b \<le> bar_open b \<and> bar_open b \<le> bar_high b \<and>
      bar_low b \<le> bar_close b \<and> bar_close b \<le> bar_high b)"

definition hot_ok :: "market_hot \<Rightarrow> bool" where
  "hot_ok h \<longleftrightarrow> length (halt_reason h) = 5 \<and>
     (last_px h = 0 \<and> high_px h = 0 \<and> low_px h = 0 \<or>
      0 < low_px h \<and> low_px h \<le> last_px h \<and> last_px h \<le> high_px h)"

definition state_inv :: "market_state \<Rightarrow> bool" where
  "state_inv s \<longleftrightarrow> length (bars s) = kBarRing \<and> (\<forall>i < kBarRing. bar_ok i (bars s ! i)) \<and> hot_ok (hot s)"

definition board_inv :: "market_board \<Rightarrow> bool" where
  \<comment> \<open>between writes every sequence counter is even\<close>
  "board_inv b \<longleftrightarrow> (\<forall>s \<in> set (states b). state_inv (sl_data s) \<and> even (unat (sl_seq s)))"

lemma bar_index_lt [simp]: "bar_index m < kBarRing"
proof -
  have "m AND 63 = m mod 64" using take_bit_eq_mask [of 6 m] by (simp add: take_bit_eq_mod mask_eq_exp_minus_1)
  then show ?thesis by (simp add: bar_index_def kBarRing_def)
qed

lemma bar_ok_trade:
  assumes "bar_ok i b" and "0 < px" and "i = bar_index minute"
  shows "bar_ok i (trade_bar px shares minute b)"
  using assms by (auto simp: bar_ok_def trade_bar_def Let_def)

lemma trade_bar_minute [simp]:
  "bar_minute (trade_bar px shares minute b) = minute" "bar_close (trade_bar px shares minute b) = px"
  by (simp_all add: trade_bar_def Let_def)

lemma raise_high_fields [simp]:
  "last_px (raise_high px h) = last_px h"
  "high_px (raise_high px h) = (if high_px h = 0 \<or> px > high_px h then px else high_px h)"
  "low_px (raise_high px h) = low_px h"
  "day_volume (raise_high px h) = day_volume h"
  "notional_e4 (raise_high px h) = notional_e4 h"
  "trades (raise_high px h) = trades h"
  "last_trade_ns (raise_high px h) = last_trade_ns h"
  "halt_reason (raise_high px h) = halt_reason h"
  "trading_state (raise_high px h) = trading_state h"
  "bid_px (raise_high px h) = bid_px h"
  "ask_px (raise_high px h) = ask_px h"
  "bid_sz (raise_high px h) = bid_sz h"
  "ask_sz (raise_high px h) = ask_sz h"
  by (simp_all add: raise_high_def)

lemma drop_low_fields [simp]:
  "last_px (drop_low px h) = last_px h"
  "high_px (drop_low px h) = high_px h"
  "low_px (drop_low px h) = (if low_px h = 0 \<or> px < low_px h then px else low_px h)"
  "day_volume (drop_low px h) = day_volume h"
  "notional_e4 (drop_low px h) = notional_e4 h"
  "trades (drop_low px h) = trades h"
  "last_trade_ns (drop_low px h) = last_trade_ns h"
  "halt_reason (drop_low px h) = halt_reason h"
  "trading_state (drop_low px h) = trading_state h"
  "bid_px (drop_low px h) = bid_px h"
  "ask_px (drop_low px h) = ask_px h"
  "bid_sz (drop_low px h) = bid_sz h"
  "ask_sz (drop_low px h) = ask_sz h"
  by (simp_all add: drop_low_def)

lemma session_px_fields [simp]:
  "last_px (session_px px ns h) = last_px h"
  "high_px (session_px px ns h) = high_px h"
  "low_px (session_px px ns h) = low_px h"
  "day_volume (session_px px ns h) = day_volume h"
  "notional_e4 (session_px px ns h) = notional_e4 h"
  "trades (session_px px ns h) = trades h"
  "last_trade_ns (session_px px ns h) = last_trade_ns h"
  "halt_reason (session_px px ns h) = halt_reason h"
  "trading_state (session_px px ns h) = trading_state h"
  "bid_px (session_px px ns h) = bid_px h"
  "ask_px (session_px px ns h) = ask_px h"
  "bid_sz (session_px px ns h) = bid_sz h"
  "ask_sz (session_px px ns h) = ask_sz h"
  by (simp_all add: session_px_def Let_def)

lemma trade_hot_fields [simp]:
  "last_px (trade_hot mid px shares ns h) = px"
  "high_px (trade_hot mid px shares ns h) = (if high_px h = 0 \<or> px > high_px h then px else high_px h)"
  "low_px (trade_hot mid px shares ns h) = (if low_px h = 0 \<or> px < low_px h then px else low_px h)"
  "day_volume (trade_hot mid px shares ns h) = day_volume h + shares"
  "notional_e4 (trade_hot mid px shares ns h) = notional_e4 h + u64_of_int px * shares"
  "trades (trade_hot mid px shares ns h) = trades h + 1"
  "last_trade_ns (trade_hot mid px shares ns h) = mid + i64_of_u64 ns"
  "halt_reason (trade_hot mid px shares ns h) = halt_reason h"
  "trading_state (trade_hot mid px shares ns h) = trading_state h"
  "bid_px (trade_hot mid px shares ns h) = bid_px h" "ask_px (trade_hot mid px shares ns h) = ask_px h"
  "bid_sz (trade_hot mid px shares ns h) = bid_sz h" "ask_sz (trade_hot mid px shares ns h) = ask_sz h"
  by (simp_all add: trade_hot_def Let_def)

lemma hot_ok_trade: "hot_ok h \<Longrightarrow> 0 < px \<Longrightarrow> hot_ok (trade_hot mid px shares ns h)"
  by (auto simp: hot_ok_def)

lemma state_inv_trade:
  assumes "state_inv s" and "0 < px"
  shows "state_inv (apply_trade mid px shares ns s)"
  using assms bar_ok_trade [of _ _ px "minute_of ns" shares] hot_ok_trade
  by (auto simp: state_inv_def apply_trade_def Let_def nth_list_update)

lemma length_copy_reason [simp]: "length (copy_reason n src dst) = length dst"
  by (induction n src dst rule: copy_reason.induct) simp_all

lemma state_inv_fields:
  "state_inv s \<Longrightarrow> state_inv (s\<lparr>hot := (hot s)\<lparr>open_px := px\<rparr>\<rparr>)"
  "state_inv s \<Longrightarrow> state_inv (s\<lparr>hot := (hot s)\<lparr>close_px := px\<rparr>\<rparr>)"
  "state_inv s \<Longrightarrow> state_inv (s\<lparr>hot := (hot s)\<lparr>trading_state := st,
     halt_reason := copy_reason 0 rs (halt_reason (hot s))\<rparr>\<rparr>)"
  "state_inv s \<Longrightarrow> state_inv (s\<lparr>hot := (hot s)\<lparr>bid_px := bid, ask_px := ask, bid_sz := bsz, ask_sz := asz,
     quote_ns := qns\<rparr>\<rparr>)"
  "state_inv s \<Longrightarrow> state_inv (s\<lparr>hot := (hot s)\<lparr>reg_sho_restricted := r\<rparr>\<rparr>)"
  by (simp_all add: state_inv_def hot_ok_def)

lemma even_plus2: "even (unat w) \<Longrightarrow> even (unat (w + 2))" for w :: u32
proof -
  assume "even (unat w)"
  then have "even ((unat w + 2) mod 2 ^ 32)" by (simp add: dvd_mod_iff)
  moreover have "unat (w + 2) = (unat w + 2) mod 2 ^ 32" by (simp add: unat_word_ariths)
  ultimately show ?thesis by simp
qed

lemma board_inv_write:
  assumes "board_inv b" and "\<And>s. state_inv s \<Longrightarrow> state_inv (f s)"
  shows "board_inv (write_state f sid b)"
proof (cases "unat sid < length (states b)")
  case True
  let ?s = "states b ! unat sid"
  have "state_inv (sl_data ?s)" "even (unat (sl_seq ?s))" using assms(1) True by (auto simp: board_inv_def)
  then have "state_inv (sl_data (locked_update f ?s)) \<and> even (unat (sl_seq (locked_update f ?s)))"
    using assms(2) by (simp add: locked_update_seq even_plus2)
  then show ?thesis
    using assms(1) True by (auto simp: board_inv_def write_state_def dest!: set_update_subset_insert [THEN subsetD])
qed (use assms(1) in \<open>simp add: write_state_def list_update_beyond\<close>)

lemma board_inv_new: "board_inv (market_board_new n)"
  by (auto simp: board_inv_def market_board_new_def locked_update_seq seq_locked_new_def init_bars_def
      state0_def state_inv_def bar_ok_def hot_ok_def hot0_def bar0_def)

lemma board_inv_on_trade: "board_inv b \<Longrightarrow> board_inv (board_on_trade b sid px shares ns)"
  by (auto simp: board_on_trade_def intro!: board_inv_write state_inv_trade)

lemma board_inv_on_cross: "board_inv b \<Longrightarrow> board_inv (board_on_cross b sid px shares ns ct)"
  by (auto simp: board_on_cross_def Let_def state_inv_fields state_inv_trade intro!: board_inv_write)

lemma board_inv_on_action: "board_inv b \<Longrightarrow> board_inv (board_on_trading_action b sid st rs)"
  by (simp add: board_on_trading_action_def board_inv_write state_inv_fields)

lemma board_inv_on_quote: "board_inv b \<Longrightarrow> board_inv (board_on_quote b sid bid bsz ask asz ns)"
  by (simp add: board_on_quote_def board_inv_write state_inv_fields)

lemma board_inv_on_reg_sho: "board_inv b \<Longrightarrow> board_inv (board_on_reg_sho b sid a)"
  by (simp add: board_on_reg_sho_def board_inv_write state_inv_fields)

lemmas board_inv_writers = board_inv_on_trade board_inv_on_cross board_inv_on_action board_inv_on_quote
  board_inv_on_reg_sho

subsection \<open>What the readers see\<close>

lemma write_state_view:
  "unat sid < length (states b) \<Longrightarrow>
    writer_view (write_state f sid b) k = (if k = sid then f (writer_view b sid) else writer_view b k)"
  by (auto simp: writer_view_def write_state_def nth_list_update dest: unsigned_word_eqI)

lemma write_state_frame [simp]:
  "length (states (write_state f sid b)) = length (states b)"
  "midnight_ns (write_state f sid b) = midnight_ns b"
  by (simp_all add: write_state_def)

definition pick_bar :: "int \<Rightarrow> minute_bar \<Rightarrow> int \<times> int \<Rightarrow> int \<times> int" where
  "pick_bar minute b = (\<lambda>(best_min, px). if bar_minute b \<ge> 0 \<and> bar_minute b \<le> minute \<and> bar_minute b > best_min
                                    then (bar_minute b, bar_close b) else (best_min, px))"

lemma price_at_minute_pick: "price_at_minute s minute = snd (fold (pick_bar minute) (bars s) (- 1, 0))"
  by (simp add: price_at_minute_def pick_bar_def [abs_def])

lemma pick_keeps: "fold (pick_bar m) bs (m, px) = (m, px)"
proof (induction bs)
  case (Cons b bs)
  have "pick_bar m b (m, px) = (m, px)" by (simp add: pick_bar_def)
  then show ?case using Cons by simp
qed simp

lemma pick_below:
  "fst acc < m \<Longrightarrow> \<forall>b \<in> set bs. bar_minute b \<noteq> m \<Longrightarrow> fst (fold (pick_bar m) bs acc) < m"
  by (induction bs arbitrary: acc) (auto simp: pick_bar_def split: prod.splits)

lemma price_at_exact:
  assumes "i < length (bars s)" and "bar_minute (bars s ! i) = m" and "0 \<le> m"
    and "\<forall>j < i. bar_minute (bars s ! j) \<noteq> m"
  shows "price_at_minute s m = bar_close (bars s ! i)"
proof -
  let ?acc = "fold (pick_bar m) (take i (bars s)) (- 1, 0)"
  have "fst ?acc < m"
    by (rule pick_below) (use assms in \<open>auto simp: in_set_conv_nth\<close>)
  then have "pick_bar m (bars s ! i) ?acc = (m, bar_close (bars s ! i))"
    using assms(2,3) by (cases ?acc) (simp add: pick_bar_def)
  then show ?thesis
    unfolding price_at_minute_pick by (subst id_take_nth_drop [OF assms(1)]) (simp add: pick_keeps)
qed

lemma price_after_trade:
  assumes inv: "state_inv s" and m: "minute_of ns = m" "0 \<le> m" and px: "0 < px"
  shows "price_at_minute (apply_trade mid px shares ns s) m = px"
proof -
  let ?s = "apply_trade mid px shares ns s" and ?i = "bar_index m"
  have inv': "state_inv ?s" using inv px by (rule state_inv_trade)
  have i: "bars ?s ! ?i = trade_bar px shares m (bars s ! ?i)"
    using inv m by (simp add: apply_trade_def Let_def state_inv_def)
  have "price_at_minute ?s m = bar_close (bars ?s ! ?i)"
  proof (rule price_at_exact)
    show "?i < length (bars ?s)" using inv' by (simp add: state_inv_def)
    show "bar_minute (bars ?s ! ?i) = m" by (simp add: i)
    show "\<forall>j < ?i. bar_minute (bars ?s ! j) \<noteq> m"
    proof (intro allI impI notI)
      fix j assume j: "j < ?i" "bar_minute (bars ?s ! j) = m"
      have "bar_ok j (bars ?s ! j)"
        using inv' j(1) bar_index_lt [of m] unfolding state_inv_def by (meson less_trans)
      then show False using j m(2) by (simp add: bar_ok_def)
    qed
  qed (rule m(2))
  then show ?thesis by (simp add: i)
qed

text \<open>A day's trades of one symbol: the hot state summarises them.\<close>

definition run_trades :: "u32 \<Rightarrow> (int \<times> u64 \<times> u64) list \<Rightarrow> market_board \<Rightarrow> market_board" where
  "run_trades sid ts b = fold (\<lambda>(px, sh, ns) b. board_on_trade b sid px sh ns) ts b"

definition real_trades :: "(int \<times> u64 \<times> u64) list \<Rightarrow> (int \<times> u64 \<times> u64) list" where
  "real_trades ts = filter (\<lambda>(px, sh, ns). 0 < px \<and> sh \<noteq> 0) ts"

definition summarises :: "market_hot \<Rightarrow> (int \<times> u64) list \<Rightarrow> bool" where
  \<comment> \<open>the trades seen so far, oldest first\<close>
  "summarises h ts \<longleftrightarrow>
     day_volume h = sum_list (map snd ts) \<and>
     notional_e4 h = sum_list (map (\<lambda>(px, sh). u64_of_int px * sh) ts) \<and>
     trades h = of_nat (length ts) \<and>
     last_px h = (if ts = [] then 0 else fst (last ts)) \<and>
     high_px h = (if ts = [] then 0 else Max (fst ` set ts)) \<and>
     low_px h = (if ts = [] then 0 else Min (fst ` set ts))"

lemma max_min_if: "(if x > y then x else y) = max x y" "(if x < y then x else y) = min x y" for x y :: int
  by (simp_all add: max_def min_def)

lemma summarises_trade:
  assumes "summarises h ts" and "\<forall>t \<in> set ts. 0 < fst t" and "0 < px"
  shows "summarises (trade_hot mid px sh ns h) (ts @ [(px, sh)])"
proof (cases "ts = []")
  case True
  then show ?thesis using assms(1) by (simp add: summarises_def)
next
  case False
  let ?P = "fst ` set ts"
  have P: "finite ?P" "?P \<noteq> {}" using False by simp_all
  have pos: "Max ?P > 0" "Min ?P > 0"
    using Max_in [OF P] Min_in [OF P] assms(2) by auto
  have "high_px h = Max ?P" "low_px h = Min ?P" using assms(1) False by (simp_all add: summarises_def)
  then have "high_px (trade_hot mid px sh ns h) = Max (insert px ?P)"
      "low_px (trade_hot mid px sh ns h) = Min (insert px ?P)"
    using pos unfolding Max_insert [OF P] Min_insert [OF P] max_min_if [symmetric] by simp_all
  then show ?thesis
    using assms(1) False by (simp add: summarises_def)
qed

lemma on_trade_frame [simp]:
  "length (states (board_on_trade b sid px sh ns)) = length (states b)"
  "midnight_ns (board_on_trade b sid px sh ns) = midnight_ns b"
  by (simp_all add: board_on_trade_def)

lemma on_trade_hot:
  "unat sid < length (states b) \<Longrightarrow> hot (writer_view (board_on_trade b sid px sh ns) sid) =
    (if 0 < px \<and> sh \<noteq> 0 then trade_hot (midnight_ns b) px sh ns (hot (writer_view b sid))
     else hot (writer_view b sid))"
  by (auto simp: board_on_trade_def write_state_view apply_trade_def Let_def)

lemma run_trades_summary:
  assumes "unat sid < length (states b)" and "summarises (hot (writer_view b sid)) old" and "\<forall>t \<in> set old. 0 < fst t"
  shows "summarises (hot (writer_view (run_trades sid ts b) sid))
    (old @ map (\<lambda>(px, sh, ns). (px, sh)) (real_trades ts))"
  using assms
proof (induction ts arbitrary: b old)
  case (Cons t ts)
  obtain px sh ns where t: "t = (px, sh, ns)" by (cases t)
  let ?b = "board_on_trade b sid px sh ns"
  have "summarises (hot (writer_view ?b sid)) (old @ (if 0 < px \<and> sh \<noteq> 0 then [(px, sh)] else []))"
    using Cons.prems summarises_trade [of _ old px] by (auto simp: on_trade_hot)
  then show ?case
    using Cons.IH [of ?b "old @ (if 0 < px \<and> sh \<noteq> 0 then [(px, sh)] else [])"] Cons.prems
    by (auto simp: t run_trades_def real_trades_def split: if_splits)
qed (simp add: run_trades_def real_trades_def)

subsection \<open>Top of book\<close>

definition board_top :: "market_board \<Rightarrow> nat \<Rightarrow> int \<times> int \<times> u32 \<times> u32" where
  "board_top b i = (let h = hot (sl_data (states b ! i)) in (bid_px h, ask_px h, bid_sz h, ask_sz h))"

lemma board_top_write:
  assumes "\<And>s. (bid_px (hot (f s)), ask_px (hot (f s)), bid_sz (hot (f s)), ask_sz (hot (f s))) =
      (bid_px (hot s), ask_px (hot s), bid_sz (hot s), ask_sz (hot s))"
  shows "board_top (write_state f sid b) i = board_top b i"
proof (cases "i < length (states b)")
  case True
  then show ?thesis using assms by (cases "i = unat sid") (simp_all add: board_top_def write_state_def Let_def)
next
  case False
  then show ?thesis by (cases "i = unat sid") (simp_all add: board_top_def write_state_def list_update_beyond)
qed

lemma board_top_trade [simp]: "board_top (board_on_trade b sid px sh ns) i = board_top b i"
  by (auto simp: board_on_trade_def apply_trade_def Let_def intro!: board_top_write)

lemma board_top_cross [simp]: "board_top (board_on_cross b sid px sh ns ct) i = board_top b i"
  by (auto simp: board_on_cross_def apply_trade_def Let_def intro!: board_top_write)

lemma board_top_action [simp]: "board_top (board_on_trading_action b sid st rs) i = board_top b i"
  by (auto simp: board_on_trading_action_def intro!: board_top_write)

lemma board_top_reg_sho [simp]: "board_top (board_on_reg_sho b sid a) i = board_top b i"
  by (auto simp: board_on_reg_sho_def intro!: board_top_write)

lemma board_top_quote:
  "unat sid < length (states b) \<Longrightarrow> board_top (board_on_quote b sid bid bsz ask asz ns) i =
    (if i = unat sid then (bid, ask, clamp_u32 bsz, clamp_u32 asz) else board_top b i)"
  by (simp add: board_top_def board_on_quote_def write_state_def nth_list_update)

lemma board_length [simp]:
  "length (states (board_on_cross b sid px sh ns ct)) = length (states b)"
  "length (states (board_on_trading_action b sid st rs)) = length (states b)"
  "length (states (board_on_quote b sid bid bsz ask asz ns)) = length (states b)"
  "length (states (board_on_reg_sho b sid a)) = length (states b)"
  by (simp_all add: board_on_cross_def board_on_trading_action_def board_on_quote_def board_on_reg_sho_def)

end
