(* ===== verification/Itch_Book.thy ===== *)
theory Itch_Book
  imports Symbols Level_Book Board Spsc_Queue
begin

unbundle bit_operations_syntax

text \<open>
  \<open>src/market/itch_book.hpp\<close>, \<open>src/market/itch_book.cpp\<close>: the ITCH handler that keeps the resting
  orders, the per-symbol price ladders and the board's top of book. Every handler is partial:
  \<open>None\<close> stands for a hash probe that does not end or an index outside \<open>books_\<close> or \<open>filter_\<close>.
  \<open>ib_inv\<close> excludes both, and every handler is shown to return and to keep it.

  The 65536-entry arrays are functions on \<open>u16\<close>. The event queue and the waker are optional, as
  the pointers are; \<open>ib_notified\<close> counts the calls of \<open>notify\<close>.
\<close>

subsection \<open>State\<close>

datatype market_event_type = TradingAction | SystemEvent

record market_event =
  me_type :: market_event_type
  me_state :: char
  me_reason :: string
  me_sys_code :: char
  me_sym :: u32
  me_ts_ns :: int

definition market_event0 :: market_event where
  "market_event0 = \<lparr>me_type = TradingAction, me_state = CHR 0x00, me_reason = replicate 5 (CHR 0x00),
     me_sys_code = CHR 0x00, me_sym = 0, me_ts_ns = 0\<rparr>"

record order =
  o_price :: u32
  o_shares :: u32
  o_locate :: u16
  o_side :: char

definition order0 :: order where
  "order0 = \<lparr>o_price = 0, o_shares = 0, o_locate = 0, o_side = CHR 0x00\<rparr>"

record book_stats =
  bs_messages :: u64
  bs_adds :: u64
  bs_execs :: u64
  bs_trades :: u64
  bs_crosses :: u64
  bs_unknown_ref :: u64
  bs_halts :: u64
  bs_quote_updates :: u64
  bs_max_orders :: nat

definition stats0 :: book_stats where
  "stats0 = \<lparr>bs_messages = 0, bs_adds = 0, bs_execs = 0, bs_trades = 0, bs_crosses = 0, bs_unknown_ref = 0,
     bs_halts = 0, bs_quote_updates = 0, bs_max_orders = 0\<rparr>"

record itch_book =
  ib_symbols :: symbol_table
  ib_board :: market_board
  ib_events :: "market_event spsc option"
  ib_waker :: bool
  ib_notified :: nat
  ib_l2s :: "u16 \<Rightarrow> u32"
  ib_last_state :: "u16 \<Rightarrow> char"
  ib_orders :: "order flat_map"
  ib_books :: "level_book list"
  ib_filter :: "u8 list"
  ib_track :: bool
  ib_st :: book_stats
  ib_last_sys :: char

definition itch_book_new ::
    "symbol_table \<Rightarrow> market_board \<Rightarrow> market_event spsc option \<Rightarrow> bool \<Rightarrow> nat \<Rightarrow> bool \<Rightarrow> itch_book option" where
  "itch_book_new symbols board events waker order_capacity track_quotes =
     map_option (\<lambda>m. \<lparr>ib_symbols = symbols, ib_board = board, ib_events = events, ib_waker = waker, ib_notified = 0,
        ib_l2s = (\<lambda>_. kInvalid), ib_last_state = (\<lambda>_. CHR 0x00), ib_orders = m,
        ib_books = replicate (if track_quotes then length (states board) else 0) level_book_new,
        ib_filter = [], ib_track = track_quotes, ib_st = stats0, ib_last_sys = CHR 0x00\<rparr>)
       (flat_map_new order0 order_capacity 0.6)"

definition map_locate :: "itch_book \<Rightarrow> u16 \<Rightarrow> u32 \<Rightarrow> itch_book" where
  "map_locate b locate sid = b\<lparr>ib_l2s := (ib_l2s b)(locate := sid)\<rparr>"

definition set_quote_filter :: "itch_book \<Rightarrow> u8 list \<Rightarrow> itch_book" where
  "set_quote_filter b msk = b\<lparr>ib_filter := msk\<rparr>"

definition live_orders :: "itch_book \<Rightarrow> nat" where
  "live_orders b = fm_size (ib_orders b)"

definition update_peak :: "itch_book \<Rightarrow> itch_book" where
  "update_peak b = (if fm_size (ib_orders b) > bs_max_orders (ib_st b)
     then b\<lparr>ib_st := (ib_st b)\<lparr>bs_max_orders := fm_size (ib_orders b)\<rparr>\<rparr> else b)"

definition count_message :: "itch_book \<Rightarrow> itch_book" where
  "count_message b = b\<lparr>ib_st := (ib_st b)\<lparr>bs_messages := bs_messages (ib_st b) + 1\<rparr>\<rparr>"

subsection \<open>Top of book\<close>

definition quoted :: "itch_book \<Rightarrow> u32 \<Rightarrow> bool option" where
  "quoted b sid =
     (if \<not> ib_track b then Some False
      else if ib_filter b = [] then Some True
      else if unat sid < length (ib_filter b) then Some (ib_filter b ! unat sid \<noteq> 0) else None)"

definition side_upd :: "char \<Rightarrow> (side_ladder \<Rightarrow> side_ladder) \<Rightarrow> level_book \<Rightarrow> level_book" where
  "side_upd side f l = (if side = CHR ''B'' then l\<lparr>bids := f (bids l)\<rparr> else l\<lparr>asks := f (asks l)\<rparr>)"

definition book_side_upd :: "itch_book \<Rightarrow> u32 \<Rightarrow> char \<Rightarrow> (side_ladder \<Rightarrow> side_ladder) \<Rightarrow> itch_book option" where
  \<comment> \<open>a call through the reference \<open>book_side(sym, side)\<close>\<close>
  "book_side_upd b sid side f =
     (if unat sid < length (ib_books b)
      then Some (b\<lparr>ib_books := (ib_books b)[unat sid := side_upd side f (ib_books b ! unat sid)]\<rparr>) else None)"

definition top_published :: "level_book \<Rightarrow> bool" where
  "top_published l \<longleftrightarrow> best_price (bids l) = pub_bid l \<and> best_price (asks l) = pub_ask l \<and>
     best_qty (bids l) = pub_bid_q l \<and> best_qty (asks l) = pub_ask_q l"

definition publish_top :: "itch_book \<Rightarrow> u32 \<Rightarrow> u64 \<Rightarrow> itch_book option" where
  "publish_top b sid ts =
     (if unat sid < length (ib_books b) then
        (let l = ib_books b ! unat sid;
             bp = best_price (bids l); ap = best_price (asks l);
             bq = best_qty (bids l); aq = best_qty (asks l)
         in if bp = pub_bid l \<and> ap = pub_ask l \<and> bq = pub_bid_q l \<and> aq = pub_ask_q l then Some b
            else Some (b\<lparr>ib_books := (ib_books b)[unat sid :=
                             l\<lparr>pub_bid := bp, pub_ask := ap, pub_bid_q := bq, pub_ask_q := aq\<rparr>],
                         ib_st := (ib_st b)\<lparr>bs_quote_updates := bs_quote_updates (ib_st b) + 1\<rparr>,
                         ib_board := board_on_quote (ib_board b) sid (sint bp) bq (sint ap) aq ts\<rparr>))
      else None)"

definition put_order :: "itch_book \<Rightarrow> u64 \<Rightarrow> order \<Rightarrow> itch_book option" where
  \<comment> \<open>\<open>*orders_.try_emplace(ref).first = o\<close>\<close>
  "put_order b ref o' = map_option (\<lambda>(m, _). b\<lparr>ib_orders := m\<rparr>) (insert_or_assign order0 (ib_orders b) ref o')"

definition erase_order :: "itch_book \<Rightarrow> u64 \<Rightarrow> itch_book option" where
  "erase_order b ref = map_option (\<lambda>(m, _). b\<lparr>ib_orders := m\<rparr>) (erase (ib_orders b) ref)"

definition reduce :: "itch_book \<Rightarrow> nat \<Rightarrow> u64 \<Rightarrow> u32 \<Rightarrow> u64 \<Rightarrow> itch_book option" where
  \<comment> \<open>\<open>p\<close> is the slot the pointer \<open>o\<close> refers to\<close>
  "reduce b p ref shares ts =
     (let o' = value_at (ib_orders b) p;
          tk = (if shares < o_shares o' then shares else o_shares o');
          sid = ib_l2s b (o_locate o')
      in do {
        b \<leftarrow> (if sid \<noteq> kInvalid then do {
                 q \<leftarrow> quoted b sid;
                 if q then do {
                   b \<leftarrow> book_side_upd b sid (o_side o') (\<lambda>s. ladder_remove s (o_price o') (ucast tk));
                   publish_top b sid ts }
                 else Some b }
               else Some b);
        if shares \<ge> o_shares o' then erase_order b ref
        else Some (b\<lparr>ib_orders := set_value (ib_orders b) p (o'\<lparr>o_shares := o_shares o' - shares\<rparr>)\<rparr>) })"

subsection \<open>Handlers\<close>

definition push_event :: "itch_book \<Rightarrow> market_event \<Rightarrow> itch_book" where
  \<comment> \<open>\<open>if (events_) if (e = events_->try_claim()) { *e = ev; publish(); if (waker_) notify(); }\<close>\<close>
  "push_event b ev =
     (case ib_events b of
        None \<Rightarrow> b
      | Some q \<Rightarrow>
          (case spsc_try_push q ev of (q, ok) \<Rightarrow>
             let b = b\<lparr>ib_events := Some q\<rparr> in
             if ok \<and> ib_waker b then b\<lparr>ib_notified := ib_notified b + 1\<rparr> else b))"

definition on_system_event :: "itch_book \<Rightarrow> u64 \<Rightarrow> char \<Rightarrow> itch_book" where
  "on_system_event b ts cd =
     (let b = count_message b; b = b\<lparr>ib_last_sys := cd\<rparr>
      in push_event b (market_event0\<lparr>me_type := SystemEvent, me_sys_code := cd, me_sym := kInvalid,
           me_ts_ns := midnight_ns (ib_board b) + i64_of_u64 ts\<rparr>))"

definition on_stock_directory :: "itch_book \<Rightarrow> u16 \<Rightarrow> u64 \<Rightarrow> itch_book option" where
  "on_stock_directory b locate key = do {
     sid \<leftarrow> find_key (ib_symbols b) key;
     Some (map_locate (count_message b) locate sid) }"

definition on_trading_action :: "itch_book \<Rightarrow> u16 \<Rightarrow> u64 \<Rightarrow> u64 \<Rightarrow> char \<Rightarrow> string \<Rightarrow> itch_book option" where
  "on_trading_action b locate ts key state reason =
     (let b = count_message b in do {
        b \<leftarrow> (if ib_l2s b locate = kInvalid
               then map_option (map_locate b locate) (find_key (ib_symbols b) key)
               else Some b);
        let sid = ib_l2s b locate;
        if sid = kInvalid then Some b
        else
          let b = b\<lparr>ib_board := board_on_trading_action (ib_board b) sid state reason\<rparr>;
              prev = ib_last_state b locate;
              b = b\<lparr>ib_last_state := (ib_last_state b)(locate := state)\<rparr>;
              interesting = (state \<noteq> CHR ''T'' \<or> (prev \<noteq> CHR 0x00 \<and> prev \<noteq> CHR ''T''))
          in if \<not> interesting then Some b
             else let b = b\<lparr>ib_st := (ib_st b)\<lparr>bs_halts := bs_halts (ib_st b) + 1\<rparr>\<rparr>
                  in Some (push_event b (market_event0\<lparr>me_type := TradingAction, me_state := state,
                       me_reason := copy_reason 0 reason (me_reason market_event0), me_sym := sid,
                       me_ts_ns := midnight_ns (ib_board b) + i64_of_u64 ts\<rparr>)) })"

definition on_reg_sho :: "itch_book \<Rightarrow> u16 \<Rightarrow> char \<Rightarrow> itch_book" where
  "on_reg_sho b locate action =
     (let b = count_message b; sid = ib_l2s b locate
      in if sid \<noteq> kInvalid then b\<lparr>ib_board := board_on_reg_sho (ib_board b) sid action\<rparr> else b)"

definition on_add :: "itch_book \<Rightarrow> u16 \<Rightarrow> u64 \<Rightarrow> u64 \<Rightarrow> char \<Rightarrow> u32 \<Rightarrow> u32 \<Rightarrow> itch_book option" where
  "on_add b locate ts ref side shares pr =
     (let b = count_message b; sid = ib_l2s b locate in
      if sid = kInvalid then Some b
      else let b = b\<lparr>ib_st := (ib_st b)\<lparr>bs_adds := bs_adds (ib_st b) + 1\<rparr>\<rparr> in do {
        b \<leftarrow> put_order b ref \<lparr>o_price = pr, o_shares = shares, o_locate = locate, o_side = side\<rparr>;
        q \<leftarrow> quoted b sid;
        if q then do {
          b \<leftarrow> book_side_upd b sid side (\<lambda>s. ladder_add s pr (ucast shares));
          publish_top b sid ts }
        else Some b })"

definition count_exec :: "itch_book \<Rightarrow> itch_book" where
  "count_exec b = b\<lparr>ib_st := (ib_st b)\<lparr>bs_execs := bs_execs (ib_st b) + 1\<rparr>\<rparr>"

definition count_unknown :: "itch_book \<Rightarrow> itch_book" where
  "count_unknown b = b\<lparr>ib_st := (ib_st b)\<lparr>bs_unknown_ref := bs_unknown_ref (ib_st b) + 1\<rparr>\<rparr>"

definition print_trade :: "itch_book \<Rightarrow> u16 \<Rightarrow> u32 \<Rightarrow> u32 \<Rightarrow> u64 \<Rightarrow> itch_book" where
  \<comment> \<open>\<open>board_.on_trade(locate_to_sym_[locate], static_cast<int32_t>(price), shares, ts)\<close>\<close>
  "print_trade b locate pr shares ts =
     b\<lparr>ib_board := board_on_trade (ib_board b) (ib_l2s b locate) (sint pr) (ucast shares) ts\<rparr>"

definition on_executed :: "itch_book \<Rightarrow> u16 \<Rightarrow> u64 \<Rightarrow> u64 \<Rightarrow> u32 \<Rightarrow> itch_book option" where
  "on_executed b locate ts ref shares =
     (let b = count_message b in do {
        p \<leftarrow> fm_find (ib_orders b) ref;
        case p of
          None \<Rightarrow> Some (count_unknown b)
        | Some i \<Rightarrow> reduce (print_trade (count_exec b) locate (o_price (value_at (ib_orders b) i)) shares ts)
                     i ref shares ts })"

definition on_executed_price :: "itch_book \<Rightarrow> u16 \<Rightarrow> u64 \<Rightarrow> u64 \<Rightarrow> u32 \<Rightarrow> bool \<Rightarrow> u32 \<Rightarrow> itch_book option" where
  "on_executed_price b locate ts ref shares printable pr =
     (let b = count_message b in do {
        p \<leftarrow> fm_find (ib_orders b) ref;
        let b = (if printable then print_trade (count_exec b) locate pr shares ts else b);
        case p of
          Some i \<Rightarrow> reduce b i ref shares ts
        | None \<Rightarrow> Some (count_unknown b) })"

definition on_cancel :: "itch_book \<Rightarrow> u64 \<Rightarrow> u64 \<Rightarrow> u32 \<Rightarrow> itch_book option" where
  "on_cancel b ts ref shares =
     (let b = count_message b in do {
        p \<leftarrow> fm_find (ib_orders b) ref;
        case p of None \<Rightarrow> Some b | Some i \<Rightarrow> reduce b i ref shares ts })"

definition on_delete :: "itch_book \<Rightarrow> u64 \<Rightarrow> u64 \<Rightarrow> itch_book option" where
  "on_delete b ts ref =
     (let b = count_message b in do {
        p \<leftarrow> fm_find (ib_orders b) ref;
        case p of None \<Rightarrow> Some b | Some i \<Rightarrow> reduce b i ref (o_shares (value_at (ib_orders b) i)) ts })"

definition on_replace :: "itch_book \<Rightarrow> u64 \<Rightarrow> u64 \<Rightarrow> u64 \<Rightarrow> u32 \<Rightarrow> u32 \<Rightarrow> itch_book option" where
  "on_replace b ts old_ref new_ref shares pr =
     (let b = count_message b in do {
        p \<leftarrow> fm_find (ib_orders b) old_ref;
        case p of
          None \<Rightarrow> Some b
        | Some i \<Rightarrow>
            let o' = value_at (ib_orders b) i;
                side = o_side o'; loc = o_locate o'; sid = ib_l2s b loc
            in do {
              q \<leftarrow> (if sid \<noteq> kInvalid then quoted b sid else Some False);
              b \<leftarrow> (if q then book_side_upd b sid side (\<lambda>s. ladder_remove s (o_price o') (ucast (o_shares o')))
                     else Some b);
              b \<leftarrow> erase_order b old_ref;
              b \<leftarrow> put_order b new_ref \<lparr>o_price = pr, o_shares = shares, o_locate = loc, o_side = side\<rparr>;
              if q then do {
                b \<leftarrow> book_side_upd b sid side (\<lambda>s. ladder_add s pr (ucast shares));
                publish_top b sid ts }
              else Some b } })"

definition on_trade :: "itch_book \<Rightarrow> u16 \<Rightarrow> u64 \<Rightarrow> u32 \<Rightarrow> u32 \<Rightarrow> itch_book" where
  "on_trade b locate ts shares pr =
     (let b = count_message b;
          b = b\<lparr>ib_st := (ib_st b)\<lparr>bs_trades := bs_trades (ib_st b) + 1\<rparr>\<rparr>
      in print_trade b locate pr shares ts)"

definition on_cross :: "itch_book \<Rightarrow> u16 \<Rightarrow> u64 \<Rightarrow> u64 \<Rightarrow> u32 \<Rightarrow> char \<Rightarrow> itch_book" where
  "on_cross b locate ts shares pr cross_type =
     (let b = count_message b;
          b = b\<lparr>ib_st := (ib_st b)\<lparr>bs_crosses := bs_crosses (ib_st b) + 1\<rparr>\<rparr>
      in b\<lparr>ib_board := board_on_cross (ib_board b) (ib_l2s b locate) (sint pr) shares ts cross_type\<rparr>)"

fun dispatch :: "itch_book \<Rightarrow> itch_call \<Rightarrow> itch_book option" where
  \<comment> \<open>the callbacks of \<open>itch::decode\<close> on this handler\<close>
  "dispatch b (OnSystemEvent ts cd) = Some (on_system_event b ts cd)"
| "dispatch b (OnStockDirectory loc ts key cat fin lot) = on_stock_directory b loc key"
| "dispatch b (OnTradingAction loc ts key st rs) = on_trading_action b loc ts key st rs"
| "dispatch b (OnRegSho loc ts a) = Some (on_reg_sho b loc a)"
| "dispatch b (OnAdd loc ts ref side sh pr) = on_add b loc ts ref side sh pr"
| "dispatch b (OnExecuted loc ts ref sh) = on_executed b loc ts ref sh"
| "dispatch b (OnExecutedPrice loc ts ref sh pb pr) = on_executed_price b loc ts ref sh pb pr"
| "dispatch b (OnCancel loc ts ref sh) = on_cancel b ts ref sh"
| "dispatch b (OnDelete loc ts ref) = on_delete b ts ref"
| "dispatch b (OnReplace loc ts r1 r2 sh pr) = on_replace b ts r1 r2 sh pr"
| "dispatch b (OnTrade loc ts side sh key pr) = Some (on_trade b loc ts sh pr)"
| "dispatch b (OnCross loc ts sh key pr ct) = Some (on_cross b loc ts sh pr ct)"
| "dispatch b (OnBroken loc ts m) = Some (count_message b)"

definition book_decode :: "itch_book \<Rightarrow> u8 list \<Rightarrow> (itch_book \<times> bool) option" where
  \<comment> \<open>\<open>itch::decode(p, n, book)\<close>: the new state and the returned flag\<close>
  "book_decode b p = do {
     r \<leftarrow> decode p;
     case r of
       Reject \<Rightarrow> Some (b, False)
     | Unused \<Rightarrow> Some (b, True)
     | Call c \<Rightarrow> map_option (\<lambda>b. (b, True)) (dispatch b c) }"

subsection \<open>Sums over the resting orders\<close>

definition total :: "('k \<Rightarrow> 'v option) \<Rightarrow> ('v \<Rightarrow> nat) \<Rightarrow> nat" where
  "total M w = (\<Sum>k \<in> dom M. w (the (M k)))"

lemma total_del:
  assumes "finite (dom M)"
  shows "total (M(k := None)) w = total M w - (case M k of None \<Rightarrow> 0 | Some v \<Rightarrow> w v)"
proof (cases "M k")
  case None
  then have "M(k := None) = M" by (simp add: fun_upd_idem)
  then show ?thesis using None by simp
next
  case (Some v)
  have "total (M(k := None)) w = (\<Sum>x \<in> dom M - {k}. w (the (M x)))"
    unfolding total_def by (rule sum.cong) auto
  moreover have "total M w = w v + (\<Sum>x \<in> dom M - {k}. w (the (M x)))"
    unfolding total_def using sum.remove [OF assms, of k "\<lambda>x. w (the (M x))"] Some by (simp add: domI)
  ultimately show ?thesis using Some by simp
qed

lemma total_new:
  assumes "finite (dom M)" and "M k = None"
  shows "total (M(k \<mapsto> v)) w = total M w + w v"
proof -
  have "k \<notin> dom M" using assms(2) by auto
  moreover have "(\<Sum>x \<in> dom M. w (the ((M(k \<mapsto> v)) x))) = total M w"
    unfolding total_def using assms(2) by (intro sum.cong) auto
  ultimately show ?thesis using assms(1) by (simp add: total_def)
qed

lemma total_member: "finite (dom M) \<Longrightarrow> M k = Some v \<Longrightarrow> w v \<le> total M w"
  unfolding total_def using member_le_sum [of k "dom M" "\<lambda>x. w (the (M x))"] by (auto simp: domI)

lemma total_put:
  assumes "finite (dom M)" and "M k = Some v"
  shows "total (M(k \<mapsto> v')) w = total M w - w v + w v'"
  using total_new [of "M(k := None)" k v' w] total_del [OF assms(1), of k w] assms by simp

lemma total_bound:
  assumes "finite (dom M)" and "\<And>v. w v \<le> B"
  shows "total M w \<le> card (dom M) * B"
  unfolding total_def using sum_bounded_above [of "dom M" "\<lambda>x. w (the (M x))" B] assms(2) by simp

definition weight :: "(u16 \<Rightarrow> u32) \<Rightarrow> u32 \<Rightarrow> bool \<Rightarrow> u32 \<Rightarrow> order \<Rightarrow> nat" where
  \<comment> \<open>the shares an order adds to the level \<open>p\<close> of one side of a symbol\<close>
  "weight l2s sid bid p o' =
     (if l2s (o_locate o') = sid \<and> (o_side o' = CHR ''B'') = bid \<and> o_price o' = p then unat (o_shares o') else 0)"

definition resting :: "itch_book \<Rightarrow> u32 \<Rightarrow> bool \<Rightarrow> u32 \<Rightarrow> nat" where
  "resting b sid bid p = total (fm_map (ib_orders b)) (weight (ib_l2s b) sid bid p)"

lemma weight_le: "weight l2s sid bid p o' \<le> 2 ^ 32 - 1"
proof -
  have "unat (o_shares o') < 2 ^ LENGTH(32)" by (rule unsigned_less)
  then show ?thesis by (simp add: weight_def)
qed

lemma finite_orders: "finite (dom (fm_map m))"
  by (simp add: fm_map_def finite_dom_map_of)

lemma resting_bound:
  assumes "fm_inv (ib_orders b)"
  shows "resting b sid bid p \<le> fm_size (ib_orders b) * (2 ^ 32 - 1)"
  unfolding resting_def fm_size_card [OF assms] using finite_orders weight_le by (rule total_bound)

subsection \<open>Invariant\<close>

definition side_of :: "level_book \<Rightarrow> bool \<Rightarrow> side_ladder" where
  "side_of l bid = (if bid then bids l else asks l)"

definition is_quoted :: "itch_book \<Rightarrow> u32 \<Rightarrow> bool" where
  "is_quoted b sid \<longleftrightarrow> unat sid < length (ib_books b) \<and> quoted b sid = Some True"

definition env_ok :: "itch_book \<Rightarrow> bool" where
  "env_ok b \<longleftrightarrow> fm_inv (ib_orders b) \<and> board_inv (ib_board b) \<and>
     length (states (ib_board b)) < 2 ^ 32 - 1 \<and>
     length (ib_books b) = (if ib_track b then length (states (ib_board b)) else 0) \<and>
     (\<forall>loc. ib_l2s b loc \<noteq> kInvalid \<longrightarrow> unat (ib_l2s b loc) < length (states (ib_board b))) \<and>
     (ib_filter b = [] \<or> length (states (ib_board b)) \<le> length (ib_filter b))"

definition shown :: "level_book \<Rightarrow> int \<times> int \<times> u32 \<times> u32" where
  "shown l = (sint (pub_bid l), sint (pub_ask l), clamp_u32 (pub_bid_q l), clamp_u32 (pub_ask_q l))"

definition book_ok :: "itch_book \<Rightarrow> nat \<Rightarrow> bool" where
  "book_ok b i \<longleftrightarrow> (let l = ib_books b ! i in
     (\<forall>bid. ladder_inv (side_of l bid) \<and> is_bid (side_of l bid) = bid) \<and> board_top (ib_board b) i = shown l)"

definition books_ok :: "itch_book \<Rightarrow> bool" where
  \<comment> \<open>ladders well formed; the board shows what was published; the best levels are published\<close>
  "books_ok b \<longleftrightarrow> (\<forall>i < length (ib_books b). book_ok b i \<and> top_published (ib_books b ! i))"

definition ladders_agree :: "itch_book \<Rightarrow> bool" where
  \<comment> \<open>every level of a quoted symbol holds exactly the shares resting there\<close>
  "ladders_agree b \<longleftrightarrow> (\<forall>sid bid p. is_quoted b sid \<longrightarrow>
     unat (level_qty (side_of (ib_books b ! unat sid) bid) p) = resting b sid bid p)"

definition ib_inv :: "itch_book \<Rightarrow> bool" where
  "ib_inv b \<longleftrightarrow> env_ok b \<and> books_ok b \<and> ladders_agree b \<and> fm_size (ib_orders b) < 2 ^ 32"

lemma quoted_total:
  assumes "env_ok b" and "ib_l2s b loc = sid" and "sid \<noteq> kInvalid"
  shows "\<exists>q. quoted b sid = Some q \<and> q = is_quoted b sid"
proof -
  have "unat sid < length (states (ib_board b))" using assms by (auto simp: env_ok_def)
  then show ?thesis using assms(1) by (auto simp: quoted_def env_ok_def is_quoted_def split: if_splits)
qed

lemma side_of_upd:
  "side_of (side_upd side f l) bid = (if bid = (side = CHR ''B'') then f (side_of l bid) else side_of l bid)"
  by (simp add: side_of_def side_upd_def)

lemma side_upd_pub [simp]:
  "shown (side_upd side f l) = shown l"
  by (simp add: shown_def side_upd_def)

text \<open>Everything a ladder update leaves alone.\<close>

definition same_env :: "itch_book \<Rightarrow> itch_book \<Rightarrow> bool" where
  "same_env b b' \<longleftrightarrow> ib_l2s b' = ib_l2s b \<and> ib_filter b' = ib_filter b \<and> ib_track b' = ib_track b \<and>
     ib_symbols b' = ib_symbols b \<and> ib_orders b' = ib_orders b \<and>
     length (ib_books b') = length (ib_books b) \<and> length (states (ib_board b')) = length (states (ib_board b))"

lemma same_env_quoted: "same_env b b' \<Longrightarrow> is_quoted b' sid = is_quoted b sid"
  by (simp add: same_env_def is_quoted_def quoted_def)

lemma side_update_ok:
  assumes inv: "env_ok b" "\<forall>i < length (ib_books b). book_ok b i" and sid: "unat sid < length (ib_books b)"
    and f: "ladder_inv (f (side_of (ib_books b ! unat sid) (side = CHR ''B'')))"
      "\<And>s. is_bid (f s) = is_bid s"
  shows "\<exists>b'. book_side_upd b sid side f = Some b' \<and> same_env b b' \<and> env_ok b' \<and>
    (\<forall>i < length (ib_books b'). book_ok b' i) \<and>
    (\<forall>i < length (ib_books b). \<forall>bid. side_of (ib_books b' ! i) bid =
      (if i = unat sid \<and> bid = (side = CHR ''B'') then f (side_of (ib_books b ! i) bid) else side_of (ib_books b ! i) bid)) \<and>
    (\<forall>i < length (ib_books b). i \<noteq> unat sid \<longrightarrow> ib_books b' ! i = ib_books b ! i)"
proof -
  let ?l = "side_upd side f (ib_books b ! unat sid)"
  let ?b = "b\<lparr>ib_books := (ib_books b)[unat sid := ?l]\<rparr>"
  have "book_ok ?b i" if "i < length (ib_books b)" for i
    using inv(2) that f by (cases "i = unat sid") (auto simp: book_ok_def Let_def side_of_upd)
  then show ?thesis
    using inv(1) sid
    by (intro exI [of _ ?b]) (simp add: book_side_upd_def same_env_def env_ok_def side_of_upd nth_list_update)
qed

lemma publish_ok:
  assumes inv: "env_ok b" "\<forall>i < length (ib_books b). book_ok b i" and sid: "unat sid < length (ib_books b)"
    and others: "\<forall>i < length (ib_books b). i \<noteq> unat sid \<longrightarrow> top_published (ib_books b ! i)"
  shows "\<exists>b'. publish_top b sid ts = Some b' \<and> same_env b b' \<and> env_ok b' \<and> books_ok b' \<and>
    (\<forall>i < length (ib_books b). \<forall>bid. side_of (ib_books b' ! i) bid = side_of (ib_books b ! i) bid)"
proof (cases "top_published (ib_books b ! unat sid)")
  case True
  then have "publish_top b sid ts = Some b" using sid by (simp add: publish_top_def Let_def top_published_def)
  moreover have "books_ok b" using inv(2) others True by (auto simp: books_ok_def)
  ultimately show ?thesis using inv(1) by (simp add: same_env_def)
next
  case False
  let ?l = "ib_books b ! unat sid"
  let ?l' = "?l\<lparr>pub_bid := best_price (bids ?l), pub_ask := best_price (asks ?l),
    pub_bid_q := best_qty (bids ?l), pub_ask_q := best_qty (asks ?l)\<rparr>"
  obtain b' where b': "publish_top b sid ts = Some b'" "ib_books b' = (ib_books b)[unat sid := ?l']"
      "ib_board b' = board_on_quote (ib_board b) sid (sint (best_price (bids ?l))) (best_qty (bids ?l))
         (sint (best_price (asks ?l))) (best_qty (asks ?l)) ts" "same_env b b'"
    using False sid by (auto simp: publish_top_def Let_def top_published_def same_env_def)
  have "ib_track b" "length (ib_books b) = length (states (ib_board b))"
    using inv(1) sid by (auto simp: env_ok_def split: if_splits)
  then have sid': "unat sid < length (states (ib_board b))" using sid by simp
  have sides: "side_of ?l' bid = side_of ?l bid" for bid by (simp add: side_of_def)
  have "top_published ?l'" by (simp add: top_published_def)
  moreover have "book_ok b' i" if "i < length (ib_books b)" for i
    using inv(2) that sid by (auto simp: book_ok_def Let_def b'(2,3) board_top_quote [OF sid'] nth_list_update sides shown_def)
  ultimately have "books_ok b'" using others sid by (auto simp: books_ok_def b'(2) nth_list_update)
  moreover have "env_ok b'"
    using inv(1) b'(4) board_inv_on_quote by (simp add: env_ok_def same_env_def b'(3))
  ultimately show ?thesis
    using b' sid by (auto simp: nth_list_update sides)
qed

definition books_ok_but :: "itch_book \<Rightarrow> u32 \<Rightarrow> bool" where
  \<comment> \<open>\<open>books_ok\<close>, except that the best level of \<open>sid\<close> may not be published yet\<close>
  "books_ok_but b sid \<longleftrightarrow>
     (\<forall>i < length (ib_books b). book_ok b i \<and> (i \<noteq> unat sid \<longrightarrow> top_published (ib_books b ! i)))"

lemma books_ok_but: "books_ok b \<Longrightarrow> books_ok_but b sid"
  by (simp add: books_ok_def books_ok_but_def)

lemma ladder_publish:
  assumes inv: "env_ok b" "books_ok_but b sid" and sid: "unat sid < length (ib_books b)"
    and f: "ladder_inv (f (side_of (ib_books b ! unat sid) (side = CHR ''B'')))" "\<And>s. is_bid (f s) = is_bid s"
  shows "\<exists>b'. do { b \<leftarrow> book_side_upd b sid side f; publish_top b sid ts } = Some b' \<and>
    same_env b b' \<and> env_ok b' \<and> books_ok b' \<and>
    (\<forall>i < length (ib_books b). \<forall>bid. side_of (ib_books b' ! i) bid =
      (if i = unat sid \<and> bid = (side = CHR ''B'') then f (side_of (ib_books b ! i) bid) else side_of (ib_books b ! i) bid))"
proof -
  have ok: "\<forall>i < length (ib_books b). book_ok b i" using inv(2) by (simp add: books_ok_but_def)
  obtain b1 where b1: "book_side_upd b sid side f = Some b1" "same_env b b1" "env_ok b1"
      "\<forall>i < length (ib_books b1). book_ok b1 i"
      "\<forall>i < length (ib_books b). \<forall>bid. side_of (ib_books b1 ! i) bid =
        (if i = unat sid \<and> bid = (side = CHR ''B'') then f (side_of (ib_books b ! i) bid) else side_of (ib_books b ! i) bid)"
      "\<forall>i < length (ib_books b). i \<noteq> unat sid \<longrightarrow> ib_books b1 ! i = ib_books b ! i"
    using side_update_ok [where f = f and side = side, OF inv(1) ok sid f] by blast
  have len: "length (ib_books b1) = length (ib_books b)" using b1(2) by (simp add: same_env_def)
  have others: "\<forall>i < length (ib_books b1). i \<noteq> unat sid \<longrightarrow> top_published (ib_books b1 ! i)"
    using inv(2) b1(6) len by (simp add: books_ok_but_def)
  have sid1: "unat sid < length (ib_books b1)" using sid len by simp
  obtain b2 where b2: "publish_top b1 sid ts = Some b2" "same_env b1 b2" "env_ok b2" "books_ok b2"
      "\<forall>i < length (ib_books b1). \<forall>bid. side_of (ib_books b2 ! i) bid = side_of (ib_books b1 ! i) bid"
    using publish_ok [OF b1(3,4) sid1 others] by blast
  have "same_env b b2" using b1(2) b2(2) by (simp add: same_env_def)
  then show ?thesis using b1(1,5) b2 len by simp
qed

subsection \<open>Quantities\<close>

lemma u32_lt: "unat w < 2 ^ 32" for w :: u32
  using unsigned_less [of w, where ?'a = nat] by simp

lemma unat_ucast_u32 [simp]: "unat (ucast w :: u64) = unat w" for w :: u32
proof -
  have "unat w < 2 ^ 64" using u32_lt [of w] by simp
  then show ?thesis by (simp add: unsigned_ucast_eq take_bit_nat_eq_self)
qed

lemma add_no_wrap:
  fixes q :: u64 and w :: u32
  assumes "unat q \<le> n * (2 ^ 32 - 1)" and "n < 2 ^ 32"
  shows "unat (q + ucast w) = unat q + unat w" and "(ucast w :: u64) \<noteq> 0 \<Longrightarrow> q + ucast w \<noteq> 0"
proof -
  have "n * (2 ^ 32 - 1) \<le> (2 ^ 32 - 1) * (2 ^ 32 - 1)" using assms(2) by (intro mult_le_mono1) simp
  then have lt: "unat q + unat w < 2 ^ 64" using assms(1) u32_lt [of w] by simp
  then show eq: "unat (q + ucast w) = unat q + unat w" by (simp add: unat_word_ariths)
  show "q + ucast w \<noteq> 0" if "(ucast w :: u64) \<noteq> 0"
  proof
    assume "q + ucast w = 0"
    then have "unat w = 0" using eq by simp
    then show False using that unat_ucast_u32 [of w] by (metis unat_eq_zero)
  qed
qed

lemma agree_bound:
  assumes "ladders_agree b" and "is_quoted b sid" and "fm_inv (ib_orders b)"
  shows "unat (level_qty (side_of (ib_books b ! unat sid) bid) p) \<le> fm_size (ib_orders b) * (2 ^ 32 - 1)"
  using assms resting_bound [OF assms(3)] by (simp add: ladders_agree_def)

subsection \<open>Frame lemmas\<close>

lemma quoted_frame [simp]:
  "quoted (b\<lparr>ib_st := x\<rparr>) sid = quoted b sid" "quoted (b\<lparr>ib_orders := m\<rparr>) sid = quoted b sid"
  "quoted (b\<lparr>ib_board := bd\<rparr>) sid = quoted b sid" "quoted (b\<lparr>ib_last_sys := c\<rparr>) sid = quoted b sid"
  "quoted (b\<lparr>ib_events := ev\<rparr>) sid = quoted b sid" "quoted (b\<lparr>ib_notified := k\<rparr>) sid = quoted b sid"
  "quoted (b\<lparr>ib_last_state := ls\<rparr>) sid = quoted b sid" "quoted (b\<lparr>ib_l2s := l\<rparr>) sid = quoted b sid"
  by (simp_all add: quoted_def)

lemmas inv_defs = ib_inv_def env_ok_def books_ok_def book_ok_def ladders_agree_def is_quoted_def resting_def

lemma ib_inv_frame [simp]:
  "ib_inv (b\<lparr>ib_st := x\<rparr>) = ib_inv b" "ib_inv (b\<lparr>ib_last_sys := c\<rparr>) = ib_inv b"
  "ib_inv (b\<lparr>ib_events := ev\<rparr>) = ib_inv b" "ib_inv (b\<lparr>ib_notified := k\<rparr>) = ib_inv b"
  "ib_inv (b\<lparr>ib_last_state := ls\<rparr>) = ib_inv b"
  by (simp_all add: inv_defs)

lemma ib_inv_board:
  assumes "ib_inv b" and "board_inv bd" and "length (states bd) = length (states (ib_board b))"
    and "\<And>i. board_top bd i = board_top (ib_board b) i"
  shows "ib_inv (b\<lparr>ib_board := bd\<rparr>)"
  using assms by (simp add: inv_defs)

lemma ib_inv_D: "ib_inv b \<Longrightarrow> env_ok b" "ib_inv b \<Longrightarrow> books_ok b" "ib_inv b \<Longrightarrow> ladders_agree b"
  "ib_inv b \<Longrightarrow> fm_size (ib_orders b) < 2 ^ 32" "ib_inv b \<Longrightarrow> board_inv (ib_board b)" "ib_inv b \<Longrightarrow> fm_inv (ib_orders b)"
  by (simp_all add: ib_inv_def env_ok_def)

lemma count_simps [simp]:
  "ib_inv (count_message b) = ib_inv b" "ib_inv (count_exec b) = ib_inv b" "ib_inv (count_unknown b) = ib_inv b"
  "ib_orders (count_message b) = ib_orders b" "ib_orders (count_exec b) = ib_orders b" "ib_orders (count_unknown b) = ib_orders b"
  "ib_l2s (count_message b) = ib_l2s b" "ib_l2s (count_exec b) = ib_l2s b" "ib_l2s (count_unknown b) = ib_l2s b"
  "ib_symbols (count_message b) = ib_symbols b" "ib_board (count_message b) = ib_board b"
  "ib_books (count_message b) = ib_books b" "is_quoted (count_message b) sid = is_quoted b sid"
  by (simp_all add: count_message_def count_exec_def count_unknown_def is_quoted_def)

lemma print_trade_ok [simp]:
  "ib_inv b \<Longrightarrow> ib_inv (print_trade b loc pr sh ts)"
  "ib_orders (print_trade b loc pr sh ts) = ib_orders b" "ib_l2s (print_trade b loc pr sh ts) = ib_l2s b"
  by (simp_all add: print_trade_def ib_inv_board ib_inv_D board_inv_on_trade)

lemma env_orders:
  "env_ok b \<Longrightarrow> fm_inv m \<Longrightarrow> env_ok (b\<lparr>ib_orders := m\<rparr>)" "books_ok (b\<lparr>ib_orders := m\<rparr>) = books_ok b"
  by (simp_all add: env_ok_def books_ok_def book_ok_def)

lemma unat_inj: "unat a = unat b \<longleftrightarrow> a = b" for a b :: u32
  by (auto dest: unsigned_word_eqI)

text \<open>A ladder operation on the level of one order, published: \<open>R\<close> gives the wanted quantities.\<close>

definition agrees :: "itch_book \<Rightarrow> (u32 \<Rightarrow> bool \<Rightarrow> u32 \<Rightarrow> nat) \<Rightarrow> bool" where
  "agrees b R \<longleftrightarrow> (\<forall>sid bid p. is_quoted b sid \<longrightarrow>
     unat (level_qty (side_of (ib_books b ! unat sid) bid) p) = R sid bid p)"

lemma ladders_agree_agrees: "ladders_agree b = agrees b (resting b)"
  by (simp add: ladders_agree_def agrees_def)

lemma agrees_after:
  assumes "same_env b b'" and q: "is_quoted b sid"
    and sides: "\<forall>i < length (ib_books b). \<forall>bid. side_of (ib_books b' ! i) bid =
      (if i = unat sid \<and> bid = (side = CHR ''B'') then f (side_of (ib_books b ! i) bid) else side_of (ib_books b ! i) bid)"
    and ag: "agrees b R"
    and lq: "\<And>p. unat (level_qty (f (side_of (ib_books b ! unat sid) (side = CHR ''B''))) p) = R' sid (side = CHR ''B'') p"
    and R: "\<And>s bid p. s \<noteq> sid \<or> bid \<noteq> (side = CHR ''B'') \<Longrightarrow> R' s bid p = R s bid p"
  shows "agrees b' R'"
  unfolding agrees_def
proof (intro allI impI)
  fix s' bid p
  assume "is_quoted b' s'"
  then have q': "is_quoted b s'" using same_env_quoted [OF assms(1)] by simp
  then have "unat s' < length (ib_books b)" by (simp add: is_quoted_def)
  then have sd: "side_of (ib_books b' ! unat s') bid = (if s' = sid \<and> bid = (side = CHR ''B'')
      then f (side_of (ib_books b ! unat s') bid) else side_of (ib_books b ! unat s') bid)"
    using sides unat_inj [of s' sid] by simp
  show "unat (level_qty (side_of (ib_books b' ! unat s') bid) p) = R' s' bid p"
  proof (cases "s' = sid \<and> bid = (side = CHR ''B'')")
    case True
    then have "s' = sid" "bid = (side = CHR ''B'')" by blast+
    then show ?thesis unfolding sd using lq [of p] True by simp
  next
    case False
    then have "R' s' bid p = R s' bid p" using R by blast
    then show ?thesis unfolding sd if_not_P [OF False] using ag q' by (simp add: agrees_def)
  qed
qed

lemma agree_step:
  assumes inv: "env_ok b" "books_ok_but b sid" and q: "is_quoted b sid" and ag: "agrees b R"
    and f: "ladder_inv (f (side_of (ib_books b ! unat sid) (side = CHR ''B'')))" "\<And>s. is_bid (f s) = is_bid s"
    and lq: "\<And>p. unat (level_qty (f (side_of (ib_books b ! unat sid) (side = CHR ''B''))) p) = R' sid (side = CHR ''B'') p"
    and R: "\<And>s bid p. s \<noteq> sid \<or> bid \<noteq> (side = CHR ''B'') \<Longrightarrow> R' s bid p = R s bid p"
  shows "\<exists>b'. do { b \<leftarrow> book_side_upd b sid side f; publish_top b sid ts } = Some b' \<and>
    same_env b b' \<and> env_ok b' \<and> books_ok b' \<and> agrees b' R'"
proof -
  have sid: "unat sid < length (ib_books b)" using q by (simp add: is_quoted_def)
  obtain b' where b': "do { b \<leftarrow> book_side_upd b sid side f; publish_top b sid ts } = Some b'"
      "same_env b b'" "env_ok b'" "books_ok b'"
      "\<forall>i < length (ib_books b). \<forall>bid. side_of (ib_books b' ! i) bid =
        (if i = unat sid \<and> bid = (side = CHR ''B'') then f (side_of (ib_books b ! i) bid) else side_of (ib_books b ! i) bid)"
    using ladder_publish [where f = f and side = side, OF inv sid f] by blast
  have "agrees b' R'" by (rule agrees_after [OF b'(2) q b'(5) ag lq R])
  then show ?thesis using b' by blast
qed

lemma agree_step_unpublished:
  assumes inv: "env_ok b" "books_ok b" and q: "is_quoted b sid" and ag: "agrees b R"
    and f: "ladder_inv (f (side_of (ib_books b ! unat sid) (side = CHR ''B'')))" "\<And>s. is_bid (f s) = is_bid s"
    and lq: "\<And>p. unat (level_qty (f (side_of (ib_books b ! unat sid) (side = CHR ''B''))) p) = R' sid (side = CHR ''B'') p"
    and R: "\<And>s bid p. s \<noteq> sid \<or> bid \<noteq> (side = CHR ''B'') \<Longrightarrow> R' s bid p = R s bid p"
  shows "\<exists>b'. book_side_upd b sid side f = Some b' \<and> same_env b b' \<and> env_ok b' \<and> books_ok_but b' sid \<and> agrees b' R'"
proof -
  have sid: "unat sid < length (ib_books b)" using q by (simp add: is_quoted_def)
  have ok: "\<forall>i < length (ib_books b). book_ok b i" using inv(2) by (simp add: books_ok_def)
  obtain b' where b': "book_side_upd b sid side f = Some b'" "same_env b b'" "env_ok b'"
      "\<forall>i < length (ib_books b'). book_ok b' i"
      "\<forall>i < length (ib_books b). \<forall>bid. side_of (ib_books b' ! i) bid =
        (if i = unat sid \<and> bid = (side = CHR ''B'') then f (side_of (ib_books b ! i) bid) else side_of (ib_books b ! i) bid)"
      "\<forall>i < length (ib_books b). i \<noteq> unat sid \<longrightarrow> ib_books b' ! i = ib_books b ! i"
    using side_update_ok [where f = f and side = side, OF inv(1) ok sid f] by blast
  have len: "length (ib_books b') = length (ib_books b)" using b'(2) by (simp add: same_env_def)
  have "books_ok_but b' sid" using b'(4,6) inv(2) len by (simp add: books_ok_but_def books_ok_def)
  moreover have "agrees b' R'" by (rule agrees_after [OF b'(2) q b'(5) ag lq R])
  ultimately show ?thesis using b' by blast
qed

definition bump :: "(u32 \<Rightarrow> bool \<Rightarrow> u32 \<Rightarrow> nat) \<Rightarrow> u32 \<Rightarrow> bool \<Rightarrow> u32 \<Rightarrow> nat \<Rightarrow> u32 \<Rightarrow> bool \<Rightarrow> u32 \<Rightarrow> nat" where
  "bump R sid bid p n = (\<lambda>s b q. R s b q + (if s = sid \<and> b = bid \<and> q = p then n else 0))"

definition drain :: "(u32 \<Rightarrow> bool \<Rightarrow> u32 \<Rightarrow> nat) \<Rightarrow> u32 \<Rightarrow> bool \<Rightarrow> u32 \<Rightarrow> nat \<Rightarrow> u32 \<Rightarrow> bool \<Rightarrow> u32 \<Rightarrow> nat" where
  "drain R sid bid p n = (\<lambda>s b q. R s b q - (if s = sid \<and> b = bid \<and> q = p then n else 0))"

lemma side_ladder_inv: "books_ok_but b s' \<Longrightarrow> is_quoted b sid \<Longrightarrow> ladder_inv (side_of (ib_books b ! unat sid) bid)"
  by (auto simp: books_ok_but_def book_ok_def is_quoted_def Let_def)

lemma add_level:
  \<comment> \<open>adding the shares of an order and publishing\<close>
  fixes sh :: u32
  assumes inv: "env_ok b" "books_ok_but b sid" and q: "is_quoted b sid" and ag: "agrees b R"
    and bound: "R sid (side = CHR ''B'') pr \<le> n * (2 ^ 32 - 1)" "n < 2 ^ 32"
  shows "\<exists>b'. do { b \<leftarrow> book_side_upd b sid side (\<lambda>s. ladder_add s pr (ucast sh)); publish_top b sid ts } = Some b' \<and>
    same_env b b' \<and> env_ok b' \<and> books_ok b' \<and> agrees b' (bump R sid (side = CHR ''B'') pr (unat sh))"
proof (rule agree_step [OF inv q ag])
  let ?s = "side_of (ib_books b ! unat sid) (side = CHR ''B'')"
  have li: "ladder_inv ?s" using inv(2) q by (rule side_ladder_inv)
  have lq: "unat (level_qty ?s p) = R sid (side = CHR ''B'') p" for p using ag q by (simp add: agrees_def)
  note nw = add_no_wrap [of "level_qty ?s pr" n sh, unfolded lq, OF bound]
  have nz: "level_qty ?s pr + ucast sh \<noteq> 0" if "(ucast sh :: u64) \<noteq> 0" using that by (rule nw(2))
  show "ladder_inv (ladder_add ?s pr (ucast sh))" using li nz by (rule level_qty_add(1))
  show "is_bid (ladder_add s pr (ucast sh)) = is_bid s" for s by simp
  show "unat (level_qty (ladder_add ?s pr (ucast sh)) p) = bump R sid (side = CHR ''B'') pr (unat sh) sid (side = CHR ''B'') p" for p
    using level_qty_add(2) [OF li nz, of p] nw(1) lq by (simp add: bump_def)
  show "bump R sid (side = CHR ''B'') pr (unat sh) s bid p = R s bid p" if "s \<noteq> sid \<or> bid \<noteq> (side = CHR ''B'')" for s bid p
    using that by (auto simp: bump_def)
qed

lemma drain_level:
  \<comment> \<open>what removing shares does to a level that holds them\<close>
  fixes tk :: u32
  assumes li: "ladder_inv s" and lq: "\<And>p. unat (level_qty s p) = R sid bid p" and tk: "unat tk \<le> R sid bid pr"
  shows "ladder_inv (ladder_remove s pr (ucast tk))"
    and "unat (level_qty (ladder_remove s pr (ucast tk)) p) = drain R sid bid pr (unat tk) sid bid p"
proof -
  show "ladder_inv (ladder_remove s pr (ucast tk))" by (rule ladder_remove_refines(1) [OF li])
  have le: "(ucast tk :: u64) \<le> level_qty s pr"
    using tk by (simp add: word_le_nat_alt lq)
  then show "unat (level_qty (ladder_remove s pr (ucast tk)) p) = drain R sid bid pr (unat tk) sid bid p"
    using level_qty_remove [OF li le, of p] lq by (simp add: drain_def unat_sub)
qed

subsection \<open>Adding an order\<close>

lemma put_order_ok:
  assumes "ib_inv b" and "ref \<noteq> kEmpty" and "fm_map (ib_orders b) ref = None" and "fm_size (ib_orders b) + 1 < 2 ^ 32"
  shows "\<exists>m. put_order b ref o' = Some (b\<lparr>ib_orders := m\<rparr>) \<and> fm_inv m \<and>
    fm_map m = (fm_map (ib_orders b))(ref \<mapsto> o') \<and> fm_size m = fm_size (ib_orders b) + 1 \<and>
    (\<forall>s bid p. resting (b\<lparr>ib_orders := m\<rparr>) s bid p = resting b s bid p + weight (ib_l2s b) s bid p o')"
proof -
  obtain m p where m: "insert_or_assign order0 (ib_orders b) ref o' = Some (m, p)" "fm_inv m"
      "fm_map m = (fm_map (ib_orders b))(ref \<mapsto> o')"
    using insert_or_assign_ok [OF ib_inv_D(6) [OF assms(1)] assms(2)] by metis
  have "ref \<notin> dom (fm_map (ib_orders b))" using assms(3) by auto
  then have "fm_size m = fm_size (ib_orders b) + 1"
    using fm_size_card [OF m(2)] fm_size_card [OF ib_inv_D(6) [OF assms(1)]] m(3) finite_orders by simp
  moreover have "resting (b\<lparr>ib_orders := m\<rparr>) s bid p = resting b s bid p + weight (ib_l2s b) s bid p o'" for s bid p
    using total_new [OF finite_orders assms(3)] by (simp add: resting_def m(3))
  ultimately show ?thesis using m by (intro exI [of _ m]) (simp add: put_order_def)
qed

lemma weight_self:
  "weight l2s sid bid p \<lparr>o_price = pr, o_shares = sh, o_locate = loc, o_side = side\<rparr> =
    (if l2s loc = sid \<and> (side = CHR ''B'') = bid \<and> pr = p then unat sh else 0)"
  by (simp add: weight_def)

lemma assemble:
  assumes "env_ok b" and "books_ok b" and "agrees b R" and "fm_size (ib_orders b) < 2 ^ 32"
    and "\<And>s bid p. total (fm_map (ib_orders b)) (weight (ib_l2s b) s bid p) = R s bid p"
  shows "ib_inv b"
  using assms by (simp add: ib_inv_def ladders_agree_agrees agrees_def resting_def)

lemma agrees_orders [simp]: "agrees (b\<lparr>ib_orders := m\<rparr>) R = agrees b R"
  by (simp add: agrees_def is_quoted_def)

lemma kInvalid_not_quoted: "env_ok b \<Longrightarrow> \<not> is_quoted b kInvalid"
proof -
  assume "env_ok b"
  then have "length (ib_books b) < 2 ^ 32 - 1" by (auto simp: env_ok_def split: if_splits)
  moreover have "unat kInvalid = 2 ^ 32 - 1"
    by (simp add: kInvalid_def unsigned_minus_1_eq_mask mask_eq_exp_minus_1)
  ultimately show ?thesis by (simp add: is_quoted_def)
qed

definition same_cfg :: "itch_book \<Rightarrow> itch_book \<Rightarrow> bool" where
  "same_cfg b b' \<longleftrightarrow> ib_l2s b' = ib_l2s b \<and> ib_filter b' = ib_filter b \<and> ib_track b' = ib_track b \<and>
     ib_symbols b' = ib_symbols b \<and> length (states (ib_board b')) = length (states (ib_board b))"

lemma on_add_ok:
  assumes inv: "ib_inv b" and new: "ref \<noteq> kEmpty" "fm_map (ib_orders b) ref = None" "fm_size (ib_orders b) + 1 < 2 ^ 32"
  shows "\<exists>b'. on_add b loc ts ref side sh pr = Some b' \<and> ib_inv b' \<and> same_cfg b b' \<and>
    fm_map (ib_orders b') = (if ib_l2s b loc = kInvalid then fm_map (ib_orders b)
      else (fm_map (ib_orders b))(ref \<mapsto> \<lparr>o_price = pr, o_shares = sh, o_locate = loc, o_side = side\<rparr>))"
proof (cases "ib_l2s b loc = kInvalid")
  case True
  then have "on_add b loc ts ref side sh pr = Some (count_message b)" by (simp add: on_add_def Let_def)
  then show ?thesis using True inv by (simp add: same_cfg_def) (simp add: count_message_def)
next
  case False
  let ?o = "\<lparr>o_price = pr, o_shares = sh, o_locate = loc, o_side = side\<rparr>" and ?sid = "ib_l2s b loc"
  define b1 where "b1 = (count_message b)\<lparr>ib_st := (ib_st (count_message b))\<lparr>bs_adds := bs_adds (ib_st (count_message b)) + 1\<rparr>\<rparr>"
  have i1: "ib_inv b1" using inv by (simp add: b1_def)
  have f1: "ib_orders b1 = ib_orders b" "ib_l2s b1 = ib_l2s b" "same_cfg b b1"
    by (simp_all add: b1_def same_cfg_def) (simp_all add: count_message_def)
  obtain m where m: "put_order b1 ref ?o = Some (b1\<lparr>ib_orders := m\<rparr>)" "fm_inv m"
      "fm_map m = (fm_map (ib_orders b))(ref \<mapsto> ?o)" "fm_size m = fm_size (ib_orders b) + 1"
      "\<And>s bid p. resting (b1\<lparr>ib_orders := m\<rparr>) s bid p = resting b1 s bid p + weight (ib_l2s b) s bid p ?o"
    using put_order_ok [OF i1, of ref ?o] new f1 by auto
  define b2 where "b2 = b1\<lparr>ib_orders := m\<rparr>"
  have e2: "env_ok b2" "books_ok b2" using ib_inv_D(1,2) [OF i1] m(2) by (simp_all add: b2_def env_orders)
  have ag2: "agrees b2 (resting b1)"
    using ib_inv_D(3) [OF i1] by (simp add: ladders_agree_agrees agrees_def b2_def is_quoted_def)
  have l2: "ib_l2s b2 = ib_l2s b" "ib_orders b2 = m" by (simp_all add: b2_def f1)
  obtain q where q: "quoted b2 ?sid = Some q" "q = is_quoted b2 ?sid"
    using quoted_total [OF e2(1), of loc ?sid] False l2 by auto
  let ?R = "bump (resting b1) ?sid (side = CHR ''B'') pr (unat sh)"
  have R: "total (fm_map m) (weight (ib_l2s b) s bid p) = ?R s bid p" for s bid p
    using m(5) [of s bid p] by (auto simp: resting_def bump_def weight_self f1)
  have unf: "on_add b loc ts ref side sh pr = (if q
      then do { b \<leftarrow> book_side_upd b2 ?sid side (\<lambda>s. ladder_add s pr (ucast sh)); publish_top b ?sid ts } else Some b2)"
    using False m(1) q(1)
    by (simp add: on_add_def Let_def b1_def [symmetric] b2_def [symmetric])
  have "\<exists>b3. on_add b loc ts ref side sh pr = Some b3 \<and> same_env b2 b3 \<and> env_ok b3 \<and> books_ok b3 \<and> agrees b3 ?R"
  proof (cases q)
    case True
    have "is_quoted b2 ?sid" using True q(2) by simp
    note add_level [OF e2(1) books_ok_but [OF e2(2)] this ag2 resting_bound [OF ib_inv_D(6) [OF i1]] ib_inv_D(4) [OF i1]]
    then show ?thesis using True unf by simp
  next
    case nq: False
    have "agrees b2 ?R" unfolding agrees_def
    proof (intro allI impI)
      fix s' bid p assume q': "is_quoted b2 s'"
      then have "s' \<noteq> ?sid" using nq q(2) by auto
      then show "unat (level_qty (side_of (ib_books b2 ! unat s') bid) p) = ?R s' bid p"
        using ag2 q' by (simp add: agrees_def bump_def)
    qed
    then show ?thesis using unf nq e2 by (simp add: same_env_def)
  qed
  then obtain b3 where b3: "on_add b loc ts ref side sh pr = Some b3" "same_env b2 b3" "env_ok b3" "books_ok b3" "agrees b3 ?R"
    by blast
  have o3: "ib_orders b3 = m" "ib_l2s b3 = ib_l2s b" using b3(2) l2 by (simp_all add: same_env_def)
  have "ib_inv b3"
    by (rule assemble [OF b3(3,4,5)]) (use m(4) new(3) R o3 in simp_all)
  moreover have "same_cfg b b3" using b3(2) f1(3) by (simp add: same_cfg_def same_env_def b2_def)
  ultimately show ?thesis using b3(1) False o3(1) m(3) by simp
qed

subsection \<open>Executing, cancelling and deleting\<close>

definition reduce_spec :: "(u64 \<Rightarrow> order option) \<Rightarrow> u64 \<Rightarrow> u32 \<Rightarrow> (u64 \<Rightarrow> order option)" where
  "reduce_spec M ref sh =
     (case M ref of None \<Rightarrow> M
      | Some o' \<Rightarrow> if sh \<ge> o_shares o' then M(ref := None) else M(ref \<mapsto> o'\<lparr>o_shares := o_shares o' - sh\<rparr>))"

lemma reduce_totals:
  assumes "finite (dom M)" and "M ref = Some o'"
  shows "total (reduce_spec M ref sh) (weight l2s s bid p) =
    drain (\<lambda>s bid p. total M (weight l2s s bid p)) (l2s (o_locate o')) (o_side o' = CHR ''B'') (o_price o')
      (unat (if sh < o_shares o' then sh else o_shares o')) s bid p"
proof -
  let ?w = "weight l2s s bid p"
  have le: "?w o' \<le> total M ?w" using assms by (rule total_member)
  show ?thesis
  proof (cases "sh \<ge> o_shares o'")
    case True
    then have "\<not> sh < o_shares o'" by simp
    then show ?thesis
      using True total_del [OF assms(1), of ref ?w] assms(2) by (auto simp: reduce_spec_def drain_def weight_def)
  next
    case False
    then have lt: "sh < o_shares o'" "unat sh \<le> unat (o_shares o')"
      by (simp_all add: word_less_nat_alt not_le)
    have "?w (o'\<lparr>o_shares := o_shares o' - sh\<rparr>) = ?w o' - (if ?w o' = 0 then 0 else unat sh)"
      using lt by (simp add: weight_def unat_sub less_imp_le [OF lt(1)])
    then show ?thesis
      using False lt total_put [OF assms, of "o'\<lparr>o_shares := o_shares o' - sh\<rparr>" ?w] assms(2) le
      by (auto simp: reduce_spec_def drain_def weight_def)
  qed
qed

lemma reduce_book:
  \<comment> \<open>the ladder part of \<open>reduce\<close>\<close>
  fixes tk :: u32
  assumes inv: "ib_inv b" and o': "fm_map (ib_orders b) ref = Some o'"
    and sid: "sid = ib_l2s b (o_locate o')" and tk: "unat tk \<le> unat (o_shares o')"
  shows "\<exists>b1. (if sid \<noteq> kInvalid then do {
             q \<leftarrow> quoted b sid;
             if q then do {
               b \<leftarrow> book_side_upd b sid (o_side o') (\<lambda>s. ladder_remove s (o_price o') (ucast tk));
               publish_top b sid ts }
             else Some b }
           else Some b) = Some b1 \<and> same_env b b1 \<and> env_ok b1 \<and> books_ok b1 \<and>
    agrees b1 (drain (resting b) sid (o_side o' = CHR ''B'') (o_price o') (unat tk))"
    (is "\<exists>b1. ?prog = Some b1 \<and> _ \<and> _ \<and> _ \<and> agrees b1 ?R")
proof (cases "is_quoted b sid")
  case True
  have ag: "agrees b (resting b)" using ib_inv_D(3) [OF inv] by (simp add: ladders_agree_agrees)
  have lq: "unat (level_qty (side_of (ib_books b ! unat sid) bid) p) = resting b sid bid p" for bid p
    using ag True by (simp add: agrees_def)
  note ok = books_ok_but [OF ib_inv_D(2) [OF inv], of sid]
  have "unat (o_shares o') \<le> resting b sid (o_side o' = CHR ''B'') (o_price o')"
    using total_member [OF finite_orders o', of "weight (ib_l2s b) sid (o_side o' = CHR ''B'') (o_price o')"]
    by (simp add: resting_def weight_def sid)
  then have le: "unat tk \<le> resting b sid (o_side o' = CHR ''B'') (o_price o')" using tk by simp
  note dl = drain_level [where s = "side_of (ib_books b ! unat sid) (o_side o' = CHR ''B'')" and R = "resting b" and sid = sid,
      OF side_ladder_inv [OF ok True] lq le]
  have R: "?R s bid p = resting b s bid p" if "s \<noteq> sid \<or> bid \<noteq> (o_side o' = CHR ''B'')" for s bid p
    using that by (auto simp: drain_def)
  obtain b1 where b1: "do { b \<leftarrow> book_side_upd b sid (o_side o') (\<lambda>s. ladder_remove s (o_price o') (ucast tk));
        publish_top b sid ts } = Some b1" "same_env b b1" "env_ok b1" "books_ok b1" "agrees b1 ?R"
    using agree_step [where f = "\<lambda>s. ladder_remove s (o_price o') (ucast tk)" and side = "o_side o'" and R' = ?R,
        OF ib_inv_D(1) [OF inv] ok True ag dl(1) ladder_side(2) dl(2) R] by blast
  have "sid \<noteq> kInvalid" using True kInvalid_not_quoted [OF ib_inv_D(1) [OF inv]] by auto
  moreover have "quoted b sid = Some True" using True by (simp add: is_quoted_def)
  ultimately show ?thesis using b1 by simp
next
  case False
  have "agrees b ?R" unfolding agrees_def
  proof (intro allI impI)
    fix s' bid p assume q': "is_quoted b s'"
    then have "s' \<noteq> sid" using False by auto
    then show "unat (level_qty (side_of (ib_books b ! unat s') bid) p) = ?R s' bid p"
      using ib_inv_D(3) [OF inv] q' by (simp add: ladders_agree_def drain_def)
  qed
  moreover have "?prog = Some b"
    using quoted_total [OF ib_inv_D(1) [OF inv] sid [symmetric]] False by auto
  ultimately show ?thesis using ib_inv_D(1,2) [OF inv] by (simp add: same_env_def)
qed

lemma reduce_spec_size:
  assumes "fm_inv m" "fm_inv m'" and "fm_map m' = reduce_spec (fm_map m) ref sh"
  shows "fm_size m' \<le> fm_size m"
proof -
  have "dom (reduce_spec (fm_map m) ref sh) \<subseteq> dom (fm_map m)"
    by (auto simp: reduce_spec_def split: option.splits if_splits)
  then show ?thesis
    unfolding fm_size_card [OF assms(1)] fm_size_card [OF assms(2)] assms(3) using finite_orders by (rule card_mono [rotated])
qed

lemma reduce_ok:
  assumes inv: "ib_inv b" and ref: "ref \<noteq> kEmpty"
    and i: "i < length (fm_slots (ib_orders b))" "skey (fm_slots (ib_orders b) ! i) = ref"
    and o': "value_at (ib_orders b) i = o'" "fm_map (ib_orders b) ref = Some o'"
  shows "\<exists>b'. reduce b i ref sh ts = Some b' \<and> ib_inv b' \<and> same_cfg b b' \<and>
    fm_map (ib_orders b') = reduce_spec (fm_map (ib_orders b)) ref sh"
proof -
  let ?tk = "if sh < o_shares o' then sh else o_shares o'" and ?sid = "ib_l2s b (o_locate o')"
  let ?R = "drain (resting b) ?sid (o_side o' = CHR ''B'') (o_price o') (unat ?tk)"
  have "unat ?tk \<le> unat (o_shares o')" by (auto simp: word_less_nat_alt)
  then obtain b1 where b1: "(if ?sid \<noteq> kInvalid then do {
             q \<leftarrow> quoted b ?sid;
             if q then do {
               b \<leftarrow> book_side_upd b ?sid (o_side o') (\<lambda>s. ladder_remove s (o_price o') (ucast ?tk));
               publish_top b ?sid ts }
             else Some b }
           else Some b) = Some b1" "same_env b b1" "env_ok b1" "books_ok b1" "agrees b1 ?R"
    using reduce_book [OF inv o'(2) refl] by metis
  have ob: "ib_orders b1 = ib_orders b" "ib_l2s b1 = ib_l2s b" using b1(2) by (simp_all add: same_env_def)
  have fi: "fm_inv (ib_orders b)" by (rule ib_inv_D(6) [OF inv])
  have "\<exists>m. (if sh \<ge> o_shares o' then erase_order b1 ref
        else Some (b1\<lparr>ib_orders := set_value (ib_orders b1) i (o'\<lparr>o_shares := o_shares o' - sh\<rparr>)\<rparr>)) = Some (b1\<lparr>ib_orders := m\<rparr>) \<and>
      fm_inv m \<and> fm_map m = reduce_spec (fm_map (ib_orders b)) ref sh"
  proof (cases "sh \<ge> o_shares o'")
    case True
    obtain m where "erase (ib_orders b) ref = Some (m, True)" "fm_inv m" "fm_map m = (fm_map (ib_orders b))(ref := None)"
      using erase_ok [OF fi ref] o'(2) by auto
    then show ?thesis using True o'(2) by (intro exI [of _ m]) (simp add: erase_order_def ob reduce_spec_def)
  next
    case False
    let ?m = "set_value (ib_orders b) i (o'\<lparr>o_shares := o_shares o' - sh\<rparr>)"
    show ?thesis
      using False o'(2) set_value_ok [OF fi i ref] by (intro exI [of _ ?m]) (simp add: ob reduce_spec_def)
  qed
  then obtain m where m: "reduce b i ref sh ts = Some (b1\<lparr>ib_orders := m\<rparr>)" "fm_inv m"
      "fm_map m = reduce_spec (fm_map (ib_orders b)) ref sh"
    using b1(1) by (auto simp: reduce_def Let_def o'(1))
  have "ib_inv (b1\<lparr>ib_orders := m\<rparr>)"
  proof (rule assemble [where R = ?R])
    show "env_ok (b1\<lparr>ib_orders := m\<rparr>)" "books_ok (b1\<lparr>ib_orders := m\<rparr>)" "agrees (b1\<lparr>ib_orders := m\<rparr>) ?R"
      using b1(3-5) m(2) by (simp_all add: env_orders)
    show "fm_size (ib_orders (b1\<lparr>ib_orders := m\<rparr>)) < 2 ^ 32"
      using reduce_spec_size [OF fi m(2,3)] ib_inv_D(4) [OF inv] by simp
    show "total (fm_map (ib_orders (b1\<lparr>ib_orders := m\<rparr>))) (weight (ib_l2s (b1\<lparr>ib_orders := m\<rparr>)) s bid p) = ?R s bid p" for s bid p
      using reduce_totals [OF finite_orders o'(2)] by (simp add: m(3) ob resting_def [abs_def])
  qed
  moreover have "same_cfg b (b1\<lparr>ib_orders := m\<rparr>)" using b1(2) by (simp add: same_cfg_def same_env_def)
  ultimately show ?thesis using m by simp
qed

subsection \<open>Replacing an order\<close>

lemma remove_unpublished:
  assumes inv: "ib_inv b" and o': "fm_map (ib_orders b) ref = Some o'"
    and sid: "sid = ib_l2s b (o_locate o')" and q: "is_quoted b sid"
  shows "\<exists>b1. book_side_upd b sid (o_side o') (\<lambda>s. ladder_remove s (o_price o') (ucast (o_shares o'))) = Some b1 \<and>
    same_env b b1 \<and> env_ok b1 \<and> books_ok_but b1 sid \<and>
    agrees b1 (drain (resting b) sid (o_side o' = CHR ''B'') (o_price o') (unat (o_shares o')))"
proof -
  let ?f = "\<lambda>s. ladder_remove s (o_price o') (ucast (o_shares o'))"
  let ?R = "drain (resting b) sid (o_side o' = CHR ''B'') (o_price o') (unat (o_shares o'))"
  have ag: "agrees b (resting b)" using ib_inv_D(3) [OF inv] by (simp add: ladders_agree_agrees)
  have lq: "unat (level_qty (side_of (ib_books b ! unat sid) bid) p) = resting b sid bid p" for bid p
    using ag q by (simp add: agrees_def)
  have le: "unat (o_shares o') \<le> resting b sid (o_side o' = CHR ''B'') (o_price o')"
    using total_member [OF finite_orders o', of "weight (ib_l2s b) sid (o_side o' = CHR ''B'') (o_price o')"]
    by (simp add: resting_def weight_def sid)
  note li = side_ladder_inv [OF books_ok_but [OF ib_inv_D(2) [OF inv], of sid] q]
  note dl = drain_level [where s = "side_of (ib_books b ! unat sid) (o_side o' = CHR ''B'')" and R = "resting b" and sid = sid,
      OF li lq le]
  have R: "?R s bid p = resting b s bid p" if "s \<noteq> sid \<or> bid \<noteq> (o_side o' = CHR ''B'')" for s bid p
    using that by (auto simp: drain_def)
  show ?thesis
    using agree_step_unpublished [where f = ?f and side = "o_side o'" and R' = ?R,
        OF ib_inv_D(1,2) [OF inv] q ag dl(1) ladder_side(2) dl(2) R] by blast
qed

lemma replace_totals:
  assumes "finite (dom M)" and "M old = Some o'" and "M new = None \<or> new = old"
    and "o2 = \<lparr>o_price = pr, o_shares = sh, o_locate = o_locate o', o_side = o_side o'\<rparr>"
  shows "total ((M(old := None))(new \<mapsto> o2)) (weight l2s s bid p) =
    bump (drain (\<lambda>s bid p. total M (weight l2s s bid p)) (l2s (o_locate o')) (o_side o' = CHR ''B'') (o_price o')
      (unat (o_shares o'))) (l2s (o_locate o')) (o_side o' = CHR ''B'') pr (unat sh) s bid p"
proof -
  have "total ((M(old := None))(new \<mapsto> o2)) (weight l2s s bid p) =
      total (M(old := None)) (weight l2s s bid p) + weight l2s s bid p o2"
    by (rule total_new) (use assms in auto)
  also have "total (M(old := None)) (weight l2s s bid p) = total M (weight l2s s bid p) - weight l2s s bid p o'"
    using total_del [OF assms(1), of old] assms(2) by simp
  also have "weight l2s s bid p o' = (if s = l2s (o_locate o') \<and> bid = (o_side o' = CHR ''B'') \<and> p = o_price o'
      then unat (o_shares o') else 0)" by (auto simp: weight_def)
  also have "weight l2s s bid p o2 = (if s = l2s (o_locate o') \<and> bid = (o_side o' = CHR ''B'') \<and> p = pr
      then unat sh else 0)" unfolding assms(4) weight_self by auto
  finally show ?thesis unfolding bump_def drain_def .
qed

lemma erase_put:
  assumes "fm_inv (ib_orders b)" and "old \<noteq> kEmpty" and "new \<noteq> kEmpty"
  shows "\<exists>m. do { b \<leftarrow> erase_order b old; put_order b new o2 } = Some (b\<lparr>ib_orders := m\<rparr>) \<and> fm_inv m \<and>
    fm_map m = (fm_map (ib_orders b))(old := None, new \<mapsto> o2)"
proof -
  obtain m1 r where m1: "erase (ib_orders b) old = Some (m1, r)" "fm_inv m1" "fm_map m1 = (fm_map (ib_orders b))(old := None)"
    using erase_ok [OF assms(1,2)] by auto
  obtain m2 p where m2: "insert_or_assign order0 m1 new o2 = Some (m2, p)" "fm_inv m2" "fm_map m2 = (fm_map m1)(new \<mapsto> o2)"
    using insert_or_assign_ok [OF m1(2) assms(3)] by metis
  show ?thesis using m1 m2 by (intro exI [of _ m2]) (simp add: erase_order_def put_order_def)
qed

lemma replace_size:
  assumes "fm_inv m" "fm_inv m'" and "fm_map m' = (fm_map m)(old := None, new \<mapsto> o2)" and "fm_map m old = Some o'"
  shows "fm_size m' \<le> fm_size m"
proof -
  have "dom (fm_map m') = insert new (dom (fm_map m) - {old})" using assms(3) by (auto split: if_splits)
  then have "fm_size m' \<le> card (dom (fm_map m) - {old}) + 1"
    using fm_size_card [OF assms(2)] finite_orders [of m] by (simp add: card_insert_if)
  moreover have "card (dom (fm_map m) - {old}) + 1 = fm_size m"
    using fm_size_card [OF assms(1)] assms(4) finite_orders [of m] card_Suc_Diff1 [of "dom (fm_map m)" old]
    by (simp add: domI)
  ultimately show ?thesis by simp
qed

lemma on_replace_ok:
  assumes inv: "ib_inv b" and ref: "old \<noteq> kEmpty" "new \<noteq> kEmpty"
    and fresh: "fm_map (ib_orders b) new = None \<or> new = old"
  shows "\<exists>b'. on_replace b ts old new sh pr = Some b' \<and> ib_inv b' \<and> same_cfg b b' \<and>
    fm_map (ib_orders b') = (case fm_map (ib_orders b) old of None \<Rightarrow> fm_map (ib_orders b)
      | Some o' \<Rightarrow> (fm_map (ib_orders b))(old := None,
          new \<mapsto> \<lparr>o_price = pr, o_shares = sh, o_locate = o_locate o', o_side = o_side o'\<rparr>))"
proof (cases "fm_map (ib_orders b) old")
  case None
  have "on_replace b ts old new sh pr = Some (count_message b)"
    using fm_find_absent [OF ib_inv_D(6) [OF inv] ref(1) None] by (simp add: on_replace_def Let_def)
  then show ?thesis using None inv by (simp add: same_cfg_def) (simp add: count_message_def)
next
  case (Some o')
  define b0 where "b0 = count_message b"
  have i0: "ib_inv b0" and f0: "ib_orders b0 = ib_orders b" "ib_l2s b0 = ib_l2s b" and c0: "same_cfg b b0"
    using inv by (simp_all add: b0_def same_cfg_def) (simp_all add: count_message_def)
  obtain i where i: "fm_find (ib_orders b) old = Some (Some i)" "value_at (ib_orders b) i = o'"
    using fm_find_present [OF ib_inv_D(6) [OF inv] Some] by auto
  let ?sid = "ib_l2s b (o_locate o')" and ?side = "o_side o'"
  let ?o2 = "\<lparr>o_price = pr, o_shares = sh, o_locate = o_locate o', o_side = o_side o'\<rparr>"
  let ?R1 = "drain (resting b0) ?sid (?side = CHR ''B'') (o_price o') (unat (o_shares o'))"
  let ?R2 = "bump ?R1 ?sid (?side = CHR ''B'') pr (unat sh)"
  have o0: "fm_map (ib_orders b0) old = Some o'" using Some f0 by simp
  define q where "q = is_quoted b0 ?sid"
  have q: "(if ?sid \<noteq> kInvalid then quoted b0 ?sid else Some False) = Some q"
    using quoted_total [OF ib_inv_D(1) [OF i0], of "o_locate o'" ?sid] kInvalid_not_quoted [OF ib_inv_D(1) [OF i0]] f0
    by (auto simp: q_def)
  have unch: "agrees b0 ?R2" if "\<not> q"
    using ib_inv_D(3) [OF i0] that by (auto simp: ladders_agree_def agrees_def q_def bump_def drain_def)
  obtain b1 where b1: "(if q then book_side_upd b0 ?sid ?side (\<lambda>s. ladder_remove s (o_price o') (ucast (o_shares o'))) else Some b0) = Some b1"
      "same_env b0 b1" "env_ok b1" "books_ok_but b1 ?sid" "q \<longrightarrow> agrees b1 ?R1" "\<not> q \<longrightarrow> b1 = b0"
  proof (cases q)
    case True
    then have qq: "is_quoted b0 ?sid" by (simp add: q_def)
    show thesis using remove_unpublished [OF i0 o0 _ qq] True f0 that by auto
  next
    case False
    show thesis
      by (rule that [of b0]) (use False ib_inv_D(1) [OF i0] books_ok_but [OF ib_inv_D(2) [OF i0]] in \<open>simp_all add: same_env_def\<close>)
  qed
  have f1: "ib_orders b1 = ib_orders b" "ib_l2s b1 = ib_l2s b" using b1(2) f0 by (simp_all add: same_env_def)
  obtain m where m: "do { b \<leftarrow> erase_order b1 old; put_order b new ?o2 } = Some (b1\<lparr>ib_orders := m\<rparr>)" "fm_inv m"
      "fm_map m = (fm_map (ib_orders b))(old := None, new \<mapsto> ?o2)"
    using erase_put [of b1 old new ?o2] ib_inv_D(6) [OF inv] ref f1 by auto
  define b2 where "b2 = b1\<lparr>ib_orders := m\<rparr>"
  have e2: "env_ok b2" "books_ok_but b2 ?sid"
    using b1(3,4) m(2) by (simp_all add: b2_def env_orders) (simp add: books_ok_but_def book_ok_def)
  have q2: "is_quoted b2 ?sid = q" using same_env_quoted [OF b1(2)] by (simp add: q_def b2_def is_quoted_def)
  have unf: "on_replace b ts old new sh pr = (if q then do {
      b \<leftarrow> book_side_upd b2 ?sid ?side (\<lambda>s. ladder_add s pr (ucast sh)); publish_top b ?sid ts } else Some b2)"
  proof -
    obtain x where x: "erase_order b1 old = Some x" "put_order x new ?o2 = Some b2"
      using m(1) by (auto simp: b2_def bind_eq_Some_conv)
    show ?thesis
      unfolding on_replace_def Let_def b0_def [symmetric] f0 i(1) bind.bind_lunit option.case i(2) q b1(1) x ..
  qed
  have "\<exists>b3. on_replace b ts old new sh pr = Some b3 \<and> same_env b2 b3 \<and> env_ok b3 \<and> books_ok b3 \<and> agrees b3 ?R2"
  proof (cases q)
    case True
    have ag: "agrees b2 ?R1" using True b1(5) by (simp add: b2_def)
    have "?R1 ?sid (?side = CHR ''B'') pr \<le> resting b0 ?sid (?side = CHR ''B'') pr" by (simp add: drain_def)
    also have "\<dots> \<le> fm_size (ib_orders b0) * (2 ^ 32 - 1)" by (rule resting_bound [OF ib_inv_D(6) [OF i0]])
    finally show ?thesis
      using add_level [OF e2 _ ag _ ib_inv_D(4) [OF i0]] True q2 unf by auto
  next
    case False
    then have "b1 = b0" using b1(6) by simp
    then have "books_ok b2" using ib_inv_D(2) [OF i0] by (simp add: b2_def env_orders)
    moreover have "agrees b2 ?R2" using unch [OF False] \<open>b1 = b0\<close> by (simp add: b2_def)
    ultimately show ?thesis using False unf e2 by (simp add: same_env_def)
  qed
  then obtain b3 where b3: "on_replace b ts old new sh pr = Some b3" "same_env b2 b3" "env_ok b3" "books_ok b3" "agrees b3 ?R2"
    by blast
  have o3: "ib_orders b3 = m" "ib_l2s b3 = ib_l2s b" using b3(2) f1 by (simp_all add: same_env_def b2_def)
  have "ib_inv b3"
  proof (rule assemble [OF b3(3,4,5)])
    show "fm_size (ib_orders b3) < 2 ^ 32"
      using replace_size [OF ib_inv_D(6) [OF inv] m(2,3) Some] ib_inv_D(4) [OF inv] o3(1) by simp
    show "total (fm_map (ib_orders b3)) (weight (ib_l2s b3) s bid p) = ?R2 s bid p" for s bid p
      unfolding o3 m(3) replace_totals [OF finite_orders Some fresh refl]
      by (simp add: resting_def [abs_def] f0)
  qed
  moreover have "same_cfg b b3" using b3(2) b1(2) c0 by (simp add: same_cfg_def same_env_def b2_def)
  ultimately show ?thesis using b3(1) Some o3(1) m(3) by simp
qed

subsection \<open>Every message\<close>

definition symbols_ok :: "itch_book \<Rightarrow> bool" where
  "symbols_ok b \<longleftrightarrow> st_inv (ib_symbols b) \<and> length (syms (ib_symbols b)) \<le> length (states (ib_board b))"

definition unused_locate :: "itch_book \<Rightarrow> u16 \<Rightarrow> bool" where
  "unused_locate b loc \<longleftrightarrow> (\<forall>o' \<in> ran (fm_map (ib_orders b)). o_locate o' \<noteq> loc)"

fun admissible :: "itch_book \<Rightarrow> itch_call \<Rightarrow> bool" where
  \<comment> \<open>what the ITCH protocol promises: order references are fresh when they enter the book and not
     the reserved all-ones key, and a locate code is not reassigned while orders rest on it\<close>
  "admissible b (OnAdd loc ts ref side sh pr) \<longleftrightarrow>
     ref \<noteq> kEmpty \<and> fm_map (ib_orders b) ref = None \<and> fm_size (ib_orders b) + 1 < 2 ^ 32"
| "admissible b (OnExecuted loc ts ref sh) \<longleftrightarrow> ref \<noteq> kEmpty"
| "admissible b (OnExecutedPrice loc ts ref sh pb pr) \<longleftrightarrow> ref \<noteq> kEmpty"
| "admissible b (OnCancel loc ts ref sh) \<longleftrightarrow> ref \<noteq> kEmpty"
| "admissible b (OnDelete loc ts ref) \<longleftrightarrow> ref \<noteq> kEmpty"
| "admissible b (OnReplace loc ts old new sh pr) \<longleftrightarrow>
     old \<noteq> kEmpty \<and> new \<noteq> kEmpty \<and> (fm_map (ib_orders b) new = None \<or> new = old)"
| "admissible b (OnStockDirectory loc ts key cat fin lot) \<longleftrightarrow>
     key \<noteq> kEmpty \<and> (find_key (ib_symbols b) key = Some (ib_l2s b loc) \<or> unused_locate b loc)"
| "admissible b (OnTradingAction loc ts key st rs) \<longleftrightarrow>
     ib_l2s b loc \<noteq> kInvalid \<or> key \<noteq> kEmpty \<and> unused_locate b loc"
| "admissible b c \<longleftrightarrow> True"

fun orders_spec :: "(u16 \<Rightarrow> u32) \<Rightarrow> itch_call \<Rightarrow> (u64 \<Rightarrow> order option) \<Rightarrow> (u64 \<Rightarrow> order option)" where
  \<comment> \<open>what a message means for the resting orders\<close>
  "orders_spec l2s (OnAdd loc ts ref side sh pr) M =
     (if l2s loc = kInvalid then M
      else M(ref \<mapsto> \<lparr>o_price = pr, o_shares = sh, o_locate = loc, o_side = side\<rparr>))"
| "orders_spec l2s (OnExecuted loc ts ref sh) M = reduce_spec M ref sh"
| "orders_spec l2s (OnExecutedPrice loc ts ref sh pb pr) M = reduce_spec M ref sh"
| "orders_spec l2s (OnCancel loc ts ref sh) M = reduce_spec M ref sh"
| "orders_spec l2s (OnDelete loc ts ref) M = M(ref := None)"
| "orders_spec l2s (OnReplace loc ts old new sh pr) M =
     (case M old of None \<Rightarrow> M
      | Some o' \<Rightarrow> M(old := None, new \<mapsto> \<lparr>o_price = pr, o_shares = sh, o_locate = o_locate o', o_side = o_side o'\<rparr>))"
| "orders_spec l2s c M = M"

lemma reduce_via_find:
  assumes inv: "ib_inv b" "ref \<noteq> kEmpty" and ob: "ib_inv b1" "ib_orders b1 = ib_orders b" "same_cfg b b1"
    and f: "fm_find (ib_orders b) ref = Some (Some i)"
  shows "\<exists>b'. reduce b1 i ref sh ts = Some b' \<and> ib_inv b' \<and> same_cfg b b' \<and>
    fm_map (ib_orders b') = reduce_spec (fm_map (ib_orders b)) ref sh \<and>
    fm_map (ib_orders b) ref = Some (value_at (ib_orders b) i)"
proof -
  have fi: "fm_inv (ib_orders b)" by (rule ib_inv_D(6) [OF inv(1)])
  obtain o' where o': "fm_map (ib_orders b) ref = Some o'"
    using fm_find_absent [OF fi inv(2)] f by (cases "fm_map (ib_orders b) ref") auto
  then have i: "i < length (fm_slots (ib_orders b))" "skey (fm_slots (ib_orders b) ! i) = ref" "value_at (ib_orders b) i = o'"
    using fm_find_present [OF fi o'] f by auto
  obtain b' where "reduce b1 i ref sh ts = Some b'" "ib_inv b'" "same_cfg b1 b'"
      "fm_map (ib_orders b') = reduce_spec (fm_map (ib_orders b)) ref sh"
    using reduce_ok [OF ob(1) inv(2), of i o' sh ts] i o' ob(2) by auto
  moreover have "same_cfg b b'" using \<open>same_cfg b1 b'\<close> ob(3) by (simp add: same_cfg_def)
  ultimately show ?thesis using i(3) o' by simp
qed

lemma find_none:
  assumes "fm_inv m" and "ref \<noteq> kEmpty" and "fm_find m ref = Some None"
  shows "fm_map m ref = None" "reduce_spec (fm_map m) ref sh = fm_map m"
proof -
  show "fm_map m ref = None"
    using fm_find_present [OF assms(1), of ref] assms(3) by (cases "fm_map m ref") auto
  then show "reduce_spec (fm_map m) ref sh = fm_map m" by (simp add: reduce_spec_def)
qed

lemma same_cfg_simps [simp]:
  "same_cfg b (count_message b)" "same_cfg b (count_exec b) = True" "same_cfg b (count_unknown b') = same_cfg b b'"
  "same_cfg b (print_trade b' loc pr sh ts) = same_cfg b b'" "same_cfg b (count_exec b') = same_cfg b b'"
  by (simp_all add: same_cfg_def count_message_def count_exec_def count_unknown_def print_trade_def)

lemma exec_ok:
  assumes inv: "ib_inv b" "ref \<noteq> kEmpty"
  shows "\<exists>b'. on_executed b loc ts ref sh = Some b' \<and> ib_inv b' \<and> same_cfg b b' \<and>
      fm_map (ib_orders b') = reduce_spec (fm_map (ib_orders b)) ref sh"
    and "\<exists>b'. on_executed_price b loc ts ref sh pb pr = Some b' \<and> ib_inv b' \<and> same_cfg b b' \<and>
      fm_map (ib_orders b') = reduce_spec (fm_map (ib_orders b)) ref sh"
    and "\<exists>b'. on_cancel b ts ref sh = Some b' \<and> ib_inv b' \<and> same_cfg b b' \<and>
      fm_map (ib_orders b') = reduce_spec (fm_map (ib_orders b)) ref sh"
    and "\<exists>b'. on_delete b ts ref = Some b' \<and> ib_inv b' \<and> same_cfg b b' \<and>
      fm_map (ib_orders b') = (fm_map (ib_orders b))(ref := None)"
proof -
  have fi: "fm_inv (ib_orders b)" by (rule ib_inv_D(6) [OF inv(1)])
  obtain p where p: "fm_find (ib_orders b) ref = Some p" using find_total [OF fi] by metis
  note red = reduce_via_find [OF inv]
  show "\<exists>b'. on_executed b loc ts ref sh = Some b' \<and> ib_inv b' \<and> same_cfg b b' \<and>
      fm_map (ib_orders b') = reduce_spec (fm_map (ib_orders b)) ref sh"
  proof (cases p)
    case None
    then show ?thesis using p find_none [OF fi inv(2)] inv by (simp add: on_executed_def Let_def)
  next
    case (Some i)
    let ?b = "print_trade (count_exec (count_message b)) loc (o_price (value_at (ib_orders b) i)) sh ts"
    show ?thesis using red [of ?b i sh ts] p Some inv by (auto simp: on_executed_def Let_def)
  qed
  show "\<exists>b'. on_executed_price b loc ts ref sh pb pr = Some b' \<and> ib_inv b' \<and> same_cfg b b' \<and>
      fm_map (ib_orders b') = reduce_spec (fm_map (ib_orders b)) ref sh"
  proof (cases p)
    case None
    then show ?thesis using p find_none [OF fi inv(2)] inv by (simp add: on_executed_price_def Let_def)
  next
    case (Some i)
    let ?b = "if pb then print_trade (count_exec (count_message b)) loc pr sh ts else count_message b"
    show ?thesis using red [of ?b i sh ts] p Some inv by (auto simp: on_executed_price_def Let_def split: if_splits)
  qed
  show "\<exists>b'. on_cancel b ts ref sh = Some b' \<and> ib_inv b' \<and> same_cfg b b' \<and>
      fm_map (ib_orders b') = reduce_spec (fm_map (ib_orders b)) ref sh"
    using p find_none [OF fi inv(2)] red [of "count_message b" _ sh ts] inv
    by (cases p) (auto simp: on_cancel_def Let_def)
  show "\<exists>b'. on_delete b ts ref = Some b' \<and> ib_inv b' \<and> same_cfg b b' \<and>
      fm_map (ib_orders b') = (fm_map (ib_orders b))(ref := None)"
  proof (cases p)
    case None
    then show ?thesis using p find_none [OF fi inv(2)] inv by (simp add: on_delete_def Let_def fun_upd_idem)
  next
    case (Some i)
    show ?thesis
      using red [of "count_message b" i "o_shares (value_at (ib_orders b) i)" ts] p Some inv
      by (auto simp: on_delete_def Let_def reduce_spec_def)
  qed
qed

lemma map_locate_ok:
  assumes inv: "ib_inv b" and sid: "sid = kInvalid \<or> unat sid < length (states (ib_board b))"
    and loc: "ib_l2s b loc = sid \<or> unused_locate b loc"
  shows "ib_inv (map_locate b loc sid)"
proof (cases "ib_l2s b loc = sid")
  case True
  then have "map_locate b loc sid = b" by (simp add: map_locate_def fun_upd_idem)
  then show ?thesis using inv by simp
next
  case False
  let ?b = "map_locate b loc sid"
  have "weight ((ib_l2s b)(loc := sid)) s bid p (the (fm_map (ib_orders b) k)) =
      weight (ib_l2s b) s bid p (the (fm_map (ib_orders b) k))" if "k \<in> dom (fm_map (ib_orders b))" for s bid p k
    using that loc False by (auto simp: weight_def unused_locate_def ran_def)
  then have "resting ?b s bid p = resting b s bid p" for s bid p
    unfolding resting_def total_def by (simp add: map_locate_def)
  then have ag: "ladders_agree ?b"
    using ib_inv_D(3) [OF inv] by (simp add: ladders_agree_def is_quoted_def) (simp add: map_locate_def)
  have "env_ok ?b" using ib_inv_D(1) [OF inv] sid by (auto simp: env_ok_def map_locate_def)
  moreover have "books_ok ?b" using ib_inv_D(2) [OF inv] by (simp add: books_ok_def book_ok_def map_locate_def)
  ultimately show ?thesis using ag ib_inv_D(4) [OF inv] by (simp add: ib_inv_def) (simp add: map_locate_def)
qed

lemma find_key_ok:
  assumes "ib_inv b" and "symbols_ok b" and "key \<noteq> kEmpty"
  shows "\<exists>sid. find_key (ib_symbols b) key = Some sid \<and> (sid = kInvalid \<or> unat sid < length (states (ib_board b)))"
proof -
  have st: "st_inv (ib_symbols b)" "length (syms (ib_symbols b)) \<le> length (states (ib_board b))"
    using assms(2) by (simp_all add: symbols_ok_def)
  then have "find_key (ib_symbols b) key = Some (case fm_map (by_key (ib_symbols b)) key of None \<Rightarrow> kInvalid | Some v \<Rightarrow> v)"
    using find_id_ok [of "by_key (ib_symbols b)" key] assms(3) by (simp add: find_key_def st_inv_def)
  moreover have "unat v < length (states (ib_board b))" if "fm_map (by_key (ib_symbols b)) key = Some v" for v
    using st that by (auto simp: st_inv_def ran_def intro: less_le_trans)
  ultimately show ?thesis by (auto split: option.splits)
qed

lemma push_event_frame [simp]:
  "ib_inv (push_event b ev) = ib_inv b" "ib_orders (push_event b ev) = ib_orders b"
  "ib_symbols (push_event b ev) = ib_symbols b" "ib_board (push_event b ev) = ib_board b"
  by (simp_all add: push_event_def Let_def split: option.splits prod.splits)

lemma map_locate_frame [simp]:
  "ib_orders (map_locate b loc sid) = ib_orders b" "ib_symbols (map_locate b loc sid) = ib_symbols b"
  "ib_board (map_locate b loc sid) = ib_board b" "ib_l2s (map_locate b loc sid) loc = sid"
  by (simp_all add: map_locate_def)

definition keeps :: "itch_book \<Rightarrow> itch_book \<Rightarrow> bool" where
  "keeps b b' \<longleftrightarrow> ib_symbols b' = ib_symbols b \<and> length (states (ib_board b')) = length (states (ib_board b))"

lemma action_ok:
  assumes inv: "ib_inv b" "symbols_ok b" and adm: "admissible b (OnTradingAction loc ts key st rs)"
  shows "\<exists>b'. on_trading_action b loc ts key st rs = Some b' \<and> ib_inv b' \<and> keeps b b' \<and> ib_orders b' = ib_orders b"
proof -
  have "\<exists>b1. (if ib_l2s b loc = kInvalid then map_option (map_locate (count_message b) loc) (find_key (ib_symbols b) key)
      else Some (count_message b)) = Some b1 \<and> ib_inv b1 \<and> keeps b b1 \<and> ib_orders b1 = ib_orders b"
  proof (cases "ib_l2s b loc = kInvalid")
    case True
    then have "key \<noteq> kEmpty" "unused_locate b loc" using adm by simp_all
    then obtain sid where "find_key (ib_symbols b) key = Some sid" "sid = kInvalid \<or> unat sid < length (states (ib_board b))"
      using find_key_ok [OF inv] by metis
    then show ?thesis
      using True inv(1) map_locate_ok [of "count_message b" sid loc] \<open>unused_locate b loc\<close>
      by (auto simp: keeps_def unused_locate_def)
  qed (use inv in \<open>simp add: keeps_def\<close>)
  then obtain b1 where b1: "(if ib_l2s b loc = kInvalid then map_option (map_locate (count_message b) loc) (find_key (ib_symbols b) key)
      else Some (count_message b)) = Some b1" "ib_inv b1" "keeps b b1" "ib_orders b1 = ib_orders b" by blast
  have i2: "ib_inv (b1\<lparr>ib_board := board_on_trading_action (ib_board b1) sid st rs\<rparr>)" for sid
    using b1(2) by (intro ib_inv_board board_inv_on_action) (simp_all add: ib_inv_D)
  have "(if ib_l2s (count_message b) loc = kInvalid
      then map_option (map_locate (count_message b) loc) (find_key (ib_symbols (count_message b)) key)
      else Some (count_message b)) = Some b1" by (simp only: count_simps b1(1))
  then show ?thesis
    unfolding on_trading_action_def Let_def using b1(2-4) i2 by (auto simp: keeps_def)
qed

lemma system_ok:
  assumes "ib_inv b"
  shows "ib_inv (on_system_event b ts cd)" "ib_inv (on_reg_sho b loc a)" "ib_inv (on_trade b loc ts sh pr)"
    "ib_inv (on_cross b loc ts sh64 pr ct)"
proof -
  show "ib_inv (on_system_event b ts cd)" using assms by (simp add: on_system_event_def Let_def)
  show "ib_inv (on_reg_sho b loc a)"
    using assms by (simp add: on_reg_sho_def Let_def ib_inv_board board_inv_on_reg_sho ib_inv_D)
  show "ib_inv (on_trade b loc ts sh pr)" using assms by (simp add: on_trade_def Let_def)
  show "ib_inv (on_cross b loc ts sh64 pr ct)"
    unfolding on_cross_def Let_def
    by (rule ib_inv_board) (use assms in \<open>simp_all add: board_inv_on_cross ib_inv_D\<close>)
qed

lemma system_keeps:
  "keeps b (on_system_event b ts cd)" "keeps b (on_reg_sho b loc a)" "keeps b (on_trade b loc ts sh pr)"
  "keeps b (on_cross b loc ts sh64 pr ct)" "keeps b (count_message b)"
  "ib_orders (on_system_event b ts cd) = ib_orders b" "ib_orders (on_reg_sho b loc a) = ib_orders b"
  "ib_orders (on_trade b loc ts sh pr) = ib_orders b" "ib_orders (on_cross b loc ts sh64 pr ct) = ib_orders b"
  by (simp_all add: keeps_def on_system_event_def on_reg_sho_def on_trade_def on_cross_def Let_def print_trade_def
      count_message_def)

lemma same_cfg_keeps: "same_cfg b b' \<Longrightarrow> keeps b b'"
  by (simp add: same_cfg_def keeps_def)

lemma dispatch_ok:
  assumes inv: "ib_inv b" "symbols_ok b" and adm: "admissible b c"
  shows "\<exists>b'. dispatch b c = Some b' \<and> ib_inv b' \<and> keeps b b' \<and>
    fm_map (ib_orders b') = orders_spec (ib_l2s b) c (fm_map (ib_orders b))"
proof (cases c)
  case (OnStockDirectory loc ts key cat fin lot)
  then obtain sid where s: "find_key (ib_symbols b) key = Some sid" "sid = kInvalid \<or> unat sid < length (states (ib_board b))"
    using find_key_ok [OF inv] adm by auto
  then have "ib_inv (map_locate (count_message b) loc sid)"
    using inv(1) adm OnStockDirectory by (intro map_locate_ok) (auto simp: unused_locate_def)
  then show ?thesis using s(1) OnStockDirectory by (simp add: on_stock_directory_def keeps_def)
next
  case (OnTradingAction loc ts key st rs)
  then show ?thesis using action_ok [OF inv, of loc ts key st rs] adm by auto
next
  case (OnAdd loc ts ref side sh pr)
  then show ?thesis using on_add_ok [OF inv(1), of ref loc ts side sh pr] adm same_cfg_keeps by auto
next
  case (OnReplace loc ts old new sh pr)
  then show ?thesis using on_replace_ok [OF inv(1), of old new ts sh pr] adm same_cfg_keeps by auto
next
  case (OnExecuted loc ts ref sh)
  then show ?thesis using exec_ok(1) [OF inv(1), of ref loc ts sh] adm same_cfg_keeps by auto
next
  case (OnExecutedPrice loc ts ref sh pb pr)
  then show ?thesis using exec_ok(2) [OF inv(1), of ref loc ts sh pb pr] adm same_cfg_keeps by auto
next
  case (OnCancel loc ts ref sh)
  then show ?thesis using exec_ok(3) [OF inv(1), of ref ts sh] adm same_cfg_keeps by auto
next
  case (OnDelete loc ts ref)
  then show ?thesis using exec_ok(4) [OF inv(1), of ref ts] adm same_cfg_keeps by auto
qed (use inv system_ok [OF inv(1)] system_keeps in simp_all)

subsection \<open>The quote the board shows\<close>

definition best_quote :: "bool \<Rightarrow> (u32 \<Rightarrow> nat) \<Rightarrow> int \<times> u32" where
  \<comment> \<open>price and size to show for the quantities resting on one side: highest bid, lowest ask\<close>
  "best_quote bid R =
     (let P = {p. 0 < R p} in
      if P = {} then (0, 0) else let p = (if bid then Max P else Min P) in (sint p, clamp_u32 (of_nat (R p))))"

lemma ladder_map_qty: "ladder_inv s \<Longrightarrow> ladder_map s p = (if level_qty s p = 0 then None else Some (level_qty s p))"
proof -
  assume inv: "ladder_inv s"
  have "q \<noteq> 0" if "ladder_map s p = Some q" for q
    using inv that by (auto simp: ladder_inv_def ladder_map_def dest!: map_of_SomeD)
  then show ?thesis by (auto simp: level_qty_def split: option.splits)
qed

lemma empty_ladder:
  assumes "\<And>p. ladder_map s p = None"
  shows "lv s = []"
proof (rule ccontr)
  assume "lv s \<noteq> []"
  then have "price (hd (lv s)) \<in> price ` set (lv s)" by simp
  then show False using assms [of "price (hd (lv s))"] by (auto simp: ladder_map_lvmap lvmap_None)
qed

lemma ladder_best_quote:
  assumes inv: "ladder_inv s" and R: "\<And>p. unat (level_qty s p) = R p"
  shows "best_quote (is_bid s) R = (sint (best_price s), clamp_u32 (best_qty s))"
proof -
  let ?P = "{p. 0 < R p}"
  have pos: "0 < R p \<longleftrightarrow> ladder_map s p \<noteq> None" for p
    using ladder_map_qty [OF inv, of p] unat_eq_zero [of "level_qty s p"]
    unfolding R [of p] by (cases "level_qty s p = 0") auto
  show ?thesis
  proof (cases "?P = {}")
    case True
    then have "ladder_map s p = None" for p using pos by blast
    then have "lv s = []" by (rule empty_ladder)
    then show ?thesis using True by (simp add: best_quote_def best_price_def best_qty_def clamp_u32_def)
  next
    case False
    then obtain p where "0 < R p" by blast
    then obtain q where q: "ladder_map s p = Some q" using pos by auto
    note best = ladder_best(1) [OF inv q]
    have le: "p' = best_price s \<or> before (is_bid s) p' (best_price s)" if "0 < R p'" for p'
      using ladder_best(2) [OF inv, of p'] pos that by auto
    have fin: "finite ?P" by simp
    have mem: "best_price s \<in> ?P" using best pos by simp
    have "(if is_bid s then Max ?P else Min ?P) = best_price s"
    proof (cases "is_bid s")
      case True
      have "y \<le> best_price s" if "y \<in> ?P" for y using le [of y] that True by (auto simp: before_def)
      then have "Max ?P = best_price s" by (rule Max_eqI [OF fin _ mem])
      then show ?thesis using True by simp
    next
      case nb: False
      have "best_price s \<le> y" if "y \<in> ?P" for y using le [of y] that nb by (auto simp: before_def)
      then have "Min ?P = best_price s" by (rule Min_eqI [OF fin _ mem])
      then show ?thesis using nb by simp
    qed
    moreover have "of_nat (R (best_price s)) = best_qty s"
      using best R [of "best_price s"] by (simp add: level_qty_def flip: R)
    ultimately show ?thesis unfolding best_quote_def Let_def if_not_P [OF False] by simp
  qed
qed

lemma quote_is_best:
  assumes inv: "ib_inv b" and q: "is_quoted b sid"
  shows "board_top (ib_board b) (unat sid) =
    (case (best_quote True (resting b sid True), best_quote False (resting b sid False)) of
       ((bp, bs), (ap, as)) \<Rightarrow> (bp, ap, bs, as))"
proof -
  let ?l = "ib_books b ! unat sid"
  have sid: "unat sid < length (ib_books b)" using q by (simp add: is_quoted_def)
  have bk: "book_ok b (unat sid)" "top_published ?l" using ib_inv_D(2) [OF inv] sid by (simp_all add: books_ok_def)
  have li: "ladder_inv (side_of ?l bid)" "is_bid (side_of ?l bid) = bid" for bid
    using bk(1) by (simp_all add: book_ok_def Let_def)
  have lq: "unat (level_qty (side_of ?l bid) p) = resting b sid bid p" for bid p
    using ib_inv_D(3) [OF inv] q by (simp add: ladders_agree_def)
  have bq: "best_quote bid (resting b sid bid) = (sint (best_price (side_of ?l bid)), clamp_u32 (best_qty (side_of ?l bid)))" for bid
    using ladder_best_quote [OF li(1) lq, of bid] li(2) by simp
  have "board_top (ib_board b) (unat sid) = shown ?l" using bk(1) by (simp add: book_ok_def Let_def)
  also have "\<dots> = (sint (best_price (bids ?l)), sint (best_price (asks ?l)), clamp_u32 (best_qty (bids ?l)), clamp_u32 (best_qty (asks ?l)))"
    using bk(2) by (simp add: shown_def top_published_def)
  finally show ?thesis by (simp add: bq) (simp add: side_of_def)
qed

subsection \<open>A run of the feed\<close>

fun admissible_run :: "itch_book \<Rightarrow> itch_call list \<Rightarrow> bool" where
  "admissible_run b [] \<longleftrightarrow> True"
| "admissible_run b (c # cs) \<longleftrightarrow> admissible b c \<and> (case dispatch b c of None \<Rightarrow> False | Some b' \<Rightarrow> admissible_run b' cs)"

definition run_calls :: "itch_call list \<Rightarrow> itch_book \<Rightarrow> itch_book option" where
  "run_calls cs b = fold_opt dispatch cs b"

lemma run_calls_ok:
  assumes "ib_inv b" and "symbols_ok b" and "admissible_run b cs"
  shows "\<exists>b'. run_calls cs b = Some b' \<and> ib_inv b' \<and> keeps b b'"
  using assms
proof (induction cs arbitrary: b)
  case Nil
  then show ?case by (simp add: run_calls_def keeps_def)
next
  case (Cons c cs)
  then obtain b1 where b1: "dispatch b c = Some b1" "ib_inv b1" "keeps b b1"
    using dispatch_ok [of b c] by auto
  then have "symbols_ok b1" using Cons.prems(2) by (simp add: symbols_ok_def keeps_def)
  then obtain b2 where "run_calls cs b1 = Some b2" "ib_inv b2" "keeps b1 b2"
    using Cons.IH [OF b1(2)] Cons.prems(3) b1(1) by auto
  then show ?case using b1 by (auto simp: run_calls_def keeps_def)
qed

lemma itch_book_new_ok:
  assumes "board_inv bd" and "length (states bd) < 2 ^ 32 - 1"
    and "\<And>i. i < length (states bd) \<Longrightarrow> board_top bd i = (0, 0, 0, 0)"
  shows "\<exists>b. itch_book_new tab bd ev w cap track = Some b \<and> ib_inv b \<and> ib_symbols b = tab \<and> ib_board b = bd \<and>
    ib_l2s b = (\<lambda>_. kInvalid) \<and> fm_map (ib_orders b) = Map.empty \<and> ib_events b = ev"
proof -
  obtain m where m: "flat_map_new order0 cap 0.6 = Some m" "fm_inv m" "fm_map m = Map.empty" "fm_size m = 0"
    using flat_map_new_ok [of "0.6" order0 cap] by auto
  have [simp]: "side_of level_book_new bid = side_ladder_new bid" for bid
    by (simp add: side_of_def level_book_new_def)
  have top: "top_published level_book_new" "shown level_book_new = (0, 0, 0, 0)"
    by (simp_all add: top_published_def level_book_new_def side_ladder_new_def best_price_def best_qty_def shown_def clamp_u32_def)
  have lad: "ladder_inv (side_ladder_new bid)" "is_bid (side_ladder_new bid) = bid" "level_qty (side_ladder_new bid) p = 0" for bid p
    by (simp_all add: ladder_new_ok level_qty_def) (simp add: side_ladder_new_def)
  let ?n = "if track then length (states bd) else 0"
  have nth: "replicate ?n level_book_new ! i = level_book_new" if "i < ?n" for i using that by simp
  show ?thesis
    using assms m top lad nth
    by (simp add: itch_book_new_def inv_defs total_def Let_def split: if_splits)
qed

text \<open>A whole session from a new book: it returns, and what the board shows is the best quote of the
  orders left resting.\<close>

lemma book_session_ok:
  assumes "board_inv bd" and "length (states bd) < 2 ^ 32 - 1"
    and "\<And>i. i < length (states bd) \<Longrightarrow> board_top bd i = (0, 0, 0, 0)"
    and "st_inv tab" and "length (syms tab) \<le> length (states bd)"
    and "itch_book_new tab bd ev w cap track = Some b0" and "admissible_run b0 cs"
  shows "\<exists>b. run_calls cs b0 = Some b \<and> ib_inv b \<and>
    (\<forall>sid. is_quoted b sid \<longrightarrow> board_top (ib_board b) (unat sid) =
      (case (best_quote True (resting b sid True), best_quote False (resting b sid False)) of
         ((bp, bs), (ap, as)) \<Rightarrow> (bp, ap, bs, as)))"
proof -
  have b0: "ib_inv b0" "ib_symbols b0 = tab" "ib_board b0 = bd"
    using itch_book_new_ok [OF assms(1,2,3), of tab ev w cap track] assms(6) by auto
  then have "symbols_ok b0" using assms(4,5) by (simp add: symbols_ok_def)
  then obtain b where "run_calls cs b0 = Some b" "ib_inv b" using run_calls_ok [OF b0(1) _ assms(7)] by blast
  then show ?thesis using quote_is_best by blast
qed

end
