(* ===== verification/Itch_File.thy ===== *)
theory Itch_File
  imports Mold Itch_Book
begin

unbundle bit_operations_syntax

text \<open>
  \<open>ItchFileReader\<close> (\<open>src/market/sources.hpp\<close>, \<open>sources.cpp\<close>), which replays a Nasdaq ITCH file through a
  handler, and \<open>ItchDirectoryCollector\<close> with \<open>add_itch_directory\<close> (\<open>src/market/itch_directory.hpp\<close>).

  zlib is a parameter: \<open>gzread g n\<close> gives the bytes read (none when the C function returns 0 or less) and
  the next state of the stream. What the code relies on is \<open>gz_stream\<close>: the bytes read are the
  next ones of the decompressed contents, never got than asked for, and none only at the end. The
  bytes of \<open>buf_\<close> from 0 to \<open>len_\<close> are a list. Pacing (\<open>speed > 0\<close>) only delays the calls: the model is
  the replay with \<open>speed = 0\<close>.

  The loop \<open>run\<close> is bounded by the file alone, so the model counts messages with a fuel argument;
  \<open>file_run_all\<close> shows that one unit per message of the file, plus one, is enough.
\<close>

subsection \<open>The reader\<close>

record 'g file_reader =
  fr_gz :: 'g
  fr_buf :: "u8 list"
  fr_pos :: nat
  fr_eof :: bool
  fr_messages :: u64
  fr_bad :: u64
  fr_bytes :: u64

definition buf_size :: nat where
  "buf_size = 8388608"

definition file_open :: "'g \<Rightarrow> 'g file_reader" where
  \<comment> \<open>\<open>open\<close>, once \<open>gzopen\<close> has given a stream\<close>
  "file_open g = \<lparr>fr_gz = g, fr_buf = [], fr_pos = 0, fr_eof = False, fr_messages = 0, fr_bad = 0, fr_bytes = 0\<rparr>"

function refill_loop :: "('g \<Rightarrow> nat \<Rightarrow> u8 list \<times> 'g) \<Rightarrow> 'g file_reader \<Rightarrow> 'g file_reader" where
  \<comment> \<open>\<open>while (len_ < buf_.size())\<close>\<close>
  "refill_loop gzread r =
     (if length (fr_buf r) < buf_size then
        case gzread (fr_gz r) (buf_size - length (fr_buf r)) of (xs, g) \<Rightarrow>
          if xs = [] then r\<lparr>fr_gz := g, fr_eof := True\<rparr>
          else refill_loop gzread (r\<lparr>fr_gz := g, fr_buf := fr_buf r @ xs\<rparr>)
      else r)"
  by pat_completeness auto
termination
  by (relation "measure (\<lambda>(_, r). buf_size - length (fr_buf r))") (auto simp: length_greater_0_conv [symmetric] simp del: length_greater_0_conv)

declare refill_loop.simps [simp del]

definition refill :: "('g \<Rightarrow> nat \<Rightarrow> u8 list \<times> 'g) \<Rightarrow> 'g file_reader \<Rightarrow> 'g file_reader \<times> bool" where
  "refill gzread r =
     (if fr_eof r then (r, False)
      else let rem_len = length (fr_buf r) - fr_pos r;
               r = refill_loop gzread (r\<lparr>fr_buf := drop (fr_pos r) (fr_buf r), fr_pos := 0\<rparr>)
           in (r, length (fr_buf r) > rem_len \<or> rem_len \<ge> 2))"

definition avail :: "'g file_reader \<Rightarrow> nat" where
  "avail r = length (fr_buf r) - fr_pos r"

definition need :: "'g file_reader \<Rightarrow> nat" where
  \<comment> \<open>\<open>2u + ((buf_[pos_] << 8) | buf_[pos_ + 1])\<close>\<close>
  "need r = 2 + unat (the (be16 (fr_buf r) (fr_pos r)))"

definition next_message :: "('g \<Rightarrow> nat \<Rightarrow> u8 list \<times> 'g) \<Rightarrow> 'g file_reader \<Rightarrow> ('g file_reader \<times> u8 list option)" where
  \<comment> \<open>the part of the loop of \<open>run\<close> that finds the next message; \<open>None\<close>: \<open>return false\<close>\<close>
  "next_message gzread r =
     (let (r, ok) = (if avail r < 2 \<or> avail r < need r
        then let (r, got) = refill gzread r in
          (r, got \<and> \<not> avail r < 2 \<and> \<not> avail r < need r)
        else (r, True)) in
      if \<not> ok then (r, None)
      else let mlen = need r - 2; msg = take mlen (drop (fr_pos r + 2) (fr_buf r)) in
        (r\<lparr>fr_pos := fr_pos r + (2 + mlen), fr_messages := fr_messages r + 1,
            fr_bytes := fr_bytes r + of_nat (2 + mlen)\<rparr>, Some msg))"

fun file_run ::
    "('g \<Rightarrow> nat \<Rightarrow> u8 list \<times> 'g) \<Rightarrow> ('h \<Rightarrow> itch_call \<Rightarrow> 'h) \<Rightarrow> (u64 \<Rightarrow> bool) \<Rightarrow> nat \<Rightarrow> nat \<Rightarrow> nat \<Rightarrow>
      'g file_reader \<times> 'h \<Rightarrow> ('g file_reader \<times> 'h) option \<times> bool" where
  \<comment> \<open>\<open>run(h, stop, 0.0, max_messages)\<close> with \<open>n\<close> messages done; \<open>stop c\<close>: the flag is set when \<open>c\<close> messages were read.
      The result pairs the state (\<open>None\<close> when the fuel runs out) with the value returned\<close>
  "file_run gzread cb stop 0 mx n st = (None, False)"
| "file_run gzread cb stop (Suc fuel) mx n (r, h) =
     (case next_message gzread r of
        (r, None) \<Rightarrow> (Some (r, h), False)
      | (r, Some msg) \<Rightarrow>
          let (r, h) = (case decode msg of Some (Call c) \<Rightarrow> (r, cb h c) | Some Unused \<Rightarrow> (r, h)
                        | _ \<Rightarrow> (r\<lparr>fr_bad := fr_bad r + 1\<rparr>, h));
              n' = (if mx = 0 then n else n + 1) in
          if mx \<noteq> 0 \<and> n' \<ge> mx then (Some (r, h), True)
          else if fr_messages r AND 0xFFFF = 0 \<and> stop (fr_messages r) then (Some (r, h), True)
          else file_run gzread cb stop fuel mx n' (r, h))"

subsection \<open>The stock directory\<close>

record directory_collector =
  dc_symbols :: symbol_table
  dc_seen :: u64
  dc_added :: nat
  dc_done :: bool

fun le_chars :: "nat \<Rightarrow> u64 \<Rightarrow> string" where
  \<comment> \<open>\<open>memcpy(sym, &key, 8)\<close> on a little-endian machine\<close>
  "le_chars 0 k = []"
| "le_chars (Suc n) k = char_of_byte (ucast k) # le_chars n (drop_bit 8 k)"

definition directory_exchange :: "char \<Rightarrow> exchange" where
  "directory_exchange cat =
     (if cat = CHR ''Q'' then NasdaqGS else if cat = CHR ''G'' then NasdaqGM else if cat = CHR ''S'' then NasdaqCM
      else if cat = CHR ''N'' then NYSE else if cat = CHR ''A'' then NYSEAmerican else if cat = CHR ''P'' then NYSEArca
      else if cat = CHR ''Z'' then CboeBZX else if cat = CHR ''V'' then IEX else XUnknown)"

definition directory_ticker :: "u64 \<Rightarrow> string" where
  \<comment> \<open>trailing spaces cut; the C string ends at the first NUL\<close>
  "directory_ticker key =
     takeWhile (\<lambda>c. c \<noteq> CHR 0x00) (rev (dropWhile (\<lambda>c. c = CHR '' '') (rev (le_chars 8 key))))"

definition dc_on_stock_directory ::
    "directory_collector \<Rightarrow> u64 \<Rightarrow> char \<Rightarrow> char \<Rightarrow> u32 \<Rightarrow> directory_collector option" where
  "dc_on_stock_directory d key cat fin lot = do {
     let d = d\<lparr>dc_seen := dc_seen d + 1\<rparr>;
     sid \<leftarrow> find_key (dc_symbols d) key;
     if sid \<noteq> kInvalid then Some d
     else do {
       (t, _) \<leftarrow> add (dc_symbols d) (symbol_info0\<lparr>ticker := directory_ticker key, si_key := key,
         si_exchange := directory_exchange cat, financial_status := (if fin = CHR '' '' then CHR ''N'' else fin),
         round_lot := lot\<rparr>);
       Some (d\<lparr>dc_symbols := t, dc_added := dc_added d + 1\<rparr>) } }"

fun dc_handler :: "directory_collector \<Rightarrow> itch_call \<Rightarrow> directory_collector option" where
  "dc_handler d (OnStockDirectory _ _ key cat fin lot) = dc_on_stock_directory d key cat fin lot"
| "dc_handler d (OnAdd _ _ _ _ _ _) = Some (d\<lparr>dc_done := True\<rparr>)"
| "dc_handler d (OnTrade _ _ _ _ _ _) = Some (d\<lparr>dc_done := True\<rparr>)"
| "dc_handler d _ = Some d"

definition lift_handler :: "('h \<Rightarrow> itch_call \<Rightarrow> 'h option) \<Rightarrow> 'h option \<Rightarrow> itch_call \<Rightarrow> 'h option" where
  \<comment> \<open>a handler that may fail, as one whose state is \<open>None\<close> from the failure on\<close>
  "lift_handler f h c = h \<bind> (\<lambda>x. f x c)"

lemma lift_handler_simps [simp]: "lift_handler f (Some x) c = f x c" "lift_handler f None c = None"
  by (simp_all add: lift_handler_def)

fun directory_loop ::
    "('g \<Rightarrow> nat \<Rightarrow> u8 list \<times> 'g) \<Rightarrow> nat \<Rightarrow> nat \<Rightarrow> 'g file_reader \<times> directory_collector \<Rightarrow> directory_collector option" where
  \<comment> \<open>\<open>while (!dc.done && r.run(dc, stop, 0.0, 4096))\<close>\<close>
  "directory_loop gzread 0 fuel st = None"
| "directory_loop gzread (Suc rounds) fuel (r, d) =
     (if dc_done d then Some d
      else case file_run gzread (lift_handler dc_handler) (\<lambda>_. False) fuel 4096 0 (r, Some d) of
        (Some (r, Some d), True) \<Rightarrow> directory_loop gzread rounds fuel (r, d)
      | (Some (r, Some d), False) \<Rightarrow> Some d
      | _ \<Rightarrow> None)"

definition add_itch_directory ::
    "('g \<Rightarrow> nat \<Rightarrow> u8 list \<times> 'g) \<Rightarrow> nat \<Rightarrow> 'g \<Rightarrow> symbol_table \<Rightarrow> (symbol_table \<times> nat) option" where
  \<comment> \<open>on an opened file; \<open>fuel\<close> bounds the number of messages\<close>
  "add_itch_directory gzread fuel g t =
     map_option (\<lambda>d. (dc_symbols d, dc_added d))
       (directory_loop gzread fuel fuel (file_open g, \<lparr>dc_symbols = t, dc_seen = 0, dc_added = 0, dc_done = False\<rparr>))"

subsection \<open>What the code relies on of zlib\<close>

definition gz_stream :: "('g \<Rightarrow> nat \<Rightarrow> u8 list \<times> 'g) \<Rightarrow> ('g \<Rightarrow> u8 list) \<Rightarrow> bool" where
  "gz_stream gzread content \<longleftrightarrow> (\<forall>g n. case gzread g n of (xs, g') \<Rightarrow>
     content g = xs @ content g' \<and> length xs \<le> n \<and> (xs = [] \<longrightarrow> n = 0 \<or> content g = []))"

definition rest_of :: "('g \<Rightarrow> u8 list) \<Rightarrow> 'g file_reader \<Rightarrow> u8 list" where
  \<comment> \<open>what is still to be replayed\<close>
  "rest_of content r = drop (fr_pos r) (fr_buf r) @ content (fr_gz r)"

definition fr_inv :: "('g \<Rightarrow> u8 list) \<Rightarrow> 'g file_reader \<Rightarrow> bool" where
  "fr_inv content r \<longleftrightarrow> fr_pos r \<le> length (fr_buf r) \<and> (fr_eof r \<longrightarrow> content (fr_gz r) = [])"

lemma refill_loop_ok:
  assumes gz: "gz_stream gzread content"
  shows "fr_eof r \<longrightarrow> content (fr_gz r) = [] \<Longrightarrow> refill_loop gzread r = r' \<Longrightarrow>
    fr_buf r' @ content (fr_gz r') = fr_buf r @ content (fr_gz r) \<and>
      fr_pos r' = fr_pos r \<and> fr_messages r' = fr_messages r \<and> (fr_eof r' \<longrightarrow> content (fr_gz r') = []) \<and>
      (buf_size \<le> length (fr_buf r') \<or> content (fr_gz r') = []) \<and> length (fr_buf r) \<le> length (fr_buf r')"
  using gz
proof (induction gzread r rule: refill_loop.induct)
  case (1 gzread r)
  show ?case
  proof (cases "length (fr_buf r) < buf_size")
    case small: True
    obtain xs g where g: "gzread (fr_gz r) (buf_size - length (fr_buf r)) = (xs, g)" by fastforce
    then have c: "content (fr_gz r) = xs @ content g" "xs = [] \<longrightarrow> content (fr_gz r) = []"
      using 1(4) small unfolding gz_stream_def by (auto dest!: spec [of _ "fr_gz r"] spec [of _ "buf_size - length (fr_buf r)"])
    show ?thesis
    proof (cases "xs = []")
      case True
      then show ?thesis using 1(3) small g c refill_loop.simps [of gzread r] by auto
    next
      case False
      let ?r = "r\<lparr>fr_gz := g, fr_buf := fr_buf r @ xs\<rparr>"
      have e: "refill_loop gzread ?r = r'" using 1(3) small g False refill_loop.simps [of gzread r] by simp
      have "fr_eof ?r \<longrightarrow> content (fr_gz ?r) = []" using 1(2) c by auto
      from 1(1) [OF small g [symmetric] False this e 1(4)] show ?thesis using c by auto
    qed
  next
    case False
    then show ?thesis using 1(2,3) refill_loop.simps [of gzread r] by auto
  qed
qed

lemma refill_ok:
  assumes gz: "gz_stream gzread content" and inv: "fr_inv content r" and r': "refill gzread r = (r', got)"
  shows "fr_inv content r'" "rest_of content r' = rest_of content r" "fr_messages r' = fr_messages r"
    "\<not> fr_eof r \<Longrightarrow> fr_pos r' = 0" "buf_size \<le> avail r' \<or> avail r' = length (rest_of content r)"
    "got \<longleftrightarrow> \<not> fr_eof r \<and> (avail r' > avail r \<or> 2 \<le> avail r)"
proof -
  have "fr_inv content r' \<and> rest_of content r' = rest_of content r \<and> fr_messages r' = fr_messages r \<and>
    (\<not> fr_eof r \<longrightarrow> fr_pos r' = 0) \<and> (buf_size \<le> avail r' \<or> avail r' = length (rest_of content r)) \<and>
    (got \<longleftrightarrow> \<not> fr_eof r \<and> (avail r' > avail r \<or> 2 \<le> avail r))"
  proof (cases "fr_eof r")
    case True
    then show ?thesis using r' inv by (auto simp: refill_def rest_of_def avail_def fr_inv_def)
  next
    case False
    let ?r = "r\<lparr>fr_buf := drop (fr_pos r) (fr_buf r), fr_pos := 0\<rparr>"
    have e: "refill_loop gzread ?r = r'" "got \<longleftrightarrow> length (fr_buf r') > avail r \<or> 2 \<le> avail r"
      using r' False by (auto simp: refill_def Let_def avail_def)
    from refill_loop_ok [OF gz _ e(1)] False have
      "fr_buf r' @ content (fr_gz r') = drop (fr_pos r) (fr_buf r) @ content (fr_gz r)" "fr_pos r' = 0"
      "fr_messages r' = fr_messages r" "fr_eof r' \<longrightarrow> content (fr_gz r') = []"
      "buf_size \<le> length (fr_buf r') \<or> content (fr_gz r') = []" by auto
    then show ?thesis using False e(2) arg_cong [of "fr_buf r' @ content (fr_gz r')" _ length]
      by (auto simp: fr_inv_def rest_of_def avail_def)
  qed
  then show "fr_inv content r'" "rest_of content r' = rest_of content r" "fr_messages r' = fr_messages r"
    "\<not> fr_eof r \<Longrightarrow> fr_pos r' = 0" "buf_size \<le> avail r' \<or> avail r' = length (rest_of content r)"
    "got \<longleftrightarrow> \<not> fr_eof r \<and> (avail r' > avail r \<or> 2 \<le> avail r)" by auto
qed

lemma need_frame:
  assumes "rest_of content r = mold_frame x @ ys" and "length x < 2 ^ 16" and "2 \<le> avail r"
  shows "need r = 2 + length x"
proof -
  have p: "fr_pos r + 2 \<le> length (fr_buf r)" using assms(3) by (simp add: avail_def)
  have "take 2 (drop (fr_pos r) (fr_buf r)) = take 2 (rest_of content r)" using p by (simp add: rest_of_def)
  also have "\<dots> = be_bytes 2 (of_nat (length x) :: u16)" by (simp add: assms(1) mold_frame_def)
  finally show ?thesis using p assms(2) by (simp add: need_def be16_def rd_bytes_def be_word_full of_nat_u16)
qed

lemma avail_le_rest: "avail r \<le> length (rest_of content r)"
  by (simp add: avail_def rest_of_def)

lemma next_message_frame:
  assumes gz: "gz_stream gzread content" and inv: "fr_inv content r"
    and rest: "rest_of content r = mold_frame x @ ys" and x: "length x < 2 ^ 16"
  shows "\<exists>r'. next_message gzread r = (r', Some x) \<and> fr_inv content r' \<and> rest_of content r' = ys \<and>
    fr_messages r' = fr_messages r + 1"
proof -
  have "\<exists>r1. (if avail r < 2 \<or> avail r < need r
        then let (r, got) = refill gzread r in (r, got \<and> \<not> avail r < 2 \<and> \<not> avail r < need r)
        else (r, True)) = (r1, True) \<and> fr_inv content r1 \<and> rest_of content r1 = mold_frame x @ ys \<and> 2 + length x \<le> avail r1 \<and>
      fr_messages r1 = fr_messages r"
  proof (cases "avail r < 2 \<or> avail r < need r")
    case False
    then show ?thesis using inv rest need_frame [OF rest x] by auto
  next
    case True
    obtain r1 got where r1: "refill gzread r = (r1, got)" by fastforce
    note ro = refill_ok [OF gz inv r1]
    have len: "length (rest_of content r) \<ge> 2 + length x" by (simp add: rest)
    have big: "2 + length x \<le> avail r1" using ro(5) len x by (auto simp: buf_size_def)
    have n1: "need r1 = 2 + length x" using need_frame [OF _ x, of content r1 ys] ro(2) rest big by simp
    have lt: "avail r < 2 + length x" using True need_frame [OF rest x] by (cases "avail r < 2") auto
    have "\<not> fr_eof r"
    proof
      assume "fr_eof r"
      then have "rest_of content r = drop (fr_pos r) (fr_buf r)" using inv by (simp add: fr_inv_def rest_of_def)
      then show False using len lt by (simp add: avail_def)
    qed
    then have "got" using ro(6) big lt by linarith
    then show ?thesis using True r1 big n1 ro(1,2,3) rest by auto
  qed
  then obtain r1 where r1: "(if avail r < 2 \<or> avail r < need r
        then let (r, got) = refill gzread r in (r, got \<and> \<not> avail r < 2 \<and> \<not> avail r < need r)
        else (r, True)) = (r1, True)" "fr_inv content r1" "rest_of content r1 = mold_frame x @ ys" "2 + length x \<le> avail r1"
        "fr_messages r1 = fr_messages r" by blast
  have n1: "need r1 = 2 + length x" using need_frame [OF r1(3) x] r1(4) by simp
  have p: "fr_pos r1 + 2 + length x \<le> length (fr_buf r1)" using r1(4) by (simp add: avail_def)
  have "mold_frame x = take (2 + length x) (rest_of content r1)" by (simp add: r1(3))
  also have "\<dots> = take (2 + length x) (drop (fr_pos r1) (fr_buf r1))" using p by (simp add: rest_of_def)
  finally have "x = drop 2 (take (2 + length x) (drop (fr_pos r1) (fr_buf r1)))" by (metis append_eq_conv_conj length_be_bytes mold_frame_def)
  then have "take (length x) (drop (fr_pos r1 + 2) (fr_buf r1)) = x" by (simp add: drop_take add.commute)
  moreover have "drop (fr_pos r1 + (2 + length x)) (fr_buf r1) @ content (fr_gz r1) = ys"
    using arg_cong [OF r1(3), of "drop (2 + length x)"] p by (simp add: rest_of_def add.commute add.left_commute)
  ultimately show ?thesis
    using r1(1,2,5) n1 p unfolding next_message_def
    by (intro exI [of _ "r1\<lparr>fr_pos := fr_pos r1 + (2 + length x), fr_messages := fr_messages r1 + 1,
        fr_bytes := fr_bytes r1 + of_nat (2 + length x)\<rparr>"]) (simp add: fr_inv_def rest_of_def, simp add: Let_def)
qed

lemma next_message_end:
  assumes gz: "gz_stream gzread content" and inv: "fr_inv content r" and rest: "length (rest_of content r) < 2"
  shows "\<exists>r'. next_message gzread r = (r', None) \<and> fr_messages r' = fr_messages r"
proof -
  obtain r1 got where r1: "refill gzread r = (r1, got)" by fastforce
  note ro = refill_ok [OF gz inv r1]
  have "avail r < 2" "avail r1 < 2" using avail_le_rest [of r content] avail_le_rest [of r1 content] ro(2) rest by auto
  then show ?thesis using r1 ro(3) by (simp add: next_message_def)
qed

lemma file_run_all:
  assumes gz: "gz_stream gzread content"
  shows "fr_inv content r \<Longrightarrow> rest_of content r = concat (map mold_frame msgs) \<Longrightarrow> \<forall>x \<in> set msgs. length x < 2 ^ 16 \<Longrightarrow>
    length msgs < fuel \<Longrightarrow>
    \<exists>r'. file_run gzread cb (\<lambda>_. False) fuel 0 0 (r, h) = (Some (r', handled cb msgs h), False) \<and>
      fr_messages r' = fr_messages r + of_nat (length msgs)"
proof (induction msgs arbitrary: r h fuel)
  case Nil
  then obtain f where f: "fuel = Suc f" by (cases fuel) auto
  have "length (rest_of content r) < 2" using Nil.prems(2) by simp
  then show ?case using next_message_end [OF gz Nil.prems(1)] unfolding f by auto
next
  case (Cons x xs)
  then obtain f where f: "fuel = Suc f" by (cases fuel) auto
  obtain r1 where r1: "next_message gzread r = (r1, Some x)" "fr_inv content r1" "rest_of content r1 = concat (map mold_frame xs)"
      "fr_messages r1 = fr_messages r + 1"
    using next_message_frame [OF gz Cons.prems(1), of x] Cons.prems(2,3) by auto
  obtain d where d: "decode x = Some d" using decode_total [of x] by blast
  define r2 where "r2 = (if d = Reject then r1\<lparr>fr_bad := fr_bad r1 + 1\<rparr> else r1)"
  have r2: "fr_inv content r2" "rest_of content r2 = concat (map mold_frame xs)" "fr_messages r2 = fr_messages r + 1"
    using r1 by (simp_all add: r2_def fr_inv_def rest_of_def)
  have "file_run gzread cb (\<lambda>_. False) fuel 0 0 (r, h) = file_run gzread cb (\<lambda>_. False) f 0 0 (r2, handle1 cb h x)"
    using r1(1) d by (cases d) (simp_all add: f handle1_def r2_def)
  moreover obtain r' where "file_run gzread cb (\<lambda>_. False) f 0 0 (r2, handle1 cb h x) = (Some (r', handled cb xs (handle1 cb h x)), False)"
      "fr_messages r' = fr_messages r2 + of_nat (length xs)"
    using Cons.IH [OF r2(1,2), of f "handle1 cb h x"] Cons.prems(3,4) f by auto
  ultimately show ?case using r2(3) by (simp add: add.assoc)
qed

subsection \<open>Recording and replaying\<close>

lemma recorder_push_items:
  assumes "spsc_inv (rc_q r)" and "length msg \<le> 63"
  shows "spsc_inv (rc_q (recorder_push r msg)) \<and> q_cap (rc_q (recorder_push r msg)) = q_cap (rc_q r) \<and>
    (length (spsc_items (rc_q r)) < q_cap (rc_q r) \<longrightarrow>
      spsc_items (rc_q (recorder_push r msg)) = spsc_items (rc_q r) @ [\<lparr>rm_len = of_nat (length msg), rm_data = msg\<rparr>] \<and>
      rc_dropped (recorder_push r msg) = rc_dropped r)"
proof -
  let ?m = "\<lparr>rm_len = of_nat (length msg), rm_data = msg\<rparr>"
  obtain q ok where q: "spsc_try_push (rc_q r) ?m = (q, ok)" by fastforce
  have "rc_q (recorder_push r msg) = q" "ok \<Longrightarrow> rc_dropped (recorder_push r msg) = rc_dropped r"
    using q assms(2) by (auto simp: recorder_push_def spsc_try_push_def split: prod.splits option.splits)
  then show ?thesis using spsc.push_items [OF assms(1) q] by auto
qed

lemma recorder_pushes:
  assumes "spsc_inv (rc_q r)" and "\<forall>x \<in> set msgs. length x \<le> 63"
    and "length (spsc_items (rc_q r)) + length msgs \<le> q_cap (rc_q r)"
  shows "let r' = foldl recorder_push r msgs in spsc_inv (rc_q r') \<and> rc_dropped r' = rc_dropped r \<and>
    spsc_items (rc_q r') = spsc_items (rc_q r) @ map (\<lambda>x. \<lparr>rm_len = of_nat (length x), rm_data = x\<rparr>) msgs"
  using assms
proof (induction msgs arbitrary: r)
  case (Cons x xs)
  note p = recorder_push_items [OF Cons.prems(1), of x]
  then show ?case using Cons.IH [of "recorder_push r x"] Cons.prems by (simp add: Let_def)
qed simp

lemma record_bytes_items:
  assumes "spsc_inv (rc_q r)" and "length (spsc_items (rc_q r)) < n"
  shows "snd (record_bytes n r) = concat (map (\<lambda>m. [0, rm_len m] @ take (unat (rm_len m)) (rm_data m)) (spsc_items (rc_q r)))"
  using assms
proof (induction n arbitrary: r)
  case (Suc n)
  obtain q x where q: "spsc_take (rc_q r) = (q, x)" by fastforce
  note t = spsc.take_items [OF Suc.prems(1) q]
  show ?case
  proof (cases "spsc_items (rc_q r)")
    case Nil
    then have "x = None" using t by simp
    then obtain q' where "spsc_front (rc_q r) = (q', None)"
      using q by (auto simp: spsc_take_def split: prod.splits option.splits)
    then show ?thesis using Nil by simp
  next
    case (Cons y ys)
    then have xy: "x = Some y" "spsc_items q = ys" "spsc_inv q" using t by simp_all
    then obtain q' i where f: "spsc_front (rc_q r) = (q', Some i)" "q = spsc_pop q'" "y = q_slots q' ! i"
      using q by (auto simp: spsc_take_def split: prod.splits option.splits)
    have "snd (record_bytes n (r\<lparr>rc_q := q\<rparr>)) = concat (map (\<lambda>m. [0, rm_len m] @ take (unat (rm_len m)) (rm_data m)) ys)"
      using Suc.IH [of "r\<lparr>rc_q := q\<rparr>"] xy Suc.prems(2) Cons by simp
    then show ?thesis using f Cons by (simp add: split_beta Let_def)
  qed
qed simp

lemma short_frame:
  assumes "length x \<le> 63"
  shows "[0, of_nat (length x)] @ take (unat (of_nat (length x) :: u8)) x = mold_frame x"
proof -
  have "unat (of_nat (length x) :: u8) = length x" using assms by (simp add: unat_of_nat take_bit_eq_mod)
  moreover have "be_bytes 2 (of_nat (length x) :: u16) = [0, of_nat (length x)]"
  proof -
    have "drop_bit 8 (of_nat (length x) :: u16) = 0"
      by (rule word_unat_eq_iff [THEN iffD2])
        (use assms in \<open>simp add: drop_bit_eq_div unat_div unat_of_nat take_bit_eq_mod\<close>)
    moreover have "(ucast (of_nat (length x) :: u16) :: u8) = of_nat (length x)"
      using assms by (simp add: unsigned_of_nat take_bit_nat_eq_self)
    ultimately show ?thesis by (simp add: numeral_2_eq_2)
  qed
  ultimately show ?thesis by (simp add: mold_frame_def)
qed

lemma recorded_stream:
  assumes "\<forall>x \<in> set msgs. length x \<le> 63" and "length msgs \<le> 2 ^ 20"
  shows "snd (record_bytes (Suc (length msgs)) (foldl recorder_push itch_recorder_new msgs)) = concat (map mold_frame msgs)"
proof -
  let ?q = "spsc_new \<lparr>rm_len = 0, rm_data = []\<rparr> (2 ^ 20)"
  have rep: "rep ?q 0 0 0 0" by (rule spsc_new_rep) simp
  have q: "spsc_inv ?q" "spsc_items ?q = []"
    unfolding spsc_inv_def items_rep [OF rep] using rep by (blast, simp)
  have cap: "2 ^ 20 \<le> q_cap ?q" using next_pow2_ge [of "2 ^ 20"] by (simp add: spsc_new_def Let_def)
  have n: "rc_q itch_recorder_new = ?q" by (simp add: itch_recorder_new_def)
  have "spsc_inv (rc_q (foldl recorder_push itch_recorder_new msgs)) \<and>
      spsc_items (rc_q (foldl recorder_push itch_recorder_new msgs)) = map (\<lambda>x. \<lparr>rm_len = of_nat (length x), rm_data = x\<rparr>) msgs"
    using recorder_pushes [of itch_recorder_new msgs] q cap assms unfolding n by (simp add: Let_def)
  moreover have "concat (map (\<lambda>x. [0, of_nat (length x)] @ take (unat (of_nat (length x) :: u8)) x) msgs) = concat (map mold_frame msgs)"
    using assms(1) short_frame by (intro arg_cong [of _ _ concat] map_cong) auto
  ultimately show ?thesis using record_bytes_items [of "foldl recorder_push itch_recorder_new msgs" "Suc (length msgs)"]
    by (simp add: comp_def)
qed

end
