(* ===== verification/Http.thy ===== *)
theory Http
  imports Ascii "HOL-Library.Monad_Syntax"
begin

text \<open>
  \<open>src/net/buffer.hpp\<close>, \<open>src/net/url.hpp/.cpp\<close> and \<open>src/net/http.hpp/.cpp\<close>: the growable buffer, URL
  parsing and resolution, request serialisation, and the incremental HTTP/1.1 response parser. zlib's
  inflater is not modelled.

  A \<open>std::string_view\<close> is a string; the view a parser keeps of its input (\<open>in_data_\<close>) is a copy of the
  bytes of the last input fed. The loops of \<open>parse_headers\<close>, \<open>parse_chunked\<close> and \<open>feed\<close> are functions with a
  termination proof.

  The lemmas show that URL results are well formed, that chunked bodies decode to the concatenation of
  their chunks, and that feeding a response in pieces gives what feeding it at once gives.
\<close>

subsection \<open>The buffer\<close>

record buffer =
  bu_data :: string \<comment> \<open>the \<open>size_\<close> bytes in use\<close>
  bu_cap :: nat

definition buffer_new :: buffer where
  "buffer_new = \<lparr>bu_data = [], bu_cap = 0\<rparr>"

function double_until :: "nat \<Rightarrow> nat \<Rightarrow> nat" where
  \<comment> \<open>\<open>while (c < n) c *= 2\<close>\<close>
  "double_until c n = (if c < n \<and> 0 < c then double_until (2 * c) n else c)"
  by pat_completeness auto
termination
  by (relation "measure (\<lambda>(c, n). n - c)") auto

declare double_until.simps [simp del]

definition bu_reserve :: "buffer \<Rightarrow> nat \<Rightarrow> buffer" where
  "bu_reserve b n =
     (if n \<le> bu_cap b then b
      else b\<lparr>bu_cap := double_until (if bu_cap b \<noteq> 0 then bu_cap b else 4096) n\<rparr>)"

definition bu_spare :: "buffer \<Rightarrow> nat" where
  "bu_spare b = bu_cap b - length (bu_data b)"

definition bu_prepare :: "buffer \<Rightarrow> nat \<Rightarrow> buffer" where
  "bu_prepare b n = (if bu_cap b - length (bu_data b) < n then bu_reserve b (length (bu_data b) + n) else b)"

definition bu_commit :: "buffer \<Rightarrow> string \<Rightarrow> buffer" where
  \<comment> \<open>\<open>commit(n)\<close> after \<open>n\<close> bytes were written at the end\<close>
  "bu_commit b xs = b\<lparr>bu_data := bu_data b @ xs\<rparr>"

definition bu_append :: "buffer \<Rightarrow> string \<Rightarrow> buffer" where
  "bu_append b xs = (if xs = [] then b else bu_commit (bu_prepare b (length xs)) xs)"

definition bu_clear :: "buffer \<Rightarrow> buffer" where
  "bu_clear b = b\<lparr>bu_data := []\<rparr>"

definition bu_erase_front :: "buffer \<Rightarrow> nat \<Rightarrow> buffer" where
  "bu_erase_front b n = (if n \<ge> length (bu_data b) then b\<lparr>bu_data := []\<rparr> else b\<lparr>bu_data := drop n (bu_data b)\<rparr>)"

definition bu_inv :: "buffer \<Rightarrow> bool" where
  "bu_inv b \<longleftrightarrow> length (bu_data b) \<le> bu_cap b"

subsection \<open>Searching\<close>

definition find_str :: "string \<Rightarrow> string \<Rightarrow> nat \<Rightarrow> nat option" where
  \<comment> \<open>\<open>s.find(needle, pos)\<close>\<close>
  "find_str s needle pos =
     (if length needle \<le> length s
      then List.find (\<lambda>i. take (length needle) (drop i s) = needle) [pos..<Suc (length s - length needle)]
      else None)"

definition find_first_of :: "string \<Rightarrow> string \<Rightarrow> nat option" where
  "find_first_of s cs = List.find (\<lambda>i. s ! i \<in> set cs) [0..<length s]"

definition rfind_char :: "string \<Rightarrow> char \<Rightarrow> nat option" where
  "rfind_char s c = List.find (\<lambda>i. s ! i = c) (rev [0..<length s])"

subsection \<open>URLs\<close>

record url =
  u_tls :: bool
  u_host :: string
  u_port :: u16
  u_target :: string
  u_host_header :: string

definition url0 :: url where
  "url0 = \<lparr>u_tls = True, u_host = [], u_port = 443, u_target = ''/'', u_host_header = []\<rparr>"

fun to_string :: "nat \<Rightarrow> string" where
  \<comment> \<open>\<open>std::to_string\<close>\<close>
  "to_string n = (if n < 10 then [char_of (48 + n)] else to_string (n div 10) @ [char_of (48 + n mod 10)])"

declare to_string.simps [simp del]

definition url_key :: "url \<Rightarrow> string" where
  "url_key u = u_host u @ '':'' @ to_string (unat (u_port u)) @ (if u_tls u then [] else ''/plain'')"

definition url_target :: "string \<Rightarrow> string" where
  \<comment> \<open>the target of the text after the scheme: from the first \<open>/\<close> or \<open>?\<close>, without a fragment\<close>
  "url_target s =
     (let t = (case find_first_of s ''/?'' of
                 None \<Rightarrow> ''/''
               | Some slash \<Rightarrow> (let t = drop slash s in if t ! 0 = CHR ''?'' then CHR ''/'' # t else t))
      in case find_char t (CHR ''#'') 0 of None \<Rightarrow> t | Some h \<Rightarrow> take h t)"

definition url_authority :: "string \<Rightarrow> string" where
  "url_authority s = (case find_first_of s ''/?'' of None \<Rightarrow> s | Some slash \<Rightarrow> take slash s)"

definition split_port :: "string \<Rightarrow> u16 \<Rightarrow> (string \<times> u16) option" where
  \<comment> \<open>host and port of the authority; \<open>None\<close> when the port is no number from 1 to 65535\<close>
  "split_port authority dflt =
     (case rfind_char authority (CHR '':'') of
        None \<Rightarrow> Some (authority, dflt)
      | Some colon \<Rightarrow>
          if CHR '']'' \<in> set authority then Some (authority, dflt)
          else case parse_int False 0 (2 ^ 32 - 1) (drop (colon + 1) authority) of
            None \<Rightarrow> None
          | Some p \<Rightarrow> if p = 0 \<or> p > 65535 then None else Some (take colon authority, word_of_int p))"

definition parse_url :: "string \<Rightarrow> url option" where
  "parse_url s0 = do {
     let s = trim s0;
     (tls, port, s) \<leftarrow> (if istarts_with s ''https://'' then Some (True, 443, drop 8 s)
        else if istarts_with s ''http://'' then Some (False, 80, drop 7 s) else None);
     let target = url_target s;
     let authority = url_authority s;
     if authority = [] then None
     else if CHR ''@'' \<in> set authority then None
     else do {
       (authority, port) \<leftarrow> split_port authority port;
       let host = to_lower_copy authority;
       let default_port = (tls \<and> port = 443 \<or> \<not> tls \<and> port = 80);
       Some \<lparr>u_tls = tls, u_host = host, u_port = port, u_target = target,
         u_host_header = (if default_port then host else host @ '':'' @ to_string (unat port))\<rparr> } }"

definition base_dir :: "url \<Rightarrow> string" where
  "base_dir u =
     (let dir = (case find_char (u_target u) (CHR ''?'') 0 of None \<Rightarrow> u_target u | Some q \<Rightarrow> take q (u_target u))
      in case rfind_char dir (CHR ''/'') of None \<Rightarrow> ''/'' | Some slash \<Rightarrow> take (slash + 1) dir)"

definition resolve_href :: "url \<Rightarrow> string \<Rightarrow> string" where
  "resolve_href base href0 =
     (let href = trim href0;
          origin = (if u_tls base then ''https://'' else ''http://'') @ u_host_header base in
      if istarts_with href ''http://'' \<or> istarts_with href ''https://'' then href
      else if length href \<ge> 2 \<and> href ! 0 = CHR ''/'' \<and> href ! 1 = CHR ''/''
        then (if u_tls base then ''https:'' else ''http:'') @ href
      else if href \<noteq> [] \<and> href ! 0 = CHR ''/'' then origin @ href
      else origin @ base_dir base @ href)"

subsection \<open>Requests\<close>

record request_spec =
  rs_method :: string
  rs_user_agent :: string
  rs_if_none_match :: string
  rs_if_modified_since :: string
  rs_extra_headers :: string
  rs_content_type :: string
  rs_body :: string
  rs_accept_gzip :: bool

definition request_spec0 :: request_spec where
  "request_spec0 = \<lparr>rs_method = ''GET'', rs_user_agent = [], rs_if_none_match = [], rs_if_modified_since = [],
     rs_extra_headers = [], rs_content_type = [], rs_body = [], rs_accept_gzip = True\<rparr>"

abbreviation crlf :: string where
  "crlf \<equiv> [CHR 0x0D, CHR 0x0A]"

definition header_line :: "buffer \<Rightarrow> string \<Rightarrow> string \<Rightarrow> buffer" where
  \<comment> \<open>the three appends of one header\<close>
  "header_line b name val = bu_append (bu_append (bu_append b name) val) crlf"

definition build_request :: "buffer \<Rightarrow> url \<Rightarrow> request_spec \<Rightarrow> buffer" where
  "build_request out u spec =
     (let b = bu_append out (rs_method spec);
          b = bu_append b '' '';
          b = bu_append b (u_target u);
          b = bu_append b ('' HTTP/1.1'' @ crlf @ ''Host: '');
          b = bu_append b (u_host_header u);
          b = bu_append b crlf;
          b = (if rs_user_agent spec \<noteq> [] then header_line b ''User-Agent: '' (rs_user_agent spec) else b);
          b = bu_append b (''Accept: */*'' @ crlf);
          b = (if rs_accept_gzip spec then bu_append b (''Accept-Encoding: gzip, deflate'' @ crlf) else b);
          b = bu_append b (''Connection: keep-alive'' @ crlf);
          b = (if rs_if_none_match spec \<noteq> [] then header_line b ''If-None-Match: '' (rs_if_none_match spec) else b);
          b = (if rs_if_modified_since spec \<noteq> [] then header_line b ''If-Modified-Since: '' (rs_if_modified_since spec) else b);
          b = bu_append b (rs_extra_headers spec);
          b = (if rs_body spec \<noteq> [] \<or> rs_method spec = ''POST'' \<or> rs_method spec = ''PUT''
               then header_line
                 (if rs_content_type spec \<noteq> [] then header_line b ''Content-Type: '' (rs_content_type spec) else b)
                 ''Content-Length: '' (to_string (length (rs_body spec)))
               else b);
          b = bu_append b crlf
      in bu_append b (rs_body spec))"

subsection \<open>The response parser\<close>

datatype feed_result = NeedMore | Done | Error
datatype phase = PHeaders | PLength | PChunked | PUntilClose | PDone
datatype chunk_state = CSize | CData | CDataCrlf | CTrailer

record response_parser =
  rp_status :: int
  rp_keep_alive :: bool
  rp_keep_alive_timeout_s :: int
  rp_gzip :: bool
  rp_deflate :: bool
  rp_etag :: string
  rp_last_modified :: string
  rp_location :: string
  rp_content_type :: string
  rp_error :: "string option"
  rp_phase :: phase
  rp_head :: bool
  rp_scan :: nat
  rp_body_start :: nat
  rp_content_length :: int
  rp_cs :: chunk_state
  rp_cpos :: nat
  rp_chunk_left :: nat
  rp_dechunked :: string
  rp_use_dechunked :: bool
  rp_in :: "string option"
  rp_body_len :: nat

definition rp_reset :: "bool \<Rightarrow> response_parser" where
  "rp_reset head_request = \<lparr>rp_status = 0, rp_keep_alive = True, rp_keep_alive_timeout_s = -1, rp_gzip = False,
     rp_deflate = False, rp_etag = [], rp_last_modified = [], rp_location = [], rp_content_type = [], rp_error = None,
     rp_phase = PHeaders, rp_head = head_request, rp_scan = 0, rp_body_start = 0, rp_content_length = -1, rp_cs = CSize,
     rp_cpos = 0, rp_chunk_left = 0, rp_dechunked = [], rp_use_dechunked = False, rp_in = None, rp_body_len = 0\<rparr>"

definition rp_body :: "response_parser \<Rightarrow> string" where
  "rp_body p = (if rp_use_dechunked p then rp_dechunked p
     else case rp_in p of None \<Rightarrow> [] | Some d \<Rightarrow> take (rp_body_len p) (drop (rp_body_start p) d))"

definition fail :: "string \<Rightarrow> response_parser \<Rightarrow> response_parser" where
  "fail e p = p\<lparr>rp_error := Some e\<rparr>"

lemma find_upt_Some:
  "List.find P [a..<b] = Some e \<longleftrightarrow> a \<le> e \<and> e < b \<and> P e \<and> (\<forall>i. a \<le> i \<and> i < e \<longrightarrow> \<not> P i)"
proof -
  have "(\<exists>i < b - a. P (a + i) \<and> e = a + i \<and> (\<forall>j < i. \<not> P (a + j))) \<longleftrightarrow>
      a \<le> e \<and> e < b \<and> P e \<and> (\<forall>i. a \<le> i \<and> i < e \<longrightarrow> \<not> P i)" (is "?L \<longleftrightarrow> ?R")
  proof
    assume ?L
    then obtain i where i: "i < b - a" "P (a + i)" "e = a + i" "\<forall>j < i. \<not> P (a + j)" by blast
    have "\<not> P k" if "a \<le> k" "k < e" for k using i(4) [rule_format, of "k - a"] that i(3) by simp
    then show ?R using i by simp
  next
    assume R: ?R
    then show ?L by (intro exI [of _ "e - a"]) auto
  qed
  then show ?thesis by (simp add: find_Some_iff less_diff_conv nth_upt cong: conj_cong)
qed

lemma find_str_iff:
  "find_str s n pos = Some e \<longleftrightarrow> pos \<le> e \<and> e + length n \<le> length s \<and> take (length n) (drop e s) = n \<and>
     (\<forall>i. pos \<le> i \<and> i < e \<longrightarrow> take (length n) (drop i s) \<noteq> n)"
  by (auto simp: find_str_def find_upt_Some simp del: upt_Suc)

lemma find_str_Some:
  "find_str s n pos = Some e \<Longrightarrow> pos \<le> e \<and> e + length n \<le> length s \<and> take (length n) (drop e s) = n"
  by (simp add: find_str_iff)

definition set_encoding :: "string \<Rightarrow> response_parser \<Rightarrow> response_parser" where
  "set_encoding v p = (if ifind v ''gzip'' 0 \<noteq> None then p\<lparr>rp_gzip := True\<rparr>
     else if ifind v ''deflate'' 0 \<noteq> None then p\<lparr>rp_deflate := True\<rparr> else p)"

definition set_connection :: "string \<Rightarrow> response_parser \<Rightarrow> response_parser" where
  "set_connection v p = (if ifind v ''close'' 0 \<noteq> None then p\<lparr>rp_keep_alive := False\<rparr>
     else if ifind v ''keep-alive'' 0 \<noteq> None then p\<lparr>rp_keep_alive := True\<rparr> else p)"

definition set_keep_alive_timeout :: "string \<Rightarrow> response_parser \<Rightarrow> response_parser" where
  "set_keep_alive_timeout v p =
     (case ifind v ''timeout='' 0 of
        None \<Rightarrow> p
      | Some t \<Rightarrow>
          (case parse_int True (- (2 ^ 31)) (2 ^ 31 - 1) (takeWhile is_digit (drop (t + 8) v)) of
             None \<Rightarrow> p | Some n \<Rightarrow> p\<lparr>rp_keep_alive_timeout_s := n\<rparr>))"

definition apply_header ::
    "string \<Rightarrow> string \<Rightarrow> response_parser \<times> bool \<Rightarrow> response_parser + (response_parser \<times> bool)" where
  \<comment> \<open>the \<open>switch\<close> on the first letter of the name; the flag is \<open>chunked\<close>, \<open>Inl\<close> is \<open>return false\<close>\<close>
  "apply_header name val = (\<lambda>(p, chunked).
     let c = to_lower (if name = [] then CHR '' '' else name ! 0) in
     if c = CHR ''c'' then
       (if iequals name ''content-length'' then
          (case parse_i64 val of
             None \<Rightarrow> Inl (fail ''bad content-length'' p)
           | Some n \<Rightarrow> if n < 0 then Inl (fail ''bad content-length'' p) else Inr (p\<lparr>rp_content_length := n\<rparr>, chunked))
        else if iequals name ''content-encoding'' then Inr (set_encoding val p, chunked)
        else if iequals name ''connection'' then Inr (set_connection val p, chunked)
        else if iequals name ''content-type'' then Inr (p\<lparr>rp_content_type := val\<rparr>, chunked)
        else Inr (p, chunked))
     else if c = CHR ''t'' then
       Inr (p, chunked \<or> iequals name ''transfer-encoding'' \<and> ifind val ''chunked'' 0 \<noteq> None)
     else if c = CHR ''e'' then Inr (if iequals name ''etag'' then p\<lparr>rp_etag := val\<rparr> else p, chunked)
     else if c = CHR ''l'' then
       Inr (if iequals name ''last-modified'' then p\<lparr>rp_last_modified := val\<rparr>
            else if iequals name ''location'' then p\<lparr>rp_location := val\<rparr> else p, chunked)
     else if c = CHR ''k'' then
       Inr (if iequals name ''keep-alive'' then set_keep_alive_timeout val p else p, chunked)
     else Inr (p, chunked))"

function header_loop ::
    "string \<Rightarrow> nat \<Rightarrow> response_parser \<times> bool \<Rightarrow> response_parser + (response_parser \<times> bool)" where
  \<comment> \<open>\<open>while (pos < head.size())\<close>\<close>
  "header_loop head pos st =
     (if pos < length head then
        let e = (case find_str head crlf pos of None \<Rightarrow> length head | Some e \<Rightarrow> e);
            h = take (e - pos) (drop pos head) in
        case find_char h (CHR '':'') 0 of
          None \<Rightarrow> header_loop head (e + 2) st
        | Some colon \<Rightarrow>
            (case apply_header (trim (take colon h)) (trim (drop (colon + 1) h)) st of
               Inl p \<Rightarrow> Inl p
             | Inr st \<Rightarrow> header_loop head (e + 2) st)
      else Inr st)"
  by pat_completeness auto
termination
  by (relation "measure (\<lambda>(head, pos, st). length head - pos)") (auto dest: find_str_Some split: option.splits)

declare header_loop.simps [simp del]

definition enter_phase :: "response_parser \<Rightarrow> bool \<Rightarrow> response_parser" where
  \<comment> \<open>the end of \<open>parse_headers\<close>: how the body is delimited\<close>
  "enter_phase p chunked =
     (let st = rp_status p in
      if rp_head p \<or> st = 204 \<or> st = 304 \<or> (st \<ge> 100 \<and> st < 200) then p\<lparr>rp_phase := PDone\<rparr>
      else if chunked then p\<lparr>rp_phase := PChunked, rp_use_dechunked := True\<rparr>
      else if rp_content_length p \<ge> 0 then p\<lparr>rp_phase := PLength\<rparr>
      else p\<lparr>rp_phase := PUntilClose, rp_keep_alive := False\<rparr>)"

definition parse_headers :: "string \<Rightarrow> response_parser \<Rightarrow> response_parser \<times> bool" where
  "parse_headers head p =
     (let eol = find_str head crlf 0;
          line = (case eol of None \<Rightarrow> head | Some e \<Rightarrow> take e head) in
      if \<not> istarts_with line ''http/1.'' then (fail ''bad status line'' p, False)
      else let http10 = (length line > 7 \<and> line ! 7 = CHR ''0'');
               p = p\<lparr>rp_keep_alive := \<not> http10\<rparr> in
        case find_char line (CHR '' '') 0 of
          None \<Rightarrow> (fail ''bad status line'' p, False)
        | Some sp \<Rightarrow>
            if sp + 4 > length line then (fail ''bad status line'' p, False)
            else case parse_int True (- (2 ^ 31)) (2 ^ 31 - 1) (take 3 (drop (sp + 1) line)) of
              None \<Rightarrow> (fail ''bad status code'' p, False)
            | Some st \<Rightarrow>
                (case header_loop head (case eol of None \<Rightarrow> length head | Some e \<Rightarrow> e + 2) (p\<lparr>rp_status := st\<rparr>, False) of
                   Inl p \<Rightarrow> (p, False)
                 | Inr (p, chunked) \<Rightarrow> (enter_phase p chunked, True)))"

fun hex_size :: "string \<Rightarrow> nat \<Rightarrow> nat option" where
  \<comment> \<open>the digits of a chunk size; at most 12 of them, so \<open>size\<close> does not overflow\<close>
  "hex_size [] n = Some n"
| "hex_size (c # cs) n =
     (if is_digit c then hex_size cs (n * 16 + (code c - 48))
      else if 97 \<le> code c \<and> code c \<le> 102 then hex_size cs (n * 16 + (code c - 97 + 10))
      else if 65 \<le> code c \<and> code c \<le> 70 then hex_size cs (n * 16 + (code c - 65 + 10))
      else None)"

definition chunk_size :: "string \<Rightarrow> nat option" where
  \<comment> \<open>the size on a chunk's first line, its extensions cut off\<close>
  "chunk_size line =
     (let line = trim (case find_char line (CHR '';'') 0 of None \<Rightarrow> line | Some k \<Rightarrow> take k line) in
      if line = [] \<or> length line > 12 then None else hex_size line 0)"

function parse_chunked :: "string \<Rightarrow> response_parser \<Rightarrow> response_parser \<times> feed_result" where
  "parse_chunked s p =
     (case rp_cs p of
        CSize \<Rightarrow>
          (case find_str s crlf (rp_cpos p) of
             None \<Rightarrow> (p, NeedMore)
           | Some e \<Rightarrow>
               (case chunk_size (take (e - rp_cpos p) (drop (rp_cpos p) s)) of
                  None \<Rightarrow> (fail ''bad chunk size'' p, Error)
                | Some n \<Rightarrow>
                    if int n > 536870912 then (fail ''chunk too large'' p, Error)
                    else if n = 0 then parse_chunked s (p\<lparr>rp_cpos := e + 2, rp_cs := CTrailer\<rparr>)
                    else parse_chunked s (p\<lparr>rp_cpos := e + 2, rp_chunk_left := n, rp_cs := CData\<rparr>)))
      | CData \<Rightarrow>
          let av = length s - rp_cpos p;
              tk = (if av < rp_chunk_left p then av else rp_chunk_left p);
              p' = p\<lparr>rp_dechunked := rp_dechunked p @ take tk (drop (rp_cpos p) s), rp_cpos := rp_cpos p + tk,
                     rp_chunk_left := rp_chunk_left p - tk\<rparr> in
          if rp_chunk_left p' > 0 then (p', NeedMore) else parse_chunked s (p'\<lparr>rp_cs := CDataCrlf\<rparr>)
      | CDataCrlf \<Rightarrow>
          if length s - rp_cpos p < 2 then (p, NeedMore)
          else if s ! rp_cpos p \<noteq> CHR 0x0D \<or> s ! (rp_cpos p + 1) \<noteq> CHR 0x0A then (fail ''missing chunk CRLF'' p, Error)
          else parse_chunked s (p\<lparr>rp_cpos := rp_cpos p + 2, rp_cs := CSize\<rparr>)
      | CTrailer \<Rightarrow>
          (case find_str s crlf (rp_cpos p) of
             None \<Rightarrow> (p, NeedMore)
           | Some e \<Rightarrow>
               let empty_line = (e = rp_cpos p); p = p\<lparr>rp_cpos := e + 2\<rparr> in
               if empty_line then (p\<lparr>rp_phase := PDone\<rparr>, Done) else parse_chunked s p))"
  by pat_completeness auto
termination
  by (relation "measures [\<lambda>(s, p). length s - rp_cpos p, \<lambda>(s, p). if rp_cs p = CData then 1 else 0]")
    (auto dest!: find_str_Some)

declare parse_chunked.simps [simp del]

lemma parse_headers_nonempty: "parse_headers head p = (p', True) \<Longrightarrow> head \<noteq> []"
  by (auto simp: parse_headers_def istarts_with_def find_str_def)

lemma header_progress:
  assumes "find_str s (crlf @ crlf) k = Some e" and "(p', True) = parse_headers (take (e + 2 - b) (drop b s)) p"
  shows "length s - (e + 4) < length s - b"
proof -
  have "take (e + 2 - b) (drop b s) \<noteq> []" by (rule parse_headers_nonempty [OF assms(2) [symmetric]])
  then show ?thesis using find_str_Some [OF assms(1)] by auto
qed

definition scan_from :: "response_parser \<Rightarrow> nat" where
  \<comment> \<open>where the search for the blank line resumes\<close>
  "scan_from p = (if rp_scan p > 3 then rp_scan p - 3 else 0)"

function feed_loop :: "string \<Rightarrow> bool \<Rightarrow> response_parser \<Rightarrow> response_parser \<times> feed_result" where
  \<comment> \<open>\<open>for (;;) switch (phase_)\<close>\<close>
  "feed_loop s eof p =
     (case rp_phase p of
        PHeaders \<Rightarrow>
          (case find_str s (crlf @ crlf) (scan_from p) of
             None \<Rightarrow>
               let p = p\<lparr>rp_scan := length s\<rparr> in
               if int (length s) > 1048576 then (fail ''headers too large'' p, Error)
               else if eof then (fail ''eof in headers'' p, Error)
               else (p, NeedMore)
           | Some e \<Rightarrow>
               (case parse_headers (take (e + 2 - rp_body_start p) (drop (rp_body_start p) s)) p of
                  (p', False) \<Rightarrow> (p', Error)
                | (p', True) \<Rightarrow>
                    if rp_status p' \<ge> 100 \<and> rp_status p' < 200 \<and> rp_status p' \<noteq> 101
                    then feed_loop s eof (p'\<lparr>rp_body_start := e + 4, rp_phase := PHeaders, rp_scan := e + 4\<rparr>)
                    else feed_loop s eof (p'\<lparr>rp_body_start := e + 4, rp_cpos := e + 4\<rparr>)))
      | PLength \<Rightarrow>
          if length s - rp_body_start p < nat (rp_content_length p) then
            (if eof then (fail ''eof before content-length satisfied'' p, Error) else (p, NeedMore))
          else (p\<lparr>rp_body_len := nat (rp_content_length p), rp_phase := PDone\<rparr>, Done)
      | PChunked \<Rightarrow>
          (case parse_chunked s p of
             (p, r) \<Rightarrow> if r = NeedMore \<and> eof then (fail ''eof inside chunked body'' p, Error) else (p, r))
      | PUntilClose \<Rightarrow>
          if \<not> eof then (p, NeedMore)
          else (p\<lparr>rp_body_len := length s - rp_body_start p, rp_phase := PDone\<rparr>, Done)
      | PDone \<Rightarrow> (p, Done))"
  by pat_completeness auto
termination
  by (relation "measure (\<lambda>(s, eof, p). length s - rp_body_start p)") (simp_all add: header_progress)

declare feed_loop.simps [simp del]

definition rp_feed :: "string \<Rightarrow> bool \<Rightarrow> response_parser \<Rightarrow> response_parser \<times> feed_result" where
  "rp_feed s eof p = feed_loop s eof (p\<lparr>rp_in := Some s\<rparr>)"

subsection \<open>Searching in growing input\<close>

lemma take_drop_append: "i + n \<le> length s \<Longrightarrow> take n (drop i (s @ t)) = take n (drop i s)"
  by simp

lemma find_str_append: "find_str s n pos = Some e \<Longrightarrow> find_str (s @ t) n pos = Some e"
proof -
  assume f: "find_str s n pos = Some e"
  then have "take (length n) (drop i (s @ t)) = take (length n) (drop i s)" if "i \<le> e" for i
    using that by (intro take_drop_append) (auto simp: find_str_iff)
  then show ?thesis using f by (auto simp: find_str_iff)
qed

lemma find_str_None: "find_str s n pos = None \<longleftrightarrow> (\<forall>i. pos \<le> i \<and> i + length n \<le> length s \<longrightarrow> take (length n) (drop i s) \<noteq> n)"
  by (auto simp: find_str_def find_None_iff simp del: upt_Suc)

lemma find_str_resume:
  assumes "find_str s n pos = None" and "pos \<le> k" and "k + length n \<le> length s + 1"
  shows "find_str (s @ t) n pos = find_str (s @ t) n k"
proof -
  have no: "take (length n) (drop i (s @ t)) \<noteq> n" if "pos \<le> i" "i < k" for i
  proof -
    have "take (length n) (drop i (s @ t)) = take (length n) (drop i s)" using that assms(3) by (intro take_drop_append) simp
    then show ?thesis using that assms by (auto simp: find_str_None)
  qed
  have le: "k \<le> i" if "pos \<le> i" "take (length n) (drop i (s @ t)) = n" for i using no that by (meson not_le)
  show ?thesis
  proof (cases "find_str (s @ t) n k")
    case None
    then have "find_str (s @ t) n pos = None" unfolding find_str_None using le by blast
    then show ?thesis using None by simp
  next
    case (Some e)
    then have e: "k \<le> e" "e + length n \<le> length (s @ t)" "take (length n) (drop e (s @ t)) = n"
        "\<forall>i. k \<le> i \<and> i < e \<longrightarrow> take (length n) (drop i (s @ t)) \<noteq> n" unfolding find_str_iff by blast+
    have "\<forall>i. pos \<le> i \<and> i < e \<longrightarrow> take (length n) (drop i (s @ t)) \<noteq> n" using e(4) le by blast
    then have "find_str (s @ t) n pos = Some e" unfolding find_str_iff using e(1-3) assms(2) le_trans by blast
    then show ?thesis using Some by simp
  qed
qed

lemma crlf_at: "take (length crlf) (drop i u) = crlf \<Longrightarrow> u ! i = CHR 0x0D"
  by (cases "i < length u") (auto simp: Cons_nth_drop_Suc [symmetric])

lemma find_crlf_line:
  assumes "CHR 0x0D \<notin> set l"
  shows "find_str (pre @ l @ crlf @ post) crlf (length pre) = Some (length pre + length l)"
proof -
  have "take (length crlf) (drop i (pre @ l @ crlf @ post)) \<noteq> crlf" if i: "length pre \<le> i" "i < length pre + length l" for i
  proof
    assume t: "take (length crlf) (drop i (pre @ l @ crlf @ post)) = crlf"
    have "(pre @ l @ crlf @ post) ! i = CHR 0x0D" by (rule crlf_at [OF t])
    moreover have "(pre @ l @ crlf @ post) ! i = l ! (i - length pre)" using i by (simp add: nth_append less_diff_conv2)
    ultimately show False using assms i nth_mem [of "i - length pre" l] by auto
  qed
  then show ?thesis unfolding find_str_iff by simp
qed

subsection \<open>Chunked bodies\<close>

definition chunk_ok :: "string \<times> string \<Rightarrow> bool" where
  \<comment> \<open>a size line, possibly with extensions, and the data it announces\<close>
  "chunk_ok c \<longleftrightarrow> CHR 0x0D \<notin> set (fst c) \<and> snd c \<noteq> [] \<and> chunk_size (fst c) = Some (length (snd c)) \<and>
     length (snd c) \<le> 536870912"

definition chunk_text :: "string \<times> string \<Rightarrow> string" where
  "chunk_text c = fst c @ crlf @ snd c @ crlf"

lemma chunk_one:
  assumes c: "chunk_ok c" and p: "rp_cs p = CSize" "rp_cpos p = length pre"
  shows "parse_chunked (pre @ chunk_text c @ post) p = parse_chunked (pre @ chunk_text c @ post)
    (p\<lparr>rp_dechunked := rp_dechunked p @ snd c, rp_chunk_left := 0, rp_cpos := length (pre @ chunk_text c), rp_cs := CSize\<rparr>)"
proof -
  obtain l d where ld: "c = (l, d)" by fastforce
  let ?s = "pre @ chunk_text c @ post"
  have s: "?s = pre @ l @ crlf @ d @ crlf @ post" by (simp add: ld chunk_text_def)
  have f: "find_str ?s crlf (length pre) = Some (length pre + length l)"
    unfolding s using c find_crlf_line [of l pre "d @ crlf @ post"] by (simp add: chunk_ok_def ld)
  have line: "take (length pre + length l - length pre) (drop (length pre) ?s) = l" unfolding s by simp
  have d: "0 < length d" "length d \<le> 536870912" "chunk_size l = Some (length d)" using c by (simp_all add: chunk_ok_def ld)
  let ?p1 = "p\<lparr>rp_cpos := length pre + length l + 2, rp_chunk_left := length d, rp_cs := CData\<rparr>"
  let ?p2 = "?p1\<lparr>rp_dechunked := rp_dechunked p @ d, rp_cpos := length pre + length l + 2 + length d, rp_chunk_left := 0, rp_cs := CDataCrlf\<rparr>"
  have "parse_chunked ?s p = parse_chunked ?s ?p1"
    by (subst parse_chunked.simps) (use p f line d in simp)
  also have "\<dots> = parse_chunked ?s ?p2"
  proof -
    have "take (length d) (drop (length pre + length l + 2) ?s) = d" unfolding s by simp
    moreover have "length d \<le> length ?s - (length pre + length l + 2)" unfolding s by simp
    ultimately show ?thesis by (subst parse_chunked.simps) (simp add: Let_def)
  qed
  also have "\<dots> = parse_chunked ?s (p\<lparr>rp_dechunked := rp_dechunked p @ d, rp_chunk_left := 0, rp_cpos := length (pre @ chunk_text c), rp_cs := CSize\<rparr>)"
  proof -
    let ?k = "length pre + length l + 2 + length d"
    have "?s ! ?k = CHR 0x0D" "?s ! (?k + 1) = CHR 0x0A" unfolding s by (simp_all add: nth_append)
    moreover have "\<not> length ?s - ?k < 2" unfolding s by simp
    ultimately show ?thesis
      by (subst parse_chunked.simps) (simp add: p ld chunk_text_def add.assoc)
  qed
  finally show ?thesis by (simp add: ld)
qed

lemma chunked_body_ok:
  assumes "\<forall>c \<in> set cs. chunk_ok c" and z: "CHR 0x0D \<notin> set z" "chunk_size z = Some 0"
    and "rp_cs p = CSize" and "rp_cpos p = length pre"
  shows "\<exists>p'. parse_chunked (pre @ concat (map chunk_text cs) @ z @ crlf @ crlf @ post) p = (p', Done) \<and>
    rp_dechunked p' = rp_dechunked p @ concat (map snd cs) \<and> rp_phase p' = PDone \<and> rp_use_dechunked p' = rp_use_dechunked p"
  using assms(1,4,5)
proof (induction cs arbitrary: pre p)
  case Nil
  let ?s = "pre @ z @ crlf @ crlf @ post"
  let ?p1 = "p\<lparr>rp_cpos := length pre + length z + 2, rp_cs := CTrailer\<rparr>"
  have f: "find_str ?s crlf (length pre) = Some (length pre + length z)"
    using find_crlf_line [OF z(1), of pre "crlf @ post"] by simp
  have f2: "find_str ?s crlf (length pre + length z + 2) = Some (length pre + length z + 2)"
    using find_crlf_line [of "[]" "pre @ z @ crlf" post] by simp
  have line: "take (length pre + length z - length pre) (drop (length pre) ?s) = z" by simp
  have "parse_chunked ?s p = parse_chunked ?s ?p1"
    by (subst parse_chunked.simps) (use Nil f line z(2) in simp)
  also have "\<dots> = (?p1\<lparr>rp_cpos := length pre + length z + 4, rp_phase := PDone\<rparr>, Done)"
    by (subst parse_chunked.simps) (use f2 in simp)
  finally show ?case by simp
next
  case (Cons c cs)
  let ?q = "p\<lparr>rp_dechunked := rp_dechunked p @ snd c, rp_chunk_left := 0, rp_cpos := length (pre @ chunk_text c), rp_cs := CSize\<rparr>"
  have "parse_chunked (pre @ chunk_text c @ (concat (map chunk_text cs) @ z @ crlf @ crlf @ post)) p =
      parse_chunked (pre @ chunk_text c @ (concat (map chunk_text cs) @ z @ crlf @ crlf @ post)) ?q"
    by (rule chunk_one) (use Cons.prems in auto)
  moreover have "\<exists>p'. parse_chunked ((pre @ chunk_text c) @ concat (map chunk_text cs) @ z @ crlf @ crlf @ post) ?q = (p', Done) \<and>
    rp_dechunked p' = rp_dechunked ?q @ concat (map snd cs) \<and> rp_phase p' = PDone \<and> rp_use_dechunked p' = rp_use_dechunked ?q"
    by (rule Cons.IH) (use Cons.prems in auto)
  ultimately show ?case by simp
qed

subsection \<open>Feeding in pieces\<close>

lemma cdata_step:
  assumes "rp_cs p = CData" and "rp_chunk_left p \<le> length s - rp_cpos p"
  shows "parse_chunked s p = parse_chunked s (p\<lparr>rp_dechunked := rp_dechunked p @ take (rp_chunk_left p) (drop (rp_cpos p) s),
    rp_cpos := rp_cpos p + rp_chunk_left p, rp_chunk_left := 0, rp_cs := CDataCrlf\<rparr>)"
  using assms by (subst parse_chunked.simps) (simp add: Let_def)

lemma chunked_resume:
  "rp_cpos p \<le> length s \<Longrightarrow> parse_chunked s p = (p', r) \<Longrightarrow>
     rp_cpos p' \<le> length s \<and> (r = NeedMore \<longrightarrow> rp_phase p' = rp_phase p \<and> rp_body_start p' = rp_body_start p \<and>
       rp_scan p' = rp_scan p) \<and>
     parse_chunked (s @ t) p = (if r = NeedMore then parse_chunked (s @ t) p' else (p', r))"
proof (induction s p arbitrary: p' r rule: parse_chunked.induct)
  case (1 s p)
  note step = parse_chunked.simps [of s p] and stept = parse_chunked.simps [of "s @ t" p]
  show ?case
  proof (cases "rp_cs p")
    case CSize
    show ?thesis
    proof (cases "find_str s crlf (rp_cpos p)")
      case None
      then show ?thesis using 1(6,7) CSize step by (auto simp: fail_def)
    next
      case (Some e)
      have fs: "find_str (s @ t) crlf (rp_cpos p) = Some e" by (rule find_str_append [OF Some])
      have b: "rp_cpos p \<le> e" "e + 2 \<le> length s" using find_str_Some [OF Some] by auto
      have line: "take (e - rp_cpos p) (drop (rp_cpos p) (s @ t)) = take (e - rp_cpos p) (drop (rp_cpos p) s)"
        using b by (intro take_drop_append) simp
      show ?thesis
      proof (cases "chunk_size (take (e - rp_cpos p) (drop (rp_cpos p) s))")
        case None
        then show ?thesis using 1(6,7) CSize Some fs line step stept by (auto simp: fail_def)
      next
        case (Some n)
        note n = this
        consider "n > 536870912" | "n = 0" | "0 < n" "n \<le> 536870912" by linarith
        then show ?thesis
        proof cases
          case 1
          then show ?thesis using "1.prems" CSize \<open>find_str s crlf (rp_cpos p) = Some e\<close> fs line step stept n by (auto simp: fail_def)
        next
          case 2
          let ?q = "p\<lparr>rp_cpos := e + 2, rp_cs := CTrailer\<rparr>"
          have "parse_chunked s p = parse_chunked s ?q" "parse_chunked (s @ t) p = parse_chunked (s @ t) ?q"
            using CSize \<open>find_str s crlf (rp_cpos p) = Some e\<close> fs line step stept n 2 by auto
          then show ?thesis
            using "1.IH"(1) [OF CSize \<open>find_str s crlf (rp_cpos p) = Some e\<close> n _ 2, of p' r] "1.prems" b 2 by simp
        next
          case 3
          let ?q = "p\<lparr>rp_cpos := e + 2, rp_chunk_left := n, rp_cs := CData\<rparr>"
          have "parse_chunked s p = parse_chunked s ?q" "parse_chunked (s @ t) p = parse_chunked (s @ t) ?q"
            using CSize \<open>find_str s crlf (rp_cpos p) = Some e\<close> fs line step stept n 3 by auto
          then show ?thesis
            using "1.IH"(2) [OF CSize \<open>find_str s crlf (rp_cpos p) = Some e\<close> n, of p' r] "1.prems" b 3 by simp
        qed
      qed
    qed
  next
    case CData
    let ?av = "length s - rp_cpos p"
    show ?thesis
    proof (cases "?av < rp_chunk_left p")
      case True
      let ?q = "p\<lparr>rp_dechunked := rp_dechunked p @ drop (rp_cpos p) s, rp_cpos := length s, rp_chunk_left := rp_chunk_left p - ?av\<rparr>"
      have q: "p' = ?q" "r = NeedMore" using "1.prems" step CData True by (auto simp: Let_def)
      have "parse_chunked (s @ t) p = parse_chunked (s @ t) ?q"
      proof (cases "length t < rp_chunk_left p - ?av")
        case short: True
        have "parse_chunked (s @ t) p = (p\<lparr>rp_dechunked := rp_dechunked p @ drop (rp_cpos p) s @ t, rp_cpos := length s + length t,
            rp_chunk_left := rp_chunk_left p - ?av - length t\<rparr>, NeedMore)"
        proof -
          have "length s + length t - rp_cpos p < rp_chunk_left p"
            "rp_chunk_left p - (length s + length t - rp_cpos p) = rp_chunk_left p - ?av - length t"
            using "1.prems"(1) True short by linarith+
          then show ?thesis using stept CData "1.prems"(1) by (simp add: Let_def)
        qed
        moreover have "parse_chunked (s @ t) ?q = (p\<lparr>rp_dechunked := rp_dechunked p @ drop (rp_cpos p) s @ t, rp_cpos := length s + length t,
            rp_chunk_left := rp_chunk_left p - ?av - length t\<rparr>, NeedMore)"
        proof -
          have "?av + length t < rp_chunk_left p" "length t < rp_chunk_left p" using short by linarith+
          then show ?thesis using CData short by (subst parse_chunked.simps) (simp add: Let_def)
        qed
        ultimately show ?thesis by simp
      next
        case long: False
        let ?L = "rp_chunk_left p - ?av"
        let ?x = "p\<lparr>rp_dechunked := rp_dechunked p @ drop (rp_cpos p) s @ take ?L t, rp_cpos := length s + ?L,
            rp_chunk_left := 0, rp_cs := CDataCrlf\<rparr>"
        have tk: "take (rp_chunk_left p) (drop (rp_cpos p) (s @ t)) = drop (rp_cpos p) s @ take ?L t"
          "rp_cpos p + rp_chunk_left p = length s + ?L" using "1.prems"(1) True by simp_all
        have "\<not> length (s @ t) - rp_cpos p < rp_chunk_left p" using "1.prems"(1) True long by simp
        then have "parse_chunked (s @ t) p = parse_chunked (s @ t) ?x"
          using stept CData tk by (simp add: Let_def)
        moreover have "parse_chunked (s @ t) ?q = parse_chunked (s @ t) ?x"
          using cdata_step [of ?q "s @ t"] CData long by simp
        ultimately show ?thesis by simp
      qed
      then show ?thesis using q by simp
    next
      case False
      let ?q = "p\<lparr>rp_dechunked := rp_dechunked p @ take (rp_chunk_left p) (drop (rp_cpos p) s), rp_cpos := rp_cpos p + rp_chunk_left p,
          rp_chunk_left := 0, rp_cs := CDataCrlf\<rparr>"
      have "parse_chunked s p = parse_chunked s ?q" "parse_chunked (s @ t) p = parse_chunked (s @ t) ?q"
        using step stept CData False "1.prems"(1) by (auto simp: Let_def)
      then show ?thesis using "1.IH"(3) [OF CData refl refl refl, of p' r] "1.prems" False by simp
    qed
  next
    case CDataCrlf
    show ?thesis
    proof (cases "length s - rp_cpos p < 2")
      case True
      then show ?thesis using "1.prems" step CDataCrlf by auto
    next
      case False
      then have i: "rp_cpos p + 1 < length s" by simp
      have nth: "(s @ t) ! rp_cpos p = s ! rp_cpos p" "(s @ t) ! (rp_cpos p + 1) = s ! (rp_cpos p + 1)"
        using i by (simp_all add: nth_append)
      show ?thesis
      proof (cases "s ! rp_cpos p \<noteq> CHR 0x0D \<or> s ! (rp_cpos p + 1) \<noteq> CHR 0x0A")
        case True
        then show ?thesis using "1.prems" step stept CDataCrlf False nth by (auto simp: fail_def)
      next
        case good: False
        let ?q = "p\<lparr>rp_cpos := rp_cpos p + 2, rp_cs := CSize\<rparr>"
        have "parse_chunked s p = parse_chunked s ?q" "parse_chunked (s @ t) p = parse_chunked (s @ t) ?q"
          using step stept CDataCrlf False good nth by auto
        then show ?thesis using "1.IH"(4) [OF CDataCrlf False good, of p' r] "1.prems" i by simp
      qed
    qed
  next
    case CTrailer
    show ?thesis
    proof (cases "find_str s crlf (rp_cpos p)")
      case None
      then show ?thesis using "1.prems" CTrailer step by auto
    next
      case (Some e)
      have fs: "find_str (s @ t) crlf (rp_cpos p) = Some e" by (rule find_str_append [OF Some])
      have b: "rp_cpos p \<le> e" "e + 2 \<le> length s" using find_str_Some [OF Some] by auto
      show ?thesis
      proof (cases "e = rp_cpos p")
        case True
        then show ?thesis using "1.prems" CTrailer Some fs step stept b by (auto simp: Let_def)
      next
        case False
        let ?q = "p\<lparr>rp_cpos := e + 2\<rparr>"
        have "parse_chunked s p = parse_chunked s ?q" "parse_chunked (s @ t) p = parse_chunked (s @ t) ?q"
          using step stept CTrailer Some fs False by (auto simp: Let_def)
        then show ?thesis using "1.IH"(5) [OF CTrailer Some refl refl, of p' r] "1.prems" b False by simp
      qed
    qed
  qed
qed

definition retag :: "nat \<Rightarrow> string option \<Rightarrow> response_parser \<Rightarrow> response_parser" where
  \<comment> \<open>another scan position and input: what a parser fed in other pieces may differ in\<close>
  "retag a b p = p\<lparr>rp_scan := a, rp_in := b\<rparr>"

lemma retag_fields [simp]:
  "rp_phase (retag a b p) = rp_phase p" "rp_cs (retag a b p) = rp_cs p" "rp_cpos (retag a b p) = rp_cpos p"
  "rp_chunk_left (retag a b p) = rp_chunk_left p" "rp_dechunked (retag a b p) = rp_dechunked p"
  "rp_body_start (retag a b p) = rp_body_start p" "rp_content_length (retag a b p) = rp_content_length p"
  "rp_status (retag a b p) = rp_status p" "rp_head (retag a b p) = rp_head p" "rp_scan (retag a b p) = a"
  "fail e (retag a b p) = retag a b (fail e p)" "retag a b (retag c d p) = retag a b p"
  by (simp_all add: retag_def fail_def)

lemma retag_updates:
  "rp_cpos_update f (retag a b p) = retag a b (rp_cpos_update f p)" "rp_cs_update g (retag a b p) = retag a b (rp_cs_update g p)"
  "rp_chunk_left_update f (retag a b p) = retag a b (rp_chunk_left_update f p)"
  "rp_dechunked_update h (retag a b p) = retag a b (rp_dechunked_update h p)"
  "rp_phase_update k (retag a b p) = retag a b (rp_phase_update k p)"
  "rp_body_start_update f (retag a b p) = retag a b (rp_body_start_update f p)"
  "rp_body_len_update f (retag a b p) = retag a b (rp_body_len_update f p)"
  "rp_use_dechunked_update l (retag a b p) = retag a b (rp_use_dechunked_update l p)"
  "rp_keep_alive_update l (retag a b p) = retag a b (rp_keep_alive_update l p)"
  "rp_gzip_update l (retag a b p) = retag a b (rp_gzip_update l p)"
  "rp_deflate_update l (retag a b p) = retag a b (rp_deflate_update l p)"
  "rp_status_update m (retag a b p) = retag a b (rp_status_update m p)"
  "rp_content_length_update m (retag a b p) = retag a b (rp_content_length_update m p)"
  "rp_keep_alive_timeout_s_update m (retag a b p) = retag a b (rp_keep_alive_timeout_s_update m p)"
  "rp_etag_update h (retag a b p) = retag a b (rp_etag_update h p)"
  "rp_last_modified_update h (retag a b p) = retag a b (rp_last_modified_update h p)"
  "rp_location_update h (retag a b p) = retag a b (rp_location_update h p)"
  "rp_content_type_update h (retag a b p) = retag a b (rp_content_type_update h p)"
  by (simp_all add: retag_def)

lemma retag_if: "retag a b (if c then p else q) = (if c then retag a b p else retag a b q)"
  by simp

lemma parse_chunked_retag: "parse_chunked s (retag a b p) = apfst (retag a b) (parse_chunked s p)"
proof (induction s p rule: parse_chunked.induct)
  case (1 s p)
  note step = parse_chunked.simps [of s p] parse_chunked.simps [of s "retag a b p"]
  show ?case
  proof (cases "rp_cs p")
    case CSize
    show ?thesis
    proof (cases "find_str s crlf (rp_cpos p)")
      case (Some e)
      then show ?thesis unfolding step using CSize 1(1,2) [OF CSize Some]
        by (cases "chunk_size (take (e - rp_cpos p) (drop (rp_cpos p) s))") (simp_all add: retag_updates)
    qed (simp add: step CSize)
  next
    case CData
    then show ?thesis unfolding step using 1(3) [OF CData refl refl refl]
      by (cases "length s - rp_cpos p < rp_chunk_left p") (simp_all add: retag_updates Let_def)
  next
    case CDataCrlf
    then show ?thesis unfolding step using 1(4) [OF CDataCrlf] by (simp add: retag_updates)
  next
    case CTrailer
    show ?thesis
    proof (cases "find_str s crlf (rp_cpos p)")
      case (Some e)
      then show ?thesis unfolding step using CTrailer 1(5) [OF CTrailer Some refl refl] by (simp add: retag_updates Let_def)
    qed (simp add: step CTrailer)
  qed
qed

lemma set_fields_retag:
  "set_encoding v (retag a b p) = retag a b (set_encoding v p)"
  "set_connection v (retag a b p) = retag a b (set_connection v p)"
  "set_keep_alive_timeout v (retag a b p) = retag a b (set_keep_alive_timeout v p)"
  by (simp_all add: set_encoding_def set_connection_def set_keep_alive_timeout_def retag_updates split: option.split)

lemma apply_header_retag:
  "apply_header n v (retag a b p, c) = map_sum (retag a b) (apfst (retag a b)) (apply_header n v (p, c))"
  unfolding apply_header_def Let_def prod.case
  by (simp add: set_fields_retag retag_updates retag_if if_distrib [of "map_sum (retag a b) (apfst (retag a b))"]
      option.case_distrib [of "map_sum (retag a b) (apfst (retag a b))"] cong: if_cong option.case_cong)

lemma header_loop_retag:
  "header_loop h i (retag a b (fst st), snd st) = map_sum (retag a b) (apfst (retag a b)) (header_loop h i st)"
proof (induction h i st rule: header_loop.induct)
  case (1 h i st)
  obtain p c where st: "st = (p, c)" by fastforce
  show ?case
    by (subst (1 2) header_loop.simps)
      (use 1 in \<open>auto simp: st apply_header_retag Let_def split: option.splits sum.splits\<close>)
qed

lemma parse_headers_retag: "parse_headers h (retag a b p) = apfst (retag a b) (parse_headers h p)"
proof -
  have hl: "header_loop h i (retag a b q, c) = map_sum (retag a b) (apfst (retag a b)) (header_loop h i (q, c))" for i q c
    using header_loop_retag [of h i a b "(q, c)"] by simp
  have ep: "enter_phase (retag a b q) c = retag a b (enter_phase q c)" for q c
    by (simp add: enter_phase_def Let_def retag_updates)
  show ?thesis
    by (auto simp: parse_headers_def Let_def retag_updates hl ep split: option.splits sum.splits prod.splits)
qed

definition same_outcome :: "response_parser \<times> feed_result \<Rightarrow> response_parser \<times> feed_result \<Rightarrow> bool" where
  \<comment> \<open>equal results and equal parsers but for the scan position and the input kept\<close>
  "same_outcome x y \<longleftrightarrow> snd x = snd y \<and> retag 0 None (fst x) = retag 0 None (fst y)"

lemma same_outcome_refl [simp]: "same_outcome x x"
  by (simp add: same_outcome_def)

lemma same_outcome_sym: "same_outcome x y \<Longrightarrow> same_outcome y x"
  by (simp add: same_outcome_def)

lemma same_outcome_trans: "same_outcome x y \<Longrightarrow> same_outcome y z \<Longrightarrow> same_outcome x z"
  by (simp add: same_outcome_def)

lemma same_outcome_retag [simp]: "same_outcome (retag a b p, r) (p, r)"
  by (simp add: same_outcome_def)

lemma retag_scan: "retag a b p\<lparr>rp_scan := k\<rparr> = retag k b p" by (simp add: retag_def)

lemma enter_phase_moves: "rp_phase (enter_phase p c) \<noteq> PHeaders"
  by (simp add: enter_phase_def Let_def)

lemma parse_headers_phase: "parse_headers h p = (p', True) \<Longrightarrow> rp_phase p' \<noteq> PHeaders"
  by (auto simp: parse_headers_def Let_def enter_phase_moves split: option.splits if_splits sum.splits prod.splits)

lemma feed_loop_retag:
  "rp_phase p = PHeaders \<longrightarrow> find_str s (crlf @ crlf) (scan_from (retag a b p)) = find_str s (crlf @ crlf) (scan_from p) \<Longrightarrow>
    same_outcome (feed_loop s eof (retag a b p)) (feed_loop s eof p)"
proof (induction s eof p arbitrary: a b rule: feed_loop.induct)
  case (1 s eof p)
  note step = feed_loop.simps [of s eof p] feed_loop.simps [of s eof "retag a b p"]
  show ?case
  proof (cases "rp_phase p")
    case PHeaders
    then have a: "find_str s (crlf @ crlf) (scan_from (retag a b p)) = find_str s (crlf @ crlf) (scan_from p)" using 1(3) by simp
    let ?f = "find_str s (crlf @ crlf) (scan_from p)"
    show ?thesis
    proof (cases ?f)
      case None
      then show ?thesis unfolding step using PHeaders a
        by (simp add: Let_def same_outcome_def) (simp add: retag_def fail_def)
    next
      case (Some e)
      obtain p' ok where h: "parse_headers (take (e + 2 - rp_body_start p) (drop (rp_body_start p) s)) p = (p', ok)" by fastforce
      show ?thesis
      proof (cases ok)
        case False
        then show ?thesis unfolding step using PHeaders a Some h by (simp add: parse_headers_retag)
      next
        case True
        then have okT: "ok = True" by simp
        note IH = 1(1,2) [OF PHeaders Some h [symmetric] okT]
        have ph: "parse_headers (take (e + 2 - rp_body_start p) (drop (rp_body_start p) s)) (retag a b p) = (retag a b p', True)"
          by (simp only: parse_headers_retag h okT apfst_conv)
        show ?thesis
        proof (cases "rp_status p' \<ge> 100 \<and> rp_status p' < 200 \<and> rp_status p' \<noteq> 101")
          case i: True
          let ?q = "p'\<lparr>rp_body_start := e + 4, rp_phase := PHeaders, rp_scan := e + 4\<rparr>"
          have rq: "retag a b p'\<lparr>rp_body_start := e + 4, rp_phase := PHeaders, rp_scan := e + 4\<rparr> = retag (e + 4) b ?q"
            by (simp add: retag_def)
          have "feed_loop s eof p = feed_loop s eof ?q" "feed_loop s eof (retag a b p) = feed_loop s eof (retag (e + 4) b ?q)"
            unfolding step rq [symmetric] using PHeaders a Some h okT ph i by simp_all
          moreover have "scan_from (retag (e + 4) b ?q) = scan_from ?q" by (simp add: scan_from_def)
          ultimately show ?thesis using IH(1) [OF i, of "e + 4" b] by simp
        next
          case ni: False
          let ?q = "p'\<lparr>rp_body_start := e + 4, rp_cpos := e + 4\<rparr>"
          have "feed_loop s eof p = feed_loop s eof ?q" "feed_loop s eof (retag a b p) = feed_loop s eof (retag a b ?q)"
            unfolding step using PHeaders a Some h okT ph ni by (auto simp: retag_updates)
          moreover have "rp_phase ?q \<noteq> PHeaders" using parse_headers_phase h True by simp
          ultimately show ?thesis using IH(2) [OF ni, of a b] by simp
        qed
      qed
    qed
  next
    case PChunked
    then show ?thesis unfolding step by (cases "parse_chunked s p") (simp add: parse_chunked_retag)
  qed (simp_all add: step retag_updates)
qed

definition rp_ok :: "string \<Rightarrow> response_parser \<Rightarrow> bool" where
  \<comment> \<open>the positions kept lie inside the input seen so far\<close>
  "rp_ok s p \<longleftrightarrow> rp_scan p \<le> length s \<and> rp_body_start p \<le> length s \<and> (rp_phase p = PChunked \<longrightarrow> rp_cpos p \<le> length s)"

lemma header_resume:
  assumes "find_str s (crlf @ crlf) (scan_from p) = None" and "rp_scan p \<le> length s"
  shows "find_str (s @ t) (crlf @ crlf) (scan_from p) = find_str (s @ t) (crlf @ crlf) (scan_from (p\<lparr>rp_scan := length s\<rparr>))"
proof (cases "length s < 3")
  case True
  then show ?thesis using assms(2) by (simp add: scan_from_def)
next
  case False
  then show ?thesis using assms by (intro find_str_resume) (auto simp: scan_from_def)
qed

lemma parse_headers_scan: "parse_headers h p = (p', ok) \<Longrightarrow> rp_scan p' = rp_scan p"
  using parse_headers_retag [of h "rp_scan p" "rp_in p" p]
  by (auto simp: retag_def) (metis fst_apfst fst_conv response_parser.select_convs(13) retag_def retag_fields(10))

lemma feed_loop_resume:
  assumes "rp_ok s p" and "feed_loop s False p = (p', NeedMore)"
  shows "rp_ok s p' \<and> same_outcome (feed_loop (s @ t) eof p') (feed_loop (s @ t) eof p)"
  using assms
proof (induction s False p arbitrary: p' rule: feed_loop.induct)
  case (1 s p)
  note step = feed_loop.simps [of s False p] and stept = feed_loop.simps [of "s @ t" eof p]
  show ?case
  proof (cases "rp_phase p")
    case PHeaders
    show ?thesis
    proof (cases "find_str s (crlf @ crlf) (scan_from p)")
      case None
      let ?q = "p\<lparr>rp_scan := length s\<rparr>"
      have q: "p' = ?q" using 1(4) step PHeaders None by (simp add: Let_def split: if_splits)
      have f: "find_str (s @ t) (crlf @ crlf) (scan_from p) = find_str (s @ t) (crlf @ crlf) (scan_from ?q)"
        using header_resume [OF None] 1(3) by (simp add: rp_ok_def)
      have rq: "?q = retag (length s) (rp_in p) p" by (simp add: retag_def)
      have "same_outcome (feed_loop (s @ t) eof ?q) (feed_loop (s @ t) eof p)"
        unfolding rq by (rule feed_loop_retag) (rule impI, rule f [unfolded rq, symmetric])
      then show ?thesis using q 1(3) by (simp add: rp_ok_def)
    next
      case (Some e)
      have b: "e + 4 \<le> length s" using find_str_Some [OF Some] by simp
      have fs: "find_str (s @ t) (crlf @ crlf) (scan_from p) = Some e" by (rule find_str_append [OF Some])
      have hd: "take (e + 2 - rp_body_start p) (drop (rp_body_start p) (s @ t)) = take (e + 2 - rp_body_start p) (drop (rp_body_start p) s)"
        using b 1(3) by (intro take_drop_append) (auto simp: rp_ok_def)
      obtain p1 ok where h: "parse_headers (take (e + 2 - rp_body_start p) (drop (rp_body_start p) s)) p = (p1, ok)" by fastforce
      have ht: "parse_headers (take (e + 2 - rp_body_start p) (drop (rp_body_start p) (s @ t))) p = (p1, ok)"
        by (simp only: hd h)
      have okT: "ok = True" using 1(4) step PHeaders Some h by (cases ok) auto
      note IH = 1(1,2) [OF PHeaders Some h [symmetric] okT]
      show ?thesis
      proof (cases "rp_status p1 \<ge> 100 \<and> rp_status p1 < 200 \<and> rp_status p1 \<noteq> 101")
        case i: True
        let ?q = "p1\<lparr>rp_body_start := e + 4, rp_phase := PHeaders, rp_scan := e + 4\<rparr>"
        have "feed_loop s False p = feed_loop s False ?q" "feed_loop (s @ t) eof p = feed_loop (s @ t) eof ?q"
          using step stept PHeaders Some fs h ht okT i by (simp_all del: take_append drop_append)
        moreover have "rp_ok s ?q" using b by (simp add: rp_ok_def)
        ultimately show ?thesis using IH(1) [OF i] 1(4) by simp
      next
        case ni: False
        let ?q = "p1\<lparr>rp_body_start := e + 4, rp_cpos := e + 4\<rparr>"
        have "feed_loop s False p = feed_loop s False ?q" "feed_loop (s @ t) eof p = feed_loop (s @ t) eof ?q"
          using step stept PHeaders Some fs h ht okT ni by (auto simp del: take_append drop_append)
        moreover have "rp_ok s ?q" using b 1(3) parse_headers_scan [OF h] by (simp add: rp_ok_def)
        ultimately show ?thesis using IH(2) [OF ni] 1(4) by simp
      qed
    qed
  next
    case PChunked
    obtain q r where q: "parse_chunked s p = (q, r)" by fastforce
    then have r: "r = NeedMore" "p' = q" using 1(4) step PChunked by (auto split: if_splits)
    have c: "rp_cpos q \<le> length s" "rp_phase q = rp_phase p" "rp_body_start q = rp_body_start p" "rp_scan q = rp_scan p"
        "parse_chunked (s @ t) p = parse_chunked (s @ t) q"
      using chunked_resume [OF _ q, of t] 1(3) PChunked r by (auto simp: rp_ok_def)
    have "feed_loop (s @ t) eof p = feed_loop (s @ t) eof q"
      using stept feed_loop.simps [of "s @ t" eof q] PChunked c(2,5) by simp
    then show ?thesis using r(2) c 1(3) PChunked by (simp add: rp_ok_def)
  qed (use 1(3,4) step in \<open>auto split: if_splits\<close>)
qed

lemma rp_feed_resume:
  assumes ok: "rp_ok s p" and f: "rp_feed s False p = (p', NeedMore)"
  shows "rp_ok s p'" "same_outcome (rp_feed (s @ t) eof p') (rp_feed (s @ t) eof p)"
proof -
  let ?p = "p\<lparr>rp_in := Some s\<rparr>" and ?u = "Some (s @ t)"
  have "rp_ok s ?p" using ok by (simp add: rp_ok_def)
  then have r: "rp_ok s p'" "same_outcome (feed_loop (s @ t) eof p') (feed_loop (s @ t) eof ?p)"
    using feed_loop_resume [of s ?p p' t eof] f by (simp_all add: rp_feed_def)
  show "rp_ok s p'" by (fact r(1))
  have tag: "same_outcome (feed_loop (s @ t) eof (q\<lparr>rp_in := b\<rparr>)) (feed_loop (s @ t) eof q)" for q b
    using feed_loop_retag [of q "s @ t" "rp_scan q" b eof] by (simp add: retag_def scan_from_def)
  have "same_outcome (rp_feed (s @ t) eof p') (feed_loop (s @ t) eof p')"
    "same_outcome (feed_loop (s @ t) eof ?p) (feed_loop (s @ t) eof p)" "same_outcome (feed_loop (s @ t) eof p) (rp_feed (s @ t) eof p)"
    unfolding rp_feed_def by (rule tag, rule tag, rule same_outcome_sym, rule tag)
  then show "same_outcome (rp_feed (s @ t) eof p') (rp_feed (s @ t) eof p)" using r(2) same_outcome_trans by blast
qed

fun feed_pieces :: "string \<Rightarrow> string list \<Rightarrow> response_parser \<Rightarrow> response_parser \<times> feed_result" where
  \<comment> \<open>the connection's use: one more piece received, the whole buffer fed; stop when a result is there\<close>
  "feed_pieces s [] p = (p, NeedMore)"
| "feed_pieces s (x # xs) p =
     (case rp_feed (s @ x) False p of (p', NeedMore) \<Rightarrow> feed_pieces (s @ x) xs p' | (p', r) \<Rightarrow> (p', r))"

lemma feed_pieces_resume:
  assumes "rp_ok s p"
  shows "feed_pieces s xs p = (p', NeedMore) \<Longrightarrow> xs \<noteq> [] \<Longrightarrow>
    rp_ok (s @ concat xs) p' \<and> same_outcome (rp_feed (s @ concat xs @ t) eof p') (rp_feed (s @ concat xs @ t) eof p)"
  using assms
proof (induction xs arbitrary: s p)
  case (Cons x xs)
  obtain q r where q: "rp_feed (s @ x) False p = (q, r)" by fastforce
  with Cons.prems(1) have r: "r = NeedMore" "feed_pieces (s @ x) xs q = (p', NeedMore)" by (cases r; simp)+
  have okx: "rp_ok (s @ x) p" using Cons.prems(3) by (auto simp: rp_ok_def)
  note fr = rp_feed_resume [OF okx q [unfolded r(1)]]
  show ?case
  proof (cases "xs = []")
    case True
    then show ?thesis using r(2) fr(1) fr(2) [of t eof] by simp
  next
    case False
    from Cons.IH [OF r(2) False fr(1)] fr(2) [of "concat xs @ t" eof] show ?thesis
      using same_outcome_trans by fastforce
  qed
qed simp

lemma retag_self: "retag (rp_scan p) (rp_in p) p = p"
  by (simp add: retag_def)

lemma retag_in [simp]: "rp_in (retag a b p) = b"
  by (simp add: retag_def)

lemma parse_keeps_in: "rp_in (fst (parse_headers h p)) = rp_in p" "rp_in (fst (parse_chunked s p)) = rp_in p"
  using parse_headers_retag [of h "rp_scan p" "rp_in p" p] parse_chunked_retag [of s "rp_scan p" "rp_in p" p]
  unfolding retag_self by (metis fst_apfst retag_in)+

lemma feed_loop_in: "rp_in (fst (feed_loop s eof p)) = rp_in p"
proof (induction s eof p rule: feed_loop.induct)
  case (1 s eof p)
  note step = feed_loop.simps [of s eof p]
  show ?case
  proof (cases "rp_phase p")
    case PHeaders
    show ?thesis
    proof (cases "find_str s (crlf @ crlf) (scan_from p)")
      case None
      then show ?thesis using PHeaders step by (simp add: Let_def fail_def)
    next
      case (Some e)
      obtain p1 ok where h: "parse_headers (take (e + 2 - rp_body_start p) (drop (rp_body_start p) s)) p = (p1, ok)" by fastforce
      have "rp_in p1 = rp_in p" using parse_keeps_in(1) h by (metis fst_conv)
      then show ?thesis using 1(1,2) [OF PHeaders Some h [symmetric]] step PHeaders Some h by (cases ok) auto
    qed
  next
    case PChunked
    then show ?thesis using step parse_keeps_in(2) [of s p] by (cases "parse_chunked s p") (auto simp: fail_def)
  qed (simp_all add: step fail_def)
qed

lemma same_outcome_body:
  assumes "same_outcome (rp_feed s eof p) (rp_feed s eof q)"
  shows "rp_body (fst (rp_feed s eof p)) = rp_body (fst (rp_feed s eof q))"
proof -
  let ?a = "fst (rp_feed s eof p)" and ?b = "fst (rp_feed s eof q)"
  have i: "rp_in ?a = Some s" "rp_in ?b = Some s" by (simp_all add: rp_feed_def feed_loop_in)
  have "retag 0 None ?a = retag 0 None ?b" using assms by (simp add: same_outcome_def)
  then have "retag 0 (Some s) ?a = retag 0 (Some s) ?b" by (metis retag_fields(12))
  then have "rp_body (retag 0 (Some s) ?a) = rp_body (retag 0 (Some s) ?b)" by simp
  moreover have "rp_body (retag 0 (rp_in c) c) = rp_body c" for c
    by (simp add: rp_body_def retag_def split: option.split)
  ultimately show ?thesis using i by metis
qed

lemma chunked_feed_ok:
  assumes "\<forall>c \<in> set cs. chunk_ok c" and "CHR 0x0D \<notin> set z" "chunk_size z = Some 0"
    and p: "rp_phase p = PChunked" "rp_use_dechunked p" "rp_cs p = CSize" "rp_cpos p = length pre"
  shows "\<exists>p'. rp_feed (pre @ concat (map chunk_text cs) @ z @ crlf @ crlf @ post) eof p = (p', Done) \<and>
    rp_body p' = rp_dechunked p @ concat (map snd cs) \<and> rp_phase p' = PDone"
proof -
  define s where "s = pre @ concat (map chunk_text cs) @ z @ crlf @ crlf @ post"
  let ?q = "p\<lparr>rp_in := Some s\<rparr>"
  obtain p' where p': "parse_chunked s ?q = (p', Done)" "rp_dechunked p' = rp_dechunked p @ concat (map snd cs)" "rp_phase p' = PDone"
      "rp_use_dechunked p'"
    using chunked_body_ok [OF assms(1-3), of ?q pre post] p unfolding s_def [symmetric] by auto
  have "feed_loop s eof ?q = (p', Done)" using feed_loop.simps [of s eof ?q] p(1) p'(1) by simp
  then show ?thesis unfolding rp_feed_def s_def [symmetric] using p'(2-4) by (intro exI [of _ p']) (simp add: rp_body_def)
qed

subsection \<open>The buffer and URLs\<close>

lemma double_until_ge: "0 < c \<Longrightarrow> n \<le> double_until c n \<and> c \<le> double_until c n"
proof (induction c n rule: double_until.induct)
  case (1 c n)
  then show ?case using double_until.simps [of c n] by (cases "c < n") auto
qed

lemma bu_append_ok:
  assumes "bu_inv b"
  shows "bu_inv (bu_append b xs) \<and> bu_data (bu_append b xs) = bu_data b @ xs \<and> bu_cap b \<le> bu_cap (bu_append b xs)"
proof -
  let ?c = "if bu_cap b \<noteq> 0 then bu_cap b else 4096"
  show ?thesis
    using assms double_until_ge [of ?c "length (bu_data b) + length xs"]
    by (auto simp: bu_append_def bu_commit_def bu_prepare_def bu_reserve_def bu_inv_def)
qed

lemma find_first_of_Some: "find_first_of s cs = Some i \<longleftrightarrow> i < length s \<and> s ! i \<in> set cs \<and> (\<forall>j < i. s ! j \<notin> set cs)"
  by (auto simp: find_first_of_def find_upt_Some)

lemma find_first_of_None: "find_first_of s cs = None \<longleftrightarrow> set s \<inter> set cs = {}"
  unfolding find_first_of_def find_None_iff by (auto simp: set_conv_nth [of s])

lemma authority_clean: "CHR ''/'' \<notin> set (url_authority s)" "CHR ''?'' \<notin> set (url_authority s)"
proof -
  have "set (url_authority s) \<inter> {CHR ''/'', CHR ''?''} = {}"
  proof (cases "find_first_of s ''/?''")
    case None
    then show ?thesis using find_first_of_None [of s "''/?''"] by (simp add: url_authority_def)
  next
    case (Some i)
    then show ?thesis using find_first_of_Some [of s "''/?''" i] by (auto simp: url_authority_def in_set_conv_nth)
  qed
  then show "CHR ''/'' \<notin> set (url_authority s)" "CHR ''?'' \<notin> set (url_authority s)" by auto
qed

lemma url_target_ok: "\<exists>r. url_target s = CHR ''/'' # r \<and> CHR ''#'' \<notin> set (url_target s)"
proof -
  define t where "t = (case find_first_of s ''/?'' of
                 None \<Rightarrow> ''/''
               | Some slash \<Rightarrow> (let t = drop slash s in if t ! 0 = CHR ''?'' then CHR ''/'' # t else t))"
  have t: "\<exists>r. t = CHR ''/'' # r"
  proof (cases "find_first_of s ''/?''")
    case (Some i)
    then have "i < length s" "s ! i = CHR ''/'' \<or> s ! i = CHR ''?''" by (auto simp: find_first_of_Some)
    then show ?thesis using Some by (auto simp: t_def Let_def Cons_nth_drop_Suc [symmetric])
  qed (simp add: t_def)
  have u: "url_target s = (case find_char t (CHR ''#'') 0 of None \<Rightarrow> t | Some h \<Rightarrow> take h t)"
    unfolding url_target_def t_def Let_def ..
  show ?thesis
  proof (cases "find_char t (CHR ''#'') 0")
    case None
    then show ?thesis using t u find_char_None [of t "CHR ''#''" 0] by auto
  next
    case (Some h)
    have "t ! h = CHR ''#''" using find_char_Some [OF Some] by simp
    then have "h \<noteq> 0" using t by (cases h) auto
    then show ?thesis using t u Some find_char_Some [OF Some] by (cases h) auto
  qed
qed

lemma split_port_ok:
  assumes "split_port a d = Some (h, q)" and "0 < d"
  shows "0 < q" "\<exists>k. h = take k a"
proof -
  show "\<exists>k. h = take k a" using assms(1)
    by (auto simp: split_port_def split: option.splits if_splits intro: exI [of _ "length a"])
  have "0 < (word_of_int p :: u16)" if "p \<noteq> 0" "\<not> p > 65535" "0 \<le> p" for p :: int
  proof -
    have "uint (word_of_int p :: u16) = p" using that by (simp add: uint_word_of_int)
    then show ?thesis using that by (simp add: word_less_def)
  qed
  moreover have "0 \<le> p" if "parse_int False 0 (2 ^ 32 - 1) x = Some p" for x p
    using that by (auto simp: parse_int_def from_chars_int_def Let_def split: option.splits if_splits list.splits prod.splits)
  ultimately show "0 < q" using assms by (auto simp: split_port_def split: option.splits if_splits)
qed

lemma to_lower_slash: "to_lower c \<in> {CHR ''/'', CHR ''?'', CHR ''@''} \<Longrightarrow> to_lower c = c"
proof -
  assume a: "to_lower c \<in> {CHR ''/'', CHR ''?'', CHR ''@''}"
  have "code (CHR ''/'') = 47" "code (CHR ''?'') = 63" "code (CHR ''@'') = 64" by (simp_all add: code_def)
  then show ?thesis using a code_char_of [of "code c + 32"] by (auto simp: to_lower_def split: if_splits)
qed

lemma parse_url_ok:
  assumes "parse_url s = Some u"
  shows "(\<exists>r. u_target u = CHR ''/'' # r) \<and> CHR ''#'' \<notin> set (u_target u) \<and> 0 < u_port u \<and>
    set (u_host u) \<inter> {CHR ''/'', CHR ''?'', CHR ''@''} = {} \<and> to_lower_copy (u_host u) = u_host u \<and>
    u_host_header u = (if u_port u = (if u_tls u then 443 else 80) then u_host u
      else u_host u @ '':'' @ to_string (unat (u_port u)))"
proof -
  obtain r d h where r: "CHR ''@'' \<notin> set (url_authority r)" "split_port (url_authority r) d = Some (h, u_port u)" "0 < d"
      "u_host u = to_lower_copy h" "u_target u = url_target r"
      "u_host_header u = (if u_port u = (if u_tls u then 443 else 80) then u_host u
      else u_host u @ '':'' @ to_string (unat (u_port u)))"
    using assms by (auto simp: parse_url_def Let_def bind_eq_Some_conv split: if_splits)
  obtain k where k: "h = take k (url_authority r)" using split_port_ok(2) [OF r(2,3)] by blast
  have "set h \<inter> {CHR ''/'', CHR ''?'', CHR ''@''} = {}"
    using authority_clean [of r] r(1) set_take_subset [of k "url_authority r"] k by auto
  then have "set (u_host u) \<inter> {CHR ''/'', CHR ''?'', CHR ''@''} = {}"
    using to_lower_slash unfolding r(4) to_lower_copy_def by fastforce
  moreover have "to_lower_copy (u_host u) = u_host u" by (simp add: r(4) to_lower_copy_def to_lower_idem)
  ultimately show ?thesis using url_target_ok [of r] split_port_ok(1) [OF r(2,3)] r(5,6) by auto
qed

end
