(* ===== verification/Scorer.thy ===== *)
theory Scorer
  imports Ascii "HOL-Library.Sublist"
begin

unbundle bit_operations_syntax

text \<open>
  \<open>src/engine/scorer.hpp\<close>, \<open>src/engine/scorer.cpp\<close>: the rule file, the Aho-Corasick automaton compiled
  from it, the scan of a text, the dollar amount in a text and the score. Amounts are real numbers. A
  state is its index, \<open>-1\<close> in a \<open>go\<close> row is \<open>None\<close>, and \<open>delta_\<close> is the flat table of the code.

  The breadth-first loop runs once per state; it takes the number of states as fuel, and
  \<open>bfs_all_done\<close> of \<open>Phrase_Match\<close> shows that this empties the queue. The vector \<open>seen\<close> of \<open>score_text\<close> is thread-local and
  zero between calls, so it is a local list here.

  The lemmas here bound the score; \<open>Phrase_Match\<close> shows that the automaton reports exactly the rules
  whose normalised phrase occurs in the normalised text. Weights add up as unbounded integers (the code
  uses \<open>int\<close>, and the rule weights are small).
\<close>

subsection \<open>Catalysts and flags\<close>

datatype catalyst =
    NoCatalyst | FdaApproval | ClinicalData | Contract | MnaTarget | MnaAcquirer | Earnings | Uplisting | Partnership
  | Product | Buyback | CryptoAi | LegalWin | Offering | ReverseSplit | Distress | OtherCatalyst | CountCatalyst

definition kCatNames :: "(catalyst \<times> string) list" where
  "kCatNames = [(NoCatalyst, ''none''), (FdaApproval, ''fda''), (ClinicalData, ''clinical''), (Contract, ''contract''),
     (MnaTarget, ''mna_target''), (MnaAcquirer, ''mna_acquirer''), (Earnings, ''earnings''), (Uplisting, ''uplisting''),
     (Partnership, ''partnership''), (Product, ''product''), (Buyback, ''buyback''), (CryptoAi, ''crypto_ai''),
     (LegalWin, ''legal_win''), (Offering, ''offering''), (ReverseSplit, ''reverse_split''), (Distress, ''distress''),
     (OtherCatalyst, ''other'')]"

definition catalyst_name :: "catalyst \<Rightarrow> string" where
  "catalyst_name c = (case List.find (\<lambda>n. fst n = c) kCatNames of Some n \<Rightarrow> snd n | None \<Rightarrow> ''?'')"

definition parse_catalyst :: "string \<Rightarrow> catalyst" where
  "parse_catalyst s = (case List.find (\<lambda>n. iequals s (snd n)) kCatNames of Some n \<Rightarrow> fst n | None \<Rightarrow> CountCatalyst)"

definition kSfOffering :: u32 where "kSfOffering = 1"
definition kSfDistress :: u32 where "kSfDistress = 2"
definition kSfReverseSplit :: u32 where "kSfReverseSplit = 4"
definition kSfSpam :: u32 where "kSfSpam = 8"
definition kSfNonBinding :: u32 where "kSfNonBinding = 16"
definition kSfTier1 :: u32 where "kSfTier1 = 32"
definition kSfUpTo :: u32 where "kSfUpTo = 64"
definition kSfPromo :: u32 where "kSfPromo = 128"
definition kSfHedged :: u32 where "kSfHedged = 256"
definition kSfNegative :: u32 where "kSfNegative = 512"
definition kSfTamAmount :: u32 where "kSfTamAmount = 1024"

definition has_flag :: "u32 \<Rightarrow> u32 \<Rightarrow> bool" where
  "has_flag f k \<longleftrightarrow> f AND k \<noteq> 0"

definition flag_names :: "string list" where
  "flag_names = [''offering'', ''distress'', ''reverse_split'', ''spam'', ''non_binding'', ''tier1'', ''up_to'', ''promo'', ''hedged'',
     ''negative'', ''tam_amount'']"

definition score_flags_str :: "u32 \<Rightarrow> string" where
  "score_flags_str f = foldl (\<lambda>out i. if bit f i then (if out \<noteq> [] then out @ '','' else out) @ flag_names ! i else out) [] [0..<11]"

subsection \<open>The rule file\<close>

datatype rule_kind =
    KUnset | KCat | KSpec | KHedge | KPromo | KTier1 | KNonBinding | KDilution | KDistress | KRsplit | KSpam | KNeg

record rule =
  ru_kind_str :: string
  ru_phrase :: string
  ru_weight :: int
  ru_kind :: rule_kind
  ru_cat :: catalyst

definition fields3 :: "string \<Rightarrow> (string \<times> string \<times> string) option" where
  \<comment> \<open>the loop over the tabs of a line: two trimmed fields and the rest; \<open>None\<close> if there are fewer\<close>
  "fields3 line =
     (case find_char line (CHR 0x09) 0 of
        None \<Rightarrow> None
      | Some i \<Rightarrow>
          let r = drop (i + 1) line in
          (case find_char r (CHR 0x09) 0 of
             None \<Rightarrow> None
           | Some j \<Rightarrow> Some (trim (take i line), trim (take j r), trim (drop (j + 1) r))))"

definition kind_of :: "string \<Rightarrow> rule_kind option" where
  "kind_of k = map_of [(''spec'', KSpec), (''hedge'', KHedge), (''promo'', KPromo), (''tier1'', KTier1),
     (''nonbinding'', KNonBinding), (''dilution'', KDilution), (''distress'', KDistress), (''rsplit'', KRsplit),
     (''spam'', KSpam), (''neg'', KNeg)] k"

datatype line_result = SkipLine | BadFields | UnknownCatalyst string | UnknownKind string | GoodRule rule

definition parse_rule :: "string \<Rightarrow> line_result" where
  \<comment> \<open>the callback of \<open>for_each_line\<close> in \<open>load_rules\<close>\<close>
  "parse_rule line0 =
     (let line = trim line0 in
      if line = [] \<or> line ! 0 = CHR ''#'' then SkipLine
      else case fields3 line of
        None \<Rightarrow> BadFields
      | Some (f0, f1, f2) \<Rightarrow>
          if f2 = [] then BadFields
          else let w = (case parse_int True (- (2 ^ 31)) (2 ^ 31 - 1) f1 of Some v \<Rightarrow> v | None \<Rightarrow> 0);
                   r = \<lparr>ru_kind_str = f0, ru_phrase = to_lower_copy f2, ru_weight = w, ru_kind = KUnset, ru_cat = NoCatalyst\<rparr> in
            if istarts_with f0 ''cat:'' then
              (let c = parse_catalyst (drop 4 f0) in
               if c = CountCatalyst then UnknownCatalyst f0 else GoodRule (r\<lparr>ru_kind := KCat, ru_cat := c\<rparr>))
            else case kind_of f0 of
              Some k \<Rightarrow> GoodRule (r\<lparr>ru_kind := k\<rparr>)
            | None \<Rightarrow> UnknownKind f0)"

definition good_rules :: "string \<Rightarrow> rule list" where
  "good_rules tsv = List.map_filter (\<lambda>l. case parse_rule l of GoodRule r \<Rightarrow> Some r | _ \<Rightarrow> None) (lines tsv)"

definition rules_ok :: "string \<Rightarrow> bool" where
  "rules_ok tsv \<longleftrightarrow> (\<forall>l \<in> set (lines tsv). case parse_rule l of SkipLine \<Rightarrow> True | GoodRule _ \<Rightarrow> True | _ \<Rightarrow> False)"

subsection \<open>The automaton\<close>

definition kAlpha :: nat where
  "kAlpha = 37"

definition class_of :: "char \<Rightarrow> nat" where
  \<comment> \<open>\<open>kClass\<close>: separators 0, digits 1 to 10, letters 11 to 36 in either case\<close>
  "class_of c = (if 48 \<le> code c \<and> code c \<le> 57 then 1 + code c - 48
     else if 97 \<le> code c \<and> code c \<le> 122 then 11 + code c - 97
     else if 65 \<le> code c \<and> code c \<le> 90 then 11 + code c - 65 else 0)"

definition cast16 :: "nat \<Rightarrow> nat" where
  \<comment> \<open>\<open>static_cast<uint16_t>\<close>\<close>
  "cast16 n = nat (int n mod 65536)"

fun norm_chars :: "string \<Rightarrow> string \<Rightarrow> string" where
  \<comment> \<open>runs of other characters become one blank\<close>
  "norm_chars [] n = n"
| "norm_chars (c # cs) n =
     norm_chars cs (if class_of c \<noteq> 0 then n @ [to_lower c] else if last n \<noteq> CHR '' '' then n @ '' '' else n)"

fun drop_blanks :: "string \<Rightarrow> nat \<Rightarrow> string" where
  \<comment> \<open>\<open>while (n.size() > 1 && n.back() == ' ') n.pop_back()\<close>\<close>
  "drop_blanks n 0 = n"
| "drop_blanks n (Suc f) = (if length n > 1 \<and> last n = CHR '' '' then drop_blanks (butlast n) f else n)"

definition norm_phrase :: "string \<Rightarrow> string" where
  "norm_phrase p =
     (let prefix = (p \<noteq> [] \<and> last p = CHR ''*'');
          n = norm_chars (if prefix then butlast p else p) '' '';
          n = (if \<not> prefix \<and> last n \<noteq> CHR '' '' then n @ '' '' else n)
      in if prefix then drop_blanks n (length n) else n)"

type_synonym trie = "nat option list list \<times> nat list list" \<comment> \<open>\<open>go\<close> and \<open>own\<close>\<close>

fun trie_walk :: "trie \<Rightarrow> nat \<Rightarrow> nat list \<Rightarrow> trie \<times> nat" where
  \<comment> \<open>follow a pattern from state \<open>s\<close>, adding the states that are missing\<close>
  "trie_walk T s [] = (T, s)"
| "trie_walk (go, own) s (c # cs) =
     (case go ! s ! c of
        Some t \<Rightarrow> trie_walk (go, own) t cs
      | None \<Rightarrow> let t = length go in
          trie_walk (go[s := (go ! s)[c := Some t]] @ [replicate kAlpha None], own @ [[]]) t cs)"

definition trie_insert :: "trie \<Rightarrow> nat \<times> nat list \<Rightarrow> trie" where
  "trie_insert T p =
     (case trie_walk T 0 (snd p) of ((go, own), s) \<Rightarrow> (go, own[s := own ! s @ [cast16 (fst p)]]))"

definition trie_of :: "nat list list \<Rightarrow> trie" where
  "trie_of pats = foldl trie_insert ([replicate kAlpha None], [[]]) (zip [0..<length pats] pats)"

record bfs =
  bf_fail :: "nat list"
  bf_delta :: "nat list"
  bf_outs :: "nat list list"
  bf_q :: "nat list"

definition at_delta :: "bfs \<Rightarrow> nat \<Rightarrow> nat \<Rightarrow> nat" where
  "at_delta b s c = bf_delta b ! (s * kAlpha + c)"

definition root_step :: "nat option list list \<Rightarrow> nat \<Rightarrow> bfs \<Rightarrow> bfs" where
  \<comment> \<open>the loop body that starts the search from the root\<close>
  "root_step go c b =
     (case go ! 0 ! c of
        Some t \<Rightarrow> b\<lparr>bf_delta := (bf_delta b)[c := cast16 t], bf_fail := (bf_fail b)[t := 0], bf_q := bf_q b @ [t]\<rparr>
      | None \<Rightarrow> b\<lparr>bf_delta := (bf_delta b)[c := 0]\<rparr>)"

definition edge_step :: "nat option list list \<Rightarrow> nat \<Rightarrow> nat \<Rightarrow> bfs \<Rightarrow> bfs" where
  \<comment> \<open>one class \<open>c\<close> of a state \<open>s\<close> taken from the queue\<close>
  "edge_step go s c b =
     (let d = at_delta b (bf_fail b ! s) c in
      case go ! s ! c of
        Some t \<Rightarrow> b\<lparr>bf_fail := (bf_fail b)[t := d], bf_delta := (bf_delta b)[s * kAlpha + c := cast16 t], bf_q := bf_q b @ [t]\<rparr>
      | None \<Rightarrow> b\<lparr>bf_delta := (bf_delta b)[s * kAlpha + c := d]\<rparr>)"

definition visit :: "nat option list list \<Rightarrow> nat list list \<Rightarrow> nat \<Rightarrow> bfs \<Rightarrow> bfs" where
  "visit go own s b =
     fold (edge_step go s) [0..<kAlpha] (b\<lparr>bf_outs := (bf_outs b)[s := own ! s @ bf_outs b ! (bf_fail b ! s)]\<rparr>)"

fun bfs_loop :: "nat option list list \<Rightarrow> nat list list \<Rightarrow> nat \<Rightarrow> bfs \<Rightarrow> bfs" where
  \<comment> \<open>\<open>while (!q.empty())\<close>\<close>
  "bfs_loop go own 0 b = b"
| "bfs_loop go own (Suc fuel) b =
     (case bf_q b of [] \<Rightarrow> b | s # q \<Rightarrow> bfs_loop go own fuel (visit go own s (b\<lparr>bf_q := q\<rparr>)))"

definition bfs_start :: "nat option list list \<Rightarrow> nat list list \<Rightarrow> bfs" where
  "bfs_start go own =
     (let n = length go;
          b = \<lparr>bf_fail = replicate n 0, bf_delta = replicate (n * kAlpha) 0, bf_outs = replicate n [], bf_q = []\<rparr>;
          b = fold (root_step go) [0..<kAlpha] b
      in b\<lparr>bf_outs := (bf_outs b)[0 := own ! 0]\<rparr>)"

record automaton =
  au_delta :: "nat list"
  au_out_begin :: "nat list"
  au_out_ids :: "nat list"
  au_n :: nat

definition build_automaton :: "nat list list \<Rightarrow> automaton" where
  "build_automaton pats =
     (let (go, own) = trie_of pats;
          b = bfs_loop go own (length go) (bfs_start go own);
          outs = bf_outs b
      in \<lparr>au_delta = bf_delta b, au_out_begin = map (\<lambda>s. sum_list (map length (take s outs))) [0..<Suc (length go)],
          au_out_ids = concat outs, au_n = length go\<rparr>)"

record scorer =
  sc_rules :: "rule list"
  sc_norm :: "string list"
  sc_auto :: automaton

definition build :: "rule list \<Rightarrow> scorer" where
  "build rs = (let norm = map (\<lambda>r. norm_phrase (ru_phrase r)) rs in
     \<lparr>sc_rules = rs, sc_norm = norm, sc_auto = build_automaton (map (map class_of) norm)\<rparr>)"

definition load_rules :: "string \<Rightarrow> scorer option" where
  \<comment> \<open>\<open>None\<close>: \<open>return false\<close>\<close>
  "load_rules tsv =
     (if \<not> rules_ok tsv then None
      else let rs = good_rules tsv in
        if int (length rs) \<ge> 65535 then None
        else let s = build rs in if int (au_n (sc_auto s)) \<ge> 65535 then None else Some s)"

definition emit_hits :: "automaton \<Rightarrow> nat \<Rightarrow> nat list" where
  "emit_hits a st = map (\<lambda>k. au_out_ids a ! k) [au_out_begin a ! st..<au_out_begin a ! Suc st]"

fun scan_loop :: "automaton \<Rightarrow> string \<Rightarrow> nat \<Rightarrow> bool \<Rightarrow> nat list" where
  "scan_loop a [] s prev_sep = (if prev_sep then [] else emit_hits a (au_delta a ! (s * kAlpha)))"
| "scan_loop a (ch # cs) s prev_sep =
     (let c = class_of ch in
      if c = 0 \<and> prev_sep then scan_loop a cs s prev_sep
      else let s' = au_delta a ! (s * kAlpha + c) in emit_hits a s' @ scan_loop a cs s' (c = 0))"

definition scan :: "automaton \<Rightarrow> string \<Rightarrow> nat list" where
  "scan a txt = (if au_n a = 0 then [] else scan_loop a txt (au_delta a ! 0) True)"

subsection \<open>Dollar amounts\<close>

record number =
  nu_v :: double
  nu_frac :: double
  nu_scale :: double
  nu_any :: bool
  nu_in_frac :: bool

definition number0 :: number where
  "number0 = \<lparr>nu_v = 0, nu_frac = 0, nu_scale = 1 / 10, nu_any = False, nu_in_frac = False\<rparr>"

definition next_is_digit :: "string \<Rightarrow> bool" where
  "next_is_digit cs \<longleftrightarrow> cs \<noteq> [] \<and> is_digit (hd cs)"

definition add_digit :: "char \<Rightarrow> number \<Rightarrow> number" where
  "add_digit c n =
     (let n = n\<lparr>nu_any := True\<rparr>; d = of_int (digit_val c) in
      if nu_in_frac n then n\<lparr>nu_frac := nu_frac n + d * nu_scale n, nu_scale := nu_scale n / 10\<rparr>
      else n\<lparr>nu_v := nu_v n * 10 + d\<rparr>)"

fun read_number :: "string \<Rightarrow> number \<Rightarrow> number \<times> string" where
  \<comment> \<open>the digits with thousands separators and one decimal point; the rest is what follows\<close>
  "read_number [] n = (n, [])"
| "read_number (c # cs) n =
     (if is_digit c then read_number cs (add_digit c n)
      else if c = CHR '','' \<and> \<not> nu_in_frac n \<and> next_is_digit cs then read_number cs n
      else if c = CHR ''.'' \<and> \<not> nu_in_frac n \<and> next_is_digit cs then read_number cs (n\<lparr>nu_in_frac := True\<rparr>)
      else (n, c # cs))"

definition multiplier :: "string \<Rightarrow> double" where
  "multiplier w =
     (if iequals w ''million'' \<or> iequals w ''mm'' \<or> iequals w ''mln'' \<or> iequals w ''m'' then 1000000
      else if iequals w ''billion'' \<or> iequals w ''bn'' \<or> iequals w ''b'' then 1000000000
      else if iequals w ''thousand'' \<or> iequals w ''k'' then 1000
      else if iequals w ''trillion'' \<or> iequals w ''tn'' then 1000000000000 else 1)"

definition has_ci :: "string \<Rightarrow> string \<Rightarrow> bool" where
  "has_ci t w \<longleftrightarrow> ifind t w 0 \<noteq> None"

definition is_price :: "string \<Rightarrow> bool" where
  \<comment> \<open>a price per share, not an amount\<close>
  "is_price tail \<longleftrightarrow> has_ci (take 12 tail) ''per '' \<or> has_ci (take 6 tail) ''/sh''"

definition is_market_size :: "string \<Rightarrow> bool" where
  "is_market_size tail \<longleftrightarrow> (let near = take 45 tail in
     has_ci near '' market'' \<or> has_ci near ''industry'' \<or> has_ci near ''addressable'' \<or> has_ci near '' tam'' \<or>
     has_ci near ''opportunity'' \<or> has_ci near '' sector'')"

definition amount_at :: "string \<Rightarrow> nat \<Rightarrow> (double \<times> u32 \<times> nat) option" where
  \<comment> \<open>the figure after the dollar sign at \<open>dollar\<close>: amount, flags it sets, and the position the search
     goes on from; \<open>None\<close>: no digits there\<close>
  "amount_at t dollar =
     (let body = dropWhile (\<lambda>c. c = CHR '' '') (drop (dollar + 1) t);
          (n, rest) = read_number body number0 in
      if \<not> nu_any n then None
      else let i = length t - length rest;
               word = dropWhile (\<lambda>c. c = CHR '' '') rest;
               w = takeWhile is_alpha word;
               mult = multiplier w;
               after = (if mult > 1 then length t - length (drop (length w) word) else i);
               tail = take 60 (drop after t) in
        if is_price tail then Some (0, 0, dollar + 1)
        else if is_market_size tail then Some (0, kSfTamAmount, dollar + 1)
        else let before = take (dollar - (if dollar \<ge> 12 then dollar - 12 else 0)) (drop (if dollar \<ge> 12 then dollar - 12 else 0) t) in
          Some ((nu_v n + nu_frac n) * mult, if has_ci before ''up to'' then kSfUpTo else 0, after))"

fun amount_loop :: "nat \<Rightarrow> string \<Rightarrow> nat \<Rightarrow> double \<times> u32 \<Rightarrow> double \<times> u32" where
  \<comment> \<open>\<open>while (pos < t.size())\<close>: at most one round per character\<close>
  "amount_loop 0 t pos acc = acc"
| "amount_loop (Suc f) t pos acc =
     (case find_char (drop pos t) (CHR ''$'') pos of
        None \<Rightarrow> acc
      | Some dollar \<Rightarrow>
          (case amount_at t dollar of
             None \<Rightarrow> amount_loop f t (dollar + 1) acc
           | Some (a, fl, nxt) \<Rightarrow> amount_loop f t nxt (max (fst acc) a, snd acc OR fl)))"

definition extract_amount :: "string \<Rightarrow> u32 \<Rightarrow> double \<times> u32" where
  "extract_amount t flags = amount_loop (length t) t 0 (0, flags)"

subsection \<open>Scoring\<close>

record score_result =
  sr_text_score :: int
  sr_score :: int
  sr_catalyst :: catalyst
  sr_flags :: u32
  sr_amount_usd :: double
  sr_materiality :: double
  sr_hedges :: int
  sr_promos :: int
  sr_specifics :: int
  sr_matched :: "nat list"

record tally =
  ta_seen :: "(bool \<times> bool) list" \<comment> \<open>per rule: seen in the title, in the body\<close>
  ta_best_w :: int
  ta_best_cat :: catalyst
  ta_spec :: int
  ta_hedge :: int
  ta_promo :: int
  ta_tier1 :: int
  ta_nonbinding :: int
  ta_neg :: int
  ta_flags :: u32
  ta_hedges :: int
  ta_promos :: int
  ta_specifics :: int
  ta_matched :: "nat list"

definition tally0 :: "nat \<Rightarrow> tally" where
  "tally0 n = \<lparr>ta_seen = replicate n (False, False), ta_best_w = 0, ta_best_cat = NoCatalyst, ta_spec = 0, ta_hedge = 0,
     ta_promo = 0, ta_tier1 = 0, ta_nonbinding = 0, ta_neg = 0, ta_flags = 0, ta_hedges = 0, ta_promos = 0, ta_specifics = 0,
     ta_matched = []\<rparr>"

definition wrap16 :: "int \<Rightarrow> int" where
  \<comment> \<open>the counters are \<open>int16_t\<close>\<close>
  "wrap16 x = (x + 32768) mod 65536 - 32768"

definition set_flag :: "u32 \<Rightarrow> tally \<Rightarrow> tally" where
  "set_flag k t = t\<lparr>ta_flags := ta_flags t OR k\<rparr>"

definition apply_rule :: "rule \<Rightarrow> bool \<Rightarrow> bool \<Rightarrow> tally \<Rightarrow> tally" where
  \<comment> \<open>\<open>switch (rule.kind)\<close>\<close>
  "apply_rule r in_title first t =
     (case ru_kind r of
        KCat \<Rightarrow> (let w = ru_weight r + (if in_title then 5 else 0) in
                 if w > ta_best_w t then t\<lparr>ta_best_w := w, ta_best_cat := ru_cat r\<rparr> else t)
      | KSpec \<Rightarrow> (if first then t\<lparr>ta_spec := ta_spec t + ru_weight r, ta_specifics := wrap16 (ta_specifics t + 1)\<rparr> else t)
      | KHedge \<Rightarrow> (if first then set_flag kSfHedged (t\<lparr>ta_hedge := ta_hedge t + ru_weight r, ta_hedges := wrap16 (ta_hedges t + 1)\<rparr>) else t)
      | KPromo \<Rightarrow> (if first then set_flag kSfPromo (t\<lparr>ta_promo := ta_promo t + ru_weight r, ta_promos := wrap16 (ta_promos t + 1)\<rparr>) else t)
      | KTier1 \<Rightarrow> set_flag kSfTier1 (t\<lparr>ta_tier1 := max (ta_tier1 t) (ru_weight r)\<rparr>)
      | KNonBinding \<Rightarrow> set_flag kSfNonBinding (t\<lparr>ta_nonbinding := min (ta_nonbinding t) (ru_weight r)\<rparr>)
      | KDilution \<Rightarrow> set_flag kSfOffering t
      | KDistress \<Rightarrow> set_flag kSfDistress t
      | KRsplit \<Rightarrow> set_flag kSfReverseSplit t
      | KSpam \<Rightarrow> set_flag kSfSpam t
      | KNeg \<Rightarrow> (if first then set_flag kSfNegative (t\<lparr>ta_neg := ta_neg t + ru_weight r\<rparr>) else t)
      | KUnset \<Rightarrow> t)"

definition consider_hit :: "rule list \<Rightarrow> bool \<Rightarrow> nat \<Rightarrow> tally \<Rightarrow> tally" where
  \<comment> \<open>the lambda \<open>consider\<close>: each rule counts once in the title and once in the body\<close>
  "consider_hit rules in_title rid t =
     (let seen = ta_seen t ! rid in
      if (if in_title then fst seen else snd seen) then t
      else let first = (seen = (False, False));
               t = t\<lparr>ta_seen := (ta_seen t)[rid := (if in_title then (True, snd seen) else (fst seen, True))]\<rparr>;
               t = (if first \<and> length (ta_matched t) < 12 then t\<lparr>ta_matched := ta_matched t @ [rid]\<rparr> else t)
           in apply_rule (rules ! rid) in_title first t)"

definition tally_hits :: "rule list \<Rightarrow> nat list \<Rightarrow> nat list \<Rightarrow> tally" where
  "tally_hits rules hits_title hits_body =
     fold (consider_hit rules False) hits_body (fold (consider_hit rules True) hits_title (tally0 (length rules)))"

definition raw_score :: "tally \<Rightarrow> int" where
  "raw_score t = ta_best_w t + min (ta_spec t) 15 + ta_tier1 t + max (ta_hedge t) (- 15) + max (ta_promo t) (- 15) +
     ta_nonbinding t + max (ta_neg t) (- 30)"

definition clamp :: "int \<Rightarrow> int" where
  "clamp s = (if s < 0 then 0 else if s > 100 then 100 else s)"

definition grade :: "tally \<Rightarrow> int \<times> catalyst" where
  \<comment> \<open>the adjustments for reverse splits, distress, offerings and spam\<close>
  "grade t =
     (let fl = ta_flags t;
          s = raw_score t; cat = ta_best_cat t;
          (s, cat) = (if has_flag fl kSfReverseSplit then (s - 20, if ta_best_w t < 40 then ReverseSplit else cat) else (s, cat));
          (s, cat) = (if has_flag fl kSfDistress then (s - 25, if ta_best_w t < 40 then Distress else cat) else (s, cat));
          (s, cat) = (if has_flag fl kSfOffering then (min s 15, Offering) else (s, cat))
      in (if has_flag fl kSfSpam then 0 else s, cat))"

definition score_text :: "scorer \<Rightarrow> string \<Rightarrow> string \<Rightarrow> score_result" where
  "score_text sc title body =
     (let t = tally_hits (sc_rules sc) (scan (sc_auto sc) title) (scan (sc_auto sc) body);
          (s, cat) = grade t;
          (a_title, amt_flags) = extract_amount title 0;
          (a_body, amt_flags) = extract_amount (take 1500 body) amt_flags
      in \<lparr>sr_text_score = clamp s, sr_score = clamp s, sr_catalyst = cat, sr_flags = ta_flags t OR amt_flags,
          sr_amount_usd = max a_title a_body, sr_materiality = 0, sr_hedges = ta_hedges t, sr_promos = ta_promos t,
          sr_specifics = ta_specifics t, sr_matched = ta_matched t\<rparr>)"

definition materiality_points :: "double \<Rightarrow> u32 \<Rightarrow> int" where
  "materiality_points m fl =
     (let pts = (if m \<ge> 1 then 20 else if m \<ge> 3 / 10 then 12 else if m \<ge> 1 / 10 then 6 else if m < 2 / 100 then - 5 else 0)
      in if pts > 0 \<and> has_flag fl kSfUpTo then pts div 2 else pts)"

definition finalize :: "score_result \<Rightarrow> double \<Rightarrow> score_result" where
  "finalize r market_cap =
     (let applies = (sr_catalyst r \<notin> {Offering, Distress, ReverseSplit, MnaAcquirer, NoCatalyst} \<and> \<not> has_flag (sr_flags r) kSfSpam);
          known = (market_cap > 0 \<and> sr_amount_usd r > 0);
          m = (if known then sr_amount_usd r / market_cap else 0);
          pts = (if known \<and> applies then materiality_points m (sr_flags r) else 0)
      in r\<lparr>sr_materiality := m, sr_score := clamp (sr_text_score r + pts)\<rparr>)"

subsection \<open>Bounds of the score\<close>

lemma clamp_range: "0 \<le> clamp s \<and> clamp s \<le> 100"
  by (simp add: clamp_def)

lemma materiality_range: "- 5 \<le> materiality_points m fl \<and> materiality_points m fl \<le> 20"
  by (simp add: materiality_points_def Let_def)

lemma grade_spam: "has_flag (ta_flags t) kSfSpam \<Longrightarrow> fst (grade t) = 0"
  by (auto simp: grade_def Let_def)

lemma grade_offering: "has_flag (ta_flags t) kSfOffering \<Longrightarrow> fst (grade t) \<le> 15 \<and> snd (grade t) = Offering"
  by (auto simp: grade_def Let_def)

lemma flag_or: "has_flag (f OR g) k \<longleftrightarrow> has_flag f k \<or> has_flag g k"
  by (simp add: has_flag_def bit.conj_disj_distrib2) (metis bit.conj_disj_distrib2 or_eq_0_iff)

lemma amount_at_flags: "amount_at t d = Some (a, fl, n) \<Longrightarrow> fl \<in> {0, kSfTamAmount, kSfUpTo}"
  by (auto simp: amount_at_def Let_def split: if_splits prod.splits)

lemma amount_loop_flags:
  assumes "k AND kSfTamAmount = 0" "k AND kSfUpTo = 0"
  shows "has_flag (snd (amount_loop f t pos acc)) k \<longleftrightarrow> has_flag (snd acc) k"
proof (induction f arbitrary: pos acc)
  case (Suc f)
  have "\<not> has_flag fl k" if "amount_at t d = Some (a, fl, n)" for d a fl n
    using amount_at_flags [OF that] assms by (auto simp: has_flag_def and.commute)
  then show ?case using Suc by (auto simp: flag_or split: option.split)
qed simp

lemma score_flag_iff:
  assumes "k \<in> {kSfSpam, kSfOffering}"
  shows "has_flag (sr_flags (score_text sc title body)) k \<longleftrightarrow>
    has_flag (ta_flags (tally_hits (sc_rules sc) (scan (sc_auto sc) title) (scan (sc_auto sc) body))) k"
proof -
  have k: "k AND kSfTamAmount = 0" "k AND kSfUpTo = 0" "\<not> has_flag 0 k" using assms
    by (auto simp: kSfSpam_def kSfOffering_def kSfTamAmount_def kSfUpTo_def has_flag_def)
  show ?thesis using amount_loop_flags [OF k(1,2)] k(3)
    by (simp add: score_text_def extract_amount_def Let_def case_prod_unfold flag_or)
qed

lemma finalize_inert:
  assumes "sr_catalyst r = Offering \<or> has_flag (sr_flags r) kSfSpam" "sr_text_score r = clamp s"
  shows "sr_score (finalize r cap) = sr_text_score r"
  using assms by (auto simp: finalize_def Let_def clamp_def)

lemma score_text_proj:
  "sr_text_score (score_text sc title body) =
     clamp (fst (grade (tally_hits (sc_rules sc) (scan (sc_auto sc) title) (scan (sc_auto sc) body))))"
  "sr_catalyst (score_text sc title body) =
     snd (grade (tally_hits (sc_rules sc) (scan (sc_auto sc) title) (scan (sc_auto sc) body)))"
  by (simp_all add: score_text_def Let_def case_prod_unfold)

lemma finalize_near:
  assumes "sr_text_score r = clamp s"
  shows "\<bar>sr_score (finalize r cap) - sr_text_score r\<bar> \<le> 20"
proof -
  have "\<bar>clamp (clamp s + d) - clamp s\<bar> \<le> 20" if "- 5 \<le> d" "d \<le> 20" for d using that by (auto simp: clamp_def)
  then show ?thesis using assms materiality_range by (simp add: finalize_def Let_def)
qed

lemma finalize_keeps: "sr_catalyst (finalize r cap) = sr_catalyst r" "sr_flags (finalize r cap) = sr_flags r"
  by (simp_all add: finalize_def Let_def)

lemma final_score_ok:
  fixes sc title body cap
  defines "r \<equiv> finalize (score_text sc title body) cap"
  shows "0 \<le> sr_score r \<and> sr_score r \<le> 100 \<and> \<bar>sr_score r - sr_text_score r\<bar> \<le> 20 \<and>
    (has_flag (sr_flags r) kSfSpam \<longrightarrow> sr_score r = 0) \<and>
    (has_flag (sr_flags r) kSfOffering \<longrightarrow> sr_catalyst r = Offering \<and> sr_score r \<le> 15)"
proof -
  let ?r0 = "score_text sc title body"
  let ?t = "tally_hits (sc_rules sc) (scan (sc_auto sc) title) (scan (sc_auto sc) body)"
  note proj = score_text_proj [of sc title body]
  have fin: "sr_text_score r = sr_text_score ?r0" by (simp add: r_def finalize_def Let_def)
  have range: "0 \<le> sr_score r \<and> sr_score r \<le> 100" using clamp_range by (simp add: r_def finalize_def Let_def)
  have spam: "sr_score r = 0" if "has_flag (sr_flags r) kSfSpam"
  proof -
    have f: "has_flag (sr_flags ?r0) kSfSpam" using that by (simp add: r_def finalize_keeps)
    then have "fst (grade ?t) = 0" using score_flag_iff [of kSfSpam sc title body] grade_spam by simp
    then show ?thesis using finalize_inert [OF disjI2 [OF f] proj(1)] proj(1) by (simp add: r_def clamp_def)
  qed
  have off: "sr_catalyst r = Offering \<and> sr_score r \<le> 15" if "has_flag (sr_flags r) kSfOffering"
  proof -
    have "has_flag (sr_flags ?r0) kSfOffering" using that by (simp add: r_def finalize_keeps)
    then have g: "fst (grade ?t) \<le> 15" "snd (grade ?t) = Offering" using score_flag_iff [of kSfOffering sc title body] grade_offering by auto
    then have c: "sr_catalyst ?r0 = Offering" by (simp add: proj)
    then show ?thesis using finalize_inert [OF disjI1 [OF c] proj(1), of cap] proj(1) g(1) by (simp add: r_def finalize_keeps clamp_def)
  qed
  show ?thesis using range spam off finalize_near [OF proj(1), of cap] fin by (simp add: r_def)
qed

end
