(* ===== verification/Phrase_Match.thy ===== *)
theory Phrase_Match
  imports Scorer
begin

unbundle bit_operations_syntax

text \<open>
  The automaton that \<open>Scorer::build\<close> compiles finds the rule phrases: the trie and its words, the
  breadth-first construction of failure links, full transition table and merged outputs, and the scan.
  \<open>scan_ok\<close>: the scan reports a rule exactly when its normalised phrase occurs in the normalised text.

  The search invariant \<open>bfs_inv\<close> says that states are visited level by level, so that the row of the
  failure state is final when a state is visited; \<open>bfs_all_done\<close> shows that one round per state
  is enough to empty the queue.
\<close>

subsection \<open>Longest suffix that is a state\<close>

fun lsp :: "'a list set \<Rightarrow> 'a list \<Rightarrow> 'a list" where
  "lsp P [] = []"
| "lsp P (x # xs) = (if x # xs \<in> P then x # xs else lsp P xs)"

lemma lsp_suffix: "suffix (lsp P w) w"
  by (induction w) (auto intro: suffix_ConsI)

lemma lsp_fixed: "w \<in> P \<Longrightarrow> lsp P w = w"
  by (cases w) auto

lemma lsp_longest: "q \<in> P \<Longrightarrow> suffix q w \<Longrightarrow> suffix q (lsp P w)"
  by (induction w) (auto simp: suffix_Cons)

lemma suffix_antisym: "suffix a b \<Longrightarrow> suffix b a \<Longrightarrow> a = b"
  by (rule suffix_order.antisym)

text \<open>
  A set of words closed under taking prefixes: the states of a trie. Reading one more letter takes the
  longest suffix that is a state to the next, and no word of the set that ends here is lost.
\<close>

locale prefix_states =
  fixes P :: "'a list set"
  assumes nil_state: "[] \<in> P"
    and butlast_state: "u @ [c] \<in> P \<Longrightarrow> u \<in> P"
begin

lemma lsp_state: "lsp P w \<in> P"
  by (induction w) (auto simp: nil_state)

lemma suffix_lsp_iff: "q \<in> P \<Longrightarrow> suffix q (lsp P w) \<longleftrightarrow> suffix q w"
  using lsp_longest lsp_suffix suffix_order.order_trans by metis

lemma prefix_state: "u @ v \<in> P \<Longrightarrow> u \<in> P"
proof (induction v rule: rev_induct)
  case (snoc x v)
  then show ?case using butlast_state [of "u @ v" x] by simp
qed simp

lemma lsp_snoc: "lsp P (w @ [c]) = lsp P (lsp P w @ [c])"
proof (rule suffix_antisym)
  let ?q = "lsp P (w @ [c])"
  have q: "?q \<in> P" "suffix ?q (w @ [c])" by (rule lsp_state, rule lsp_suffix)
  have "suffix ?q (lsp P w @ [c])"
  proof (cases ?q rule: rev_cases)
    case (snoc r x)
    with q have "x = c" "suffix r w" "r \<in> P" by (auto intro: butlast_state)
    with snoc lsp_longest [of r P w] show ?thesis by simp
  qed simp
  then show "suffix ?q (lsp P (lsp P w @ [c]))" using q(1) by (rule lsp_longest [rotated])
next
  have "suffix (lsp P (lsp P w @ [c])) (w @ [c])"
    using lsp_suffix [of P "lsp P w @ [c]"] lsp_suffix [of P w] by (metis same_suffix_suffix suffix_order.order_trans suffix_snoc)
  then show "suffix (lsp P (lsp P w @ [c])) (lsp P (w @ [c]))" by (rule lsp_longest [OF lsp_state])
qed

end

subsection \<open>The trie\<close>

fun follow :: "nat option list list \<Rightarrow> nat \<Rightarrow> nat list \<Rightarrow> nat option" where
  "follow go s [] = Some s"
| "follow go s (c # cs) = (if c < kAlpha then case go ! s ! c of None \<Rightarrow> None | Some t \<Rightarrow> follow go t cs else None)"

text \<open>\<open>lab\<close> names every state by the word that leads to it.\<close>

definition labels :: "nat option list list \<Rightarrow> nat list list \<Rightarrow> bool" where
  "labels go lab \<longleftrightarrow> length lab = length go \<and> 0 < length go \<and> lab ! 0 = [] \<and> distinct lab \<and>
     (\<forall>s < length go. length (go ! s) = kAlpha) \<and>
     (\<forall>s < length go. \<forall>c < kAlpha. \<forall>t. go ! s ! c = Some t \<longleftrightarrow> t < length go \<and> lab ! t = lab ! s @ [c]) \<and>
     (\<forall>u c. u @ [c] \<in> set lab \<longrightarrow> u \<in> set lab \<and> c < kAlpha)"

lemma labels_nth: "labels go lab \<Longrightarrow> s < length go \<Longrightarrow> lab ! s \<in> set lab"
  by (simp add: labels_def)

lemma labels_inj: "labels go lab \<Longrightarrow> s < length go \<Longrightarrow> t < length go \<Longrightarrow> lab ! s = lab ! t \<longleftrightarrow> s = t"
  by (simp add: labels_def nth_eq_iff_index_eq)

lemma labels_go: "labels go lab \<Longrightarrow> s < length go \<Longrightarrow> c < kAlpha \<Longrightarrow> go ! s ! c = Some t \<longleftrightarrow> t < length go \<and> lab ! t = lab ! s @ [c]"
  by (simp add: labels_def)

lemma labels_none: "labels go lab \<Longrightarrow> s < length go \<Longrightarrow> c < kAlpha \<Longrightarrow> go ! s ! c = None \<longleftrightarrow> lab ! s @ [c] \<notin> set lab"
proof -
  assume L: "labels go lab" and s: "s < length go" and c: "c < kAlpha"
  have "lab ! s @ [c] \<in> set lab \<longleftrightarrow> (\<exists>t. go ! s ! c = Some t)"
    using labels_go [OF L s c] L unfolding labels_def by (auto simp: in_set_conv_nth)
  then show ?thesis by auto
qed

definition trie_words :: "nat option list list \<Rightarrow> nat list set" where
  \<comment> \<open>the words that lead from the root to a state\<close>
  "trie_words go = {w. follow go 0 w \<noteq> None}"

lemma follow_append: "follow go s (u @ v) = (case follow go s u of None \<Rightarrow> None | Some t \<Rightarrow> follow go t v)"
  by (induction u arbitrary: s) (auto split: option.split)

interpretation tw: prefix_states "trie_words go" for go
  by unfold_locales (auto simp: trie_words_def follow_append split: option.splits)

lemma labels_follow: "labels go lab \<Longrightarrow> follow go 0 w = Some s \<longleftrightarrow> s < length go \<and> lab ! s = w"
proof (induction w arbitrary: s rule: rev_induct)
  case Nil
  then have "0 < length go" "lab ! 0 = []" by (simp_all add: labels_def)
  then show ?case using labels_inj [OF Nil, of s 0] by auto
next
  case (snoc c u)
  have step: "follow go s [c] = Some t \<longleftrightarrow> c < kAlpha \<and> t < length go \<and> lab ! t = lab ! s @ [c]" if "s < length go" for s t
    using labels_go [OF snoc.prems that, of c t] by (auto split: option.split)
  have pre: "u \<in> set lab \<and> c < kAlpha" if "s < length go" "lab ! s = u @ [c]"
    using snoc.prems that labels_nth [OF snoc.prems that(1)] unfolding labels_def by auto
  show ?case
  proof
    assume "follow go 0 (u @ [c]) = Some s"
    then obtain r where "follow go 0 u = Some r" "follow go r [c] = Some s" by (auto simp: follow_append split: option.splits)
    then show "s < length go \<and> lab ! s = u @ [c]" using snoc.IH [OF snoc.prems, of r] step by auto
  next
    assume s: "s < length go \<and> lab ! s = u @ [c]"
    then obtain r where r: "r < length go" "lab ! r = u" using pre snoc.prems by (auto simp: in_set_conv_nth labels_def)
    then have "follow go 0 u = Some r" using snoc.IH [OF snoc.prems, of r] by simp
    moreover have "follow go r [c] = Some s" using step [OF r(1), of s] r(2) s pre by auto
    ultimately show "follow go 0 (u @ [c]) = Some s" by (simp add: follow_append)
  qed
qed

lemma labels_words: "labels go lab \<Longrightarrow> set lab = trie_words go"
proof -
  assume L: "labels go lab"
  then have "length lab = length go" by (simp add: labels_def)
  then have "w \<in> set lab \<longleftrightarrow> (\<exists>s. follow go 0 w = Some s)" for w
    unfolding labels_follow [OF L] by (auto simp: in_set_conv_nth)
  then show ?thesis by (auto simp: trie_words_def)
qed

lemma labels_states: "labels go lab \<Longrightarrow> prefix_states (set lab)"
  using tw.prefix_states_axioms by (simp add: labels_words)

lemma labels_init: "labels [replicate kAlpha None] [[]]"
  by (auto simp: labels_def)

lemma labels_extend:
  assumes L: "labels go lab" and s: "s < length go" and c: "c < kAlpha" and new: "go ! s ! c = None"
  shows "labels (go[s := (go ! s)[c := Some (length go)]] @ [replicate kAlpha None]) (lab @ [lab ! s @ [c]])"
proof -
  let ?n = "length go" and ?w = "lab ! s @ [c]"
  let ?go = "go[s := (go ! s)[c := Some ?n]] @ [replicate kAlpha None]" and ?lab = "lab @ [?w]"
  have len: "length lab = ?n" and w: "?w \<notin> set lab" using L labels_none [OF L s c] new by (auto simp: labels_def)
  have P: "prefix_states (set lab)" by (rule labels_states [OF L])
  have edge: "?go ! r ! d = Some t \<longleftrightarrow> t < Suc ?n \<and> ?lab ! t = ?lab ! r @ [d]" if r: "r < Suc ?n" and d: "d < kAlpha" for r d t
  proof (cases "r = ?n")
    case True
    have "?lab ! t \<noteq> ?w @ [d]" if t: "t < Suc ?n"
    proof (cases "t = ?n")
      case False
      then have "?lab ! t \<in> set lab" using t len by (simp add: nth_append)
      then show ?thesis using prefix_states.butlast_state [OF P, of ?w d] w by metis
    qed (use len in \<open>simp add: nth_append\<close>)
    with True d len show ?thesis by (auto simp: nth_append)
  next
    case False
    then have r: "r < ?n" using r by simp
    have lr: "?lab ! r = lab ! r" using r len by (simp add: nth_append)
    have inj: "lab ! r = lab ! s \<longleftrightarrow> r = s" by (rule labels_inj [OF L r s])
    have old: "lab ! t \<noteq> ?w" if "t < ?n" using w len that by (metis nth_mem)
    show ?thesis
    proof (cases "r = s \<and> d = c")
      case True
      then show ?thesis using s c L lr old len by (auto simp: nth_append labels_def less_Suc_eq)
    next
      case False
      then have "?go ! r ! d = go ! r ! d" using r s d L by (auto simp: nth_append nth_list_update labels_def)
      moreover have "?w \<noteq> lab ! r @ [d]" using False inj by auto
      ultimately show ?thesis using labels_go [OF L r d] lr len by (auto simp: nth_append less_Suc_eq)
    qed
  qed
  have pre: "u \<in> set ?lab \<and> d < kAlpha" if "u @ [d] \<in> set ?lab" for u d
  proof (cases "u @ [d] = ?w")
    case True
    then show ?thesis using labels_nth [OF L s] c by auto
  next
    case False
    then have "u @ [d] \<in> set lab" using that by auto
    then show ?thesis using L unfolding labels_def by auto
  qed
  have rows: "length (?go ! r) = kAlpha" if "r < Suc ?n" for r
    using that L s by (cases "r = ?n") (auto simp: nth_append nth_list_update labels_def)
  have base: "0 < ?n" "lab ! 0 = []" "distinct lab" using L unfolding labels_def by auto
  show ?thesis unfolding labels_def using len w edge pre rows base by (simp add: nth_append)
qed

lemma trie_walk_ok:
  assumes "labels go lab" "s < length go" "\<forall>c \<in> set cs. c < kAlpha"
  shows "\<exists>go' own' t lab'. trie_walk (go, own) s cs = ((go', own'), t) \<and> labels go' (lab @ lab') \<and> t < length go' \<and>
    (lab @ lab') ! t = lab ! s @ cs \<and> own' = own @ replicate (length lab') []"
  using assms
proof (induction cs arbitrary: go lab own s)
  case Nil
  then show ?case by (intro exI [of _ go] exI [of _ own] exI [of _ s] exI [of _ "[]"]) simp
next
  case (Cons c cs)
  have c: "c < kAlpha" using Cons.prems by simp
  have len: "length lab = length go" using Cons.prems(1) by (simp add: labels_def)
  show ?case
  proof (cases "go ! s ! c")
    case (Some t)
    then have t: "t < length go" "lab ! t = lab ! s @ [c]" using labels_go [OF Cons.prems(1,2) c] by auto
    show ?thesis using Cons.IH [OF Cons.prems(1) t(1), of own] Cons.prems(3) Some t(2) by simp
  next
    case None
    let ?go = "go[s := (go ! s)[c := Some (length go)]] @ [replicate kAlpha None]" and ?lab = "lab @ [lab ! s @ [c]]"
    have L: "labels ?go ?lab" by (rule labels_extend [OF Cons.prems(1,2) c None])
    obtain go' own' t lab' where r: "trie_walk (?go, own @ [[]]) (length go) cs = ((go', own'), t)" "labels go' (?lab @ lab')"
      "t < length go'" "(?lab @ lab') ! t = ?lab ! length go @ cs" "own' = (own @ [[]]) @ replicate (length lab') []"
      using Cons.IH [OF L, of "length go" "own @ [[]]"] Cons.prems(3) by auto
    have "?lab ! length go = lab ! s @ [c]" using len by (simp add: nth_append)
    with r None show ?thesis
      by (intro exI [of _ go'] exI [of _ own'] exI [of _ t] exI [of _ "(lab ! s @ [c]) # lab'"]) simp
  qed
qed

definition ids_at :: "nat list list \<Rightarrow> nat list \<Rightarrow> nat list" where
  \<comment> \<open>the patterns that are the word \<open>u\<close>\<close>
  "ids_at pats u = map cast16 (filter (\<lambda>i. pats ! i = u) [0..<length pats])"

definition trie_ok :: "nat list list \<Rightarrow> trie \<Rightarrow> nat list list \<Rightarrow> bool" where
  "trie_ok pats T lab \<longleftrightarrow> labels (fst T) lab \<and> length (snd T) = length (fst T) \<and> set pats \<subseteq> set lab \<and>
     (\<forall>s < length (fst T). snd T ! s = ids_at pats (lab ! s))"

lemma ids_at_snoc: "ids_at (pats @ [p]) u = ids_at pats u @ (if p = u then [cast16 (length pats)] else [])"
proof -
  have "filter (\<lambda>i. (pats @ [p]) ! i = u) [0..<length pats] = filter (\<lambda>i. pats ! i = u) [0..<length pats]"
    by (rule filter_cong) (auto simp: nth_append)
  then show ?thesis by (simp add: ids_at_def)
qed

lemma ids_at_new: "u \<notin> set pats \<Longrightarrow> ids_at pats u = []"
  by (auto simp: ids_at_def filter_empty_conv)

lemma trie_insert_ok:
  assumes T: "trie_ok pats T lab" and p: "\<forall>c \<in> set p. c < kAlpha"
  shows "\<exists>lab'. trie_ok (pats @ [p]) (trie_insert T (length pats, p)) lab'"
proof -
  obtain go own where go: "T = (go, own)" by (cases T)
  have L: "labels go lab" "length own = length go" "set pats \<subseteq> set lab" "\<forall>s < length go. own ! s = ids_at pats (lab ! s)"
    using T by (simp_all add: trie_ok_def go)
  have n: "0 < length go" "lab ! 0 = []" "length lab = length go" using L(1) by (auto simp: labels_def)
  obtain go' own' t lab' where w: "trie_walk (go, own) 0 p = ((go', own'), t)" "labels go' (lab @ lab')" "t < length go'"
    "(lab @ lab') ! t = p" "own' = own @ replicate (length lab') []"
    using trie_walk_ok [OF L(1) n(1) p, of own] n(2) by auto
  have len: "length (lab @ lab') = length go'" and dist: "distinct (lab @ lab')" using w(2) unfolding labels_def by blast+
  have old: "own' ! s = ids_at pats ((lab @ lab') ! s)" if s: "s < length go'" for s
  proof (cases "s < length go")
    case True
    then show ?thesis using w(5) L(2,4) n(3) by (simp add: nth_append)
  next
    case False
    then have "(lab @ lab') ! s \<in> set lab'" using s len n(3) by (simp add: nth_append)
    then have "(lab @ lab') ! s \<notin> set pats" using dist L(3) by auto
    then show ?thesis using False w(5) L(2) len n(3) s by (simp add: nth_append ids_at_new)
  qed
  have eq: "p = (lab @ lab') ! s \<longleftrightarrow> s = t" if "s < length go'" for s
    using labels_inj [OF w(2) that w(3)] w(4) by metis
  have l': "length own' = length go'" using w(5) L(2) len n(3) by simp
  have "p \<in> set (lab @ lab')" using labels_nth [OF w(2,3)] w(4) by simp
  moreover have "(own'[t := own' ! t @ [cast16 (length pats)]]) ! s = ids_at (pats @ [p]) ((lab @ lab') ! s)"
    if s: "s < length go'" for s
    using old [OF s] eq [OF s] l' w(3) s by (auto simp: ids_at_snoc)
  ultimately have "trie_ok (pats @ [p]) (trie_insert T (length pats, p)) (lab @ lab')"
    using w(1,2) l' L(3) by (auto simp: trie_ok_def trie_insert_def go)
  then show ?thesis by blast
qed

lemma trie_of_snoc: "trie_of (pats @ [p]) = trie_insert (trie_of pats) (length pats, p)"
  by (simp add: trie_of_def)

lemma trie_of_ok: "\<forall>p \<in> set pats. \<forall>c \<in> set p. c < kAlpha \<Longrightarrow> \<exists>lab. trie_ok pats (trie_of pats) lab"
proof (induction pats rule: rev_induct)
  case Nil
  have "trie_ok [] (trie_of []) [[]]" using labels_init by (simp add: trie_ok_def trie_of_def ids_at_def)
  then show ?case by blast
next
  case (snoc p pats)
  then obtain lab where "trie_ok pats (trie_of pats) lab" by auto
  then show ?case unfolding trie_of_snoc using trie_insert_ok snoc.prems by simp
qed

subsection \<open>The breadth-first search\<close>

lemma cast16_small: "n < 65536 \<Longrightarrow> cast16 n = n"
  by (simp add: cast16_def)

lemma flat_index: "c < kAlpha \<Longrightarrow> d < kAlpha \<Longrightarrow> s * kAlpha + c = r * kAlpha + d \<longleftrightarrow> s = r \<and> c = d"
proof -
  assume c: "c < kAlpha" and d: "d < kAlpha"
  have "s = (s * kAlpha + c) div kAlpha" "r = (r * kAlpha + d) div kAlpha" using c d by simp_all
  then show ?thesis by (metis add_left_cancel)
qed

lemma flat_bound: "s < n \<Longrightarrow> c < kAlpha \<Longrightarrow> s * kAlpha + c < n * kAlpha"
  by (simp add: kAlpha_def)

definition kids :: "nat option list list \<Rightarrow> nat \<Rightarrow> nat \<Rightarrow> nat list" where
  \<comment> \<open>the children of \<open>s\<close> by the letters below \<open>k\<close>\<close>
  "kids go s k = List.map_filter (\<lambda>c. go ! s ! c) [0..<k]"

lemma kids_Suc: "kids go s (Suc k) = kids go s k @ (case go ! s ! k of Some t \<Rightarrow> [t] | None \<Rightarrow> [])"
  by (auto simp: kids_def map_filter_def split: option.split)

lemma set_kids: "t \<in> set (kids go s k) \<longleftrightarrow> (\<exists>c < k. go ! s ! c = Some t)"
  by (induction k) (auto simp: kids_Suc less_Suc_eq kids_def map_filter_def split: option.splits)

definition bfs_size :: "nat \<Rightarrow> bfs \<Rightarrow> bool" where
  "bfs_size n b \<longleftrightarrow> length (bf_fail b) = n \<and> length (bf_delta b) = n * kAlpha \<and> length (bf_outs b) = n"

lemma at_delta_upd:
  "bfs_size n b \<Longrightarrow> s < n \<Longrightarrow> c < kAlpha \<Longrightarrow> d < kAlpha \<Longrightarrow>
   bf_delta b' = (bf_delta b)[s * kAlpha + c := x] \<Longrightarrow> at_delta b' r d = (if r = s \<and> d = c then x else at_delta b r d)"
  using flat_bound [of s n c] flat_index [of c d s r] by (auto simp: at_delta_def bfs_size_def nth_list_update)

definition row_of :: "nat option list list \<Rightarrow> nat \<Rightarrow> nat \<Rightarrow> (nat \<Rightarrow> nat) \<Rightarrow> nat" where
  "row_of go s c d = (case go ! s ! c of Some t \<Rightarrow> t | None \<Rightarrow> d c)"

lemma edge_fold:
  assumes L: "labels go lab" and n: "length go < 65536" and s: "s < length go" and b0: "bfs_size (length go) b0"
    and f: "bf_fail b0 ! s \<noteq> s" "f = bf_fail b0 ! s" and k: "k \<le> kAlpha"
  defines "b \<equiv> fold (edge_step go s) [0..<k] b0"
  shows "bfs_size (length go) b \<and> bf_outs b = bf_outs b0 \<and> bf_q b = bf_q b0 @ kids go s k \<and>
    (\<forall>c < k. \<forall>t. go ! s ! c = Some t \<longrightarrow> bf_fail b ! t = at_delta b0 f c) \<and>
    (\<forall>t. t \<notin> set (kids go s k) \<longrightarrow> bf_fail b ! t = bf_fail b0 ! t) \<and>
    (\<forall>r d. d < kAlpha \<longrightarrow> at_delta b r d = (if r = s \<and> d < k then row_of go s d (at_delta b0 f) else at_delta b0 r d))"
  using k unfolding b_def
proof (induction k)
  case 0
  then show ?case using b0 by (simp add: kids_def map_filter_def)
next
  case (Suc k)
  let ?b = "fold (edge_step go s) [0..<k] b0"
  have k: "k < kAlpha" using Suc.prems by simp
  have IH: "bfs_size (length go) ?b" "bf_outs ?b = bf_outs b0" "bf_q ?b = bf_q b0 @ kids go s k"
    "\<forall>c < k. \<forall>t. go ! s ! c = Some t \<longrightarrow> bf_fail ?b ! t = at_delta b0 f c"
    "\<forall>t. t \<notin> set (kids go s k) \<longrightarrow> bf_fail ?b ! t = bf_fail b0 ! t"
    "\<forall>r d. d < kAlpha \<longrightarrow> at_delta ?b r d = (if r = s \<and> d < k then row_of go s d (at_delta b0 f) else at_delta b0 r d)"
    using Suc.IH k by simp_all
  have kid: "t < length go \<and> lab ! t = lab ! s @ [c]" if "go ! s ! c = Some t" "c < kAlpha" for c t
    using labels_go [OF L s that(2), of t] that(1) by simp
  have "s \<notin> set (kids go s k)" using kid k by (force simp: set_kids)
  then have fs: "bf_fail ?b ! s = f" using IH(5) f(2) by simp
  have d: "at_delta ?b f k = at_delta b0 f k" using IH(6) k by simp
  have step: "fold (edge_step go s) [0..<Suc k] b0 = edge_step go s k ?b" by simp
  show ?case
  proof (cases "go ! s ! k")
    case None
    have e: "edge_step go s k ?b = ?b\<lparr>bf_delta := (bf_delta ?b)[s * kAlpha + k := at_delta b0 f k]\<rparr>"
      by (simp add: edge_step_def None fs d)
    have "at_delta (edge_step go s k ?b) r c = (if r = s \<and> c < Suc k then row_of go s c (at_delta b0 f) else at_delta b0 r c)"
      if c: "c < kAlpha" for r c
      using at_delta_upd [OF IH(1) s k c, of "edge_step go s k ?b" "at_delta b0 f k" r] IH(6) c None
      by (auto simp: e row_of_def less_Suc_eq)
    then show ?thesis unfolding step using IH None
      by (auto simp: e kids_Suc bfs_size_def less_Suc_eq)
  next
    case (Some t)
    have t: "t < length go" "cast16 t = t" using kid [OF Some k] n cast16_small [of t] by auto
    have e: "edge_step go s k ?b = ?b\<lparr>bf_fail := (bf_fail ?b)[t := at_delta b0 f k],
        bf_delta := (bf_delta ?b)[s * kAlpha + k := t], bf_q := bf_q ?b @ [t]\<rparr>"
      by (simp add: edge_step_def Some fs d t(2))
    have other: "go ! s ! c \<noteq> Some t" if "c < k" for c
      using kid [OF Some k] kid [of c t] that k by auto
    have "at_delta (edge_step go s k ?b) r c = (if r = s \<and> c < Suc k then row_of go s c (at_delta b0 f) else at_delta b0 r c)"
      if c: "c < kAlpha" for r c
      using at_delta_upd [OF IH(1) s k c, of "edge_step go s k ?b" t r] IH(6) c Some
      by (auto simp: e row_of_def less_Suc_eq)
    moreover have "\<forall>c < Suc k. \<forall>u. go ! s ! c = Some u \<longrightarrow> bf_fail (edge_step go s k ?b) ! u = at_delta b0 f c"
      using IH(1,4) Some other t(1) by (auto simp: e less_Suc_eq bfs_size_def nth_list_update)
    moreover have "\<forall>u. u \<notin> set (kids go s (Suc k)) \<longrightarrow> bf_fail (edge_step go s k ?b) ! u = bf_fail b0 ! u"
      using IH(5) Some by (auto simp: e kids_Suc)
    ultimately show ?thesis unfolding step using IH(1-3) Some by (simp add: e kids_Suc bfs_size_def)
  qed
qed

definition ends_at :: "nat list list \<Rightarrow> nat list \<Rightarrow> nat set" where
  \<comment> \<open>the patterns that end where the word \<open>w\<close> ends\<close>
  "ends_at pats w = {cast16 i | i. i < length pats \<and> suffix (pats ! i) w}"

abbreviation deep :: "nat list list \<Rightarrow> nat \<Rightarrow> nat" where
  "deep lab s \<equiv> length (lab ! s)"

record search =
  se_go :: "nat option list list"
  se_own :: "nat list list"
  se_lab :: "nat list list"
  se_pats :: "nat list list"

definition search_ok :: "search \<Rightarrow> bool" where
  "search_ok S \<longleftrightarrow> trie_ok (se_pats S) (se_go S, se_own S) (se_lab S) \<and> length (se_go S) < 65536"

definition state_done :: "search \<Rightarrow> bfs \<Rightarrow> nat \<Rightarrow> bool" where
  \<comment> \<open>row and outputs of a state are final\<close>
  "state_done S b s \<longleftrightarrow>
     (\<forall>c < kAlpha. at_delta b s c < length (se_go S) \<and> se_lab S ! at_delta b s c = lsp (set (se_lab S)) (se_lab S ! s @ [c])) \<and>
     set (bf_outs b ! s) = ends_at (se_pats S) (se_lab S ! s)"

definition fail_ok :: "search \<Rightarrow> bfs \<Rightarrow> nat \<Rightarrow> bool" where
  "fail_ok S b s \<longleftrightarrow> bf_fail b ! s < length (se_go S) \<and> se_lab S ! (bf_fail b ! s) = lsp (set (se_lab S)) (tl (se_lab S ! s))"

definition order_ok :: "search \<Rightarrow> nat list \<Rightarrow> nat list \<Rightarrow> bool" where
  \<comment> \<open>the visited states \<open>D\<close> and the queue \<open>q\<close> list the states level by level\<close>
  "order_ok S D q \<longleftrightarrow> distinct (D @ q) \<and> set (D @ q) \<subseteq> {..<length (se_go S)} \<and>
     (\<forall>x \<in> set (D @ q). x = 0 \<or> (\<exists>s \<in> set D. x \<in> set (kids (se_go S) s kAlpha))) \<and>
     sorted (map (deep (se_lab S)) q) \<and> (\<forall>x \<in> set q. deep (se_lab S) x \<le> Suc (deep (se_lab S) (hd q))) \<and>
     (\<forall>t < length (se_go S). t \<notin> set (D @ q) \<longrightarrow> (\<exists>p \<in> set q. strict_prefix (se_lab S ! p) (se_lab S ! t)))"

definition bfs_inv :: "search \<Rightarrow> nat list \<Rightarrow> bfs \<Rightarrow> bool" where
  "bfs_inv S D b \<longleftrightarrow> bfs_size (length (se_go S)) b \<and> order_ok S D (bf_q b) \<and> 0 \<in> set D \<and>
     (\<forall>s \<in> set D. state_done S b s) \<and> (\<forall>s \<in> set (D @ bf_q b). s \<noteq> 0 \<longrightarrow> fail_ok S b s)"

lemma search_labels: "search_ok S \<Longrightarrow> labels (se_go S) (se_lab S)"
  by (simp add: search_ok_def trie_ok_def)

lemma search_states: "search_ok S \<Longrightarrow> prefix_states (set (se_lab S))"
  by (rule labels_states [OF search_labels])

lemma order_facts:
  assumes "order_ok S D q"
  shows order_front: "t < length (se_go S) \<Longrightarrow> t \<notin> set (D @ q) \<Longrightarrow> \<exists>p \<in> set q. strict_prefix (se_lab S ! p) (se_lab S ! t)"
    and order_parent: "\<forall>x \<in> set (D @ q). x = 0 \<or> (\<exists>r \<in> set D. x \<in> set (kids (se_go S) r kAlpha))"
    and order_range: "set (D @ q) \<subseteq> {..<length (se_go S)}"
  using assms unfolding order_ok_def by simp_all

lemma kid_iff:
  assumes S: "search_ok S" and s: "s < length (se_go S)"
  shows "t \<in> set (kids (se_go S) s kAlpha) \<longleftrightarrow> t < length (se_go S) \<and> (\<exists>c < kAlpha. se_lab S ! t = se_lab S ! s @ [c])"
  using labels_go [OF search_labels [OF S] s] by (auto simp: set_kids)

lemma shallow_done:
  assumes "order_ok S D q" "q \<noteq> []" "t < length (se_go S)" "deep (se_lab S) t < deep (se_lab S) (hd q)"
  shows "t \<in> set D"
proof (rule ccontr)
  assume "t \<notin> set D"
  have least: "deep (se_lab S) (hd q) \<le> deep (se_lab S) p" if "p \<in> set q" for p
    using assms(1,2) that by (cases q) (auto simp: order_ok_def)
  show False
  proof (cases "t \<in> set q")
    case True
    then show False using least assms(4) by fastforce
  next
    case False
    then obtain p where "p \<in> set q" "strict_prefix (se_lab S ! p) (se_lab S ! t)"
      using \<open>t \<notin> set D\<close> order_front [OF assms(1,3)] by auto
    then show False using least [of p] assms(4) prefix_length_less [of "se_lab S ! p" "se_lab S ! t"] by auto
  qed
qed

lemma order_visit:
  assumes S: "search_ok S" and O: "order_ok S D (s # q)"
  shows "order_ok S (D @ [s]) (q @ kids (se_go S) s kAlpha)"
proof -
  let ?go = "se_go S" and ?lab = "se_lab S" and ?K = "kids (se_go S) s kAlpha"
  note L = search_labels [OF S]
  have s: "s < length ?go" "s \<notin> set D" "s \<notin> set q" using O by (auto simp: order_ok_def)
  have kid: "t \<in> set ?K \<longleftrightarrow> t < length ?go \<and> (\<exists>c < kAlpha. ?lab ! t = ?lab ! s @ [c])" for t by (rule kid_iff [OF S s(1)])
  have dK: "distinct (kids ?go s k)" if "k \<le> kAlpha" for k
    using that
  proof (induction k)
    case (Suc k)
    have "t \<notin> set (kids ?go s k)" if "?go ! s ! k = Some t" for t
    proof
      assume "t \<in> set (kids ?go s k)"
      then obtain c where "c < k" "?go ! s ! c = Some t" by (auto simp: set_kids)
      then show False using that Suc.prems labels_go [OF L s(1), of c t] labels_go [OF L s(1), of k t] by auto
    qed
    then show ?case using Suc by (auto simp: kids_Suc split: option.split)
  qed (simp add: kids_def map_filter_def)
  have new: "t \<notin> set (D @ s # q)" if t: "t \<in> set ?K" for t
  proof
    assume "t \<in> set (D @ s # q)"
    moreover have "t \<noteq> 0"
    proof
      assume "t = 0"
      moreover have "?lab ! 0 = []" using L unfolding labels_def by blast
      ultimately show False using t kid by simp
    qed
    ultimately obtain r where r: "r \<in> set D" "t \<in> set (kids ?go r kAlpha)" using bspec [OF order_parent [OF O]] by auto
    then have "r < length ?go" using order_range [OF O] by auto
    obtain c d where "?lab ! t = ?lab ! s @ [c]" "?lab ! t = ?lab ! r @ [d]"
      using iffD1 [OF kid t] iffD1 [OF kid_iff [OF S \<open>r < _\<close>] r(2)] by blast
    then have "?lab ! r = ?lab ! s" by simp
    then have "r = s" using labels_inj [OF L \<open>r < _\<close> s(1)] by simp
    then show False using r(1) s(2) by simp
  qed
  have depK: "deep ?lab t = Suc (deep ?lab s)" if "t \<in> set ?K" for t using iffD1 [OF kid that] by auto
  have dq: "deep ?lab s \<le> deep ?lab x" "deep ?lab x \<le> Suc (deep ?lab s)" if "x \<in> set q" for x
    using that O by (auto simp: order_ok_def)
  have "map (deep ?lab) ?K = replicate (length ?K) (Suc (deep ?lab s))"
    using depK by (simp add: map_replicate_const [symmetric] cong: map_cong)
  moreover have "sorted (map (deep ?lab) q)" using O by (simp add: order_ok_def)
  ultimately have srt: "sorted (map (deep ?lab) (q @ ?K))"
    using dq by (auto simp: sorted_append)
  have near: "deep ?lab x \<le> Suc (deep ?lab (hd (q @ ?K)))" if "x \<in> set (q @ ?K)" for x
  proof -
    have "deep ?lab s \<le> deep ?lab (hd (q @ ?K))" using that depK dq(1)
      by (metis append_is_Nil_conv empty_iff hd_in_set le_SucI le_refl list.set(1) set_append Un_iff)
    moreover have "deep ?lab x \<le> Suc (deep ?lab s)" using that depK dq(2) by auto
    ultimately show ?thesis by linarith
  qed
  have front: "\<exists>p \<in> set (q @ ?K). strict_prefix (?lab ! p) (?lab ! t)"
    if t: "t < length ?go" "t \<notin> set ((D @ [s]) @ q @ ?K)" for t
  proof -
    obtain p where p: "p \<in> set (s # q)" "strict_prefix (?lab ! p) (?lab ! t)" using order_front [OF O t(1)] t(2) by auto
    show ?thesis
    proof (cases "p = s")
      case True
      then obtain c u where u: "?lab ! t = (?lab ! s @ [c]) @ u" using p(2) by (auto simp: strict_prefix_def prefix_def) (metis append.right_neutral neq_Nil_conv)
      have w: "?lab ! s @ [c] \<in> set ?lab"
        using prefix_states.prefix_state [OF search_states [OF S]] labels_nth [OF L t(1)] u by metis
      then obtain x where x: "x < length ?go" "?lab ! x = ?lab ! s @ [c]" using L by (auto simp: in_set_conv_nth labels_def)
      have "c < kAlpha" using L w unfolding labels_def by blast
      with x have xK: "x \<in> set ?K" using kid by auto
      with t(2) have "x \<noteq> t" by auto
      then have "u \<noteq> []" using u x labels_inj [OF L x(1) t(1)] by auto
      then show ?thesis using xK u x(2) by (intro bexI [of _ x]) (auto simp: strict_prefix_def prefix_def)
    qed (use p in auto)
  qed
  have dis: "distinct ((D @ [s]) @ q @ ?K)" using O new dK [of kAlpha] by (auto simp: order_ok_def)
  have sub: "set ((D @ [s]) @ q @ ?K) \<subseteq> {..<length ?go}" using order_range [OF O] iffD1 [OF kid] by auto
  have par: "\<forall>x \<in> set ((D @ [s]) @ q @ ?K). x = 0 \<or> (\<exists>r \<in> set (D @ [s]). x \<in> set (kids ?go r kAlpha))"
  proof
    fix x assume x: "x \<in> set ((D @ [s]) @ q @ ?K)"
    show "x = 0 \<or> (\<exists>r \<in> set (D @ [s]). x \<in> set (kids ?go r kAlpha))"
      using x bspec [OF order_parent [OF O], of x] by (cases "x \<in> set ?K") auto
  qed
  show ?thesis unfolding order_ok_def
    by (intro conjI ballI allI impI dis sub srt near front bspec [OF par]) auto
qed

lemma ends_at_step:
  assumes S: "search_ok S" and s: "s < length (se_go S)" "s \<noteq> 0"
  shows "set (se_own S ! s) \<union> ends_at (se_pats S) (lsp (set (se_lab S)) (tl (se_lab S ! s))) = ends_at (se_pats S) (se_lab S ! s)"
proof -
  let ?w = "se_lab S ! s" and ?P = "set (se_lab S)"
  note L = search_labels [OF S]
  have "?w \<noteq> []" using labels_inj [OF L s(1), of 0] L s(2) unfolding labels_def by auto
  then obtain x u where w: "?w = x # u" by (cases ?w) auto
  have sub: "set (se_pats S) \<subseteq> ?P" and own: "se_own S ! s = ids_at (se_pats S) ?w"
    using S s(1) by (auto simp: search_ok_def trie_ok_def)
  have "suffix p (lsp ?P u) \<longleftrightarrow> suffix p u" if "p \<in> set (se_pats S)" for p
    using prefix_states.suffix_lsp_iff [OF search_states [OF S]] that sub by blast
  then have "suffix (se_pats S ! i) ?w \<longleftrightarrow> se_pats S ! i = ?w \<or> suffix (se_pats S ! i) (lsp ?P u)" if "i < length (se_pats S)" for i
    using that by (simp add: w suffix_Cons)
  then show ?thesis unfolding own ends_at_def ids_at_def using w by auto
qed

lemma visit_inv:
  assumes S: "search_ok S" and I: "bfs_inv S D (b\<lparr>bf_q := s # q\<rparr>)"
  shows "bfs_inv S (D @ [s]) (visit (se_go S) (se_own S) s (b\<lparr>bf_q := q\<rparr>))"
proof -
  let ?go = "se_go S" and ?lab = "se_lab S" and ?P = "set (se_lab S)" and ?n = "length (se_go S)" and ?f = "bf_fail b ! s"
  note L = search_labels [OF S] and PS = search_states [OF S]
  define b0 where "b0 = b\<lparr>bf_q := q, bf_outs := (bf_outs b)[s := se_own S ! s @ bf_outs b ! ?f]\<rparr>"
  define b' where "b' = fold (edge_step ?go s) [0..<kAlpha] b0"
  have visit: "visit ?go (se_own S) s (b\<lparr>bf_q := q\<rparr>) = b'" by (simp add: visit_def b'_def b0_def)
  have O: "order_ok S D (s # q)" and size: "bfs_size ?n b" and fo: "\<And>r. r \<in> set (D @ s # q) \<Longrightarrow> r \<noteq> 0 \<Longrightarrow> fail_ok S b r"
    and dn: "\<And>r. r \<in> set D \<Longrightarrow> state_done S b r"
    using I by (auto simp: bfs_inv_def bfs_size_def fail_ok_def state_done_def at_delta_def)
  have s: "s < ?n" "s \<notin> set D" "s \<noteq> 0" "s \<notin> set q" using O I by (auto simp: order_ok_def bfs_inv_def)
  have fs: "?f < ?n" "?lab ! ?f = lsp ?P (tl (?lab ! s))" using fo [of s] s by (auto simp: fail_ok_def)
  have ne: "?lab ! s \<noteq> []" using labels_inj [OF L s(1), of 0] L s(3) unfolding labels_def by auto
  have "deep ?lab ?f < deep ?lab s"
    using fs(2) ne suffix_length_le [OF lsp_suffix, of ?P "tl (?lab ! s)"] by (cases "?lab ! s") auto
  then have fD: "?f \<in> set D" using shallow_done [OF O _ fs(1)] by simp
  then have fs': "?f \<noteq> s" using s(2) by auto
  have size0: "bfs_size ?n b0" using size by (simp add: b0_def bfs_size_def)
  have n: "?n < 65536" using S by (simp add: search_ok_def)
  have f0: "bf_fail b0 ! s \<noteq> s" "?f = bf_fail b0 ! s" using fs' by (auto simp: b0_def)
  have d0: "at_delta b0 = at_delta b" by (intro ext) (simp add: b0_def at_delta_def)
  note E0 = edge_fold [OF L n s(1) size0 f0, of kAlpha, folded b'_def, unfolded d0]
  have E: "bfs_size ?n b'" "bf_q b' = q @ kids ?go s kAlpha"
    "\<forall>c < kAlpha. \<forall>t. ?go ! s ! c = Some t \<longrightarrow> bf_fail b' ! t = at_delta b ?f c"
    "\<forall>t. t \<notin> set (kids ?go s kAlpha) \<longrightarrow> bf_fail b' ! t = bf_fail b ! t"
    "\<forall>r d. d < kAlpha \<longrightarrow> at_delta b' r d = (if r = s then row_of ?go s d (at_delta b ?f) else at_delta b r d)"
    using E0 by (auto simp: b0_def)
  have lf: "at_delta b ?f c < ?n" "?lab ! at_delta b ?f c = lsp ?P (tl (?lab ! s) @ [c])" if "c < kAlpha" for c
    using dn [OF fD] that fs(2) prefix_states.lsp_snoc [OF PS] by (auto simp: state_done_def)
  have row: "row_of ?go s c (at_delta b ?f) < ?n \<and> ?lab ! row_of ?go s c (at_delta b ?f) = lsp ?P (?lab ! s @ [c])" if c: "c < kAlpha" for c
  proof (cases "?go ! s ! c")
    case None
    then have "lsp ?P (?lab ! s @ [c]) = lsp ?P (tl (?lab ! s) @ [c])" using labels_none [OF L s(1) c] ne by (cases "?lab ! s") auto
    then show ?thesis using lf [OF c] None by (simp add: row_of_def)
  next
    case (Some t)
    then have t: "t < ?n" "?lab ! t = ?lab ! s @ [c]" using labels_go [OF L s(1) c, of t] by auto
    then have "lsp ?P (?lab ! s @ [c]) = ?lab ! t" using labels_nth [OF L t(1)] lsp_fixed by metis
    then show ?thesis using t(1) Some by (simp add: row_of_def)
  qed
  have outs: "bf_outs b' ! r = (if r = s then se_own S ! s @ bf_outs b ! ?f else bf_outs b ! r)" for r
    using E0 size s(1) by (auto simp: b0_def bfs_size_def nth_list_update)
  have "set (bf_outs b' ! s) = ends_at (se_pats S) (?lab ! s)"
    using ends_at_step [OF S s(1,3)] dn [OF fD] fs(2) by (simp add: state_done_def outs)
  then have new: "state_done S b' s" using E(5) row by (simp add: state_done_def)
  have old: "state_done S b' r" if "r \<in> set D" for r
    using dn [OF that] that s(2) E(5) by (auto simp: state_done_def outs)
  have fail: "fail_ok S b' r" if r: "r \<in> set (D @ s # q @ kids ?go s kAlpha)" "r \<noteq> 0" for r
  proof (cases "r \<in> set (kids ?go s kAlpha)")
    case True
    then obtain c where c: "c < kAlpha" "?go ! s ! c = Some r" by (auto simp: set_kids)
    then have "?lab ! r = ?lab ! s @ [c]" using labels_go [OF L s(1) c(1), of r] by auto
    moreover have "bf_fail b' ! r = at_delta b ?f c" using E(3) c by simp
    ultimately show ?thesis using lf [OF c(1)] ne by (simp add: fail_ok_def)
  next
    case False
    then have "bf_fail b' ! r = bf_fail b ! r" using E(4) by simp
    then show ?thesis using fo [of r] r False by (auto simp: fail_ok_def)
  qed
  show ?thesis unfolding visit bfs_inv_def using E(1,2) order_visit [OF S O] new old fail I by (auto simp: bfs_inv_def)
qed

lemma root_fold:
  assumes L: "labels go lab" and n: "length go < 65536" and k: "k \<le> kAlpha" and b0: "bfs_size (length go) b0" "bf_fail b0 = replicate (length go) 0"
  defines "b \<equiv> fold (root_step go) [0..<k] b0"
  shows "bfs_size (length go) b \<and> bf_fail b = replicate (length go) 0 \<and> bf_outs b = bf_outs b0 \<and> bf_q b = bf_q b0 @ kids go 0 k \<and>
    (\<forall>d < k. at_delta b 0 d = row_of go 0 d (\<lambda>_. 0))"
  using k unfolding b_def
proof (induction k)
  case 0
  then show ?case using b0 by (simp add: kids_def map_filter_def)
next
  case (Suc k)
  let ?b = "fold (root_step go) [0..<k] b0"
  have k: "k < kAlpha" using Suc.prems by simp
  have IH: "bfs_size (length go) ?b" "bf_fail ?b = replicate (length go) 0" "bf_outs ?b = bf_outs b0" "bf_q ?b = bf_q b0 @ kids go 0 k"
    "\<forall>d < k. at_delta ?b 0 d = row_of go 0 d (\<lambda>_. 0)" using Suc.IH k by simp_all
  have pos: "0 < length go" using L by (simp add: labels_def)
  have step: "fold (root_step go) [0..<Suc k] b0 = root_step go k ?b" by simp
  have kk: "cast16 t = t" "t < length go" if "go ! 0 ! k = Some t" for t
    using labels_go [OF L pos k, of t] that n cast16_small [of t] by auto
  have e: "bf_delta (root_step go k ?b) = (bf_delta ?b)[0 * kAlpha + k := row_of go 0 k (\<lambda>_. 0)]"
    using kk by (auto simp: root_step_def row_of_def split: option.split)
  have "at_delta (root_step go k ?b) 0 d = row_of go 0 d (\<lambda>_. 0)" if "d < Suc k" for d
    using at_delta_upd [OF IH(1) pos k _ e, of d 0] IH(5) that k by (auto simp: less_Suc_eq)
  moreover have "(replicate (length go) 0)[t := 0] = replicate (length go) (0::nat)" for t
    by (metis list_update_id list_update_beyond nth_replicate length_replicate not_less)
  ultimately show ?case unfolding step using IH(1-4)
    by (auto simp: root_step_def kids_Suc bfs_size_def split: option.split)
qed

lemma bfs_start_inv:
  assumes S: "search_ok S"
  shows "bfs_inv S [0] (bfs_start (se_go S) (se_own S))"
proof -
  let ?go = "se_go S" and ?lab = "se_lab S" and ?n = "length (se_go S)"
  note L = search_labels [OF S]
  define b0 where "b0 = \<lparr>bf_fail = replicate ?n 0, bf_delta = replicate (?n * kAlpha) 0, bf_outs = replicate ?n [], bf_q = []\<rparr>"
  define b' where "b' = fold (root_step ?go) [0..<kAlpha] b0"
  have n: "?n < 65536" "0 < ?n" "?lab ! 0 = []" using S L by (auto simp: search_ok_def labels_def)
  have E: "bfs_size ?n b'" "bf_fail b' = replicate ?n 0" "bf_outs b' = replicate ?n []" "bf_q b' = kids ?go 0 kAlpha"
    "\<forall>d < kAlpha. at_delta b' 0 d = row_of ?go 0 d (\<lambda>_. 0)"
    using root_fold [OF L n(1), of kAlpha b0] by (simp_all add: b'_def bfs_size_def b0_def)
  have st: "bfs_start ?go (se_own S) = b'\<lparr>bf_outs := (bf_outs b')[0 := se_own S ! 0]\<rparr>"
    by (simp add: bfs_start_def b'_def b0_def Let_def)
  have ne: "?lab ! t \<noteq> []" if "t < ?n" "t \<noteq> 0" for t using labels_inj [OF L that(1) n(2)] n(3) that by auto
  have O0: "order_ok S [] [0]"
  proof -
    have "strict_prefix (?lab ! 0) (?lab ! t)" if "t < ?n" "t \<noteq> 0" for t using ne [OF that] n(3) by (simp add: strict_prefix_def)
    then show ?thesis using n by (auto simp: order_ok_def)
  qed
  have O: "order_ok S [0] (kids ?go 0 kAlpha)" using order_visit [OF S O0] by simp
  have kid: "deep ?lab t = 1" "t < ?n" if "t \<in> set (kids ?go 0 kAlpha)" for t
    using iffD1 [OF kid_iff [OF S n(2)] that] n(3) by auto
  have row: "row_of ?go 0 c (\<lambda>_. 0) < ?n \<and> ?lab ! row_of ?go 0 c (\<lambda>_. 0) = lsp (set ?lab) [c]" if c: "c < kAlpha" for c
  proof (cases "?go ! 0 ! c")
    case None
    then show ?thesis using labels_none [OF L n(2) c] n by (simp add: row_of_def)
  next
    case (Some t)
    then have t: "t < ?n" "?lab ! t = [c]" using labels_go [OF L n(2) c, of t] n(3) by auto
    then have "[c] \<in> set ?lab" using labels_nth [OF L t(1)] by simp
    then show ?thesis using t Some by (simp add: row_of_def)
  qed
  have own: "set (se_own S ! 0) = ends_at (se_pats S) []"
    using S n(2,3) by (auto simp: search_ok_def trie_ok_def ends_at_def ids_at_def)
  have dn0: "state_done S (bfs_start ?go (se_own S)) 0"
    using E row own n(2,3) by (auto simp: state_done_def st at_delta_def bfs_size_def)
  have "fail_ok S (bfs_start ?go (se_own S)) t" if "t \<in> set (kids ?go 0 kAlpha)" for t
  proof -
    have "tl (?lab ! t) = []" "t < ?n" using kid [OF that] by (auto simp: length_Suc_conv)
    then show ?thesis using E(2) n(2,3) by (simp add: fail_ok_def st)
  qed
  then show ?thesis using E(1,4) O dn0 by (auto simp: bfs_inv_def st bfs_size_def)
qed

lemma bfs_loop_inv:
  assumes S: "search_ok S"
  shows "bfs_inv S D b \<Longrightarrow> length D + fuel \<ge> Suc (length (se_go S)) \<Longrightarrow>
    \<exists>D'. bfs_inv S D' (bfs_loop (se_go S) (se_own S) fuel b) \<and> bf_q (bfs_loop (se_go S) (se_own S) fuel b) = []"
proof (induction fuel arbitrary: D b)
  case 0
  have "distinct D" "set D \<subseteq> {..<length (se_go S)}" using 0(1) by (auto simp: bfs_inv_def order_ok_def)
  then have "length D \<le> length (se_go S)" using card_mono [of "{..<length (se_go S)}" "set D"] distinct_card [of D] by simp
  then show ?case using 0(2) by simp
next
  case (Suc fuel)
  show ?case
  proof (cases "bf_q b")
    case Nil
    then show ?thesis using Suc.prems(1) by auto
  next
    case (Cons s q)
    have "b\<lparr>bf_q := s # q\<rparr> = b" using Cons by (cases b) simp
    then have "bfs_inv S D (b\<lparr>bf_q := s # q\<rparr>)" using Suc.prems(1) by simp
    from visit_inv [OF S this] show ?thesis using Suc.IH [of "D @ [s]"] Suc.prems(2) Cons by simp
  qed
qed

lemma bfs_all_done:
  assumes S: "search_ok S"
  defines "b \<equiv> bfs_loop (se_go S) (se_own S) (length (se_go S)) (bfs_start (se_go S) (se_own S))"
  shows "bf_q b = [] \<and> bfs_size (length (se_go S)) b \<and> (\<forall>s < length (se_go S). state_done S b s)"
proof -
  obtain D where D: "bfs_inv S D b" "bf_q b = []"
    using bfs_loop_inv [OF S bfs_start_inv [OF S], of "length (se_go S)"] unfolding b_def by auto
  have "s \<in> set D" if "s < length (se_go S)" for s using D that by (auto simp: bfs_inv_def order_ok_def)
  then show ?thesis using D by (auto simp: bfs_inv_def)
qed

subsection \<open>The compiled tables\<close>

lemma concat_slice:
  "s < length xs \<Longrightarrow> map (\<lambda>k. concat xs ! k) [sum_list (map length (take s xs))..<sum_list (map length (take (Suc s) xs))] = xs ! s"
proof -
  assume s: "s < length xs"
  have c: "concat xs = concat (take s xs) @ xs ! s @ concat (drop (Suc s) xs)"
    by (metis s append_take_drop_id concat.simps(2) concat_append Cons_nth_drop_Suc)
  have n: "sum_list (map length (take s xs)) = length (concat (take s xs))" by (simp add: length_concat)
  have m: "sum_list (map length (take (Suc s) xs)) = length (concat (take s xs)) + length (xs ! s)"
    using s by (simp add: take_Suc_conv_app_nth length_concat)
  show ?thesis unfolding n m by (rule nth_equalityI) (auto simp: c nth_append)
qed

lemma automaton_ok:
  assumes S: "search_ok S" and T: "trie_of pats = (se_go S, se_own S)" "se_pats S = pats"
  defines "a \<equiv> build_automaton pats"
  shows "au_n a = length (se_go S)"
    and "s < length (se_go S) \<Longrightarrow> c < kAlpha \<Longrightarrow> au_delta a ! (s * kAlpha + c) < length (se_go S) \<and>
      se_lab S ! (au_delta a ! (s * kAlpha + c)) = lsp (set (se_lab S)) (se_lab S ! s @ [c])"
    and "s < length (se_go S) \<Longrightarrow> set (emit_hits a s) = ends_at pats (se_lab S ! s)"
proof -
  define b where "b = bfs_loop (se_go S) (se_own S) (length (se_go S)) (bfs_start (se_go S) (se_own S))"
  have B: "bfs_size (length (se_go S)) b" "\<forall>s < length (se_go S). state_done S b s"
    using bfs_all_done [OF S] unfolding b_def by auto
  have a: "a = \<lparr>au_delta = bf_delta b, au_out_begin = map (\<lambda>s. sum_list (map length (take s (bf_outs b)))) [0..<Suc (length (se_go S))],
          au_out_ids = concat (bf_outs b), au_n = length (se_go S)\<rparr>"
    by (simp add: a_def build_automaton_def T b_def Let_def)
  show "au_n a = length (se_go S)" by (simp add: a)
  show "au_delta a ! (s * kAlpha + c) < length (se_go S) \<and>
      se_lab S ! (au_delta a ! (s * kAlpha + c)) = lsp (set (se_lab S)) (se_lab S ! s @ [c])" if "s < length (se_go S)" "c < kAlpha"
    using B(2) that by (simp add: a state_done_def at_delta_def)
  show "set (emit_hits a s) = ends_at pats (se_lab S ! s)" if s: "s < length (se_go S)"
  proof -
    have "emit_hits a s = bf_outs b ! s"
      using concat_slice [of s "bf_outs b"] s B(1) by (simp add: a emit_hits_def bfs_size_def del: upt_Suc)
    then show ?thesis using B(2) s T(2) by (simp add: state_done_def)
  qed
qed

fun feed :: "string \<Rightarrow> bool \<Rightarrow> nat list" where
  \<comment> \<open>the classes the scan reads: runs of separators count once, one separator at the end\<close>
  "feed [] prev_sep = (if prev_sep then [] else [0])"
| "feed (ch # cs) prev_sep =
     (if class_of ch = 0 \<and> prev_sep then feed cs prev_sep else class_of ch # feed cs (class_of ch = 0))"

lemma class_less: "class_of c < kAlpha"
  by (auto simp: class_of_def kAlpha_def)

lemma feed_open: "feed cs False \<noteq> []"
  by (cases cs) auto

lemma feed_last: "feed cs p \<noteq> [] \<Longrightarrow> last (feed cs p) = 0"
proof (induction cs p rule: feed.induct)
  case (2 ch cs p)
  then show ?case using feed_open [of cs] by (cases "class_of ch = 0"; cases p) auto
qed (simp split: if_splits)

lemma scan_loop_ok:
  assumes S: "search_ok S" and T: "trie_of pats = (se_go S, se_own S)" "se_pats S = pats"
  shows "s < length (se_go S) \<Longrightarrow> se_lab S ! s = lsp (set (se_lab S)) w \<Longrightarrow>
    set (scan_loop (build_automaton pats) cs s prev_sep) = (\<Union>u \<in> {u. u \<noteq> [] \<and> prefix u (feed cs prev_sep)}. ends_at pats (w @ u))"
proof (induction cs arbitrary: s w prev_sep)
  have sub: "set pats \<subseteq> set (se_lab S)" using S T(2) by (simp add: search_ok_def trie_ok_def)
  let ?P = "set (se_lab S)" and ?a = "build_automaton pats"
  have step: "au_delta ?a ! (s * kAlpha + c) < length (se_go S) \<and> se_lab S ! (au_delta ?a ! (s * kAlpha + c)) = lsp ?P (w @ [c]) \<and>
      set (emit_hits ?a (au_delta ?a ! (s * kAlpha + c))) = ends_at pats (w @ [c])"
    if "s < length (se_go S)" "se_lab S ! s = lsp ?P w" "c < kAlpha" for s w c
  proof -
    have 1: "au_delta ?a ! (s * kAlpha + c) < length (se_go S)" "se_lab S ! (au_delta ?a ! (s * kAlpha + c)) = lsp ?P (w @ [c])"
      using automaton_ok(2) [OF S T that(1,3)] that(2) prefix_states.lsp_snoc [OF search_states [OF S]] by auto
    have "suffix (pats ! i) (lsp ?P (w @ [c])) \<longleftrightarrow> suffix (pats ! i) (w @ [c])" if "i < length pats" for i
      using prefix_states.suffix_lsp_iff [OF search_states [OF S]] sub nth_mem [OF that] by blast
    then have "ends_at pats (lsp ?P (w @ [c])) = ends_at pats (w @ [c])" by (auto simp: ends_at_def)
    with 1 show ?thesis using automaton_ok(3) [OF S T 1(1)] by simp
  qed
  {
    case Nil
    have k: "0 < kAlpha" by (simp add: kAlpha_def)
    have "{u. u \<noteq> [] \<and> prefix u [0::nat]} = {[0]}" by (auto simp: prefix_Cons)
    then show ?case using step [OF Nil k] by simp
  next
    case (Cons ch cs)
    show ?case
    proof (cases "class_of ch = 0 \<and> prev_sep")
      case True
      then show ?thesis using Cons.IH [OF Cons.prems] by simp
    next
      case False
      let ?c = "class_of ch" and ?t = "au_delta ?a ! (s * kAlpha + class_of ch)"
      note st = step [OF Cons.prems class_less [of ch]]
      have IH: "set (scan_loop ?a cs ?t (?c = 0)) = (\<Union>u \<in> {u. u \<noteq> [] \<and> prefix u (feed cs (?c = 0))}. ends_at pats ((w @ [?c]) @ u))"
        using Cons.IH st by blast
      have pre: "{u. u \<noteq> [] \<and> prefix u (?c # F)} = insert [?c] ((#) ?c ` {u. u \<noteq> [] \<and> prefix u F})" for F
        by (auto simp: prefix_Cons image_iff)
      have "scan_loop ?a (ch # cs) s prev_sep = emit_hits ?a ?t @ scan_loop ?a cs ?t (?c = 0)" using False by (auto simp: Let_def)
      moreover have "feed (ch # cs) prev_sep = ?c # feed cs (?c = 0)" using False by auto
      ultimately show ?thesis using st IH by (simp add: pre)
    qed
  }
qed

subsection \<open>Normalised texts\<close>

definition norm_text :: "string \<Rightarrow> string" where
  \<comment> \<open>lower-case words, each between single blanks\<close>
  "norm_text t = (let n = norm_chars t '' '' in if last n \<noteq> CHR '' '' then n @ '' '' else n)"

definition normal :: "char \<Rightarrow> bool" where
  "normal c \<longleftrightarrow> c = CHR '' '' \<or> (class_of c \<noteq> 0 \<and> to_lower c = c)"

lemma class_blank [simp]: "class_of (CHR '' '') = 0"
  by code_simp

lemma class_lower: "class_of (to_lower c) = class_of c"
proof (cases "65 \<le> code c \<and> code c \<le> 90")
  case True
  then have "code (to_lower c) = code c + 32" by (simp add: to_lower_def code_char_of)
  then show ?thesis using True by (auto simp: class_of_def)
qed (auto simp: to_lower_def)

lemma normal_blank: "normal (CHR '' '')"
  by (simp add: normal_def)

lemma normal_lower: "class_of c \<noteq> 0 \<Longrightarrow> normal (to_lower c) \<and> to_lower c \<noteq> CHR '' ''"
  using class_lower [of c] by (auto simp: normal_def)

lemma normal_code: "normal c \<Longrightarrow> class_of c \<noteq> 0 \<Longrightarrow> class_of c = (if code c \<le> 57 then code c - 47 else code c - 86) \<and> 48 \<le> code c \<and> (code c \<le> 57 \<or> 97 \<le> code c \<and> code c \<le> 122)"
proof -
  assume c: "normal c" "class_of c \<noteq> 0"
  have "\<not> (65 \<le> code c \<and> code c \<le> 90)"
  proof
    assume u: "65 \<le> code c \<and> code c \<le> 90"
    then have "code (to_lower c) = code c + 32" by (simp add: to_lower_def code_char_of)
    then show False using c by (auto simp: normal_def)
  qed
  then show ?thesis using c(2) by (auto simp: class_of_def split: if_splits)
qed

lemma class_inj: "inj_on class_of (Collect normal)"
proof (rule inj_onI)
  fix c d assume a: "c \<in> Collect normal" "d \<in> Collect normal" "class_of c = class_of d"
  show "c = d"
  proof (cases "class_of c = 0")
    case True
    then show ?thesis using a by (auto simp: normal_def)
  next
    case False
    then have "code c = code d" using normal_code [of c] normal_code [of d] a by (auto split: if_splits)
    then show ?thesis by (simp add: code_inject)
  qed
qed

lemma norm_chars_normal: "\<forall>c \<in> set n. normal c \<Longrightarrow> \<forall>c \<in> set (norm_chars cs n). normal c"
proof (induction cs arbitrary: n)
  case (Cons c cs)
  have "\<forall>x \<in> set (if class_of c \<noteq> 0 then n @ [to_lower c] else if last n \<noteq> CHR '' '' then n @ '' '' else n). normal x"
    using Cons.prems normal_lower [of c] normal_blank by auto
  then show ?case unfolding norm_chars.simps by (rule Cons.IH)
qed simp

lemma norm_chars_prefix: "prefix n (norm_chars cs n)"
proof (induction cs arbitrary: n)
  case (Cons c cs)
  show ?case using append_prefixD [OF Cons.IH [of "n @ [to_lower c]"]] append_prefixD [OF Cons.IH [of "n @ '' ''"]] Cons.IH [of n]
    by simp
qed simp

lemma drop_blanks_ok:
  "n \<noteq> [] \<Longrightarrow> drop_blanks n f \<noteq> [] \<and> hd (drop_blanks n f) = hd n \<and> set (drop_blanks n f) \<subseteq> set n"
proof (induction n f rule: drop_blanks.induct)
  case (2 n f)
  have "butlast n \<noteq> [] \<and> hd (butlast n) = hd n" if "length n > 1"
    using that by (cases n rule: rev_cases) (auto simp: hd_append)
  then show ?case using 2 in_set_butlastD by (fastforce split: if_splits)
qed simp

lemma norm_chars_hd: "norm_chars cs '' '' \<noteq> [] \<and> hd (norm_chars cs '' '') = CHR '' ''"
  using norm_chars_prefix [of "'' ''" cs] by (auto simp: prefix_def)

lemma norm_phrase_ok: "norm_phrase p \<noteq> [] \<and> hd (norm_phrase p) = CHR '' '' \<and> (\<forall>c \<in> set (norm_phrase p). normal c)"
proof -
  have ok: "n \<noteq> [] \<and> hd n = CHR '' '' \<and> (\<forall>c \<in> set n. normal c)" if "n = norm_chars q '' ''" for n q
    using that norm_chars_hd [of q] norm_chars_normal [of "'' ''" q] normal_blank by simp
  have db: "drop_blanks n f \<noteq> [] \<and> hd (drop_blanks n f) = CHR '' '' \<and> (\<forall>c \<in> set (drop_blanks n f). normal c)"
    if "n \<noteq> [] \<and> hd n = CHR '' '' \<and> (\<forall>c \<in> set n. normal c)" for n f
    using drop_blanks_ok [of n f] that by auto
  show ?thesis
  proof (cases "p \<noteq> [] \<and> last p = CHR ''*''")
    case True
    then show ?thesis using db [OF ok [OF refl, of "butlast p"]] by (simp add: norm_phrase_def Let_def)
  next
    case False
    then have "norm_phrase p = (let n = norm_chars p '' '' in if last n \<noteq> CHR '' '' then n @ '' '' else n)"
      by (auto simp: norm_phrase_def Let_def)
    then show ?thesis using ok [OF refl, of p] normal_blank by (simp add: Let_def)
  qed
qed

lemma norm_text_feed_aux:
  "n \<noteq> [] \<Longrightarrow> map class_of (let m = norm_chars t n in if last m \<noteq> CHR '' '' then m @ '' '' else m) =
    map class_of n @ feed t (last n = CHR '' '')"
proof (induction t arbitrary: n)
  case (Cons c cs)
  show ?case using Cons.IH [of "n @ [to_lower c]"] Cons.IH [of "n @ '' ''"] Cons.IH [of n] Cons.prems normal_lower [of c]
    by (auto simp: class_lower)
qed simp

lemma norm_text_feed: "map class_of (norm_text t) = 0 # feed t True"
  using norm_text_feed_aux [of "'' ''" t] by (simp add: norm_text_def)

lemma norm_text_normal: "\<forall>c \<in> set (norm_text t). normal c"
  using norm_chars_normal [of "'' ''" t] normal_blank by (simp add: norm_text_def Let_def)

lemma sublist_map_inj: "inj_on f (set xs \<union> set ys) \<Longrightarrow> sublist (map f xs) (map f ys) \<longleftrightarrow> sublist xs ys"
proof
  assume i: "inj_on f (set xs \<union> set ys)" and "sublist (map f xs) (map f ys)"
  then obtain a b where "map f ys = a @ map f xs @ b" by (auto simp: sublist_def)
  then obtain a' x b' where y: "ys = a' @ x @ b'" "map f x = map f xs" by (auto simp: map_eq_append_conv append_eq_map_conv)
  then have "x = xs" using i by (intro map_inj_on [OF y(2)]) (auto elim: inj_on_subset)
  then show "sublist xs ys" using y(1) by (auto simp: sublist_def)
next
  assume "sublist xs ys"
  then obtain a b where "ys = a @ xs @ b" by (auto simp: sublist_def)
  then show "sublist (map f xs) (map f ys)" by simp
qed

lemma sublist_suffix_prefix: "sublist p w \<longleftrightarrow> (\<exists>u. prefix u w \<and> suffix p u)"
proof
  assume "sublist p w"
  then obtain a b where "w = (a @ p) @ b" by (auto simp: sublist_def)
  then show "\<exists>u. prefix u w \<and> suffix p u" by (intro exI [of _ "a @ p"]) (auto simp: prefix_def suffix_def)
next
  assume "\<exists>u. prefix u w \<and> suffix p u"
  then show "sublist p w" by (auto simp: prefix_def suffix_def)
qed

lemma occurs_iff:
  assumes "p \<noteq> []" "hd p = 0" "F \<noteq> [] \<Longrightarrow> last F = 0"
  shows "(\<exists>u. u \<noteq> [] \<and> prefix u F \<and> suffix p (0 # u)) \<longleftrightarrow> F \<noteq> [] \<and> sublist p (0 # F)"
proof
  assume "\<exists>u. u \<noteq> [] \<and> prefix u F \<and> suffix p (0 # u)"
  then obtain u where "u \<noteq> []" "prefix u F" "suffix p (0 # u)" by blast
  then show "F \<noteq> [] \<and> sublist p (0 # F)" unfolding sublist_suffix_prefix by (auto intro: exI [of _ "0 # u"])
next
  assume F: "F \<noteq> [] \<and> sublist p (0 # F)"
  then obtain v where v: "prefix v (0 # F)" "suffix p v" unfolding sublist_suffix_prefix by blast
  then obtain u where u: "v = 0 # u" "prefix u F" using assms(1) by (cases v) auto
  show "\<exists>u. u \<noteq> [] \<and> prefix u F \<and> suffix p (0 # u)"
  proof (cases "u = []")
    case True
    then have "p = [0]" using v u assms(1) by (auto simp: suffix_Cons)
    moreover have "suffix [0] (0 # F)" using F assms(3) by (metis append_butlast_last_id suffixI suffix_ConsI)
    ultimately show ?thesis using F by (intro exI [of _ F]) simp
  qed (use v u in blast)
qed

lemma scan_ok:
  assumes L: "load_rules tsv = Some sc"
  shows "i \<in> set (scan (sc_auto sc) news) \<longleftrightarrow>
    i < length (sc_rules sc) \<and> norm_text news \<noteq> '' '' \<and> sublist (norm_phrase (ru_phrase (sc_rules sc ! i))) (norm_text news)"
proof -
  define rs where "rs = sc_rules sc"
  define pats where "pats = map (map class_of) (map (\<lambda>r. norm_phrase (ru_phrase r)) rs)"
  have sc: "sc_auto sc = build_automaton pats" "int (length rs) < 65535" "int (au_n (sc_auto sc)) < 65535"
    using L by (auto simp: load_rules_def build_def Let_def rs_def pats_def not_le split: if_splits)
  obtain go own where T: "trie_of pats = (go, own)" by (cases "trie_of pats")
  obtain lab where "trie_ok pats (go, own) lab"
    using trie_of_ok [of pats] T by (auto simp: pats_def class_less)
  moreover have "au_n (sc_auto sc) = length go" by (simp add: sc(1) build_automaton_def T Let_def)
  ultimately have S: "search_ok \<lparr>se_go = go, se_own = own, se_lab = lab, se_pats = pats\<rparr>" (is "search_ok ?S")
    using sc(3) by (simp add: search_ok_def)
  have lab: "labels go lab" using search_labels [OF S] by simp
  have n: "0 < length go" "lab ! 0 = []" using lab unfolding labels_def by blast+
  have TT: "trie_of pats = (se_go ?S, se_own ?S)" "se_pats ?S = pats" by (simp_all add: T)
  have k: "0 < kAlpha" by (simp add: kAlpha_def)
  let ?a = "build_automaton pats"
  have s0: "au_delta ?a ! 0 < length go" "lab ! (au_delta ?a ! 0) = lsp (set lab) [0]"
    using automaton_ok(2) [OF S TT, of 0 0] n k by auto
  have "set (scan ?a news) = (\<Union>u \<in> {u. u \<noteq> [] \<and> prefix u (feed news True)}. ends_at pats ([0] @ u))"
    using scan_loop_ok [OF S TT, of "au_delta ?a ! 0" "[0]" news True] s0 n automaton_ok(1) [OF S TT] by (simp add: scan_def)
  then have "i \<in> set (scan ?a news) \<longleftrightarrow> (\<exists>j < length pats. i = cast16 j \<and> (\<exists>u. u \<noteq> [] \<and> prefix u (feed news True) \<and> suffix (pats ! j) (0 # u)))"
    by (auto simp: ends_at_def)
  also have "\<dots> \<longleftrightarrow> i < length pats \<and> (\<exists>u. u \<noteq> [] \<and> prefix u (feed news True) \<and> suffix (pats ! i) (0 # u))"
  proof -
    have "cast16 j = j" if "j < length pats" for j using that sc(2) by (intro cast16_small) (simp add: pats_def)
    then show ?thesis by auto
  qed
  also have "\<dots> \<longleftrightarrow> i < length rs \<and> feed news True \<noteq> [] \<and> sublist (map class_of (norm_phrase (ru_phrase (rs ! i)))) (map class_of (norm_text news))"
  proof -
    have "hd (map class_of (norm_phrase q)) = 0" "norm_phrase q \<noteq> []" for q using norm_phrase_ok [of q] by (auto simp: hd_map)
    then show ?thesis using occurs_iff [of "pats ! i" "feed news True"] feed_last by (auto simp: pats_def norm_text_feed)
  qed
  also have "\<dots> \<longleftrightarrow> i < length rs \<and> norm_text news \<noteq> '' '' \<and> sublist (norm_phrase (ru_phrase (rs ! i))) (norm_text news)"
  proof -
    have "feed news True = [] \<longleftrightarrow> norm_text news = '' ''"
    proof -
      have "feed news True = [] \<longleftrightarrow> length (norm_text news) = 1" using arg_cong [OF norm_text_feed, of length news] by auto
      also have "\<dots> \<longleftrightarrow> norm_text news = '' ''" using norm_chars_hd [of news]
        by (cases "norm_chars news '' ''") (auto simp: norm_text_def Let_def)
      finally show ?thesis .
    qed
    moreover have "inj_on class_of (set (norm_phrase q) \<union> set (norm_text news))" for q
      using norm_phrase_ok [of q] norm_text_normal [of news] by (intro inj_on_subset [OF class_inj]) auto
    ultimately show ?thesis by (simp add: sublist_map_inj)
  qed
  finally show ?thesis by (simp add: sc(1) rs_def)
qed

end
