(* ===== verification/Histogram.thy ===== *)
theory Histogram
  imports Stok_Prelude
begin

unbundle bit_operations_syntax

text \<open>
  \<open>src/core/histogram.hpp\<close>: the log-linear latency histogram. Counters are 64-bit words and wrap; a bucket
  index is a \<open>nat\<close>, and the double arithmetic of \<open>percentile\<close> and \<open>mean\<close> is real arithmetic.

  The lemmas show that the bucket of a value is in range and grows with the value, that its upper bound
  overstates the value by less than a sixteenth, and from this that \<open>percentile\<close> overstates
  the exact percentile by less than a sixteenth.
\<close>

subsection \<open>Model\<close>

definition kSubBits :: nat where
  "kSubBits = 4"

definition kBuckets :: nat where
  "kBuckets = 64 * 2 ^ kSubBits"

record histogram =
  hi_counts :: "u64 list"
  hi_n :: u64
  hi_max :: u64
  hi_min :: u64
  hi_sum :: u64

definition hist_new :: histogram where
  "hist_new = \<lparr>hi_counts = replicate kBuckets 0, hi_n = 0, hi_max = 0, hi_min = NOT 0, hi_sum = 0\<rparr>"

function bit_len :: "int \<Rightarrow> nat" where
  "bit_len i = (if i \<le> 0 then 0 else Suc (bit_len (i div 2)))"
  by pat_completeness auto

termination bit_len
  by (relation "measure nat") auto

definition clzll :: "u64 \<Rightarrow> nat" where
  \<comment> \<open>\<open>__builtin_clzll\<close>: leading zeros of a nonzero word\<close>
  "clzll v = 64 - bit_len (uint v)"

definition hist_index :: "u64 \<Rightarrow> nat" where
  "hist_index v =
     (if v < 2 ^ kSubBits then unat v
      else let msb = 63 - clzll v;
               shift = msb - kSubBits;
               sub = unat (drop_bit shift v AND (2 ^ kSubBits - 1))
           in (shift + 1) * 2 ^ kSubBits + sub)"

definition upper_bound :: "nat \<Rightarrow> u64" where
  "upper_bound idx =
     (if idx < 2 ^ kSubBits then of_nat idx
      else let shift = idx div 2 ^ kSubBits - 1;
               sub = of_nat (idx mod 2 ^ kSubBits)
           in push_bit shift (2 ^ kSubBits OR sub) + (push_bit shift 1 - 1))"

definition hist_record :: "u64 \<Rightarrow> histogram \<Rightarrow> histogram" where
  "hist_record v h = h\<lparr>hi_counts := (hi_counts h)[hist_index v := hi_counts h ! hist_index v + 1], hi_n := hi_n h + 1,
     hi_max := (if v > hi_max h then v else hi_max h), hi_min := (if v < hi_min h then v else hi_min h), hi_sum := hi_sum h + v\<rparr>"

definition hist_count :: "histogram \<Rightarrow> u64" where
  "hist_count h = hi_n h"

definition hist_max :: "histogram \<Rightarrow> u64" where
  "hist_max h = (if hi_n h \<noteq> 0 then hi_max h else 0)"

definition hist_min :: "histogram \<Rightarrow> u64" where
  "hist_min h = (if hi_n h \<noteq> 0 then hi_min h else 0)"

definition hist_mean :: "histogram \<Rightarrow> double" where
  "hist_mean h = (if hi_n h \<noteq> 0 then real (unat (hi_sum h)) / real (unat (hi_n h)) else 0)"

definition hist_target :: "double \<Rightarrow> u64 \<Rightarrow> u64" where
  "hist_target p n = word_of_int \<lfloor>max 1 (p / 100 * real (unat n) + 1 / 2)\<rfloor>"

fun percentile_loop :: "u64 list \<Rightarrow> nat \<Rightarrow> u64 \<Rightarrow> u64 \<Rightarrow> u64 \<Rightarrow> u64" where
  "percentile_loop [] i acc target mx = mx"
| "percentile_loop (c # cs) i acc target mx =
     (if acc + c \<ge> target then min (upper_bound i) mx else percentile_loop cs (i + 1) (acc + c) target mx)"

definition percentile :: "histogram \<Rightarrow> double \<Rightarrow> u64" where
  "percentile h p =
     (if hi_n h = 0 then 0 else percentile_loop (hi_counts h) 0 0 (hist_target p (hi_n h)) (hi_max h))"

definition hist_reset :: "histogram \<Rightarrow> histogram" where
  "hist_reset h = h\<lparr>hi_counts := map (\<lambda>_. 0) (hi_counts h), hi_n := 0, hi_max := 0, hi_min := NOT 0, hi_sum := 0\<rparr>"

definition hist_merge :: "histogram \<Rightarrow> histogram \<Rightarrow> histogram" where
  "hist_merge h o1 = h\<lparr>hi_counts := map2 (+) (hi_counts h) (hi_counts o1), hi_n := hi_n h + hi_n o1, hi_sum := hi_sum h + hi_sum o1,
     hi_max := max (hi_max h) (hi_max o1), hi_min := min (hi_min h) (hi_min o1)\<rparr>"

subsection \<open>Buckets\<close>

lemma unat_bound64: "unat (v :: u64) < 2 ^ 64"
proof -
  have "unat v < 2 ^ LENGTH(64)" by (rule unsigned_less)
  then show ?thesis by simp
qed

lemma unat_of_nat64: "n < 2 ^ 64 \<Longrightarrow> unat (of_nat n :: u64) = n"
  by (simp add: unat_of_nat)

lemma unat_drop_and15: "unat (drop_bit k v AND (15 :: u64)) = unat v div 2 ^ k mod 16"
proof -
  have "(15 :: u64) = mask 4" by (simp add: mask_eq_exp_minus_1)
  then have "unat (drop_bit k v AND 15) = take_bit 4 (unat (drop_bit k v))"
    by (simp only: take_bit_eq_mask [symmetric] unsigned_take_bit_eq)
  also have "unat (drop_bit k v) = drop_bit k (unat v)" using unat_bound64 [of v]
    by (simp only: unsigned_drop_bit_eq) (simp add: take_bit_nat_eq_self)
  finally show ?thesis by (simp add: take_bit_eq_mod drop_bit_eq_div)
qed

lemma round_up_bounds: "A \<le> n \<Longrightarrow> n < A + P \<Longrightarrow> 16 * P \<le> n \<Longrightarrow> n \<le> A + P - 1 \<and> 16 * (A + P - 1 - n) \<le> n" for n :: nat
  by linarith

declare bit_len.simps [simp del]

lemma bit_len_bounds: "0 < i \<Longrightarrow> 0 < bit_len i \<and> 2 ^ (bit_len i - 1) \<le> i \<and> i < 2 ^ bit_len i"
proof (induction i rule: bit_len.induct)
  case (1 i)
  show ?case
  proof (cases "i = 1")
    case True
    then show ?thesis by (simp add: bit_len.simps [of 1] bit_len.simps [of 0])
  next
    case False
    then have h: "0 < i div 2" "bit_len i = Suc (bit_len (i div 2))" using 1(2) bit_len.simps [of i] by auto
    then have b: "0 < bit_len (i div 2)" "2 ^ (bit_len (i div 2) - 1) \<le> i div 2" "i div 2 < 2 ^ bit_len (i div 2)"
      using 1 by auto
    obtain k where k: "bit_len (i div 2) = Suc k" using b(1) by (cases "bit_len (i div 2)") auto
    have "2 * (i div 2) \<le> i" "i < 2 * (i div 2) + 2" by linarith+
    moreover have "2 * 2 ^ k \<le> 2 * (i div 2)" "2 * (i div 2) + 2 \<le> 2 * 2 ^ Suc k" using b(2,3) k by simp_all
    ultimately have "2 ^ Suc k \<le> i" "i < 2 ^ Suc (Suc k)" by (simp_all only: power_Suc)
    then show ?thesis using h(2) k by simp
  qed
qed

definition level_of :: "nat \<Rightarrow> nat" where
  \<comment> \<open>the shift of a value of at least 16\<close>
  "level_of n = bit_len (int n) - 5"

lemma level_bounds: "16 \<le> n \<Longrightarrow> 16 * 2 ^ level_of n \<le> n \<and> n < 32 * 2 ^ level_of n"
proof -
  assume n: "16 \<le> n"
  have b: "2 ^ (bit_len (int n) - 1) \<le> int n" "int n < 2 ^ bit_len (int n)" using bit_len_bounds [of "int n"] n by auto
  have "5 \<le> bit_len (int n)"
  proof (rule ccontr)
    assume "\<not> 5 \<le> bit_len (int n)"
    then have "(2::int) ^ bit_len (int n) \<le> 2 ^ 4" by (intro power_increasing) auto
    then show False using b(2) n by simp
  qed
  then obtain k where k: "bit_len (int n) = k + 5" by (metis add.commute le_Suc_ex)
  have "bit_len (int n) - 1 = k + 4" using k by simp
  then have "(2::int) ^ (k + 4) \<le> int n" "int n < 2 ^ (k + 5)" using b unfolding k by (simp_all only:)
  then have "(2::int) ^ (k + 4) \<le> int n" "int n < 2 ^ (k + 5)" "(2::int) ^ (k + 4) = int (16 * 2 ^ k)" "(2::int) ^ (k + 5) = int (32 * 2 ^ k)"
    by (simp_all add: power_add)
  then have "16 * 2 ^ k \<le> n" "n < 32 * 2 ^ k" by linarith+
  then show ?thesis by (simp add: level_of_def k)
qed

lemma div_level: "16 \<le> n \<Longrightarrow> 16 \<le> n div 2 ^ level_of n \<and> n div 2 ^ level_of n < 32"
  using level_bounds [of n] by (simp add: less_eq_div_iff_mult_less_eq div_less_iff_less_mult)

lemma level_mono: "16 \<le> m \<Longrightarrow> m \<le> n \<Longrightarrow> level_of m \<le> level_of n"
proof (rule ccontr)
  assume a: "16 \<le> m" "m \<le> n" "\<not> level_of m \<le> level_of n"
  then have "(2::nat) ^ Suc (level_of n) \<le> 2 ^ level_of m" by (intro power_increasing) auto
  then have "32 * 2 ^ level_of n \<le> (16::nat) * 2 ^ level_of m" by simp
  then show False using level_bounds [of m] level_bounds [of n] a by linarith
qed

lemma hist_index_nat:
  "hist_index v = (if unat v < 16 then unat v else level_of (unat v) * 16 + unat v div 2 ^ level_of (unat v))"
proof (cases "unat v < 16")
  case True
  then have "v < 16" by (simp add: word_less_nat_alt)
  then show ?thesis using True by (simp add: hist_index_def kSubBits_def)
next
  case False
  let ?n = "unat v" and ?k = "level_of (unat v)"
  have big: "\<not> v < 16" using False by (simp add: word_less_nat_alt)
  have bl: "0 < bit_len (int ?n)" "2 ^ (bit_len (int ?n) - 1) \<le> int ?n" using bit_len_bounds [of "int ?n"] False by linarith+
  have "bit_len (int ?n) \<le> 64"
  proof (rule ccontr)
    assume "\<not> bit_len (int ?n) \<le> 64"
    then have "(2::int) ^ 64 \<le> 2 ^ (bit_len (int ?n) - 1)" by (intro power_increasing) auto
    moreover have "int ?n < 2 ^ 64" using uint_bounded [of v] by simp
    ultimately show False using bl(2) by linarith
  qed
  then have sh: "63 - clzll v - kSubBits = ?k" using bl(1) by (simp add: clzll_def level_of_def kSubBits_def)
  have "unat (drop_bit ?k v AND 15) = (?n div 2 ^ ?k) mod 16" by (rule unat_drop_and15)
  moreover have "(?n div 2 ^ ?k) mod 16 + 16 = ?n div 2 ^ ?k"
  proof -
    have d: "16 \<le> ?n div 2 ^ ?k" "?n div 2 ^ ?k < 32" using div_level [of ?n] False by auto
    then have "(?n div 2 ^ ?k) mod 16 = ?n div 2 ^ ?k - 16" by (simp add: mod_if)
    then show ?thesis using d by simp
  qed
  ultimately show ?thesis using False big sh by (simp add: hist_index_def kSubBits_def Let_def)
qed

lemma hist_index_mono: "v \<le> w \<Longrightarrow> hist_index v \<le> hist_index w"
proof -
  assume vw: "v \<le> w"
  let ?m = "unat v" and ?n = "unat w"
  have mn: "?m \<le> ?n" using vw by (simp add: word_le_nat_alt)
  show ?thesis
  proof (cases "?m < 16")
    case True
    then show ?thesis using mn div_level [of ?n] by (auto simp: hist_index_nat not_less)
  next
    case False
    have d: "16 \<le> ?m div 2 ^ level_of ?m" "?m div 2 ^ level_of ?m < 32" "16 \<le> ?n div 2 ^ level_of ?n"
      using div_level [of ?m] div_level [of ?n] False mn by auto
    have l: "level_of ?m \<le> level_of ?n" using level_mono [of ?m ?n] False mn by simp
    have "level_of ?m * 16 + ?m div 2 ^ level_of ?m \<le> level_of ?n * 16 + ?n div 2 ^ level_of ?n"
    proof (cases "level_of ?m = level_of ?n")
      case True
      then show ?thesis using mn div_le_mono [of ?m ?n "2 ^ level_of ?n"] by simp
    next
      case False
      then show ?thesis using l d by linarith
    qed
    then show ?thesis using False mn by (simp add: hist_index_nat)
  qed
qed

lemma level_max: "unat (v :: u64) \<ge> 16 \<Longrightarrow> level_of (unat v) < 60"
proof (rule ccontr)
  assume a: "unat v \<ge> 16" "\<not> level_of (unat v) < 60"
  then have "(2::nat) ^ 60 \<le> 2 ^ level_of (unat v)" by (intro power_increasing) auto
  then have "2 ^ 64 \<le> unat v" using level_bounds [OF a(1)] by simp
  then show False using unat_bound64 [of v] by simp
qed

lemma hist_index_less: "hist_index v < kBuckets"
  using level_max [of v] div_level [of "unat v"] by (auto simp: hist_index_nat kBuckets_def kSubBits_def not_less)

lemma upper_bound_nat:
  assumes "16 \<le> a" "a < 32" "(a + 1) * 2 ^ k \<le> 2 ^ 64"
  shows "unat (upper_bound (k * 16 + a)) = (a + 1) * 2 ^ k - 1"
proof -
  have k: "k < 64"
  proof (rule ccontr)
    assume "\<not> k < 64"
    then have "(2::nat) ^ 64 \<le> 2 ^ k" by (intro power_increasing) auto
    moreover have "17 * 2 ^ k \<le> (a + 1) * 2 ^ k" using assms(1) by (intro mult_right_mono) auto
    ultimately have "17 * (2::nat) ^ 64 \<le> 2 ^ 64" using assms(3) by linarith
    then show False by simp
  qed
  have "k * 16 + a = (a - 16) + Suc k * 16" using assms(1) by simp
  then have "(k * 16 + a) div 16 = Suc k + (a - 16) div 16" "(k * 16 + a) mod 16 = (a - 16) mod 16"
    by (simp_all only: div_mult_self1 mod_mult_self1)
  then have idx: "(k * 16 + a) div 16 - 1 = k" "(k * 16 + a) mod 16 = a - 16" using assms(2) by simp_all
  have "a - 16 < 16" using assms by simp
  then have "\<forall>b < 16::nat. (16 :: u64) OR of_nat b = of_nat (16 + b) \<Longrightarrow> (16 :: u64) OR of_nat (a - 16) = of_nat (16 + (a - 16))"
    by blast
  moreover have "\<forall>b < 16::nat. (16 :: u64) OR of_nat b = of_nat (16 + b)" by code_simp
  ultimately have o: "(16 :: u64) OR of_nat (a - 16) = of_nat a" using assms(1) by simp
  have "upper_bound (k * 16 + a) = push_bit k (of_nat a) + (push_bit k 1 - 1)"
  proof -
    have pow: "(2::nat) ^ 4 = 16" "(2::u64) ^ 4 = 16" and big: "(k * 16 + a < 16) = False" using assms(1) by simp_all
    show ?thesis by (simp only: upper_bound_def kSubBits_def Let_def pow big if_False idx o)
  qed
  also have "\<dots> = of_nat (a * 2 ^ k) + (of_nat (2 ^ k) - 1)" by (simp add: push_bit_eq_mult)
  also have "\<dots> = of_nat ((a + 1) * 2 ^ k - 1)"
  proof -
    have "(of_nat ((a + 1) * 2 ^ k - 1) :: u64) = of_nat ((a + 1) * 2 ^ k) - of_nat 1"
      by (rule of_nat_diff) (metis One_nat_def Suc_leI add_gr_0 nat_0_less_mult_iff zero_less_numeral zero_less_one zero_less_power)
    then show ?thesis by (simp add: algebra_simps)
  qed
  finally show ?thesis using assms(3) by (simp add: unat_of_nat64)
qed

lemma upper_bound_index:
  "unat v \<le> unat (upper_bound (hist_index v)) \<and> 16 * (unat (upper_bound (hist_index v)) - unat v) \<le> unat v"
proof (cases "unat v < 16")
  case True
  then have "hist_index v = unat v" "upper_bound (unat v) = v" by (simp_all add: hist_index_nat upper_bound_def kSubBits_def)
  then show ?thesis by simp
next
  case False
  let ?n = "unat v" and ?k = "level_of (unat v)" and ?a = "unat v div 2 ^ level_of (unat v)"
  have a: "16 \<le> ?a" "?a < 32" using div_level [of ?n] False by auto
  have ub: "?a * 2 ^ ?k \<le> ?n" "?n < (?a + 1) * 2 ^ ?k" using dividend_less_div_times [of "2 ^ ?k" ?n]
    by (simp_all add: algebra_simps)
  have fits: "(?a + 1) * 2 ^ ?k \<le> 2 ^ 64"
  proof -
    have k: "?k \<le> 64" using level_max [of v] False by simp
    have "?n < 2 ^ (64 - ?k) * 2 ^ ?k" using unat_bound64 [of v] k by (simp add: power_add [symmetric])
    then have "?a < 2 ^ (64 - ?k)" by (simp add: div_less_iff_less_mult)
    then have "(?a + 1) * 2 ^ ?k \<le> 2 ^ (64 - ?k) * 2 ^ ?k" by (intro mult_right_mono) auto
    then show ?thesis using k by (simp add: power_add [symmetric])
  qed
  have "hist_index v = ?k * 16 + ?a" using False by (simp add: hist_index_nat)
  then have u: "unat (upper_bound (hist_index v)) = (?a + 1) * 2 ^ ?k - 1" using upper_bound_nat [OF a fits] by simp
  have "16 * 2 ^ ?k \<le> ?n" using level_bounds [of ?n] False by simp
  from round_up_bounds [OF ub(1) _ this] ub(2) show ?thesis unfolding u by (simp add: algebra_simps)
qed

subsection \<open>Percentiles\<close>

definition hist_of :: "u64 list \<Rightarrow> histogram" where
  "hist_of xs = fold hist_record xs hist_new"

definition in_bucket :: "u64 list \<Rightarrow> nat \<Rightarrow> nat" where
  "in_bucket xs i = length (filter (\<lambda>v. hist_index v = i) xs)"

definition below_bucket :: "u64 list \<Rightarrow> nat \<Rightarrow> nat" where
  "below_bucket xs i = length (filter (\<lambda>v. hist_index v < i) xs)"

lemma below_Suc: "below_bucket xs (Suc i) = below_bucket xs i + in_bucket xs i"
  by (induction xs) (auto simp: below_bucket_def in_bucket_def less_Suc_eq)

lemma hist_of_fields:
  "length (hi_counts (hist_of xs)) = kBuckets \<and> (\<forall>i < kBuckets. hi_counts (hist_of xs) ! i = of_nat (in_bucket xs i)) \<and>
   hi_n (hist_of xs) = of_nat (length xs) \<and> hi_max (hist_of xs) = fold max xs 0 \<and> hi_min (hist_of xs) = fold min xs (NOT 0) \<and>
   hi_sum (hist_of xs) = sum_list xs"
proof (induction xs rule: rev_induct)
  case Nil
  then show ?case by (simp add: hist_of_def hist_new_def in_bucket_def)
next
  case (snoc x xs)
  have e: "hist_of (xs @ [x]) = hist_record x (hist_of xs)" by (simp add: hist_of_def)
  show ?case using snoc hist_index_less [of x]
    by (auto simp: e hist_record_def in_bucket_def nth_list_update max_def min_def)
qed

lemma fold_max_start: "fold max xs m = max m (fold max xs 0)" for m :: u64
proof (induction xs arbitrary: m)
  case (Cons y ys)
  show ?case using Cons.IH [of "max y m"] Cons.IH [of y] by (simp add: ac_simps)
qed simp

lemma fold_min_start: "fold min xs m = min m (fold min xs (NOT 0))" for m :: u64
proof (induction xs arbitrary: m)
  case Nil
  show ?case by (simp add: min_def)
next
  case (Cons y ys)
  have "min y (NOT 0) = y" by (simp add: min_def)
  then show ?case using Cons.IH [of "min y m"] Cons.IH [of y] by (simp add: ac_simps)
qed

lemma fold_max_ge: "x \<in> set xs \<Longrightarrow> x \<le> fold max xs 0" for x :: u64
proof (induction xs)
  case (Cons y ys)
  then show ?case using fold_max_start [of ys y] by (auto simp: le_max_iff_disj)
qed simp

lemma sorted_filter_nth:
  "sorted ys \<Longrightarrow> (\<And>x y. x \<le> y \<Longrightarrow> P y \<Longrightarrow> P x) \<Longrightarrow> j < length ys \<Longrightarrow> P (ys ! j) \<longleftrightarrow> j < length (filter P ys)"
proof (induction ys arbitrary: j)
  case (Cons y ys)
  show ?case
  proof (cases "P y")
    case True
    then show ?thesis using Cons by (cases j) auto
  next
    case False
    then have "\<forall>x \<in> set (y # ys). \<not> P x" using Cons.prems by auto
    then show ?thesis using Cons.prems(3) nth_mem [of j "y # ys"] by (auto simp: filter_empty_conv)
  qed
qed simp

definition exact_percentile :: "u64 list \<Rightarrow> nat \<Rightarrow> u64" where
  \<comment> \<open>the \<open>t\<close>-th smallest value\<close>
  "exact_percentile xs t = sort xs ! (t - 1)"

lemma below_bucket_iff:
  assumes "0 < t" "t \<le> length xs"
  shows "t \<le> below_bucket xs i \<longleftrightarrow> hist_index (exact_percentile xs t) < i"
proof -
  have "length (filter (\<lambda>v. hist_index v < i) (sort xs)) = below_bucket xs i"
    by (metis below_bucket_def mset_filter mset_sort size_mset)
  moreover have "hist_index x < i" if "x \<le> y" "hist_index y < i" for x y using hist_index_mono [OF that(1)] that(2) by simp
  ultimately have "hist_index (sort xs ! (t - 1)) < i \<longleftrightarrow> t - 1 < below_bucket xs i"
    using sorted_filter_nth [of "sort xs" "\<lambda>v. hist_index v < i" "t - 1"] assms by simp
  then show ?thesis using assms(1) unfolding exact_percentile_def by linarith
qed

lemma percentile_loop_ok:
  assumes n: "length xs < 2 ^ 64" and t: "0 < t" "t \<le> length xs"
  shows "i \<le> hist_index (exact_percentile xs t) \<Longrightarrow>
    percentile_loop (drop i (hi_counts (hist_of xs))) i (of_nat (below_bucket xs i)) (of_nat t) mx =
      min (upper_bound (hist_index (exact_percentile xs t))) mx"
proof (induction "hist_index (exact_percentile xs t) - i" arbitrary: i)
  have le: "below_bucket xs j \<le> length xs" for j by (simp add: below_bucket_def)
  have step: "percentile_loop (drop i (hi_counts (hist_of xs))) i (of_nat (below_bucket xs i)) (of_nat t) mx =
      (if i = hist_index (exact_percentile xs t) then min (upper_bound i) mx
       else percentile_loop (drop (Suc i) (hi_counts (hist_of xs))) (Suc i) (of_nat (below_bucket xs (Suc i))) (of_nat t) mx)"
    if i: "i \<le> hist_index (exact_percentile xs t)" for i
  proof -
    have k: "i < kBuckets" using i hist_index_less le_less_trans by blast
    then have d: "drop i (hi_counts (hist_of xs)) = of_nat (in_bucket xs i) # drop (Suc i) (hi_counts (hist_of xs))"
      using hist_of_fields [of xs] by (simp add: Cons_nth_drop_Suc [symmetric])
    have c: "of_nat t \<le> (of_nat (below_bucket xs (Suc i)) :: u64) \<longleftrightarrow> t \<le> below_bucket xs (Suc i)"
      using n t(2) le [of "Suc i"] by (simp add: word_le_nat_alt unat_of_nat64)
    have "t \<le> below_bucket xs (Suc i) \<longleftrightarrow> i = hist_index (exact_percentile xs t)"
      using below_bucket_iff [OF t, of "Suc i"] i by auto
    then show ?thesis using c by (simp add: d below_Suc)
  qed
  {
    case 0
    then show ?case using step [OF 0(2)] by simp
  next
    case (Suc k)
    then show ?case using step [OF Suc(3)] Suc(1) [of "Suc i"] Suc(2) by simp
  }
qed

lemma hist_target_ok:
  assumes "0 \<le> p" "p \<le> 100" "n < 2 ^ 64" "0 < n"
  shows "\<exists>t. hist_target p (of_nat n) = of_nat t \<and> 0 < t \<and> t \<le> n \<and> t = nat \<lfloor>max 1 (p / 100 * real n + 1 / 2)\<rfloor>"
proof -
  let ?r = "max 1 (p / 100 * real n + 1 / 2)"
  have un: "unat (of_nat n :: u64) = n" using assms(3) by (simp add: unat_of_nat64)
  have "p / 100 * real n \<le> 1 * real n" using assms(2) by (intro mult_right_mono) auto
  then have "p / 100 * real n + 1 / 2 < real n + 1" "1 < real n + 1" using assms(4) by linarith+
  then have r: "1 \<le> ?r" "?r < real n + 1" by (simp_all only: max_less_iff_conj max.cobounded1)
  then have f: "1 \<le> \<lfloor>?r\<rfloor>" "\<lfloor>?r\<rfloor> \<le> int n" by (auto simp: le_floor_iff floor_le_iff)
  have "hist_target p (of_nat n) = word_of_int \<lfloor>?r\<rfloor>" by (simp add: hist_target_def un)
  also have "\<dots> = of_nat (nat \<lfloor>?r\<rfloor>)" using f(1) by simp
  finally show ?thesis using f by (intro exI [of _ "nat \<lfloor>?r\<rfloor>"]) auto
qed

lemma percentile_ok:
  assumes p: "0 \<le> p" "p \<le> 100" and n: "length xs < 2 ^ 64" "xs \<noteq> []"
  defines "x \<equiv> exact_percentile xs (nat \<lfloor>max 1 (p / 100 * real (length xs) + 1 / 2)\<rfloor>)"
  shows "x \<in> set xs \<and> x \<le> percentile (hist_of xs) p \<and> percentile (hist_of xs) p \<le> fold max xs 0 \<and>
    16 * (unat (percentile (hist_of xs) p) - unat x) \<le> unat x"
proof -
  have pos: "0 < length xs" using n(2) by simp
  obtain t where t: "hist_target p (of_nat (length xs)) = of_nat t" "0 < t" "t \<le> length xs" "x = exact_percentile xs t"
    using hist_target_ok [OF p n(1) pos] unfolding x_def by metis
  have "(of_nat (length xs) :: u64) \<noteq> 0"
  proof
    assume "(of_nat (length xs) :: u64) = 0"
    then have "unat (of_nat (length xs) :: u64) = 0" by (simp only: unat_0)
    then show False using unat_of_nat64 [OF n(1)] n(2) by simp
  qed
  then have "percentile (hist_of xs) p = percentile_loop (drop 0 (hi_counts (hist_of xs))) 0 (of_nat (below_bucket xs 0)) (of_nat t) (fold max xs 0)"
    using hist_of_fields [of xs] t(1) by (simp add: percentile_def below_bucket_def)
  also have "\<dots> = min (upper_bound (hist_index x)) (fold max xs 0)" unfolding t(4) by (rule percentile_loop_ok [OF n(1) t(2,3)]) simp
  finally have e: "percentile (hist_of xs) p = min (upper_bound (hist_index x)) (fold max xs 0)" .
  have "x \<in> set (sort xs)" unfolding t(4) exact_percentile_def using t(2,3) by (intro nth_mem) simp
  then have x: "x \<in> set xs" by simp
  have ub: "x \<le> upper_bound (hist_index x)" "16 * (unat (upper_bound (hist_index x)) - unat x) \<le> unat x"
    using upper_bound_index [of x] by (auto simp: word_le_nat_alt)
  have "unat (min (upper_bound (hist_index x)) (fold max xs 0)) \<le> unat (upper_bound (hist_index x))" by (simp add: word_le_nat_alt [symmetric])
  then show ?thesis using x ub fold_max_ge [OF x] by (auto simp: e intro: order_trans [OF _ ub(2)])
qed

lemma merge_ok: "hist_merge (hist_of xs) (hist_of ys) = hist_of (xs @ ys)"
proof -
  note X = hist_of_fields [of xs] and Y = hist_of_fields [of ys] and Z = hist_of_fields [of "xs @ ys"]
  have c: "map2 (+) (hi_counts (hist_of xs)) (hi_counts (hist_of ys)) = hi_counts (hist_of (xs @ ys))"
    using X Y Z by (intro nth_equalityI) (auto simp: in_bucket_def)
  show ?thesis using X Y Z c fold_max_start [of ys "fold max xs 0"] fold_min_start [of ys "fold min xs (NOT 0)"]
    by (auto simp: hist_merge_def)
qed

end
