(* ===== verification/Fixed_String.thy ===== *)
theory Fixed_String
  imports Ascii
begin

unbundle bit_operations_syntax

text \<open>
  \<open>src/core/fixed_string.hpp\<close>: the inline string of fixed capacity that travels inside events. The value
  is its contents, the first \<open>len\<close> bytes of \<open>buf\<close>; the terminating zero behind them is not modelled. The
  template parameter \<open>N\<close> is an argument.

  \<open>assign_chars\<close> and \<open>append_chars\<close>: a text made of whole UTF-8 characters is cut between characters, and
  as many characters are kept as fit.
\<close>

definition is_cont :: "char \<Rightarrow> bool" where
  \<comment> \<open>a continuation byte of a UTF-8 sequence\<close>
  "is_cont c \<longleftrightarrow> code c AND 0xC0 = 0x80"

fun back_up :: "string \<Rightarrow> nat \<Rightarrow> nat" where
  \<comment> \<open>\<open>while (n > 0 && (s[n] & 0xC0) == 0x80) --n\<close>\<close>
  "back_up s 0 = 0"
| "back_up s (Suc n) = (if is_cont (s ! Suc n) then back_up s n else Suc n)"

definition fit :: "nat \<Rightarrow> string \<Rightarrow> nat" where
  \<comment> \<open>the number of bytes copied into \<open>room\<close>\<close>
  "fit room s = (let n = (if length s < room then length s else room) in if n < length s then back_up s n else n)"

definition fs_assign :: "nat \<Rightarrow> string \<Rightarrow> string" where
  "fs_assign N s = take (fit (N - 1) s) s"

definition fs_append :: "nat \<Rightarrow> string \<Rightarrow> string \<Rightarrow> string" where
  "fs_append N buf s = buf @ take (fit (N - 1 - length buf) s) s"

definition fs_clear :: "string" where
  "fs_clear = []"

definition fs_empty :: "string \<Rightarrow> bool" where
  "fs_empty buf \<longleftrightarrow> length buf = 0"

definition fs_capacity :: "nat \<Rightarrow> nat" where
  "fs_capacity N = N - 1"

subsection \<open>Whole characters\<close>

definition utf8_char :: "string \<Rightarrow> bool" where
  \<comment> \<open>a first byte and its continuation bytes\<close>
  "utf8_char w \<longleftrightarrow> w \<noteq> [] \<and> \<not> is_cont (hd w) \<and> (\<forall>b \<in> set (tl w). is_cont b)"

lemma back_up_le: "back_up s n \<le> n"
  by (induction n) auto

lemma back_up_first: "\<forall>b \<in> set (tl w). is_cont b \<Longrightarrow> n < length w \<Longrightarrow> back_up (w @ s) n = 0"
proof (induction n)
  case (Suc n)
  then have "(w @ s) ! Suc n \<in> set (tl w)" by (cases w) (auto simp: nth_append)
  then show ?case using Suc by simp
qed simp

lemma back_up_shift: "s = [] \<or> \<not> is_cont (hd s) \<Longrightarrow> 0 < length w \<Longrightarrow> n < length s \<Longrightarrow> back_up (w @ s) (length w + n) = length w + back_up s n"
proof (induction n)
  case 0
  then obtain k where "length w = Suc k" by (cases "length w") auto
  then show ?case using 0 by (cases s) (auto simp: nth_append)
qed (simp add: nth_append)

fun chars_that_fit :: "string list \<Rightarrow> nat \<Rightarrow> nat" where
  \<comment> \<open>how many of the characters fit into \<open>room\<close> bytes\<close>
  "chars_that_fit [] room = 0"
| "chars_that_fit (w # ws) room = (if length w \<le> room then Suc (chars_that_fit ws (room - length w)) else 0)"

lemma fit_chars: "\<forall>w \<in> set ws. utf8_char w \<Longrightarrow> take (fit room (concat ws)) (concat ws) = concat (take (chars_that_fit ws room) ws)"
proof (induction ws arbitrary: room)
  case (Cons w ws)
  have w: "w \<noteq> []" "\<forall>b \<in> set (tl w). is_cont b" using Cons.prems by (auto simp: utf8_char_def)
  have hd: "concat ws = [] \<or> \<not> is_cont (hd (concat ws))" using Cons.prems by (cases ws) (auto simp: utf8_char_def hd_append)
  show ?case
  proof (cases "length w \<le> room")
    case True
    have "fit room (concat (w # ws)) = length w + fit (room - length w) (concat ws)"
    proof (cases "room < length (concat (w # ws))")
      case big: True
      then have "back_up (w @ concat ws) (length w + (room - length w)) = length w + back_up (concat ws) (room - length w)"
        using w(1) True by (intro back_up_shift [OF hd]) auto
      moreover have "\<not> length (concat ws) < room - length w" "room - length w < length (concat ws)" using big True by auto
      ultimately show ?thesis using big True by (simp add: fit_def Let_def)
    qed (use True in \<open>auto simp: fit_def\<close>)
    then show ?thesis using Cons.IH [of "room - length w"] Cons.prems True by simp
  next
    case False
    then have "fit room (concat (w # ws)) = 0" using back_up_first [OF w(2), of room "concat ws"] by (simp add: fit_def)
    then show ?thesis using False by simp
  qed
qed (simp add: fit_def)

lemma chars_that_fit_le: "chars_that_fit ws room \<le> length ws"
  by (induction ws room rule: chars_that_fit.induct) auto

lemma chars_that_fit_most:
  "length (concat (take (chars_that_fit ws room) ws)) \<le> room \<and>
   (chars_that_fit ws room < length ws \<longrightarrow> room < length (concat (take (Suc (chars_that_fit ws room)) ws)))"
proof (induction ws arbitrary: room)
  case (Cons w ws)
  show ?case using Cons.IH [of "room - length w"] by auto
qed simp

lemma assign_chars:
  "\<forall>w \<in> set ws. utf8_char w \<Longrightarrow> \<exists>k \<le> length ws. fs_assign N (concat ws) = concat (take k ws) \<and>
     length (concat (take k ws)) \<le> fs_capacity N \<and> (k < length ws \<longrightarrow> fs_capacity N < length (concat (take (Suc k) ws)))"
proof -
  assume ws: "\<forall>w \<in> set ws. utf8_char w"
  show ?thesis using chars_that_fit_le [of ws "N - 1"] fit_chars [OF ws, of "N - 1"] chars_that_fit_most [of ws "N - 1"]
    by (auto simp: fs_assign_def fs_capacity_def)
qed

lemma append_chars:
  "\<forall>w \<in> set ws. utf8_char w \<Longrightarrow> length buf \<le> fs_capacity N \<Longrightarrow>
   \<exists>k. fs_append N buf (concat ws) = buf @ concat (take k ws) \<and> length (fs_append N buf (concat ws)) \<le> fs_capacity N"
proof -
  assume ws: "\<forall>w \<in> set ws. utf8_char w" and l: "length buf \<le> fs_capacity N"
  then show ?thesis using fit_chars [OF ws, of "N - 1 - length buf"] chars_that_fit_most [of ws "N - 1 - length buf"]
    by (auto simp: fs_append_def fs_capacity_def intro!: exI)
qed

end
