(* ===== verification/Paper.thy ===== *)
theory Paper
  imports Scorer Board
begin

unbundle bit_operations_syntax

text \<open>
  \<open>src/engine/signals.hpp\<close> (tiers, signals, trades) and \<open>src/engine/paper.hpp\<close>, \<open>src/engine/paper.cpp\<close>: the
  paper trader. A trader reads the market board through consistent snapshots, so every operation takes the
  snapshot function \<open>board\<close> from symbols to market states. Prices and dollars are real numbers,
  counters and instants 64-bit words; the day of the loss limit is the Eastern date.
  The explanatory texts of a signal (\<open>why\<close>, \<open>title\<close>, \<open>link\<close>) and the log lines are left out. The callback
  \<open>sink\<close> is the list of trades an operation hands out, in order.

  \<open>paper_inv\<close> is the invariant of the books; the lemmas show that every operation keeps it, what a
  signal may open, and when a position is closed.
\<close>

subsection \<open>Signals and trades\<close>

datatype tier = TierNone | TierWatch | TierAlert | TierHigh | TierHalt | TierMover | TierInfo

fun tier_num :: "tier \<Rightarrow> nat" where
  "tier_num TierNone = 0"
| "tier_num TierWatch = 1"
| "tier_num TierAlert = 2"
| "tier_num TierHigh = 3"
| "tier_num TierHalt = 4"
| "tier_num TierMover = 5"
| "tier_num TierInfo = 6"

record signal =
  sg_tier :: tier
  sg_catalyst :: catalyst
  sg_source :: u16
  sg_sym :: u32
  sg_score_flags :: u32
  sg_dilution_flags :: u32
  sg_score :: int
  sg_news_id :: u64
  sg_t_news_recv_ns :: u64
  sg_t_signal_ns :: u64
  sg_published_ns :: int
  sg_price :: double
  sg_ref_price :: double
  sg_move_pct :: double
  sg_rvol :: double
  sg_dollar_volume :: double
  sg_vwap :: double
  sg_bid :: double
  sg_ask :: double
  sg_spread_pct :: double
  sg_market_cap :: double
  sg_shares_out :: double
  sg_amount_usd :: double
  sg_materiality :: double
  sg_ticker :: string
  sg_exchange :: string
  sg_halt_reason :: string

record paper_trade =
  pt_sym :: u32
  pt_tier :: tier
  pt_catalyst :: catalyst
  pt_closed :: bool
  pt_quote_entry :: bool
  pt_quote_exit :: bool
  pt_size_over_touch :: bool
  pt_score :: int
  pt_news_id :: u64
  pt_signal_ns :: u64
  pt_entry_ns :: u64
  pt_exit_ns :: u64
  pt_signal_px :: double
  pt_entry_px :: double
  pt_exit_px :: double
  pt_shares :: double
  pt_fees :: double
  pt_pnl_usd :: double
  pt_pnl_pct :: double
  pt_mfe_pct :: double
  pt_mae_pct :: double
  pt_ticker :: string
  pt_exit_reason :: string

definition paper_trade0 :: paper_trade where
  "paper_trade0 = \<lparr>pt_sym = 0, pt_tier = TierNone, pt_catalyst = NoCatalyst, pt_closed = False, pt_quote_entry = False,
     pt_quote_exit = False, pt_size_over_touch = False, pt_score = 0, pt_news_id = 0, pt_signal_ns = 0, pt_entry_ns = 0,
     pt_exit_ns = 0, pt_signal_px = 0, pt_entry_px = 0, pt_exit_px = 0, pt_shares = 0, pt_fees = 0, pt_pnl_usd = 0,
     pt_pnl_pct = 0, pt_mfe_pct = 0, pt_mae_pct = 0, pt_ticker = [], pt_exit_reason = []\<rparr>"

definition snprintf_s :: "nat \<Rightarrow> string \<Rightarrow> string" where
  \<comment> \<open>\<open>snprintf(buf, n, "%s", s)\<close>: at most \<open>n - 1\<close> characters\<close>
  "snprintf_s n s = take (n - 1) s"

subsection \<open>State\<close>

record paper_config =
  pc_enabled :: bool
  pc_trade_alert :: bool
  pc_trade_high :: bool
  pc_latency_ms :: int
  pc_slippage_bps :: double
  pc_position_usd :: double
  pc_max_open :: int
  pc_max_daily_loss_usd :: double
  pc_stop_loss_pct :: double
  pc_take_profit_pct :: double
  pc_trail_activate_pct :: double
  pc_trail_pct :: double
  pc_max_hold_min :: int
  pc_flat_by_minute :: int
  pc_entry_timeout_s :: int
  pc_max_chase_pct :: double
  pc_commission_per_share :: double
  pc_commission_min :: double

definition paper_config0 :: paper_config where
  "paper_config0 = \<lparr>pc_enabled = False, pc_trade_alert = True, pc_trade_high = True, pc_latency_ms = 250, pc_slippage_bps = 30,
     pc_position_usd = 1000, pc_max_open = 3, pc_max_daily_loss_usd = 300, pc_stop_loss_pct = 8, pc_take_profit_pct = 20,
     pc_trail_activate_pct = 10, pc_trail_pct = 8, pc_max_hold_min = 30, pc_flat_by_minute = 15 * 60 + 55,
     pc_entry_timeout_s = 10, pc_max_chase_pct = 5, pc_commission_per_share = 0, pc_commission_min = 0\<rparr>"

record paper_stats =
  ps_signals :: u64
  ps_opened :: u64
  ps_closed :: u64
  ps_wins :: u64
  ps_losses :: u64
  ps_rejected_risk :: u64
  ps_rejected_capacity :: u64
  ps_rejected_dup :: u64
  ps_cancelled_chase :: u64
  ps_cancelled_timeout :: u64
  ps_gross_win :: double
  ps_gross_loss :: double
  ps_realized :: double
  ps_peak :: double
  ps_max_drawdown :: double
  ps_day_realized :: double

definition paper_stats0 :: paper_stats where
  "paper_stats0 = \<lparr>ps_signals = 0, ps_opened = 0, ps_closed = 0, ps_wins = 0, ps_losses = 0, ps_rejected_risk = 0,
     ps_rejected_capacity = 0, ps_rejected_dup = 0, ps_cancelled_chase = 0, ps_cancelled_timeout = 0, ps_gross_win = 0,
     ps_gross_loss = 0, ps_realized = 0, ps_peak = 0, ps_max_drawdown = 0, ps_day_realized = 0\<rparr>"

record pos =
  po_active :: bool
  po_filled :: bool
  po_eligible_ns :: u64
  po_t :: paper_trade

definition pos0 :: pos where
  "pos0 = \<lparr>po_active = False, po_filled = False, po_eligible_ns = 0, po_t = paper_trade0\<rparr>"

record paper_trader =
  pr_cfg :: paper_config
  pr_pos :: "pos list"
  pr_st :: paper_stats
  pr_day :: int
  pr_day_checked_at :: u64

definition paper_new :: "paper_config \<Rightarrow> paper_trader" where
  "paper_new cfg = \<lparr>pr_cfg = cfg, pr_pos = replicate (nat (max 1 (pc_max_open cfg))) pos0, pr_st = paper_stats0,
     pr_day = 0, pr_day_checked_at = 0\<rparr>"

type_synonym snapshot = "u32 \<Rightarrow> market_hot"

subsection \<open>Operations\<close>

definition kNsPerSec :: u64 where
  "kNsPerSec = 1000000000"

definition kNsPerMs :: u64 where
  "kNsPerMs = 1000000"

definition fees :: "paper_config \<Rightarrow> double \<Rightarrow> double" where
  "fees cfg shares = max (pc_commission_min cfg) (shares * pc_commission_per_share cfg)"

definition open_positions :: "paper_trader \<Rightarrow> nat" where
  "open_positions p = length (filter po_active (pr_pos p))"

definition roll_day :: "u64 \<Rightarrow> paper_trader \<Rightarrow> paper_trader" where
  "roll_day now p =
     (if pr_day p \<noteq> 0 \<and> now \<ge> pr_day_checked_at p \<and> now - pr_day_checked_at p < 60 * kNsPerSec then p
      else let p = p\<lparr>pr_day_checked_at := now\<rparr>;
               (y, m, d) = eastern_date (i64_of_u64 now);
               day = days_from_civil y m d
           in if day \<noteq> pr_day p then p\<lparr>pr_day := day, pr_st := (pr_st p)\<lparr>ps_day_realized := 0\<rparr>\<rparr> else p)"

fun free_slot :: "pos list \<Rightarrow> nat option" where
  "free_slot [] = None"
| "free_slot (p # ps) = (if \<not> po_active p then Some 0 else map_option Suc (free_slot ps))"

definition traded_tier :: "paper_config \<Rightarrow> tier \<Rightarrow> bool" where
  "traded_tier cfg t \<longleftrightarrow> t = TierAlert \<and> pc_trade_alert cfg \<or> t = TierHigh \<and> pc_trade_high cfg"

definition holds :: "u32 \<Rightarrow> pos \<Rightarrow> bool" where
  "holds s p \<longleftrightarrow> po_active p \<and> pt_sym (po_t p) = s"

definition new_pos :: "paper_config \<Rightarrow> signal \<Rightarrow> u64 \<Rightarrow> pos" where
  "new_pos cfg s now = pos0\<lparr>po_active := True, po_eligible_ns := now + word_of_int (pc_latency_ms cfg) * kNsPerMs,
     po_t := paper_trade0\<lparr>pt_sym := sg_sym s, pt_tier := sg_tier s, pt_catalyst := sg_catalyst s, pt_score := sg_score s,
       pt_news_id := sg_news_id s, pt_signal_ns := now, pt_signal_px := (if sg_ask s > 0 then sg_ask s else sg_price s),
       pt_ticker := snprintf_s 16 (sg_ticker s)\<rparr>\<rparr>"

definition on_signal :: "signal \<Rightarrow> u64 \<Rightarrow> paper_trader \<Rightarrow> paper_trader" where
  "on_signal s now p =
     (if \<not> traded_tier (pr_cfg p) (sg_tier s) then p
      else let p = roll_day now p;
               st = (pr_st p)\<lparr>ps_signals := ps_signals (pr_st p) + 1\<rparr> in
        if \<exists>x \<in> set (pr_pos p). holds (sg_sym s) x then p\<lparr>pr_st := st\<lparr>ps_rejected_dup := ps_rejected_dup st + 1\<rparr>\<rparr>
        else if ps_day_realized st \<le> - pc_max_daily_loss_usd (pr_cfg p)
        then p\<lparr>pr_st := st\<lparr>ps_rejected_risk := ps_rejected_risk st + 1\<rparr>\<rparr>
        else case free_slot (pr_pos p) of
          None \<Rightarrow> p\<lparr>pr_st := st\<lparr>ps_rejected_capacity := ps_rejected_capacity st + 1\<rparr>\<rparr>
        | Some i \<Rightarrow> p\<lparr>pr_st := st, pr_pos := (pr_pos p)[i := new_pos (pr_cfg p) s now]\<rparr>)"

definition entry_price :: "market_hot \<Rightarrow> double" where
  "entry_price h = (if quote_valid h then of_int (ask_px h) / 10000 else last_price h)"

definition exit_mark :: "market_hot \<Rightarrow> double" where
  "exit_mark h = (if quote_valid h then of_int (bid_px h) / 10000 else last_price h)"

definition slipped_down :: "paper_config \<Rightarrow> double \<Rightarrow> double" where
  "slipped_down cfg mark = mark * (1 - pc_slippage_bps cfg / 10000)"

definition try_fill :: "paper_config \<Rightarrow> market_hot \<Rightarrow> u64 \<Rightarrow> pos \<Rightarrow> paper_stats \<Rightarrow> pos \<times> paper_stats \<times> bool" where
  "try_fill cfg h now p st =
     (let t = po_t p;
          timed_out = (now - po_eligible_ns p > word_of_int (pc_entry_timeout_s cfg) * kNsPerSec);
          quote = quote_valid h;
          px = entry_price h in
      if halted h \<or> px \<le> 0 then
        (if timed_out then (p\<lparr>po_active := False\<rparr>, st\<lparr>ps_cancelled_timeout := ps_cancelled_timeout st + 1\<rparr>, False)
         else (p, st, False))
      else if pt_signal_px t > 0 \<and> px > pt_signal_px t * (1 + pc_max_chase_pct cfg / 100) then
        (p\<lparr>po_active := False\<rparr>, st\<lparr>ps_cancelled_chase := ps_cancelled_chase st + 1\<rparr>, False)
      else let fill = px * (1 + pc_slippage_bps cfg / 10000);
               shares = of_int \<lfloor>pc_position_usd cfg / fill\<rfloor> in
        if shares < 1 then (p\<lparr>po_active := False\<rparr>, st, False)
        else (p\<lparr>po_filled := True, po_t := t\<lparr>pt_entry_px := fill, pt_entry_ns := now, pt_shares := shares,
                 pt_quote_entry := quote, pt_size_over_touch := (quote \<and> shares > real (unat (ask_sz h))),
                 pt_fees := fees cfg shares, pt_mfe_pct := 0, pt_mae_pct := 0, pt_closed := False\<rparr>\<rparr>,
              st\<lparr>ps_opened := ps_opened st + 1\<rparr>, True))"

definition check_exit :: "paper_config \<Rightarrow> market_hot \<Rightarrow> u64 \<Rightarrow> pos \<Rightarrow> pos \<times> (string \<times> double \<times> bool) option" where
  \<comment> \<open>reason, price and whether a quote backed it; \<open>None\<close>: stay in\<close>
  "check_exit cfg h now p =
     (let t = po_t p;
          flat_time = (eastern_minute_of_day (i64_of_u64 now) \<ge> pc_flat_by_minute cfg \<and>
                       eastern_minute_of_day (i64_of_u64 (pt_entry_ns t)) < pc_flat_by_minute cfg);
          quote = quote_valid h;
          mark = exit_mark h in
      if halted h \<or> mark \<le> 0 then (p, None)
      else let chg = (mark - pt_entry_px t) * 100 / pt_entry_px t;
               t = t\<lparr>pt_mfe_pct := max (pt_mfe_pct t) chg, pt_mae_pct := min (pt_mae_pct t) chg\<rparr>;
               p = p\<lparr>po_t := t\<rparr>;
               leave = (\<lambda>reason. (p, Some (reason, slipped_down cfg mark, quote))) in
        if chg \<le> - pc_stop_loss_pct cfg then leave ''stop''
        else if chg \<ge> pc_take_profit_pct cfg then leave ''target''
        else if pt_mfe_pct t \<ge> pc_trail_activate_pct cfg \<and> chg \<le> pt_mfe_pct t - pc_trail_pct cfg then leave ''trail''
        else if now - pt_entry_ns t \<ge> word_of_int (pc_max_hold_min cfg) * 60 * kNsPerSec then leave ''time''
        else if flat_time then leave ''flat''
        else (p, None))"

definition book_pnl :: "double \<Rightarrow> paper_stats \<Rightarrow> paper_stats" where
  \<comment> \<open>the part of \<open>finish\<close> that updates the statistics\<close>
  "book_pnl pnl st0 =
     (let st = st0\<lparr>ps_closed := ps_closed st0 + 1\<rparr>;
          st = (if pnl > 0 then st\<lparr>ps_wins := ps_wins st + 1, ps_gross_win := ps_gross_win st + pnl\<rparr>
                else st\<lparr>ps_losses := ps_losses st + 1, ps_gross_loss := ps_gross_loss st + - pnl\<rparr>);
          st = st\<lparr>ps_realized := ps_realized st + pnl, ps_day_realized := ps_day_realized st + pnl\<rparr>;
          st = st\<lparr>ps_peak := max (ps_peak st) (ps_realized st)\<rparr>
      in st\<lparr>ps_max_drawdown := max (ps_max_drawdown st) (ps_peak st - ps_realized st)\<rparr>)"

definition finish :: "paper_config \<Rightarrow> u64 \<Rightarrow> string \<Rightarrow> double \<Rightarrow> bool \<Rightarrow> pos \<Rightarrow> paper_stats \<Rightarrow> pos \<times> paper_stats" where
  "finish cfg now reason px quote p st =
     (let t = po_t p;
          fs = pt_fees t + fees cfg (pt_shares t);
          pnl = (px - pt_entry_px t) * pt_shares t - fs;
          t = t\<lparr>pt_exit_px := px, pt_exit_ns := now, pt_quote_exit := quote, pt_closed := True, pt_fees := fs,
                pt_pnl_usd := pnl, pt_pnl_pct := pnl * 100 / (pt_entry_px t * pt_shares t),
                pt_exit_reason := snprintf_s 16 reason\<rparr>
      in (p\<lparr>po_t := t\<rparr>, book_pnl pnl st))"

definition step_pos :: "paper_config \<Rightarrow> snapshot \<Rightarrow> u64 \<Rightarrow> pos \<Rightarrow> paper_stats \<Rightarrow> pos \<times> paper_stats \<times> paper_trade list" where
  \<comment> \<open>the loop body of \<open>step\<close>\<close>
  "step_pos cfg board now p st =
     (if \<not> po_active p then (p, st, [])
      else if \<not> po_filled p then
        (if now < po_eligible_ns p then (p, st, [])
         else let (p, st, ok) = try_fill cfg (board (pt_sym (po_t p))) now p st in (p, st, if ok then [po_t p] else []))
      else case check_exit cfg (board (pt_sym (po_t p))) now p of
        (p, None) \<Rightarrow> (p, st, [])
      | (p, Some (reason, px, quote)) \<Rightarrow>
          let (p, st) = finish cfg now reason px quote p st in (p\<lparr>po_active := False\<rparr>, st, [po_t p]))"

fun each_pos :: "(pos \<Rightarrow> paper_stats \<Rightarrow> pos \<times> paper_stats \<times> paper_trade list) \<Rightarrow> pos list \<Rightarrow> paper_stats \<Rightarrow>
    pos list \<times> paper_stats \<times> paper_trade list" where
  "each_pos f [] st = ([], st, [])"
| "each_pos f (p # ps) st =
     (let (p, st, o1) = f p st; (ps, st, o2) = each_pos f ps st in (p # ps, st, o1 @ o2))"

definition paper_step :: "snapshot \<Rightarrow> u64 \<Rightarrow> paper_trader \<Rightarrow> paper_trader \<times> paper_trade list" where
  "paper_step board now p =
     (let p = roll_day now p;
          (ps, st, sunk) = each_pos (step_pos (pr_cfg p) board now) (pr_pos p) (pr_st p)
      in (p\<lparr>pr_pos := ps, pr_st := st\<rparr>, sunk))"

definition close_pos :: "paper_config \<Rightarrow> snapshot \<Rightarrow> u64 \<Rightarrow> string \<Rightarrow> pos \<Rightarrow> paper_stats \<Rightarrow> pos \<times> paper_stats \<times> paper_trade list" where
  \<comment> \<open>the loop body of \<open>close_all\<close>\<close>
  "close_pos cfg board now reason p st =
     (if \<not> po_active p then (p, st, [])
      else if po_filled p then
        let h = board (pt_sym (po_t p));
            (p, st) = finish cfg now reason (slipped_down cfg (exit_mark h)) (quote_valid h) p st
        in (p\<lparr>po_active := False\<rparr>, st, [po_t p])
      else (p\<lparr>po_active := False\<rparr>, st, []))"

definition close_all :: "snapshot \<Rightarrow> u64 \<Rightarrow> string \<Rightarrow> paper_trader \<Rightarrow> paper_trader \<times> paper_trade list" where
  "close_all board now reason p =
     (let (ps, st, sunk) = each_pos (close_pos (pr_cfg p) board now reason) (pr_pos p) (pr_st p)
      in (p\<lparr>pr_pos := ps, pr_st := st\<rparr>, sunk))"

subsection \<open>The books\<close>

definition live :: "pos \<Rightarrow> bool" where
  \<comment> \<open>a filled position that is still open\<close>
  "live p \<longleftrightarrow> po_active p \<and> po_filled p"

definition pos_ok :: "pos \<Rightarrow> bool" where
  "pos_ok p \<longleftrightarrow> (live p \<longrightarrow> pt_shares (po_t p) \<ge> 1 \<and> \<not> pt_closed (po_t p))"

definition books_ok :: "paper_stats \<Rightarrow> bool" where
  "books_ok st \<longleftrightarrow> ps_closed st = ps_wins st + ps_losses st \<and> ps_realized st = ps_gross_win st - ps_gross_loss st \<and>
     0 \<le> ps_gross_win st \<and> 0 \<le> ps_gross_loss st \<and> 0 \<le> ps_peak st \<and> ps_realized st \<le> ps_peak st \<and>
     ps_peak st - ps_realized st \<le> ps_max_drawdown st"

definition n_live :: "pos list \<Rightarrow> u64" where
  "n_live ps = of_nat (length (filter live ps))"

definition one_per_sym :: "pos list \<Rightarrow> bool" where
  "one_per_sym ps \<longleftrightarrow> (\<forall>i < length ps. \<forall>j < length ps. i \<noteq> j \<longrightarrow> po_active (ps ! i) \<longrightarrow> po_active (ps ! j) \<longrightarrow>
     pt_sym (po_t (ps ! i)) \<noteq> pt_sym (po_t (ps ! j)))"

definition paper_inv :: "paper_trader \<Rightarrow> bool" where
  "paper_inv p \<longleftrightarrow> length (pr_pos p) = nat (max 1 (pc_max_open (pr_cfg p))) \<and> books_ok (pr_st p) \<and>
     (\<forall>x \<in> set (pr_pos p). pos_ok x) \<and> one_per_sym (pr_pos p) \<and> ps_opened (pr_st p) = ps_closed (pr_st p) + n_live (pr_pos p)"

lemma book_pnl_ok: "books_ok st \<Longrightarrow> books_ok (book_pnl pnl st)"
  by (auto simp: books_ok_def book_pnl_def Let_def)

lemma book_pnl_counts [simp]:
  "ps_closed (book_pnl pnl st) = ps_closed st + 1" "ps_opened (book_pnl pnl st) = ps_opened st"
  by (simp_all add: book_pnl_def Let_def)

lemma finish_frame:
  "finish cfg now reason px quote p st = (p', st') \<Longrightarrow>
   pt_sym (po_t p') = pt_sym (po_t p) \<and> (\<exists>pnl. st' = book_pnl pnl st)"
  by (auto simp: finish_def Let_def)

lemma add_chain: "a2 + L = a1 + L2 \<Longrightarrow> a1 + l = a0 + l1 \<Longrightarrow> a2 + (l + L) = a0 + (l1 + L2)" for a0 :: u64
proof -
  assume 1: "a2 + L = a1 + L2" and 2: "a1 + l = a0 + l1"
  have "a2 + (l + L) = (a2 + L) + l" by (simp add: ac_simps)
  also have "\<dots> = (a1 + l) + L2" unfolding 1 by (simp add: ac_simps)
  finally show ?thesis unfolding 2 by (simp add: ac_simps)
qed

text \<open>
  What \<open>step\<close> and \<open>close_all\<close> share: a pass over the positions that never opens one, keeps the books
  and counts every position it opens or closes.
\<close>

locale position_pass =
  fixes f :: "pos \<Rightarrow> paper_stats \<Rightarrow> pos \<times> paper_stats \<times> paper_trade list"
  assumes frame: "f p st = (p', st', sunk) \<Longrightarrow> pt_sym (po_t p') = pt_sym (po_t p) \<and> (po_active p' \<longrightarrow> po_active p)"
    and books: "f p st = (p', st', sunk) \<Longrightarrow> books_ok st \<Longrightarrow> books_ok st'"
    and pos: "f p st = (p', st', sunk) \<Longrightarrow> pos_ok p \<Longrightarrow> pos_ok p'"
    and counts: "f p st = (p', st', sunk) \<Longrightarrow> ps_opened st' - ps_closed st' + n_live [p] = ps_opened st - ps_closed st + n_live [p']"
begin

lemma pass_frame:
  "each_pos f ps st = (ps', st', sunk) \<Longrightarrow>
   length ps' = length ps \<and> (\<forall>i < length ps. pt_sym (po_t (ps' ! i)) = pt_sym (po_t (ps ! i)) \<and> (po_active (ps' ! i) \<longrightarrow> po_active (ps ! i)))"
proof (induction ps arbitrary: st ps' st' sunk)
  case (Cons p ps)
  obtain p1 st1 o1 where 1: "f p st = (p1, st1, o1)" by (cases "f p st")
  obtain ps2 st2 o2 where 2: "each_pos f ps st1 = (ps2, st2, o2)" by (cases "each_pos f ps st1")
  show ?case using Cons.IH [OF 2] frame [OF 1] Cons.prems 1 2 by (auto simp: nth_Cons split: nat.split)
qed simp

lemma pass_one_per_sym: "each_pos f ps st = (ps', st', sunk) \<Longrightarrow> one_per_sym ps \<Longrightarrow> one_per_sym ps'"
  using pass_frame [of ps st ps' st' sunk] unfolding one_per_sym_def by (metis (no_types, lifting))

lemma pass_books:
  "each_pos f ps st = (ps', st', sunk) \<Longrightarrow> books_ok st \<Longrightarrow> (\<forall>x \<in> set ps. pos_ok x) \<Longrightarrow>
   books_ok st' \<and> (\<forall>x \<in> set ps'. pos_ok x)"
proof (induction ps arbitrary: st ps' st' sunk)
  case (Cons p ps)
  obtain p1 st1 o1 where 1: "f p st = (p1, st1, o1)" by (cases "f p st")
  obtain ps2 st2 o2 where 2: "each_pos f ps st1 = (ps2, st2, o2)" by (cases "each_pos f ps st1")
  show ?case using Cons.IH [OF 2] books [OF 1] pos [OF 1] Cons.prems 1 2 by auto
qed simp

lemma pass_counts:
  "each_pos f ps st = (ps', st', sunk) \<Longrightarrow> ps_opened st' - ps_closed st' + n_live ps = ps_opened st - ps_closed st + n_live ps'"
proof (induction ps arbitrary: st ps' st' sunk)
  case (Cons p ps)
  obtain p1 st1 o1 where 1: "f p st = (p1, st1, o1)" by (cases "f p st")
  obtain ps2 st2 o2 where 2: "each_pos f ps st1 = (ps2, st2, o2)" by (cases "each_pos f ps st1")
  have split: "n_live (x # xs) = n_live [x] + n_live xs" for x xs by (simp add: n_live_def)
  have "ps' = p1 # ps2" "st' = st2" using Cons.prems 1 2 by auto
  then show ?case using add_chain [OF Cons.IH [OF 2] counts [OF 1]] split [of p ps] split [of p1 ps2] by simp
qed (simp add: n_live_def)

lemma pass_inv:
  assumes "paper_inv p" "each_pos f (pr_pos p) (pr_st p) = (ps, st, sunk)"
  shows "paper_inv (p\<lparr>pr_pos := ps, pr_st := st\<rparr>)"
proof -
  have "ps_opened st - ps_closed st + n_live (pr_pos p) = n_live (pr_pos p) + n_live ps"
    using pass_counts [OF assms(2)] assms(1) by (simp add: paper_inv_def)
  then have "ps_opened st = ps_closed st + n_live ps" by (simp add: algebra_simps)
  then show ?thesis using assms(1) pass_frame [OF assms(2)] pass_one_per_sym [OF assms(2)] pass_books [OF assms(2)]
    by (simp add: paper_inv_def)
qed

end

lemma try_fill_cases:
  assumes "try_fill cfg h now p st = (p', st', ok)"
  shows "pt_sym (po_t p') = pt_sym (po_t p) \<and> (po_active p' \<longrightarrow> po_active p) \<and> (books_ok st \<longrightarrow> books_ok st') \<and> ps_closed st' = ps_closed st \<and>
    (if ok then po_active p' = po_active p \<and> po_filled p' \<and> pos_ok p' \<and> ps_opened st' = ps_opened st + 1
     else po_filled p' = po_filled p \<and> po_t p' = po_t p \<and> ps_opened st' = ps_opened st)"
  using assms by (auto simp: try_fill_def Let_def books_ok_def pos_ok_def split: if_splits)

lemma check_exit_frame:
  "check_exit cfg h now p = (p', r) \<Longrightarrow> po_active p' = po_active p \<and> po_filled p' = po_filled p \<and>
   pt_sym (po_t p') = pt_sym (po_t p) \<and> pt_shares (po_t p') = pt_shares (po_t p) \<and> pt_closed (po_t p') = pt_closed (po_t p)"
  by (auto simp: check_exit_def Let_def split: if_splits)

lemma step_pos_cases:
  assumes "step_pos cfg board now p st = (p', st', sunk)"
  obtains (skip) "p' = p" "st' = st" "sunk = []"
  | (fill) ok where "po_active p" "\<not> po_filled p" "now \<ge> po_eligible_ns p" "sunk = (if ok then [po_t p'] else [])"
      "try_fill cfg (board (pt_sym (po_t p))) now p st = (p', st', ok)"
  | (stay) "live p" "check_exit cfg (board (pt_sym (po_t p))) now p = (p', None)" "st' = st" "sunk = []"
  | (leave) reason px quote p1 p2 where "live p" "check_exit cfg (board (pt_sym (po_t p))) now p = (p1, Some (reason, px, quote))"
      "finish cfg now reason px quote p1 st = (p2, st')" "p' = p2\<lparr>po_active := False\<rparr>" "sunk = [po_t p2]"
  using assms unfolding step_pos_def live_def
  by (auto split: if_splits prod.splits option.splits simp: not_less)

interpretation sp: position_pass "step_pos cfg board now" for cfg board now
proof unfold_locales
  fix p st p' st' sunk
  assume s: "step_pos cfg board now p st = (p', st', sunk)"
  show "pt_sym (po_t p') = pt_sym (po_t p) \<and> (po_active p' \<longrightarrow> po_active p)"
    by (rule step_pos_cases [OF s]) (auto dest!: try_fill_cases check_exit_frame finish_frame)
  show "books_ok st \<Longrightarrow> books_ok st'"
    by (rule step_pos_cases [OF s]) (auto dest: try_fill_cases finish_frame simp: book_pnl_ok)
  show "pos_ok p \<Longrightarrow> pos_ok p'"
    by (rule step_pos_cases [OF s])
      (auto dest!: try_fill_cases check_exit_frame finish_frame simp: pos_ok_def live_def split: if_splits)
  show "ps_opened st' - ps_closed st' + n_live [p] = ps_opened st - ps_closed st + n_live [p']"
    by (rule step_pos_cases [OF s])
      (auto dest!: try_fill_cases check_exit_frame finish_frame simp: n_live_def live_def split: if_splits)
qed

interpretation cp: position_pass "close_pos cfg board now reason" for cfg board now reason
proof unfold_locales
  fix p st p' st' sunk
  assume s: "close_pos cfg board now reason p st = (p', st', sunk)"
  show "pt_sym (po_t p') = pt_sym (po_t p) \<and> (po_active p' \<longrightarrow> po_active p)"
    using s by (auto simp: close_pos_def Let_def dest!: finish_frame split: if_splits prod.splits)
  show "books_ok st \<Longrightarrow> books_ok st'"
    using s by (auto simp: close_pos_def Let_def book_pnl_ok dest!: finish_frame split: if_splits prod.splits)
  show "pos_ok p \<Longrightarrow> pos_ok p'"
    using s by (auto simp: close_pos_def Let_def pos_ok_def live_def split: if_splits prod.splits)
  show "ps_opened st' - ps_closed st' + n_live [p] = ps_opened st - ps_closed st + n_live [p']"
    using s by (auto simp: close_pos_def Let_def n_live_def live_def dest!: finish_frame split: if_splits prod.splits)
qed

subsection \<open>Every operation keeps the books\<close>

lemma roll_day_frame [simp]:
  "pr_cfg (roll_day now p) = pr_cfg p" "pr_pos (roll_day now p) = pr_pos p"
  "ps_opened (pr_st (roll_day now p)) = ps_opened (pr_st p)" "ps_closed (pr_st (roll_day now p)) = ps_closed (pr_st p)"
  by (auto simp: roll_day_def Let_def split: prod.split)

lemma roll_day_inv: "paper_inv p \<Longrightarrow> paper_inv (roll_day now p)"
  by (auto simp: roll_day_def paper_inv_def books_ok_def Let_def split: prod.split)

lemma free_slot_ok: "free_slot ps = Some i \<Longrightarrow> i < length ps \<and> \<not> po_active (ps ! i)"
  by (induction ps arbitrary: i) (auto split: if_splits)

lemma free_slot_none: "free_slot ps = None \<longleftrightarrow> (\<forall>p \<in> set ps. po_active p)"
  by (induction ps) auto

lemma n_live_replace: "i < length ps \<Longrightarrow> live x = live (ps ! i) \<Longrightarrow> n_live (ps[i := x]) = n_live ps"
proof -
  assume i: "i < length ps" and x: "live x = live (ps ! i)"
  have "map live (ps[i := x]) = map live ps" using i x by (simp add: map_update list_update_same_conv)
  moreover have "length (filter live xs) = length (filter id (map live xs))" for xs by (simp add: filter_map comp_def)
  ultimately have "length (filter live (ps[i := x])) = length (filter live ps)" by metis
  then show ?thesis by (simp add: n_live_def)
qed

lemma one_per_sym_replace:
  assumes "one_per_sym ps" "\<not> (\<exists>x \<in> set ps. holds (pt_sym (po_t q)) x)"
  shows "one_per_sym (ps[i := q])"
proof -
  have "pt_sym (po_t (ps ! j)) \<noteq> pt_sym (po_t q)" if "j < length ps" "po_active (ps ! j)" for j
    using assms(2) that nth_mem [of j ps] by (auto simp: holds_def)
  then have "pt_sym (po_t (ps[i := q] ! a)) \<noteq> pt_sym (po_t (ps[i := q] ! b))"
    if "a < length ps" "b < length ps" "a \<noteq> b" "po_active (ps[i := q] ! a)" "po_active (ps[i := q] ! b)" for a b
    using that assms(1) unfolding one_per_sym_def by (cases "a = i"; cases "b = i") force+
  then show ?thesis unfolding one_per_sym_def by simp
qed

lemma new_pos_fields [simp]:
  "po_active (new_pos cfg s now)" "\<not> live (new_pos cfg s now)" "pt_sym (po_t (new_pos cfg s now)) = sg_sym s"
  by (simp_all add: new_pos_def live_def pos0_def)

lemma books_ok_counters:
  "books_ok (st\<lparr>ps_signals := a\<rparr>) = books_ok st" "books_ok (st\<lparr>ps_rejected_dup := b\<rparr>) = books_ok st"
  "books_ok (st\<lparr>ps_rejected_risk := c\<rparr>) = books_ok st" "books_ok (st\<lparr>ps_rejected_capacity := d\<rparr>) = books_ok st"
  by (simp_all add: books_ok_def)

lemma on_signal_inv:
  assumes inv: "paper_inv p"
  shows "paper_inv (on_signal s now p)"
proof -
  let ?p = "roll_day now p"
  have I: "paper_inv ?p" by (rule roll_day_inv [OF inv])
  have books: "books_ok (pr_st ?p)" using I by (simp add: paper_inv_def)
  have stats: "paper_inv (?p\<lparr>pr_st := st\<rparr>)"
    if "books_ok st" "ps_opened st = ps_opened (pr_st ?p)" "ps_closed st = ps_closed (pr_st ?p)" for st
    using I that by (simp add: paper_inv_def)
  have slot: "paper_inv (?p\<lparr>pr_st := st, pr_pos := (pr_pos ?p)[i := new_pos (pr_cfg ?p) s now]\<rparr>)"
    if i: "free_slot (pr_pos ?p) = Some i" and free: "\<not> (\<exists>x \<in> set (pr_pos ?p). holds (sg_sym s) x)"
      and st: "books_ok st" "ps_opened st = ps_opened (pr_st ?p)" "ps_closed st = ps_closed (pr_st ?p)" for st i
  proof -
    note fi = free_slot_ok [OF i]
    have "n_live ((pr_pos ?p)[i := new_pos (pr_cfg ?p) s now]) = n_live (pr_pos ?p)"
      using fi by (intro n_live_replace) (simp_all add: live_def [of "_ ! _"])
    moreover have "one_per_sym ((pr_pos ?p)[i := new_pos (pr_cfg ?p) s now])"
      using I free by (intro one_per_sym_replace) (auto simp: paper_inv_def)
    moreover have "\<forall>x \<in> set ((pr_pos ?p)[i := new_pos (pr_cfg ?p) s now]). pos_ok x"
      using I set_update_subset_insert [of "pr_pos ?p" i "new_pos (pr_cfg ?p) s now"] by (auto simp: paper_inv_def pos_ok_def)
    ultimately show ?thesis using I st by (simp add: paper_inv_def)
  qed
  show ?thesis
    using inv stats slot books by (auto simp: on_signal_def Let_def books_ok_counters split: option.split)
qed

lemma paper_step_inv: "paper_inv p \<Longrightarrow> paper_inv (fst (paper_step board now p))"
  unfolding paper_step_def Let_def
  by (auto simp del: roll_day_frame split: prod.split intro: sp.pass_inv [OF roll_day_inv])

lemma close_all_inv: "paper_inv p \<Longrightarrow> paper_inv (fst (close_all board now reason p))"
  unfolding close_all_def Let_def by (auto split: prod.split intro: cp.pass_inv)

lemma paper_new_inv: "paper_inv (paper_new cfg)"
  by (auto simp: paper_inv_def paper_new_def books_ok_def paper_stats0_def pos_ok_def live_def pos0_def one_per_sym_def n_live_def
      filter_empty_conv)

inductive paper_reach :: "paper_config \<Rightarrow> paper_trader \<Rightarrow> bool" for cfg where
  start: "paper_reach cfg (paper_new cfg)"
| signal: "paper_reach cfg p \<Longrightarrow> paper_reach cfg (on_signal s now p)"
| step: "paper_reach cfg p \<Longrightarrow> paper_reach cfg (fst (paper_step board now p))"
| close: "paper_reach cfg p \<Longrightarrow> paper_reach cfg (fst (close_all board now reason p))"

lemma on_signal_cfg [simp]: "pr_cfg (on_signal s now p) = pr_cfg p"
  by (auto simp: on_signal_def Let_def split: option.split)

lemma paper_reach_ok: "paper_reach cfg p \<Longrightarrow> paper_inv p \<and> pr_cfg p = cfg"
proof (induction rule: paper_reach.induct)
  case start
  then show ?case by (simp add: paper_new_inv) (simp add: paper_new_def)
next
  case (step p board now)
  then show ?case using paper_step_inv [of p board now] by (simp add: paper_step_def Let_def split: prod.split)
next
  case (close p board now reason)
  then show ?case using close_all_inv [of p board now reason] by (simp add: close_all_def Let_def split: prod.split)
qed (simp add: on_signal_inv)

subsection \<open>Entries and exits\<close>

lemma on_signal_opens:
  assumes "x \<in> set (pr_pos (on_signal s now p))" "x \<notin> set (pr_pos p)"
  shows "x = new_pos (pr_cfg p) s now \<and> traded_tier (pr_cfg p) (sg_tier s) \<and> (\<forall>y \<in> set (pr_pos p). \<not> holds (sg_sym s) y) \<and>
    ps_day_realized (pr_st (roll_day now p)) > - pc_max_daily_loss_usd (pr_cfg p)"
proof -
  have sub: "set (ps[i := q]) \<subseteq> insert q (set ps)" for ps :: "pos list" and i q by (rule set_update_subset_insert)
  show ?thesis using assms sub by (auto simp: on_signal_def Let_def not_le split: if_splits option.splits)
qed

lemma each_pos_Cons:
  "fst (each_pos f (p # ps) st) = fst (f p st) # fst (each_pos f ps (fst (snd (f p st))))"
  "snd (snd (each_pos f (p # ps) st)) = snd (snd (f p st)) @ snd (snd (each_pos f ps (fst (snd (f p st)))))"
  by (auto simp: Let_def split: prod.split)

lemma each_pos_nth:
  assumes "i < length ps" "\<And>p st st'. fst (f p st) = fst (f p st') \<and> snd (snd (f p st)) = snd (snd (f p st'))"
  shows "fst (each_pos f ps st) ! i = fst (f (ps ! i) st0) \<and>
    set (snd (snd (f (ps ! i) st0))) \<subseteq> set (snd (snd (each_pos f ps st)))"
  using assms(1)
proof (induction ps arbitrary: i st)
  case (Cons p ps)
  show ?case
  proof (cases i)
    case 0
    then show ?thesis using assms(2) [of p st st0] unfolding each_pos_Cons by simp
  next
    case (Suc j)
    then show ?thesis using Cons.IH [of j "fst (snd (f p st))"] Cons.prems unfolding each_pos_Cons by auto
  qed
qed simp

lemma step_pos_local:
  "fst (step_pos cfg board now p st) = fst (step_pos cfg board now p st') \<and>
   snd (snd (step_pos cfg board now p st)) = snd (snd (step_pos cfg board now p st'))"
  by (auto simp: step_pos_def try_fill_def finish_def Let_def split: prod.splits option.splits)

definition change_pct :: "market_hot \<Rightarrow> pos \<Rightarrow> double" where
  "change_pct h p = (exit_mark h - pt_entry_px (po_t p)) * 100 / pt_entry_px (po_t p)"

lemma step_nth:
  assumes "i < length (pr_pos p)"
  shows "pr_pos (fst (paper_step board now p)) ! i = fst (step_pos (pr_cfg p) board now (pr_pos p ! i) st) \<and>
    set (snd (snd (step_pos (pr_cfg p) board now (pr_pos p ! i) st))) \<subseteq> set (snd (paper_step board now p))"
proof -
  let ?f = "step_pos (pr_cfg p) board now"
  have "fst (?f q s1) = fst (?f q s2) \<and> snd (snd (?f q s1)) = snd (snd (?f q s2))" for q s1 s2 by (rule step_pos_local)
  from each_pos_nth [where f = ?f, OF assms this] show ?thesis
    by (auto simp: paper_step_def Let_def case_prod_unfold)
qed

lemma step_pos_halted: "live p \<Longrightarrow> halted (board (pt_sym (po_t p))) \<Longrightarrow> step_pos cfg board now p st = (p, st, [])"
  by (simp add: step_pos_def live_def check_exit_def Let_def)

lemma step_pos_stop:
  assumes "live p" "\<not> halted (board (pt_sym (po_t p)))" "exit_mark (board (pt_sym (po_t p))) > 0"
    "change_pct (board (pt_sym (po_t p))) p \<le> - pc_stop_loss_pct cfg"
  shows "\<not> po_active (fst (step_pos cfg board now p st)) \<and>
    (\<exists>t \<in> set (snd (snd (step_pos cfg board now p st))). pt_sym t = pt_sym (po_t p) \<and> pt_closed t \<and> pt_exit_reason t = ''stop'' \<and>
       pt_exit_px t = slipped_down cfg (exit_mark (board (pt_sym (po_t p)))))"
  using assms by (auto simp: step_pos_def live_def check_exit_def finish_def change_pct_def snprintf_s_def Let_def)

lemma step_pos_sold_at_mark:
  assumes "t \<in> set (snd (snd (step_pos cfg board now p st)))" "pt_closed t" "live p"
  shows "\<not> halted (board (pt_sym t)) \<and> exit_mark (board (pt_sym t)) > 0 \<and>
    pt_exit_px t = slipped_down cfg (exit_mark (board (pt_sym t))) \<and>
    pt_pnl_usd t = (pt_exit_px t - pt_entry_px t) * pt_shares t - pt_fees t"
  using assms
  by (auto simp: step_pos_def live_def check_exit_def finish_def snprintf_s_def Let_def not_le split: if_splits prod.splits option.splits)

end
