(* ===== verification/Filings.thy ===== *)
theory Filings
  imports Civil_Time Fixed_String
begin

unbundle bit_operations_syntax

text \<open>
  \<open>src/ref/filings.hpp\<close>, \<open>src/ref/filings.cpp\<close>: the form classes, the 8-K items, and the history of filings per
  issuer with the dilution flags derived from it. The hash map \<open>by_cik_\<close> is an association list; its iteration
  order, which only \<open>to_tsv\<close> shows, is the order of first insertion here. Days are integers.

  The lemmas show which filings raise which flag, that \<open>before\<close> leaves no trace of later filings, and that the TSV
  file restores the history it was written from.
\<close>

subsection \<open>Forms and items\<close>

datatype form_class =
    FormOther | S1 | S3 | Prospectus | Effect | PreProxy | DefProxy | S8 | Form8K | Form6K | Form10Q | Form10K | NT | FormCount

definition form_classes :: "form_class list" where
  "form_classes = [FormOther, S1, S3, Prospectus, Effect, PreProxy, DefProxy, S8, Form8K, Form6K, Form10Q, Form10K, NT]"

fun form_num :: "form_class \<Rightarrow> nat" where
  \<comment> \<open>the underlying value of the enumeration\<close>
  "form_num FormOther = 0" | "form_num S1 = 1" | "form_num S3 = 2" | "form_num Prospectus = 3" | "form_num Effect = 4"
| "form_num PreProxy = 5" | "form_num DefProxy = 6" | "form_num S8 = 7" | "form_num Form8K = 8" | "form_num Form6K = 9"
| "form_num Form10Q = 10" | "form_num Form10K = 11" | "form_num NT = 12" | "form_num FormCount = 13"

definition kItems :: "(int \<times> int \<times> string \<times> string) list" where
  "kItems = [(1, 1, ''1.01'', ''Entry into a Material Definitive Agreement''),
     (1, 2, ''1.02'', ''Termination of a Material Definitive Agreement''),
     (1, 3, ''1.03'', ''Bankruptcy or Receivership''),
     (1, 4, ''1.04'', ''Mine Safety''),
     (1, 5, ''1.05'', ''Material Cybersecurity Incidents''),
     (2, 1, ''2.01'', ''Completion of Acquisition or Disposition of Assets''),
     (2, 2, ''2.02'', ''Results of Operations and Financial Condition''),
     (2, 3, ''2.03'', ''Creation of a Direct Financial Obligation''),
     (2, 4, ''2.04'', ''Triggering Events That Accelerate a Financial Obligation''),
     (2, 5, ''2.05'', ''Costs Associated with Exit or Disposal Activities''),
     (2, 6, ''2.06'', ''Material Impairments''),
     (3, 1, ''3.01'', ''Notice of Delisting or Failure to Satisfy a Listing Rule''),
     (3, 2, ''3.02'', ''Unregistered Sales of Equity Securities''),
     (3, 3, ''3.03'', ''Material Modification to Rights of Security Holders''),
     (4, 1, ''4.01'', ''Changes in Certifying Accountant''),
     (4, 2, ''4.02'', ''Non-Reliance on Previously Issued Financial Statements''),
     (5, 1, ''5.01'', ''Changes in Control of Registrant''),
     (5, 2, ''5.02'', ''Departure/Election of Directors or Officers''),
     (5, 3, ''5.03'', ''Amendments to Articles of Incorporation or Bylaws''),
     (5, 4, ''5.04'', ''Temporary Suspension of Trading Under Employee Benefit Plans''),
     (5, 5, ''5.05'', ''Amendments to the Code of Ethics''),
     (5, 6, ''5.06'', ''Change in Shell Company Status''),
     (5, 7, ''5.07'', ''Submission of Matters to a Vote of Security Holders''),
     (5, 8, ''5.08'', ''Shareholder Director Nominations''),
     (6, 1, ''6.01'', ''ABS Informational and Computational Material''),
     (6, 2, ''6.02'', ''Change of Servicer or Trustee''),
     (6, 3, ''6.03'', ''Change in Credit Enhancement''),
     (6, 4, ''6.04'', ''Failure to Make a Required Distribution''),
     (6, 5, ''6.05'', ''Securities Act Updating Disclosure''),
     (7, 1, ''7.01'', ''Regulation FD Disclosure''),
     (8, 1, ''8.01'', ''Other Events''),
     (9, 1, ''9.01'', ''Financial Statements and Exhibits'')]"

definition form8k_item_bit :: "int \<Rightarrow> int \<Rightarrow> int" where
  "form8k_item_bit major minor =
     (case List.find (\<lambda>i. case kItems ! i of (a, b, _, _) \<Rightarrow> a = major \<and> b = minor) [0..<32] of Some i \<Rightarrow> int i | None \<Rightarrow> - 1)"

definition form8k_item_label :: "int \<Rightarrow> string" where
  "form8k_item_label b = (if 0 \<le> b \<and> b < 32 then (case kItems ! nat b of (_, _, l, _) \<Rightarrow> l) else ''?'')"

definition form8k_item_title :: "int \<Rightarrow> string" where
  "form8k_item_title b = (if 0 \<le> b \<and> b < 32 then (case kItems ! nat b of (_, _, _, t) \<Rightarrow> t) else ''?'')"

definition add_name :: "string \<Rightarrow> string \<Rightarrow> string" where
  "add_name name out = (if out \<noteq> [] then out @ '','' else out) @ name"

definition form8k_items_str :: "u32 \<Rightarrow> string" where
  "form8k_items_str msk = fold (\<lambda>i out. if bit msk i then add_name (form8k_item_label (int i)) out else out) [0..<32] []"

definition kItem101 :: u32 where "kItem101 = 1"
definition kItem103 :: u32 where "kItem103 = 4"
definition kItem201 :: u32 where "kItem201 = 32"
definition kItem202 :: u32 where "kItem202 = 64"
definition kItem301 :: u32 where "kItem301 = 2048"
definition kItem302 :: u32 where "kItem302 = 4096"
definition kItem402 :: u32 where "kItem402 = 32768"
definition kItem501 :: u32 where "kItem501 = 65536"
definition kItem503 :: u32 where "kItem503 = 262144"
definition kItem701 :: u32 where "kItem701 = 536870912"
definition kItem801 :: u32 where "kItem801 = 1073741824"

definition classify_form :: "string \<Rightarrow> form_class" where
  "classify_form f0 =
     (let f = trim f0;
          is_any = (\<lambda>xs. \<exists>x \<in> set xs. iequals f x) in
      if is_any [''S-1'', ''S-1/A'', ''F-1'', ''F-1/A'', ''S-1MEF'', ''F-1MEF''] then S1
      else if is_any [''S-3'', ''S-3/A'', ''F-3'', ''F-3/A'', ''S-3ASR'', ''F-3ASR'', ''S-3MEF''] then S3
      else if istarts_with f ''424B'' then Prospectus
      else if is_any [''EFFECT''] then Effect
      else if is_any [''PRE 14A'', ''PRE 14C''] then PreProxy
      else if is_any [''DEF 14A'', ''DEF 14C''] then DefProxy
      else if istarts_with f ''S-8'' then S8
      else if is_any [''8-K'', ''8-K/A''] then Form8K
      else if is_any [''6-K'', ''6-K/A''] then Form6K
      else if is_any [''10-Q'', ''10-Q/A''] then Form10Q
      else if is_any [''10-K'', ''10-K/A'', ''20-F'', ''40-F''] then Form10K
      else if istarts_with f ''NT 10-'' \<or> istarts_with f ''NT 20-'' then NT
      else FormOther)"

definition form_class_name :: "form_class \<Rightarrow> string" where
  "form_class_name c =
     (let names = [''other'', ''s1'', ''s3'', ''424b'', ''effect'', ''pre14'', ''def14'', ''s8'', ''8k'', ''6k'', ''10q'', ''10k'', ''nt''];
          i = form_num c
      in if i < length names then names ! i else ''other'')"

subsection \<open>Dilution flags\<close>

definition kFlagOfferingRecent :: u32 where "kFlagOfferingRecent = 1"
definition kFlagEffectRecent :: u32 where "kFlagEffectRecent = 2"
definition kFlagS1Pending :: u32 where "kFlagS1Pending = 4"
definition kFlagShelf :: u32 where "kFlagShelf = 8"
definition kFlagReverseSplitRisk :: u32 where "kFlagReverseSplitRisk = 16"
definition kFlagLateFiler :: u32 where "kFlagLateFiler = 32"
definition kFlagUnregisteredSale :: u32 where "kFlagUnregisteredSale = 64"
definition kFlagDeficiency :: u32 where "kFlagDeficiency = 128"
definition kFlagReverseSplitDone :: u32 where "kFlagReverseSplitDone = 256"

definition test_flag :: "u32 \<Rightarrow> u32 \<Rightarrow> bool" where
  "test_flag f k \<longleftrightarrow> f AND k \<noteq> 0"

definition dilution_flags_str :: "u32 \<Rightarrow> string" where
  "dilution_flags_str f =
     fold (\<lambda>(k, name) out. if test_flag f k then add_name name out else out)
       [(kFlagOfferingRecent, ''offering''), (kFlagEffectRecent, ''effect''), (kFlagS1Pending, ''s1''), (kFlagShelf, ''shelf''),
        (kFlagReverseSplitRisk, ''rs_proxy''), (kFlagLateFiler, ''late_filer''), (kFlagUnregisteredSale, ''item3.02''),
        (kFlagDeficiency, ''deficiency''), (kFlagReverseSplitDone, ''item5.03'')] []"

record dilution_policy =
  dp_offering_window_days :: int
  dp_s1_window_days :: int
  dp_shelf_window_days :: int
  dp_proxy_window_days :: int
  dp_late_filer_days :: int
  dp_item302_days :: int
  dp_item301_days :: int
  dp_item503_days :: int

definition dilution_policy0 :: dilution_policy where
  "dilution_policy0 = \<lparr>dp_offering_window_days = 10, dp_s1_window_days = 180, dp_shelf_window_days = 3 * 365,
     dp_proxy_window_days = 90, dp_late_filer_days = 120, dp_item302_days = 30, dp_item301_days = 180, dp_item503_days = 60\<rparr>"

subsection \<open>The history\<close>

record filing =
  fi_day :: int
  fi_cls :: form_class
  fi_items :: u32

type_synonym filings = "(u32 \<times> filing list) list"

fun at_cik :: "u32 \<Rightarrow> (filing list \<Rightarrow> filing list) \<Rightarrow> filings \<Rightarrow> filings" where
  \<comment> \<open>an update of \<open>by_cik_[cik]\<close>, which creates the entry\<close>
  "at_cik k f [] = [(k, f [])]"
| "at_cik k f ((k', v) # h) = (if k' = k then (k', f v) # h else (k', v) # at_cik k f h)"

fun add_entry :: "int \<Rightarrow> form_class \<Rightarrow> u32 \<Rightarrow> filing list \<Rightarrow> filing list" where
  "add_entry day cls items [] = [\<lparr>fi_day = day, fi_cls = cls, fi_items = items\<rparr>]"
| "add_entry day cls items (e # v) =
     (if fi_day e = day \<and> fi_cls e = cls then e\<lparr>fi_items := fi_items e OR items\<rparr> # v else e # add_entry day cls items v)"

definition filings_add :: "u32 \<Rightarrow> int \<Rightarrow> form_class \<Rightarrow> u32 \<Rightarrow> filings \<Rightarrow> filings" where
  "filings_add cik day cls items h = (if cik = 0 then h else at_cik cik (add_entry day cls items) h)"

definition filings_entries :: "filings \<Rightarrow> u32 \<Rightarrow> filing list option" where
  "filings_entries h cik = map_of h cik"

definition in_window :: "int \<Rightarrow> int \<Rightarrow> u32 \<Rightarrow> u32" where
  "in_window age days k = (if age \<le> days then k else 0)"

definition entry_flags :: "dilution_policy \<Rightarrow> int \<Rightarrow> filing \<Rightarrow> u32" where
  \<comment> \<open>the flags one filing raises\<close>
  "entry_flags p today e =
     (let age = today - fi_day e in
      if age < 0 then 0
      else case fi_cls e of
        Prospectus \<Rightarrow> in_window age (dp_offering_window_days p) kFlagOfferingRecent
      | Effect \<Rightarrow> in_window age (dp_offering_window_days p) kFlagEffectRecent
      | S1 \<Rightarrow> in_window age (dp_s1_window_days p) kFlagS1Pending
      | S3 \<Rightarrow> in_window age (dp_shelf_window_days p) kFlagShelf
      | PreProxy \<Rightarrow> in_window age (dp_proxy_window_days p) kFlagReverseSplitRisk
      | NT \<Rightarrow> in_window age (dp_late_filer_days p) kFlagLateFiler
      | x \<Rightarrow> if x = Form8K \<or> x = Form6K then
          (if test_flag (fi_items e) kItem302 then in_window age (dp_item302_days p) kFlagUnregisteredSale else 0) OR
          (if test_flag (fi_items e) kItem301 then in_window age (dp_item301_days p) kFlagDeficiency else 0) OR
          (if test_flag (fi_items e) kItem503 then in_window age (dp_item503_days p) kFlagReverseSplitDone else 0)
        else 0)"

definition filings_flags :: "filings \<Rightarrow> u32 \<Rightarrow> int \<Rightarrow> dilution_policy \<Rightarrow> u32" where
  "filings_flags h cik today p =
     (case filings_entries h cik of None \<Rightarrow> 0 | Some v \<Rightarrow> fold (\<lambda>e f. f OR entry_flags p today e) v 0)"

definition filings_issuers :: "filings \<Rightarrow> nat" where
  "filings_issuers h = length h"

definition filings_before :: "int \<Rightarrow> filings \<Rightarrow> filings" where
  "filings_before day h =
     fold (\<lambda>(cik, v) out. fold (\<lambda>e out. if fi_day e < day then at_cik cik (\<lambda>w. w @ [e]) out else out) v out) h []"

definition filings_merge :: "filings \<Rightarrow> filings \<Rightarrow> filings" where
  "filings_merge other h =
     fold (\<lambda>(cik, v) out. fold (\<lambda>e out. filings_add cik (fi_day e) (fi_cls e) (fi_items e) out) v out) other h"

subsection \<open>Files\<close>

abbreviation parse_u32 :: "string \<Rightarrow> int option" where
  "parse_u32 \<equiv> parse_int False 0 (2 ^ 32 - 1)"

abbreviation parse_i32 :: "string \<Rightarrow> int option" where
  "parse_i32 \<equiv> parse_int True (- (2 ^ 31)) (2 ^ 31 - 1)"

definition value_or0 :: "int option \<Rightarrow> int" where
  "value_or0 v = (case v of Some x \<Rightarrow> x | None \<Rightarrow> 0)"

definition filed_date :: "string \<Rightarrow> (int \<times> int \<times> int) option" where
  \<comment> \<open>\<open>YYYYMMDD\<close> or \<open>YYYY-MM-DD\<close>\<close>
  "filed_date s =
     (let d = trim s in
      if length d = 8 then Some (value_or0 (parse_i32 (substr d 0 4)), value_or0 (parse_u32 (substr d 4 2)), value_or0 (parse_u32 (substr d 6 2)))
      else parse_ymd d)"

definition master_row :: "string \<Rightarrow> (u32 \<times> int \<times> form_class) option" where
  \<comment> \<open>a data row of the index, or \<open>None\<close> when it is skipped\<close>
  "master_row line =
     (let f = take 5 (split_str line (CHR ''|'')) in
      if length f < 4 then None
      else let cls = classify_form (f ! 2) in
        if cls \<in> {FormOther, Form10Q, Form10K, DefProxy, S8} then None
        else case parse_u32 (f ! 0) of
          None \<Rightarrow> None
        | Some cik \<Rightarrow>
            (case filed_date (f ! 3) of
               None \<Rightarrow> None
             | Some (y, m, d) \<Rightarrow>
                 if y < 1990 \<or> m < 1 \<or> m > 12 \<or> d < 1 \<or> d > 31 then None
                 else Some (word_of_int cik, days_from_civil y m d, cls)))"

definition is_separator_line :: "string \<Rightarrow> bool" where
  "is_separator_line l \<longleftrightarrow> length l > 10 \<and> (\<forall>c \<in> set l. c = CHR ''-'')"

definition master_step :: "string \<Rightarrow> bool \<times> filings \<times> nat \<Rightarrow> bool \<times> filings \<times> nat" where
  "master_step line st =
     (case st of (in_data, h, added) \<Rightarrow>
        if \<not> in_data then (is_separator_line line, h, added)
        else case master_row line of
          None \<Rightarrow> st
        | Some (cik, day, cls) \<Rightarrow> (True, filings_add cik day cls 0 h, added + 1))"

definition add_master_index :: "string \<Rightarrow> filings \<Rightarrow> filings \<times> nat" where
  "add_master_index t h = snd (fold master_step (lines t) (False, h, 0))"

definition tsv_row :: "u32 \<Rightarrow> filing \<Rightarrow> string" where
  "tsv_row cik e =
     (case civil_from_days (fi_day e) of (y, m, d) \<Rightarrow>
        dec_digits (unat cik) @ [CHR 0x09] @ pad0 4 y @ ''-'' @ pad0 2 m @ ''-'' @ pad0 2 d @ [CHR 0x09] @
        dec_digits (form_num (fi_cls e)) @ [CHR 0x09] @ dec_digits (unat (fi_items e)))"

definition to_tsv :: "filings \<Rightarrow> string" where
  "to_tsv h = ''cik'' @ [CHR 0x09] @ ''date'' @ [CHR 0x09] @ ''class'' @ [CHR 0x09] @ ''items'' @ [CHR 0x0A] @
     concat (map (\<lambda>(cik, v). concat (map (\<lambda>e. take 95 (tsv_row cik e @ [CHR 0x0A])) v)) h)"

definition load_row :: "string \<Rightarrow> (u32 \<times> int \<times> form_class \<times> u32) option" where
  "load_row line =
     (if line = [] \<or> istarts_with line ''cik'' then None
      else let f = take 4 (split_str line (CHR 0x09)) in
        if length f < 3 then None
        else case (parse_u32 (f ! 0), parse_u32 (f ! 2), parse_ymd (f ! 1)) of
          (Some cik, Some cls, Some (y, m, d)) \<Rightarrow>
            if cls \<ge> 13 then None
            else Some (word_of_int cik, days_from_civil y m d, form_classes ! nat cls,
                   if length f > 3 then word_of_int (value_or0 (parse_u32 (f ! 3))) else 0)
        | _ \<Rightarrow> None)"

definition load_step :: "string \<Rightarrow> filings \<times> nat \<Rightarrow> filings \<times> nat" where
  "load_step line st =
     (case load_row line of
        None \<Rightarrow> st
      | Some (cik, day, cls, items) \<Rightarrow> (filings_add cik day cls items (fst st), snd st + 1))"

definition load_tsv :: "string \<Rightarrow> filings \<Rightarrow> filings \<times> nat" where
  "load_tsv t h = fold load_step (lines t) (h, 0)"

subsection \<open>Flags\<close>

lemma test_flag_or: "test_flag (f OR g) k \<longleftrightarrow> test_flag f k \<or> test_flag g k"
  by (simp add: test_flag_def bit.conj_disj_distrib2 or_eq_0_iff)

lemma fold_or_flag: "test_flag (fold (\<lambda>e f. f OR g e) v f0) k \<longleftrightarrow> test_flag f0 k \<or> (\<exists>e \<in> set v. test_flag (g e) k)"
  by (induction v arbitrary: f0) (auto simp: test_flag_or)

lemma filings_flags_iff:
  "test_flag (filings_flags h cik today p) k \<longleftrightarrow> (\<exists>v. filings_entries h cik = Some v \<and> (\<exists>e \<in> set v. test_flag (entry_flags p today e) k))"
  by (auto simp: filings_flags_def fold_or_flag test_flag_def [of 0] split: option.split)

lemmas flag_bits = kFlagOfferingRecent_def kFlagEffectRecent_def kFlagS1Pending_def kFlagShelf_def kFlagReverseSplitRisk_def
  kFlagLateFiler_def kFlagUnregisteredSale_def kFlagDeficiency_def kFlagReverseSplitDone_def

lemma entry_offering:
  "test_flag (entry_flags p today e) kFlagOfferingRecent \<longleftrightarrow>
   fi_cls e = Prospectus \<and> 0 \<le> today - fi_day e \<and> today - fi_day e \<le> dp_offering_window_days p"
  by (cases "fi_cls e") (auto simp: entry_flags_def in_window_def test_flag_def flag_bits Let_def)

lemma unregistered_apart [simp]:
  "\<not> test_flag 0 k" "\<not> test_flag kFlagOfferingRecent kFlagUnregisteredSale" "\<not> test_flag kFlagEffectRecent kFlagUnregisteredSale"
  "\<not> test_flag kFlagS1Pending kFlagUnregisteredSale" "\<not> test_flag kFlagShelf kFlagUnregisteredSale"
  "\<not> test_flag kFlagReverseSplitRisk kFlagUnregisteredSale" "\<not> test_flag kFlagLateFiler kFlagUnregisteredSale"
  "\<not> test_flag kFlagDeficiency kFlagUnregisteredSale" "\<not> test_flag kFlagReverseSplitDone kFlagUnregisteredSale"
  "test_flag kFlagUnregisteredSale kFlagUnregisteredSale"
  by (simp_all add: test_flag_def flag_bits)

lemma entry_unregistered:
  "test_flag (entry_flags p today e) kFlagUnregisteredSale \<longleftrightarrow>
   fi_cls e \<in> {Form8K, Form6K} \<and> test_flag (fi_items e) kItem302 \<and> 0 \<le> today - fi_day e \<and> today - fi_day e \<le> dp_item302_days p"
  by (cases "fi_cls e") (auto simp: entry_flags_def in_window_def test_flag_or Let_def)

subsection \<open>The history as a finite map\<close>

lemma at_cik_map: "map_of (at_cik k f h) = (map_of h)(k \<mapsto> f (case map_of h k of Some v \<Rightarrow> v | None \<Rightarrow> []))"
  by (induction k f h rule: at_cik.induct) (auto simp: fun_eq_iff)

lemma at_cik_keys: "fst ` set (at_cik k f h) = insert k (fst ` set h)"
  by (induction k f h rule: at_cik.induct) auto

lemma at_cik_distinct: "distinct (map fst h) \<Longrightarrow> distinct (map fst (at_cik k f h))"
  by (induction k f h rule: at_cik.induct) (auto simp: at_cik_keys)

lemma before_inner:
  "filings_entries (fold (\<lambda>e out. if fi_day e < day then at_cik cik (\<lambda>w. w @ [e]) out else out) v out) c =
   (if c = cik \<and> (\<exists>e \<in> set v. fi_day e < day)
    then Some ((case filings_entries out c of Some w \<Rightarrow> w | None \<Rightarrow> []) @ filter (\<lambda>e. fi_day e < day) v)
    else filings_entries out c)"
proof (induction v arbitrary: out)
  case (Cons e v)
  show ?case
  proof (cases "fi_day e < day")
    case True
    show ?thesis using Cons.IH [of "at_cik cik (\<lambda>w. w @ [e]) out"] True
      by (auto simp: filings_entries_def at_cik_map filter_empty_conv split: option.split)
  next
    case False
    then show ?thesis using Cons.IH [of out] by auto
  qed
qed simp

lemma before_entries:
  assumes "distinct (map fst h)"
  shows "filings_entries (filings_before day h) c =
    (case filings_entries h c of None \<Rightarrow> None
     | Some v \<Rightarrow> if \<exists>e \<in> set v. fi_day e < day then Some (filter (\<lambda>e. fi_day e < day) v) else None)"
proof -
  have gen: "filings_entries (fold (\<lambda>(cik, v) out. fold (\<lambda>e out. if fi_day e < day then at_cik cik (\<lambda>w. w @ [e]) out else out) v out) h out) c =
    (case filings_entries h c of None \<Rightarrow> filings_entries out c
     | Some v \<Rightarrow> if \<exists>e \<in> set v. fi_day e < day
         then Some ((case filings_entries out c of Some w \<Rightarrow> w | None \<Rightarrow> []) @ filter (\<lambda>e. fi_day e < day) v) else filings_entries out c)" for out
    using assms
  proof (induction h arbitrary: out)
    case Nil
    then show ?case by (simp add: filings_entries_def)
  next
    case (Cons kv h)
    obtain k v where kv: "kv = (k, v)" by (cases kv)
    let ?out = "fold (\<lambda>e out. if fi_day e < day then at_cik k (\<lambda>w. w @ [e]) out else out) v out"
    have IH: "filings_entries (fold (\<lambda>(cik, v) out. fold (\<lambda>e out. if fi_day e < day then at_cik cik (\<lambda>w. w @ [e]) out else out) v out) h ?out) c =
      (case filings_entries h c of None \<Rightarrow> filings_entries ?out c
       | Some v \<Rightarrow> if \<exists>e \<in> set v. fi_day e < day
           then Some ((case filings_entries ?out c of Some w \<Rightarrow> w | None \<Rightarrow> []) @ filter (\<lambda>e. fi_day e < day) v) else filings_entries ?out c)"
      using Cons by simp
    have "k = c \<Longrightarrow> filings_entries h c = None" using Cons.prems kv by (auto simp: filings_entries_def map_of_eq_None_iff)
    moreover have "filings_entries (kv # h) c = (if k = c then Some v else filings_entries h c)" by (simp add: kv filings_entries_def)
    ultimately show ?case using IH by (cases "k = c") (auto simp: kv before_inner split: option.split)
  qed
  have e: "filings_entries [] c = None" by (simp add: filings_entries_def)
  show ?thesis unfolding filings_before_def gen [of "[]"] e by (simp split: option.split)
qed

subsection \<open>The TSV file\<close>

lemma find_char_append: "d \<notin> set a \<Longrightarrow> find_char (a @ d # r) d i = Some (i + length a)"
  by (induction a arbitrary: i) auto

lemma split_str_Cons: "d \<notin> set a \<Longrightarrow> split_str (a @ d # r) d = a # split_str r d"
  by (subst split_str.simps) (simp add: find_char_append)

lemma split_str_last: "d \<notin> set a \<Longrightarrow> split_str a d = [a]"
  using find_char_None [of a d 0] by (subst split_str.simps) simp

lemma lines_Cons:
  "CHR 0x0A \<notin> set l \<Longrightarrow> lines (l @ CHR 0x0A # r) = strip_cr l # lines r"
  by (subst lines.simps) (simp add: find_char_append Let_def)

lemma lines_concat:
  "\<forall>l \<in> set ls. CHR 0x0A \<notin> set l \<and> strip_cr l = l \<Longrightarrow> lines (concat (map (\<lambda>l. l @ [CHR 0x0A]) ls)) = ls"
proof (induction ls)
  case Nil
  show ?case by (simp add: lines.simps [of "[]"])
qed (simp add: lines_Cons)

lemma parse_digits:
  assumes "\<forall>c \<in> set ds. is_digit c" "ds \<noteq> []" "lo \<le> add_digits 0 ds" "add_digits 0 ds \<le> hi"
  shows "parse_int sgnd lo hi ds = Some (add_digits 0 ds)"
proof -
  have hd: "is_digit (hd ds)" "is_digit (last ds)" using assms(1,2) by auto
  then have tr: "trim ds = ds" using digit_not_space by (intro trim_id) auto
  have nm: "hd ds \<noteq> CHR ''-''" using hd(1) by (auto simp: is_digit_def code_def)
  have tw: "takeWhile is_digit ds = ds" "dropWhile is_digit ds = []" using assms(1) by (simp_all add: takeWhile_eq_all_conv dropWhile_eq_Nil_conv)
  have "digits_val ds = add_digits 0 ds" by (simp add: digits_val_def add_digits_def)
  then show ?thesis using nm assms(2-4) by (simp add: parse_int_def from_chars_int_def tr Let_def tw)
qed

lemma unat_bound32: "unat (w :: u32) < 4294967296"
proof -
  have "unat w < 2 ^ LENGTH(32)" by (rule unsigned_less)
  then show ?thesis by simp
qed

lemma parse_u32_dec: "n < 2 ^ 32 \<Longrightarrow> parse_u32 (dec_digits n) = Some (int n)"
proof -
  assume "n < 2 ^ 32"
  then have "int n \<le> 2 ^ 32 - 1" by simp
  moreover have "dec_digits n \<noteq> []" by (subst dec_digits.simps) simp
  ultimately show ?thesis using parse_digits [of "dec_digits n" 0 "2 ^ 32 - 1" False] dec_digits_digits [of n] by (simp add: dec_digits_val)
qed

lemma parse_ymd_pad0:
  assumes "0 \<le> y" "y < 10000" "1 \<le> m" "m \<le> 12" "1 \<le> d" "d \<le> 31"
  shows "parse_ymd (pad0 4 y @ ''-'' @ pad0 2 m @ ''-'' @ pad0 2 d) = Some (y, m, d)"
proof -
  note Y = pad0_ok [of y 4] and M = pad0_ok [of m 2] and D = pad0_ok [of d 2]
  let ?s = "pad0 4 y @ ''-'' @ pad0 2 m @ ''-'' @ pad0 2 d"
  have l: "length (pad0 4 y) = 4" "length (pad0 2 m) = 2" "length (pad0 2 d) = 2" using Y M D assms by auto
  have ne: "pad0 4 y \<noteq> []" "pad0 2 m \<noteq> []" "pad0 2 d \<noteq> []" by (simp_all add: pad0_nonempty)
  have "is_digit (hd ?s)" "is_digit (last ?s)" using Y(2) D(2) assms ne by (auto simp: hd_append)
  then have tr: "trim ?s = ?s" using digit_not_space by (intro trim_id) auto
  have at: "?s ! 4 = CHR ''-''" "?s ! 7 = CHR ''-''" using l by (simp_all add: nth_append)
  have sub: "substr ?s 0 4 = pad0 4 y" "substr ?s 5 2 = pad0 2 m" "substr ?s 8 2 = pad0 2 d" using l by (simp_all add: substr_def)
  have "parse_i32 (pad0 4 y) = Some y" using parse_digits [of "pad0 4 y"] Y assms ne(1) by simp
  moreover have "parse_u32 (pad0 2 m) = Some m" using parse_digits [of "pad0 2 m" 0 "2 ^ 32 - 1" False] M assms ne(2) by simp
  moreover have "parse_u32 (pad0 2 d) = Some d" using parse_digits [of "pad0 2 d" 0 "2 ^ 32 - 1" False] D assms ne(3) by simp
  ultimately show ?thesis using l at assms unfolding parse_ymd_def Let_def tr sub by simp
qed

definition filing_ok :: "filing \<Rightarrow> bool" where
  \<comment> \<open>a filing of a year with at most four digits\<close>
  "filing_ok e \<longleftrightarrow> fi_cls e \<noteq> FormCount \<and> (case civil_of_days (fi_day e) of (y, _, _) \<Rightarrow> 0 \<le> y \<and> y < 10000)"

definition filings_ok :: "filings \<Rightarrow> bool" where
  "filings_ok h \<longleftrightarrow> distinct (map fst h) \<and> (\<forall>(cik, v) \<in> set h. cik \<noteq> 0 \<and> v \<noteq> [] \<and> distinct (map (\<lambda>e. (fi_day e, fi_cls e)) v) \<and>
     (\<forall>e \<in> set v. filing_ok e))"

lemma form_num_ok: "c \<noteq> FormCount \<Longrightarrow> form_num c < 13 \<and> form_classes ! form_num c = c"
  by (cases c) (simp_all add: form_classes_def)

lemma digits_chars: "\<forall>c \<in> set ds. is_digit c \<Longrightarrow> CHR 0x09 \<notin> set ds \<and> CHR 0x0A \<notin> set ds \<and> CHR 0x0D \<notin> set ds"
  by (auto simp: is_digit_def code_def)

lemma tsv_row_parts:
  assumes "filing_ok e"
  obtains y m d where "civil_from_days (fi_day e) = (y, m, d)" "days_from_civil y m d = fi_day e" "0 \<le> y" "y < 10000" "1 \<le> m" "m \<le> 12" "1 \<le> d" "d \<le> 31"
proof -
  obtain y m d where c: "civil_of_days (fi_day e) = (y, m, d)" by (metis prod_cases3)
  then have y: "0 \<le> y" "y < 10000" using assms by (simp_all add: filing_ok_def)
  have "civil_from_days (fi_day e) = (y, m, d)" by (rule civil_year_fits [OF c]) (use y in simp_all)
  then show thesis using that y days_civil_roundtrip [of "fi_day e"] c by simp
qed

lemma digit_not_cik: "is_digit (hd s) \<Longrightarrow> \<not> istarts_with s ''cik''"
proof
  assume d: "is_digit (hd s)" and i: "istarts_with s ''cik''"
  have "map to_lower (take 3 s) = map to_lower ''cik''" using i by (simp add: istarts_with_def iequals_iff substr_def numeral_3_eq_3)
  then have "to_lower (hd s) = to_lower (CHR ''c'')" by (cases s) simp_all
  moreover have "to_lower (hd s) = hd s" using d by (simp add: to_lower_def is_digit_def)
  moreover have "to_lower (CHR ''c'') = CHR ''c''" by code_simp
  ultimately show False using d by (simp add: is_digit_def code_def)
qed

lemma load_tsv_row:
  assumes "filing_ok e"
  shows "load_row (tsv_row cik e) = Some (cik, fi_day e, fi_cls e, fi_items e)"
proof -
  obtain y m d where c: "civil_from_days (fi_day e) = (y, m, d)" "days_from_civil y m d = fi_day e" "0 \<le> y" "y < 10000" "1 \<le> m" "m \<le> 12" "1 \<le> d" "d \<le> 31"
    using tsv_row_parts [OF assms] .
  let ?date = "pad0 4 y @ ''-'' @ pad0 2 m @ ''-'' @ pad0 2 d"
  have row: "tsv_row cik e = dec_digits (unat cik) @ CHR 0x09 # (?date @ CHR 0x09 # (dec_digits (form_num (fi_cls e)) @ CHR 0x09 # dec_digits (unat (fi_items e))))"
    by (simp add: tsv_row_def c(1))
  have nd: "CHR 0x09 \<notin> set (dec_digits n)" for n using digits_chars [OF dec_digits_digits] by blast
  have "CHR 0x09 \<notin> set (pad0 4 y)" "CHR 0x09 \<notin> set (pad0 2 m)" "CHR 0x09 \<notin> set (pad0 2 d)"
    using digits_chars [of "pad0 4 y"] digits_chars [of "pad0 2 m"] digits_chars [of "pad0 2 d"] pad0_ok(2) [of y 4] pad0_ok(2) [of m 2] pad0_ok(2) [of d 2] c by simp_all
  then have split: "split_str (tsv_row cik e) (CHR 0x09) = [dec_digits (unat cik), ?date, dec_digits (form_num (fi_cls e)), dec_digits (unat (fi_items e))]"
    unfolding row by (simp add: split_str_Cons split_str_last nd del: append.simps append_assoc)
  have ne: "dec_digits (unat cik) \<noteq> []" by (subst dec_digits.simps) simp
  then have "is_digit (hd (tsv_row cik e))" using dec_digits_digits [of "unat cik"] by (simp add: row hd_append)
  then have "\<not> istarts_with (tsv_row cik e) ''cik''" by (rule digit_not_cik)
  moreover have "tsv_row cik e \<noteq> []" using ne by (simp add: row)
  moreover have u: "unat (w :: u32) < 2 ^ 32" for w using unat_bound32 [of w] by simp
  have "parse_u32 (dec_digits (unat cik)) = Some (uint cik)" "parse_u32 (dec_digits (unat (fi_items e))) = Some (uint (fi_items e))"
    using parse_u32_dec [OF u, of cik] parse_u32_dec [OF u, of "fi_items e"] by simp_all
  moreover have "form_num (fi_cls e) < 2 ^ 32" "form_num (fi_cls e) < 13" "form_classes ! form_num (fi_cls e) = fi_cls e"
    using form_num_ok [of "fi_cls e"] assms by (auto simp: filing_ok_def)
  moreover from this(1) have "parse_u32 (dec_digits (form_num (fi_cls e))) = Some (int (form_num (fi_cls e)))" by (rule parse_u32_dec)
  moreover note parse_ymd_pad0 [OF c(3-8)]
  ultimately show ?thesis using c(2) unfolding load_row_def split by (simp add: value_or0_def Let_def del: append.simps append_assoc)
qed

lemma strip_cr_id: "CHR 0x0D \<notin> set l \<Longrightarrow> strip_cr l = l"
  using last_in_set by (fastforce simp: strip_cr_def)

lemma tsv_row_chars:
  assumes "filing_ok e"
  shows "CHR 0x0A \<notin> set (tsv_row cik e) \<and> CHR 0x0D \<notin> set (tsv_row cik e) \<and> length (tsv_row cik e) < 95"
proof -
  obtain y m d where c: "civil_from_days (fi_day e) = (y, m, d)" "0 \<le> y" "y < 10000" "1 \<le> m" "m \<le> 12" "1 \<le> d" "d \<le> 31"
    using tsv_row_parts [OF assms] .
  note Y = pad0_ok [of y 4] and M = pad0_ok [of m 2] and D = pad0_ok [of d 2]
  have u: "length (dec_digits (unat (w :: u32))) \<le> 10" for w using unat_bound32 [of w] by (intro dec_digits_length) simp_all
  have "length (dec_digits (form_num (fi_cls e))) \<le> 10"
    using form_num_ok [of "fi_cls e"] assms by (intro dec_digits_length) (auto simp: filing_ok_def)
  then have "length (tsv_row cik e) < 95" using c Y(1) M(1) D(1) u [of cik] u [of "fi_items e"] by (simp add: tsv_row_def)
  moreover have nd: "CHR 0x0A \<notin> set (dec_digits n)" "CHR 0x0D \<notin> set (dec_digits n)" for n using digits_chars [OF dec_digits_digits] by blast+
  have "CHR 0x0A \<notin> set (pad0 4 y)" "CHR 0x0A \<notin> set (pad0 2 m)" "CHR 0x0A \<notin> set (pad0 2 d)"
    "CHR 0x0D \<notin> set (pad0 4 y)" "CHR 0x0D \<notin> set (pad0 2 m)" "CHR 0x0D \<notin> set (pad0 2 d)"
    using digits_chars [of "pad0 4 y"] digits_chars [of "pad0 2 m"] digits_chars [of "pad0 2 d"] Y(2) M(2) D(2) c by simp_all
  then have "CHR 0x0A \<notin> set (tsv_row cik e) \<and> CHR 0x0D \<notin> set (tsv_row cik e)" using nd by (simp add: tsv_row_def c(1))
  ultimately show ?thesis by blast
qed

definition history_rows :: "filings \<Rightarrow> (u32 \<times> filing) list" where
  "history_rows h = concat (map (\<lambda>(cik, v). map (Pair cik) v) h)"

lemma to_tsv_lines:
  assumes "filings_ok h"
  shows "lines (to_tsv h) = (''cik'' @ [CHR 0x09] @ ''date'' @ [CHR 0x09] @ ''class'' @ [CHR 0x09] @ ''items'') # map (\<lambda>(cik, e). tsv_row cik e) (history_rows h)"
proof -
  let ?head = "''cik'' @ [CHR 0x09] @ ''date'' @ [CHR 0x09] @ ''class'' @ [CHR 0x09] @ ''items''"
  have ok: "filing_ok e" if "(cik, e) \<in> set (history_rows h)" for cik e using assms that by (auto simp: history_rows_def filings_ok_def)
  have tk: "take 95 (tsv_row cik e @ [CHR 0x0A]) = tsv_row cik e @ [CHR 0x0A]" if "(cik, e) \<in> set (history_rows h)" for cik e
    using tsv_row_chars [OF ok [OF that], of cik] by (intro take_all) simp
  have "concat (map (\<lambda>(cik, v). concat (map (\<lambda>e. take 95 (tsv_row cik e @ [CHR 0x0A])) v)) h) =
      concat (map (\<lambda>(cik, e). take 95 (tsv_row cik e @ [CHR 0x0A])) (history_rows h))"
    by (induction h) (auto simp: history_rows_def comp_def)
  also have "\<dots> = concat (map (\<lambda>l. l @ [CHR 0x0A]) (map (\<lambda>(cik, e). tsv_row cik e) (history_rows h)))"
    using tk by (intro arg_cong [of _ _ concat]) (auto simp: comp_def)
  finally have "to_tsv h = concat (map (\<lambda>l. l @ [CHR 0x0A]) (?head # map (\<lambda>(cik, e). tsv_row cik e) (history_rows h)))"
    by (simp add: to_tsv_def)
  moreover have "\<forall>l \<in> set (?head # map (\<lambda>(cik, e). tsv_row cik e) (history_rows h)). CHR 0x0A \<notin> set l \<and> strip_cr l = l"
    using tsv_row_chars [OF ok] by (auto simp: strip_cr_id)
  ultimately show ?thesis using lines_concat by metis
qed

lemma add_entry_new: "(day, cls) \<notin> (\<lambda>e. (fi_day e, fi_cls e)) ` set v \<Longrightarrow> add_entry day cls items v = v @ [\<lparr>fi_day = day, fi_cls = cls, fi_items = items\<rparr>]"
  by (induction v) (auto simp: image_iff)

lemma at_cik_append: "k \<notin> fst ` set h \<Longrightarrow> at_cik k f (h @ [(k, v)]) = h @ [(k, f v)]"
  by (induction h) auto

lemma at_cik_new: "k \<notin> fst ` set h \<Longrightarrow> at_cik k f h = h @ [(k, f [])]"
  by (induction h) auto

definition add_row :: "u32 \<times> filing \<Rightarrow> filings \<Rightarrow> filings" where
  "add_row r h = filings_add (fst r) (fi_day (snd r)) (fi_cls (snd r)) (fi_items (snd r)) h"

lemma add_group:
  assumes "k \<noteq> 0" "k \<notin> fst ` set h" "distinct (map (\<lambda>e. (fi_day e, fi_cls e)) v)" "v \<noteq> []"
  shows "fold add_row (map (Pair k) v) h = h @ [(k, v)]"
  using assms(3,4)
proof (induction v rule: rev_induct)
  case (snoc e v)
  show ?case
  proof (cases "v = []")
    case True
    then show ?thesis using assms(1,2) by (simp add: add_row_def filings_add_def at_cik_new)
  next
    case False
    then have "fold add_row (map (Pair k) v) h = h @ [(k, v)]" using snoc by simp
    then show ?thesis using assms(1,2) snoc.prems
      by (simp add: add_row_def [of "(k, e)"] filings_add_def at_cik_append add_entry_new)
  qed
qed simp

lemma add_groups:
  "filings_ok (h0 @ h) \<Longrightarrow> fold add_row (history_rows h) h0 = h0 @ h"
proof (induction h arbitrary: h0)
  case (Cons kv h)
  obtain k v where kv: "kv = (k, v)" by (cases kv)
  have "fold add_row (map (Pair k) v) h0 = h0 @ [(k, v)]" using Cons.prems kv by (intro add_group) (auto simp: filings_ok_def)
  moreover have "history_rows (kv # h) = map (Pair k) v @ history_rows h" by (simp add: history_rows_def kv)
  ultimately show ?case using Cons.IH [of "h0 @ [(k, v)]"] Cons.prems kv by simp
qed (simp add: history_rows_def)

lemma tsv_roundtrip:
  assumes "filings_ok h"
  shows "load_tsv (to_tsv h) [] = (h, length (history_rows h))"
proof -
  have ok: "filing_ok e" if "(cik, e) \<in> set (history_rows h)" for cik e using assms that by (auto simp: history_rows_def filings_ok_def)
  have "fold load_step (map (\<lambda>(cik, e). tsv_row cik e) rs) st = (fold add_row rs (fst st), snd st + length rs)"
    if "set rs \<subseteq> set (history_rows h)" for rs st
    using that
  proof (induction rs arbitrary: st)
    case (Cons r rs)
    obtain k e where r: "r = (k, e)" by (cases r)
    have "load_step (tsv_row k e) st = (add_row r (fst st), snd st + 1)"
      using load_tsv_row [OF ok, of k e k] Cons.prems r by (simp add: load_step_def add_row_def)
    then show ?case using Cons r by simp
  qed simp
  moreover have "load_step (''cik'' @ [CHR 0x09] @ ''date'' @ [CHR 0x09] @ ''class'' @ [CHR 0x09] @ ''items'') ([], 0) = ([], 0)"
    by code_simp
  moreover have "fold add_row (history_rows h) [] = h" using add_groups [of "[]" h] assms by simp
  ultimately show ?thesis using assms by (simp add: load_tsv_def to_tsv_lines del: append.simps)
qed

lemma add_entry_keys: "(\<lambda>e. (fi_day e, fi_cls e)) ` set (add_entry day cls items v) = insert (day, cls) ((\<lambda>e. (fi_day e, fi_cls e)) ` set v)"
  by (induction v) auto

definition group_ok :: "filing list \<Rightarrow> bool" where
  "group_ok v \<longleftrightarrow> v \<noteq> [] \<and> distinct (map (\<lambda>e. (fi_day e, fi_cls e)) v) \<and> (\<forall>e \<in> set v. filing_ok e)"

lemma filings_ok_alt: "filings_ok h \<longleftrightarrow> distinct (map fst h) \<and> (\<forall>g \<in> set h. fst g \<noteq> 0 \<and> group_ok (snd g))"
  unfolding filings_ok_def group_ok_def case_prod_unfold by simp

lemma filing_ok_items [simp]: "filing_ok (e\<lparr>fi_items := x\<rparr>) \<longleftrightarrow> filing_ok e"
proof -
  have "fi_cls (e\<lparr>fi_items := x\<rparr>) = fi_cls e" "fi_day (e\<lparr>fi_items := x\<rparr>) = fi_day e" by simp_all
  then show ?thesis by (simp only: filing_ok_def)
qed

lemma add_entry_ok:
  assumes "filing_ok \<lparr>fi_day = day, fi_cls = cls, fi_items = items\<rparr>" "v = [] \<or> group_ok v"
  shows "group_ok (add_entry day cls items v)"
proof -
  have "add_entry day cls items v \<noteq> []" by (cases v) auto
  moreover have "distinct (map (\<lambda>e. (fi_day e, fi_cls e)) v) \<Longrightarrow> distinct (map (\<lambda>e. (fi_day e, fi_cls e)) (add_entry day cls items v))"
    by (induction v) (auto simp: add_entry_keys)
  moreover have "(\<forall>e \<in> set v. filing_ok e) \<Longrightarrow> (\<forall>e \<in> set (add_entry day cls items v). filing_ok e)"
    using assms(1) by (induction v) simp_all
  ultimately show ?thesis using assms(2) by (auto simp: group_ok_def)
qed

lemma filings_add_ok:
  assumes "filings_ok h" "filing_ok \<lparr>fi_day = day, fi_cls = cls, fi_items = items\<rparr>"
  shows "filings_ok (filings_add cik day cls items h)"
proof (cases "cik = 0")
  case False
  have "\<forall>g \<in> set (at_cik cik (add_entry day cls items) h). fst g \<noteq> 0 \<and> group_ok (snd g)"
    if "\<forall>g \<in> set h. fst g \<noteq> 0 \<and> group_ok (snd g)"
    using that
  proof (induction h)
    case Nil
    then show ?case using False add_entry_ok [OF assms(2), of "[]"] by simp
  next
    case (Cons g h)
    then show ?case using False add_entry_ok [OF assms(2), of "snd g"] by (cases g) simp
  qed
  then show ?thesis using assms(1) False at_cik_distinct [of h cik "add_entry day cls items"]
    unfolding filings_add_def filings_ok_alt by simp
qed (use assms(1) in \<open>simp add: filings_add_def\<close>)

end
