(* ===== verification/Engine.thy ===== *)
theory Engine
  imports Paper Filings Histogram Itch_Book
begin

unbundle bit_operations_syntax

text \<open>
  \<open>src/engine/engine.hpp\<close>, \<open>src/engine/engine.cpp\<close>: the decision core. News events are scored and put on a
  watch list; the watch list is evaluated against the market board and raises ALERT and HIGH signals, which
  also drive the paper trader; halts and movers without news raise signals of their own.

  The engine is single-threaded. The hash tables are the \<open>flat_map\<close>s of \<open>Flat_Hash\<close> and the outgoing rings the
  \<open>spsc\<close> queues of \<open>Spsc_Queue\<close>; an operation is partial (\<open>None\<close>) where a table operation is. The clocks and
  the board snapshot are arguments. Left out are the explanatory texts (\<open>why\<close>, \<open>title\<close>, \<open>link\<close>) that only the
  reader of an alert sees, the wake-ups of the sink threads, log lines and the thread loop \<open>run\<close>.

  The proofs are in \<open>Engine_Watch\<close> (watch list and cooldowns), \<open>Engine_Inv\<close> (invariant, evaluation, halts, movers) and
  \<open>Engine_News\<close> (news and runs).
\<close>

subsection \<open>Configuration and events\<close>

record engine_config =
  ec_min_price :: double
  ec_max_price :: double
  ec_max_market_cap :: double
  ec_listed_only :: bool
  ec_allow_unknown_price :: bool
  ec_watch_score :: int
  ec_high_score :: int
  ec_alert_move_pct :: double
  ec_alert_rvol :: double
  ec_alert_dollar_volume :: double
  ec_alert_max_spread_pct :: double
  ec_high_max_shares :: double
  ec_high_require_above_vwap :: bool
  ec_watch_window_s :: int
  ec_cooldown_s :: int
  ec_push_watch :: bool
  ec_movers_enabled :: bool
  ec_mover_move_pct :: double
  ec_mover_rvol :: double
  ec_mover_dollar_volume :: double
  ec_mover_scan_ms :: int
  ec_halt_alerts :: int
  ec_eval_interval_ns :: u64
  ec_sim_time :: bool
  ec_stats_interval_s :: int
  ec_dilution :: dilution_policy
  ec_outcome_horizons_s :: "int list"
  ec_paper :: paper_config

definition engine_config0 :: engine_config where
  "engine_config0 = \<lparr>ec_min_price = 1 / 2, ec_max_price = 10, ec_max_market_cap = 500000000, ec_listed_only = True,
     ec_allow_unknown_price = True, ec_watch_score = 55, ec_high_score = 75, ec_alert_move_pct = 8, ec_alert_rvol = 5,
     ec_alert_dollar_volume = 300000, ec_alert_max_spread_pct = 3, ec_high_max_shares = 30000000,
     ec_high_require_above_vwap = True, ec_watch_window_s = 90 * 60, ec_cooldown_s = 30 * 60, ec_push_watch = False,
     ec_movers_enabled = True, ec_mover_move_pct = 25, ec_mover_rvol = 8, ec_mover_dollar_volume = 1000000,
     ec_mover_scan_ms = 1000, ec_halt_alerts = 1, ec_eval_interval_ns = 2000000, ec_sim_time = False, ec_stats_interval_s = 60, ec_dilution = dilution_policy0,
     ec_outcome_horizons_s = [60, 300, 900, 1800, 3600], ec_paper = paper_config0\<rparr>"

datatype event_kind = EvNews | EvFiling | EvFilingDoc | EvHalt

fun event_kind_name :: "event_kind \<Rightarrow> string" where
  "event_kind_name EvNews = ''news''"
| "event_kind_name EvFiling = ''filing''"
| "event_kind_name EvFilingDoc = ''filing_doc''"
| "event_kind_name EvHalt = ''halt''"

record news_event =
  ne_id_hash :: u64
  ne_title_key :: u64
  ne_recv_ns :: u64
  ne_published_ns :: int
  ne_parsed_ns :: u64
  ne_cik :: u32
  ne_items_mask :: u32
  ne_source :: u16
  ne_kind :: event_kind
  ne_tickers :: "u32 list" \<comment> \<open>the first \<open>n_tickers\<close> entries\<close>
  ne_form :: string
  ne_halt_reason :: string
  ne_resume_trade_ns :: int
  ne_title :: string
  ne_body :: string

record outcome =
  oc_sym :: u32
  oc_horizon_s :: u32
  oc_news_id :: u64
  oc_t_news_recv_ns :: u64
  oc_t_ns :: u64
  oc_ref_price :: double
  oc_price :: double
  oc_move_pct :: double
  oc_max_move_pct :: double
  oc_min_move_pct :: double
  oc_volume_since :: double
  oc_dollar_volume_since :: double
  oc_score :: int
  oc_tier_reached :: tier
  oc_catalyst :: catalyst
  oc_ticker :: string

record news_record =
  nr_news :: news_event
  nr_score :: score_result
  nr_sym :: u32
  nr_dilution :: u32
  nr_market_cap :: double
  nr_price :: double
  nr_in_universe :: bool
  nr_duplicate :: bool
  nr_first_source :: u16
  nr_first_seen_lag_ns :: int
  nr_engine_ns :: u64

datatype journal_record = JNews news_record | JSignal signal | JOutcome outcome | JTrade paper_trade

subsection \<open>State\<close>

record watch =
  wa_active :: bool
  wa_tier :: tier
  wa_sym :: u32
  wa_source :: u16
  wa_score :: int
  wa_catalyst :: catalyst
  wa_score_flags :: u32
  wa_dilution_flags :: u32
  wa_news_id :: u64
  wa_t_news :: u64
  wa_published_ns :: int
  wa_ref_px :: int
  wa_vol_at_news :: u64
  wa_notional_at_news :: u64
  wa_max_move :: double
  wa_min_move :: double
  wa_amount_usd :: double
  wa_materiality :: double
  wa_market_cap :: double
  wa_horizons_done :: u32

definition watch0 :: watch where
  "watch0 = \<lparr>wa_active = False, wa_tier = TierNone, wa_sym = 0, wa_source = 0, wa_score = 0, wa_catalyst = NoCatalyst,
     wa_score_flags = 0, wa_dilution_flags = 0, wa_news_id = 0, wa_t_news = 0, wa_published_ns = 0, wa_ref_px = 0,
     wa_vol_at_news = 0, wa_notional_at_news = 0, wa_max_move = 0, wa_min_move = 0, wa_amount_usd = 0, wa_materiality = 0,
     wa_market_cap = 0, wa_horizons_done = 0\<rparr>"

record source_stats =
  so_items :: u64
  so_first :: u64
  so_dup :: u64
  so_scored :: u64
  so_in_universe :: u64
  so_watch :: u64
  so_queue_ns :: histogram
  so_publish_lag :: histogram
  so_dup_lag :: histogram

definition source_stats0 :: source_stats where
  "source_stats0 = \<lparr>so_items = 0, so_first = 0, so_dup = 0, so_scored = 0, so_in_universe = 0, so_watch = 0,
     so_queue_ns = hist_new, so_publish_lag = hist_new, so_dup_lag = hist_new\<rparr>"

record engine =
  en_cfg :: engine_config
  en_symbols :: "symbol_info list"
  en_scorer :: scorer
  en_filings :: filings
  en_alerts :: "signal spsc option"
  en_journal :: "journal_record spsc option"
  en_watch :: "watch list"
  en_slots :: "nat list" \<comment> \<open>\<open>active_\<close>\<close>
  en_free :: "nat list" \<comment> \<open>\<open>free_\<close>, the next slot last\<close>
  en_by_sym :: "nat flat_map"
  en_paper :: "paper_trader option"
  en_first_seen :: "(u16 \<times> u64) flat_map"
  en_last_news :: "u64 flat_map"
  en_mover_alerted :: "u64 flat_map"
  en_last_tier_ns :: "u64 flat_map"
  en_halt_seen :: "(char \<times> u64) flat_map"
  en_universe :: "bool list"
  en_src_stats :: "source_stats list"
  en_recv_to_watch :: histogram
  en_e2e :: histogram
  en_handle :: histogram
  en_tier_counts :: "u64 list"
  en_journal_drops :: u64
  en_alert_drops :: u64
  en_cached_day :: int
  en_cached_until :: u64

record board_view =
  bv_size :: nat
  bv_hot :: snapshot

definition hot_of :: "board_view option \<Rightarrow> u32 \<Rightarrow> market_hot" where
  \<comment> \<open>\<open>board_ ? board_->hot(sym) : MarketHot{}\<close>\<close>
  "hot_of bd s = (case bd of Some b \<Rightarrow> bv_hot b s | None \<Rightarrow> hot0)"

definition kWatchSlots :: nat where
  "kWatchSlots = 1024"

definition static_universe :: "engine_config \<Rightarrow> symbol_info \<Rightarrow> bool" where
  "static_universe cfg s \<longleftrightarrow> \<not> etf s \<and> \<not> test_issue s \<and> \<not> is_derivative_security s \<and>
     (ec_listed_only cfg \<longrightarrow> is_exchange_listed (si_exchange s))"

definition engine_new ::
    "engine_config \<Rightarrow> symbol_info list \<Rightarrow> bool \<Rightarrow> scorer \<Rightarrow> filings \<Rightarrow> signal spsc option \<Rightarrow> journal_record spsc option \<Rightarrow> nat \<Rightarrow> engine option" where
  \<comment> \<open>\<open>has_board\<close>: a board was given; \<open>n_sources\<close>: the number of source names\<close>
  "engine_new cfg symbols has_board scorer filings alerts journal n_sources = do {
     by_sym \<leftarrow> flat_map_new 0 256 0.7;
     first_seen \<leftarrow> flat_map_new (0, 0) 8192 0.7;
     last_news \<leftarrow> flat_map_new 0 1024 0.7;
     mover \<leftarrow> flat_map_new 0 256 0.7;
     last_tier \<leftarrow> flat_map_new 0 256 0.7;
     halts \<leftarrow> flat_map_new (CHR 0x00, 0) 256 0.7;
     Some \<lparr>en_cfg = cfg, en_symbols = symbols, en_scorer = scorer, en_filings = filings, en_alerts = alerts, en_journal = journal,
       en_watch = replicate kWatchSlots watch0, en_slots = [], en_free = rev [0..<kWatchSlots], en_by_sym = by_sym,
       en_paper = (if pc_enabled (ec_paper cfg) \<and> has_board then Some (paper_new (ec_paper cfg)) else None),
       en_first_seen = first_seen, en_last_news = last_news, en_mover_alerted = mover, en_last_tier_ns = last_tier, en_halt_seen = halts,
       en_universe = map (static_universe cfg) symbols, en_src_stats = replicate (max 1 (n_sources + 1)) source_stats0,
       en_recv_to_watch = hist_new, en_e2e = hist_new, en_handle = hist_new, en_tier_counts = replicate 8 0,
       en_journal_drops = 0, en_alert_drops = 0, en_cached_day = 0, en_cached_until = 0\<rparr> }"

subsection \<open>Helpers\<close>

fun tier_name :: "tier \<Rightarrow> string" where
  "tier_name TierNone = ''none''"
| "tier_name TierWatch = ''WATCH''"
| "tier_name TierAlert = ''ALERT''"
| "tier_name TierHigh = ''HIGH''"
| "tier_name TierHalt = ''HALT''"
| "tier_name TierMover = ''MOVER''"
| "tier_name TierInfo = ''INFO''"

definition kRth :: "double list" where
  "kRth = [0, 13 / 100, 22 / 100, 29 / 100, 35 / 100, 40 / 100, 45 / 100, 49 / 100, 53 / 100, 58 / 100, 63 / 100, 69 / 100, 78 / 100, 1]"

definition expected_volume_fraction :: "int \<Rightarrow> double" where
  "expected_volume_fraction minute =
     (let kPre = 4 * 60; kOpen = 9 * 60 + 30; kClose = 16 * 60; kPost = 20 * 60 in
      if minute < kPre then 0
      else if minute < kOpen then 4 / 100 * of_int (minute - kPre) / of_int (kOpen - kPre)
      else if minute < kClose then
        let x = of_int (minute - kOpen) / 30;
            i = nat (min 12 \<lfloor>x\<rfloor>);
            g = kRth ! i + (kRth ! (i + 1) - kRth ! i) * (x - of_nat i)
        in 4 / 100 + 92 / 100 * g
      else if minute < kPost then 96 / 100 + 4 / 100 * of_int (minute - kClose) / of_int (kPost - kClose)
      else 1)"

definition today_days :: "u64 \<Rightarrow> engine \<Rightarrow> engine \<times> int" where
  "today_days now e =
     (let e = (if now \<ge> en_cached_until e \<or> en_cached_day e = 0
               then case eastern_date (i64_of_u64 now) of (y, m, d) \<Rightarrow>
                 e\<lparr>en_cached_day := days_from_civil y m d, en_cached_until := now + 60 * kNsPerSec\<rparr>
               else e)
      in (e, en_cached_day e))"

definition info_of :: "engine \<Rightarrow> u32 \<Rightarrow> symbol_info" where
  "info_of e s = en_symbols e ! unat s"

definition market_cap_of :: "engine \<Rightarrow> u32 \<Rightarrow> double \<Rightarrow> double" where
  "market_cap_of e s px = (if shares_outstanding (info_of e s) > 0 \<and> px > 0 then shares_outstanding (info_of e s) * px else 0)"

definition in_universe :: "engine \<Rightarrow> u32 \<Rightarrow> double \<Rightarrow> bool \<times> double" where
  \<comment> \<open>the verdict and \<open>*mcap_out\<close>\<close>
  "in_universe e s px =
     (if unat s \<ge> length (en_universe e) \<or> \<not> en_universe e ! unat s then (False, 0)
      else if (if px > 0 then px < ec_min_price (en_cfg e) \<or> px > ec_max_price (en_cfg e) else \<not> ec_allow_unknown_price (en_cfg e)) then (False, 0)
      else let mcap = market_cap_of e s px in (\<not> (mcap > 0 \<and> mcap > ec_max_market_cap (en_cfg e)), mcap))"

definition rvol_of :: "engine \<Rightarrow> u32 \<Rightarrow> u64 \<Rightarrow> u64 \<Rightarrow> double" where
  "rvol_of e s vol now =
     (let adv = adv20 (info_of e s) in
      if adv \<le> 0 then 0
      else let frac = expected_volume_fraction (eastern_minute_of_day (i64_of_u64 now));
               expected = max (adv * frac) (adv * (2 / 1000))
           in real (unat vol) / expected)"

definition soft_penalty_flags :: u32 where
  "soft_penalty_flags = kFlagShelf OR kFlagS1Pending OR kFlagReverseSplitRisk OR kFlagDeficiency OR kFlagLateFiler OR kFlagReverseSplitDone"

definition tier_key :: "u32 \<Rightarrow> tier \<Rightarrow> u64" where
  "tier_key s t = push_bit 3 (ucast s) OR of_nat (tier_num t)"

definition cooled_down :: "u32 \<Rightarrow> tier \<Rightarrow> u64 \<Rightarrow> engine \<Rightarrow> (engine \<times> bool) option" where
  "cooled_down s t now e = do {
     (m, i, inserted) \<leftarrow> try_emplace 0 (en_last_tier_ns e) (tier_key s t);
     if \<not> inserted \<and> now - value_at m i < word_of_int (ec_cooldown_s (en_cfg e)) * kNsPerSec
     then Some (e\<lparr>en_last_tier_ns := m\<rparr>, False)
     else Some (e\<lparr>en_last_tier_ns := set_value m i now\<rparr>, True) }"

subsection \<open>The watch list\<close>

definition find_watch :: "u32 \<Rightarrow> engine \<Rightarrow> nat option option" where
  \<comment> \<open>the slot of the story on a ticker\<close>
  "find_watch s e = do {
     p \<leftarrow> fm_find (en_by_sym e) (ucast s);
     Some (map_option (\<lambda>i. value_at (en_by_sym e) i) p) }"

definition deactivate_watch :: "nat \<Rightarrow> engine \<Rightarrow> engine option" where
  "deactivate_watch p e =
     (let idx = en_slots e ! p; w = en_watch e ! idx in do {
        (m, _) \<leftarrow> erase (en_by_sym e) (ucast (wa_sym w));
        Some (e\<lparr>en_by_sym := m, en_watch := (en_watch e)[idx := w\<lparr>wa_active := False\<rparr>],
                en_slots := butlast ((en_slots e)[p := last (en_slots e)]), en_free := en_free e @ [idx]\<rparr>) })"

fun oldest_from :: "engine \<Rightarrow> nat list \<Rightarrow> nat \<Rightarrow> nat" where
  \<comment> \<open>the loop that looks for the oldest story\<close>
  "oldest_from e [] best = best"
| "oldest_from e (k # ks) best =
     oldest_from e ks (if wa_t_news (en_watch e ! (en_slots e ! k)) < wa_t_news (en_watch e ! (en_slots e ! best)) then k else best)"

definition activate_watch :: "u32 \<Rightarrow> engine \<Rightarrow> (engine \<times> nat) option" where
  "activate_watch s e = do {
     e \<leftarrow> (if en_free e = [] then deactivate_watch (oldest_from e [1..<length (en_slots e)] 0) e else Some e);
     let idx = last (en_free e);
     let e = e\<lparr>en_free := butlast (en_free e), en_watch := (en_watch e)[idx := watch0\<lparr>wa_active := True, wa_sym := s\<rparr>],
               en_slots := en_slots e @ [idx]\<rparr>;
     (m, _) \<leftarrow> insert_or_assign 0 (en_by_sym e) (ucast s) idx;
     Some (e\<lparr>en_by_sym := m\<rparr>, idx) }"

definition watch_count :: "engine \<Rightarrow> nat" where
  "watch_count e = length (en_slots e)"

definition idle :: "engine \<Rightarrow> bool" where
  "idle e \<longleftrightarrow> en_slots e = [] \<and> (case en_paper e of None \<Rightarrow> True | Some p \<Rightarrow> open_positions p = 0)"

subsection \<open>Output\<close>

definition journal_push :: "journal_record \<Rightarrow> engine \<Rightarrow> engine" where
  \<comment> \<open>claim, fill and publish a journal slot, or count a drop\<close>
  "journal_push r e =
     (case en_journal e of
        None \<Rightarrow> e
      | Some q \<Rightarrow> (case spsc_try_push q r of
          (q, True) \<Rightarrow> e\<lparr>en_journal := Some q\<rparr>
        | (q, False) \<Rightarrow> e\<lparr>en_journal := Some q, en_journal_drops := en_journal_drops e + 1\<rparr>))"

definition since :: "u64 \<Rightarrow> u64 \<Rightarrow> u64" where
  \<comment> \<open>\<open>a - std::min(a, b)\<close>\<close>
  "since a b = a - min a b"

definition make_signal :: "board_view option \<Rightarrow> u64 \<Rightarrow> watch \<Rightarrow> tier \<Rightarrow> u64 \<Rightarrow> string \<Rightarrow> engine \<Rightarrow> signal" where
  "make_signal bd wall w t now halt_rsn e =
     (let info = info_of e (wa_sym w);
          h = hot_of bd (wa_sym w);
          px = (case bd of None \<Rightarrow> prev_close info | Some _ \<Rightarrow> last_price h);
          quoted = (bd \<noteq> None \<and> quote_valid h);
          on = (\<lambda>x. if bd = None then 0 else x)
      in \<lparr>sg_tier = t, sg_catalyst = wa_catalyst w, sg_source = wa_source w, sg_sym = wa_sym w, sg_score_flags = wa_score_flags w,
          sg_dilution_flags = wa_dilution_flags w, sg_score = wa_score w, sg_news_id = wa_news_id w,
          sg_t_news_recv_ns = wa_t_news w, sg_t_signal_ns = (if ec_sim_time (en_cfg e) then now else wall),
          sg_published_ns = wa_published_ns w, sg_price = px, sg_ref_price = on (of_int (wa_ref_px w) / 10000),
          sg_move_pct = on (if wa_ref_px w > 0 \<and> last_px h > 0 then of_int (last_px h - wa_ref_px w) * 100 / of_int (wa_ref_px w) else 0),
          sg_rvol = on (rvol_of e (wa_sym w) (day_volume h) now),
          sg_dollar_volume = on (real (unat (since (notional_e4 h) (wa_notional_at_news w))) / 10000),
          sg_vwap = on (vwap h), sg_bid = (if quoted then of_int (bid_px h) / 10000 else 0),
          sg_ask = (if quoted then of_int (ask_px h) / 10000 else 0), sg_spread_pct = (if quoted then spread_pct h else 0),
          sg_market_cap = (if bd \<noteq> None \<and> wa_market_cap w \<le> 0 \<and> shares_outstanding info > 0 \<and> px > 0
                           then shares_outstanding info * px else wa_market_cap w),
          sg_shares_out = shares_outstanding info, sg_amount_usd = wa_amount_usd w, sg_materiality = wa_materiality w,
          sg_ticker = snprintf_s 16 (ticker info), sg_exchange = snprintf_s 16 (exchange_name (si_exchange info)),
          sg_halt_reason = snprintf_s 8 halt_rsn\<rparr>)"

definition note_tier :: "tier \<Rightarrow> engine \<Rightarrow> engine" where
  "note_tier t e = e\<lparr>en_tier_counts := (en_tier_counts e)[tier_num t := en_tier_counts e ! tier_num t + 1]\<rparr>"

definition note_latency :: "watch \<Rightarrow> signal \<Rightarrow> engine \<Rightarrow> engine" where
  "note_latency w s e =
     (if wa_t_news w \<noteq> 0 \<and> sg_t_signal_ns s > wa_t_news w then
        (let lat = sg_t_signal_ns s - wa_t_news w in
         if sg_tier s = TierWatch then e\<lparr>en_recv_to_watch := hist_record lat (en_recv_to_watch e)\<rparr>
         else if sg_tier s = TierAlert \<or> sg_tier s = TierHigh then e\<lparr>en_e2e := hist_record lat (en_e2e e)\<rparr> else e)
      else e)"

definition trade_signal :: "signal \<Rightarrow> u64 \<Rightarrow> engine \<Rightarrow> engine" where
  "trade_signal s now e =
     (if sg_tier s = TierAlert \<or> sg_tier s = TierHigh then e\<lparr>en_paper := map_option (on_signal s now) (en_paper e)\<rparr> else e)"

definition push_alert :: "signal \<Rightarrow> engine \<Rightarrow> engine" where
  "push_alert s e =
     (if sg_tier s \<noteq> TierWatch \<or> ec_push_watch (en_cfg e) then
        (case en_alerts e of
           None \<Rightarrow> e
         | Some q \<Rightarrow> (case spsc_try_push q s of
             (q, True) \<Rightarrow> e\<lparr>en_alerts := Some q\<rparr>
           | (q, False) \<Rightarrow> e\<lparr>en_alerts := Some q, en_alert_drops := en_alert_drops e + 1\<rparr>))
      else e)"

definition emit :: "board_view option \<Rightarrow> u64 \<Rightarrow> watch \<Rightarrow> tier \<Rightarrow> u64 \<Rightarrow> string \<Rightarrow> engine \<Rightarrow> engine" where
  "emit bd wall w t now halt_rsn e =
     (let s = make_signal bd wall w t now halt_rsn e
      in journal_push (JSignal s) (push_alert s (trade_signal s now (note_latency w s (note_tier t e)))))"

definition journal_outcome :: "watch \<Rightarrow> u32 \<Rightarrow> u64 \<Rightarrow> market_hot \<Rightarrow> double \<Rightarrow> engine \<Rightarrow> engine" where
  "journal_outcome w horizon_s now h move e =
     journal_push (JOutcome \<lparr>oc_sym = wa_sym w, oc_horizon_s = horizon_s, oc_news_id = wa_news_id w, oc_t_news_recv_ns = wa_t_news w,
       oc_t_ns = now, oc_ref_price = of_int (wa_ref_px w) / 10000, oc_price = last_price h, oc_move_pct = move,
       oc_max_move_pct = wa_max_move w, oc_min_move_pct = wa_min_move w,
       oc_volume_since = real (unat (since (day_volume h) (wa_vol_at_news w))),
       oc_dollar_volume_since = real (unat (since (notional_e4 h) (wa_notional_at_news w))) / 10000, oc_score = wa_score w,
       oc_tier_reached = wa_tier w, oc_catalyst = wa_catalyst w, oc_ticker = snprintf_s 16 (ticker (info_of e (wa_sym w)))\<rparr>) e"

definition journal_trade :: "paper_trade \<Rightarrow> engine \<Rightarrow> engine" where
  "journal_trade t e = journal_push (JTrade t) e"

definition shutdown :: "board_view \<Rightarrow> u64 \<Rightarrow> engine \<Rightarrow> engine" where
  "shutdown b now e =
     (case en_paper e of
        None \<Rightarrow> e
      | Some p \<Rightarrow> (case close_all (bv_hot b) now ''shutdown'' p of (p, sunk) \<Rightarrow> fold journal_trade sunk (e\<lparr>en_paper := Some p\<rparr>)))"

subsection \<open>Stories against the market\<close>

definition enumerate_h :: "int list \<Rightarrow> (nat \<times> int) list" where
  \<comment> \<open>the loop indices: \<open>k < outcome_horizons_s.size() && k < 32\<close>\<close>
  "enumerate_h hs = take 32 (zip [0..<length hs] hs)"

definition story_age :: "u64 \<Rightarrow> watch \<Rightarrow> u64" where
  "story_age now w = (if now > wa_t_news w then now - wa_t_news w else 0)"

definition secs :: "int \<Rightarrow> u64" where
  \<comment> \<open>\<open>static_cast<uint64_t>(s) * kNsPerSec\<close>\<close>
  "secs s = word_of_int s * kNsPerSec"

definition move_of :: "market_hot \<Rightarrow> watch \<Rightarrow> double" where
  "move_of h w = of_int (last_px h - wa_ref_px w) * 100 / of_int (wa_ref_px w)"

definition track_move :: "market_hot \<Rightarrow> watch \<Rightarrow> watch" where
  \<comment> \<open>the reference price (the first print after the news) and the extreme moves\<close>
  "track_move h w =
     (let w = (if wa_ref_px w \<le> 0 then w\<lparr>wa_ref_px := last_px h\<rparr> else w); mv = move_of h w
      in w\<lparr>wa_max_move := max (wa_max_move w) mv, wa_min_move := min (wa_min_move w) mv\<rparr>)"

fun horizons_loop :: "u64 \<Rightarrow> u64 \<Rightarrow> market_hot \<Rightarrow> double \<Rightarrow> (nat \<times> int) list \<Rightarrow> watch \<Rightarrow> engine \<Rightarrow> watch \<times> engine" where
  "horizons_loop now age h mv [] w e = (w, e)"
| "horizons_loop now age h mv ((k, hz) # ks) w e =
     (if test_flag (wa_horizons_done w) (push_bit k 1) then horizons_loop now age h mv ks w e
      else if age \<ge> secs hz then
        (let w = w\<lparr>wa_horizons_done := wa_horizons_done w OR push_bit k 1\<rparr>
         in horizons_loop now age h mv ks w (journal_outcome w (word_of_int hz) now h mv e))
      else horizons_loop now age h mv ks w e)"

definition dollar_since :: "market_hot \<Rightarrow> watch \<Rightarrow> double" where
  "dollar_since h w = real (unat (since (notional_e4 h) (wa_notional_at_news w))) / 10000"

definition confirmed :: "engine \<Rightarrow> market_hot \<Rightarrow> u64 \<Rightarrow> watch \<Rightarrow> bool" where
  \<comment> \<open>the market has confirmed the story\<close>
  "confirmed e h now w =
     (let cfg = en_cfg e; rvol = rvol_of e (wa_sym w) (day_volume h) now;
          rvol_ok = (rvol \<le> 0 \<or> rvol \<ge> ec_alert_rvol cfg);
          spread_ok = (ec_alert_max_spread_pct cfg \<le> 0 \<or> \<not> quote_valid h \<or> spread_pct h \<le> ec_alert_max_spread_pct cfg)
      in move_of h w \<ge> ec_alert_move_pct cfg \<and> dollar_since h w \<ge> ec_alert_dollar_volume cfg \<and> rvol_ok \<and> spread_ok \<and> \<not> halted h)"

definition is_high :: "engine \<Rightarrow> market_hot \<Rightarrow> watch \<Rightarrow> bool" where
  "is_high e h w =
     (let cfg = en_cfg e; so = shares_outstanding (info_of e (wa_sym w)) in
      wa_score w \<ge> ec_high_score cfg \<and> so > 0 \<and> so \<le> ec_high_max_shares cfg \<and>
      wa_dilution_flags w AND soft_penalty_flags = 0 \<and> (\<not> ec_high_require_above_vwap cfg \<or> last_price h \<ge> vwap h))"

definition put_watch :: "nat \<Rightarrow> watch \<Rightarrow> engine \<Rightarrow> engine" where
  "put_watch idx w e = e\<lparr>en_watch := (en_watch e)[idx := w]\<rparr>"

definition eval_story :: "board_view \<Rightarrow> u64 \<Rightarrow> u64 \<Rightarrow> nat \<Rightarrow> engine \<Rightarrow> engine option" where
  \<comment> \<open>the body of the loop of \<open>evaluate\<close> for a story in its window, with a board\<close>
  "eval_story b wall now idx e =
     (let w = en_watch e ! idx; h = bv_hot b (wa_sym w) in
      if last_px h \<le> 0 then Some e
      else let age = story_age now w; w = track_move h w;
               (w, e) = horizons_loop now age h (move_of h w) (enumerate_h (ec_outcome_horizons_s (en_cfg e))) w e;
               e = put_watch idx w e
           in if tier_num (wa_tier w) \<ge> tier_num TierHigh then Some e
              else if \<not> confirmed e h now w then Some e
              else let t = (if is_high e h w then TierHigh else TierAlert) in
                if tier_num t > tier_num (wa_tier w) then
                  (let w = w\<lparr>wa_tier := t\<rparr> in do {
                     (e, cool) \<leftarrow> cooled_down (wa_sym w) t now (put_watch idx w e);
                     Some (if cool then emit (Some b) wall w t now [] e else e) })
                else Some e)"

fun eval_loop :: "board_view option \<Rightarrow> u64 \<Rightarrow> u64 \<Rightarrow> nat \<Rightarrow> engine \<Rightarrow> engine option" where
  \<comment> \<open>\<open>for (k = active_.size(); k-- > 0;)\<close>\<close>
  "eval_loop bd wall now 0 e = Some e"
| "eval_loop bd wall now (Suc k) e = do {
     e \<leftarrow> (if story_age now (en_watch e ! (en_slots e ! k)) > secs (ec_watch_window_s (en_cfg e)) then deactivate_watch k e
            else case bd of None \<Rightarrow> Some e | Some b \<Rightarrow> eval_story b wall now (en_slots e ! k) e);
     eval_loop bd wall now k e }"

definition step_paper :: "board_view option \<Rightarrow> u64 \<Rightarrow> engine \<Rightarrow> engine" where
  \<comment> \<open>\<open>paper_->step(now, journal_trade)\<close>; there is a trader only when there is a board\<close>
  "step_paper bd now e =
     (case (bd, en_paper e) of
        (Some b, Some p) \<Rightarrow> (case paper_step (bv_hot b) now p of (p, sunk) \<Rightarrow> fold journal_trade sunk (e\<lparr>en_paper := Some p\<rparr>))
      | _ \<Rightarrow> e)"

definition evaluate :: "board_view option \<Rightarrow> u64 \<Rightarrow> u64 \<Rightarrow> engine \<Rightarrow> engine option" where
  "evaluate bd wall now e = map_option (step_paper bd now) (eval_loop bd wall now (length (en_slots e)) e)"

subsection \<open>Halts and movers\<close>

definition price_or_close :: "market_hot \<Rightarrow> symbol_info \<Rightarrow> double" where
  "price_or_close h info = (if last_px h > 0 then last_price h else prev_close info)"

definition handle_halt :: "board_view option \<Rightarrow> u64 \<Rightarrow> u32 \<Rightarrow> bool \<Rightarrow> string \<Rightarrow> u64 \<Rightarrow> engine \<Rightarrow> engine option" where
  "handle_halt bd wall s stopped rsn now e =
     (if unat s \<ge> length (en_symbols e) then Some e
      else let state = (if stopped then CHR ''H'' else CHR ''T'') in do {
        (m, i, inserted) \<leftarrow> try_emplace (CHR 0x00, 0) (en_halt_seen e) (ucast s);
        if \<not> inserted \<and> fst (value_at m i) = state \<and> now - snd (value_at m i) < 120 * kNsPerSec
        then Some (e\<lparr>en_halt_seen := m\<rparr>) \<comment> \<open>another source already reported it\<close>
        else let e = e\<lparr>en_halt_seen := set_value m i (state, now)\<rparr> in do {
          w \<leftarrow> find_watch s e;
          let alert = (if ec_halt_alerts (en_cfg e) = 2 then fst (in_universe e s (price_or_close (hot_of bd s) (info_of e s)))
                       else ec_halt_alerts (en_cfg e) = 1 \<and> w \<noteq> None);
          let tmp = (case w of Some idx \<Rightarrow> en_watch e ! idx | None \<Rightarrow> watch0\<lparr>wa_sym := s, wa_t_news := now\<rparr>);
          Some (if alert then emit bd wall tmp TierHalt now rsn e else e) } })"

definition cstr :: "string \<Rightarrow> string" where
  \<comment> \<open>a character array read up to its terminator\<close>
  "cstr s = takeWhile (\<lambda>c. c \<noteq> CHR 0x00) s"

definition on_market_event :: "board_view option \<Rightarrow> u64 \<Rightarrow> market_event \<Rightarrow> u64 \<Rightarrow> engine \<Rightarrow> engine option" where
  \<comment> \<open>a system event is only logged\<close>
  "on_market_event bd wall ev now e =
     (case me_type ev of
        TradingAction \<Rightarrow> handle_halt bd wall (me_sym ev) (me_state ev \<noteq> CHR ''T'') (cstr (me_reason ev)) now e
      | SystemEvent \<Rightarrow> Some e)"

definition lround :: "double \<Rightarrow> int" where
  \<comment> \<open>to the nearest integer, halves away from zero\<close>
  "lround x = (if x \<ge> 0 then \<lfloor>x + 1 / 2\<rfloor> else \<lceil>x - 1 / 2\<rceil>)"

definition close_px :: "symbol_info \<Rightarrow> int" where
  \<comment> \<open>\<open>static_cast<int32_t>(std::lround(info.prev_close * 1e4))\<close>\<close>
  "close_px info = sint (word_of_int (lround (prev_close info * 10000)) :: i32)"

definition is_mover :: "engine \<Rightarrow> market_hot \<Rightarrow> u32 \<Rightarrow> u64 \<Rightarrow> bool" where
  \<comment> \<open>the guards of the scan, in order\<close>
  "is_mover e h s now =
     (let cfg = en_cfg e; info = info_of e s; px = last_price h; rvol = rvol_of e s (day_volume h) now in
      en_universe e ! unat s \<and> \<not> (last_px h \<le> 0 \<or> halted h) \<and> \<not> prev_close info \<le> 0 \<and>
      \<not> (px - prev_close info) * 100 / prev_close info < ec_mover_move_pct cfg \<and>
      \<not> real (unat (notional_e4 h)) / 10000 < ec_mover_dollar_volume cfg \<and> \<not> (rvol > 0 \<and> rvol < ec_mover_rvol cfg) \<and>
      fst (in_universe e s px))"

definition scan_symbol :: "board_view \<Rightarrow> u64 \<Rightarrow> u64 \<Rightarrow> u64 \<Rightarrow> engine \<Rightarrow> nat \<Rightarrow> engine option" where
  "scan_symbol b wall now day e n =
     (let s = of_nat n; h = bv_hot b s in
      if \<not> is_mover e h s now then Some e
      else do {
        w \<leftarrow> find_watch s e;
        if w \<noteq> None then Some e
        else do {
          (m, i, inserted) \<leftarrow> try_emplace 0 (en_mover_alerted e) (ucast s);
          if \<not> inserted \<and> value_at m i = day then Some (e\<lparr>en_mover_alerted := m\<rparr>)
          else Some (emit (Some b) wall (watch0\<lparr>wa_sym := s, wa_t_news := now, wa_ref_px := close_px (info_of e s)\<rparr>) TierMover now []
                       (e\<lparr>en_mover_alerted := set_value m i day\<rparr>)) } })"

definition scan_movers :: "board_view option \<Rightarrow> u64 \<Rightarrow> u64 \<Rightarrow> engine \<Rightarrow> engine option" where
  "scan_movers bd wall now e =
     (case bd of
        None \<Rightarrow> Some e
      | Some b \<Rightarrow> (if \<not> ec_movers_enabled (en_cfg e) then Some e
                   else case today_days now e of (e, day) \<Rightarrow>
                     fold_opt (scan_symbol b wall now (word_of_int day)) [0..<min (bv_size b) (length (en_symbols e))] e))"

subsection \<open>News\<close>

definition upd_src :: "nat \<Rightarrow> (source_stats \<Rightarrow> source_stats) \<Rightarrow> engine \<Rightarrow> engine" where
  "upd_src i f e = e\<lparr>en_src_stats := (en_src_stats e)[i := f (en_src_stats e ! i)]\<rparr>"

definition src_index :: "news_event \<Rightarrow> engine \<Rightarrow> nat" where
  "src_index ev e = min (unat (ne_source ev)) (length (en_src_stats e) - 1)"

definition note_item :: "news_event \<Rightarrow> u64 \<Rightarrow> source_stats \<Rightarrow> source_stats" where
  "note_item ev now ss =
     (let ss = ss\<lparr>so_items := so_items ss + 1\<rparr>;
          ss = (if ne_parsed_ns ev \<noteq> 0 \<and> now > ne_parsed_ns ev
                then ss\<lparr>so_queue_ns := hist_record (now - ne_parsed_ns ev) (so_queue_ns ss)\<rparr> else ss)
      in if ne_published_ns ev > 0 \<and> ne_recv_ns ev > word_of_int (ne_published_ns ev)
         then ss\<lparr>so_publish_lag := hist_record (ne_recv_ns ev - word_of_int (ne_published_ns ev)) (so_publish_lag ss)\<rparr> else ss)"

definition note_dup :: "int \<Rightarrow> source_stats \<Rightarrow> source_stats" where
  "note_dup lag ss =
     (let ss = ss\<lparr>so_dup := so_dup ss + 1\<rparr>
      in if lag > 0 then ss\<lparr>so_dup_lag := hist_record (word_of_int lag) (so_dup_lag ss)\<rparr> else ss)"

definition note_headline :: "news_event \<Rightarrow> engine \<Rightarrow> (engine \<times> bool \<times> u16 \<times> int) option" where
  \<comment> \<open>the cross-source dedupe: \<open>dup\<close>, \<open>first_src\<close> and \<open>lag\<close>\<close>
  "note_headline ev e =
     (let i = src_index ev e in
      if ne_title_key ev \<noteq> 0 \<and> ne_kind ev \<noteq> EvHalt then do {
        (m, j, inserted) \<leftarrow> try_emplace (0, 0) (en_first_seen e) (ne_title_key ev);
        if inserted
        then Some (upd_src i (\<lambda>ss. ss\<lparr>so_first := so_first ss + 1\<rparr>) (e\<lparr>en_first_seen := set_value m j (ne_source ev, ne_recv_ns ev)\<rparr>),
                   False, ne_source ev, 0)
        else case value_at m j of (src, t) \<Rightarrow>
          let lag = i64_of_u64 (ne_recv_ns ev) - i64_of_u64 t; e = e\<lparr>en_first_seen := m\<rparr>
          in Some (if src \<noteq> ne_source ev then upd_src i (note_dup lag) e else e, True, src, lag) }
      else Some (e, False, ne_source ev, 0))"

record news_pass =
  np_sym :: u32 \<comment> \<open>\<open>p_sym\<close>\<close>
  np_r :: score_result
  np_dil :: u32
  np_mcap :: double
  np_price :: double
  np_inu :: bool
  np_counted :: bool \<comment> \<open>\<open>counted_universe\<close>\<close>
  np_touched :: bool \<comment> \<open>\<open>touched_watch\<close>\<close>

definition score_result0 :: score_result where
  "score_result0 = \<lparr>sr_text_score = 0, sr_score = 0, sr_catalyst = NoCatalyst, sr_flags = 0, sr_amount_usd = 0, sr_materiality = 0,
     sr_hedges = 0, sr_promos = 0, sr_specifics = 0, sr_matched = []\<rparr>"

definition news_pass0 :: "score_result \<Rightarrow> news_pass" where
  "news_pass0 r = \<lparr>np_sym = kInvalid, np_r = r, np_dil = 0, np_mcap = 0, np_price = 0, np_inu = False, np_counted = False, np_touched = False\<rparr>"

definition journal_news :: "news_event \<Rightarrow> u64 \<Rightarrow> bool \<times> u16 \<times> int \<Rightarrow> news_pass \<Rightarrow> engine \<Rightarrow> engine" where
  "journal_news ev now seen np e =
     journal_push (JNews \<lparr>nr_news = ev, nr_score = np_r np, nr_sym = np_sym np, nr_dilution = np_dil np, nr_market_cap = np_mcap np,
       nr_price = np_price np, nr_in_universe = np_inu np, nr_duplicate = fst seen, nr_first_source = fst (snd seen),
       nr_first_seen_lag_ns = snd (snd seen), nr_engine_ns = now\<rparr>) e"

definition first_ticker :: "news_event \<Rightarrow> u32" where
  "first_ticker ev = (case ne_tickers ev of [] \<Rightarrow> kInvalid | s # _ \<Rightarrow> s)"

definition dilution_filing :: "form_class \<Rightarrow> bool" where
  "dilution_filing cls \<longleftrightarrow> cls = Prospectus \<or> cls = Effect \<or> cls = S1 \<or> cls = S3"

definition inform_watch :: "board_view option \<Rightarrow> u64 \<Rightarrow> form_class \<Rightarrow> u64 \<Rightarrow> engine \<Rightarrow> u32 \<Rightarrow> engine option" where
  \<comment> \<open>a dilution filing on a watched ticker: the signal is built from the story as it was before the flag\<close>
  "inform_watch bd wall cls now e s = do {
     p \<leftarrow> find_watch s e;
     case p of
       None \<Rightarrow> Some e
     | Some idx \<Rightarrow>
         let w = en_watch e ! idx; k = (if cls = Prospectus then kFlagOfferingRecent else kFlagEffectRecent)
         in Some (emit bd wall w TierInfo now [] (put_watch idx (w\<lparr>wa_dilution_flags := wa_dilution_flags w OR k\<rparr>) e)) }"

definition kFloors :: "(u32 \<times> catalyst \<times> int) list" where
  "kFloors = [(kItem501, MnaTarget, 45), (kItem101, Contract, 45), (kItem202, Earnings, 30), (kItem701 OR kItem801, OtherCatalyst, 20)]"

definition score_filing :: "u32 \<Rightarrow> score_result \<Rightarrow> score_result" where
  \<comment> \<open>the items of an 8-K on top of the text score\<close>
  "score_filing items r =
     (let r = (if test_flag items kItem302 then r\<lparr>sr_flags := sr_flags r OR kSfOffering\<rparr> else r);
          r = (if test_flag items (kItem103 OR kItem301 OR kItem402) then r\<lparr>sr_flags := sr_flags r OR kSfDistress\<rparr> else r);
          r = (if sr_catalyst r = NoCatalyst then
                 (case find (\<lambda>(k, _). test_flag items k) kFloors of
                    None \<Rightarrow> r
                  | Some (_, cat, sc) \<Rightarrow> r\<lparr>sr_catalyst := cat, sr_text_score := max (sr_text_score r) sc\<rparr>)
               else r);
          r = (if has_flag (sr_flags r) kSfOffering then r\<lparr>sr_text_score := min (sr_text_score r) 15\<rparr> else r);
          r = (if has_flag (sr_flags r) kSfDistress then r\<lparr>sr_text_score := max 0 (sr_text_score r - 25)\<rparr> else r)
      in r\<lparr>sr_score := sr_text_score r\<rparr>)"

definition dilution_penalty :: "u32 \<Rightarrow> int" where
  "dilution_penalty dil =
     (if test_flag dil kFlagShelf then 3 else 0) + (if test_flag dil kFlagS1Pending then 5 else 0) +
     (if test_flag dil kFlagReverseSplitRisk then 5 else 0) + (if test_flag dil kFlagReverseSplitDone then 5 else 0) +
     (if test_flag dil kFlagDeficiency then 8 else 0) + (if test_flag dil kFlagLateFiler then 5 else 0)"

definition penalised :: "score_result \<Rightarrow> double \<Rightarrow> u32 \<Rightarrow> score_result" where
  \<comment> \<open>the score of a story for one ticker\<close>
  "penalised r mcap dil = (let rs = finalize r mcap in rs\<lparr>sr_score := clamp (sr_score rs - dilution_penalty dil)\<rparr>)"

definition hard_block :: "score_result \<Rightarrow> u32 \<Rightarrow> bool" where
  "hard_block rs dil \<longleftrightarrow> test_flag (sr_flags rs) (kSfOffering OR kSfSpam) \<or>
     test_flag dil (kFlagOfferingRecent OR kFlagEffectRecent OR kFlagUnregisteredSale)"

definition ticker_flags :: "engine \<Rightarrow> u32 \<Rightarrow> int \<Rightarrow> u32" where
  "ticker_flags e s today =
     filings_flags (en_filings e) (cik (info_of e s)) today (ec_dilution (en_cfg e)) OR
     (if distressed (info_of e s) then kFlagDeficiency else 0)"

definition fresh_watch :: "news_event \<Rightarrow> u64 \<Rightarrow> market_hot \<Rightarrow> symbol_info \<Rightarrow> watch \<Rightarrow> watch" where
  "fresh_watch ev now h info w =
     w\<lparr>wa_t_news := (if ne_recv_ns ev \<noteq> 0 then ne_recv_ns ev else now), wa_ref_px := (if last_px h > 0 then last_px h else close_px info),
       wa_vol_at_news := day_volume h, wa_notional_at_news := notional_e4 h\<rparr>"

definition tell_story :: "news_event \<Rightarrow> score_result \<Rightarrow> u32 \<Rightarrow> double \<Rightarrow> watch \<Rightarrow> watch" where
  "tell_story ev rs dil mcap w =
     w\<lparr>wa_source := ne_source ev, wa_score := sr_score rs, wa_catalyst := sr_catalyst rs, wa_score_flags := sr_flags rs,
       wa_dilution_flags := dil, wa_news_id := ne_id_hash ev, wa_published_ns := ne_published_ns ev, wa_amount_usd := sr_amount_usd rs,
       wa_materiality := sr_materiality rs, wa_market_cap := mcap\<rparr>"

definition take_story :: "board_view option \<Rightarrow> u64 \<Rightarrow> news_event \<Rightarrow> u64 \<Rightarrow> u32 \<Rightarrow> score_result \<Rightarrow> u32 \<Rightarrow> double \<Rightarrow> engine \<Rightarrow> (engine \<times> bool) option" where
  \<comment> \<open>put the story on the watch list unless a stronger one is there; whether the list was touched\<close>
  "take_story bd wall ev now s rs dil mcap e = do {
     p \<leftarrow> find_watch s e;
     if (case p of Some idx \<Rightarrow> sr_score rs \<le> wa_score (en_watch e ! idx) | None \<Rightarrow> False) then Some (e, False)
     else do {
       (e, idx) \<leftarrow> (case p of
          Some idx \<Rightarrow> Some (e, idx)
        | None \<Rightarrow> do { (e, idx) \<leftarrow> activate_watch s e;
                      Some (put_watch idx (fresh_watch ev now (hot_of bd s) (info_of e s) (en_watch e ! idx)) e, idx) });
       let w = tell_story ev rs dil mcap (en_watch e ! idx);
       let e = upd_src (src_index ev e) (\<lambda>ss. ss\<lparr>so_watch := so_watch ss + 1\<rparr>) (put_watch idx w e);
       if wa_tier w = TierNone then
         (let w = w\<lparr>wa_tier := TierWatch\<rparr> in do {
            (e, cool) \<leftarrow> cooled_down s TierWatch now (put_watch idx w e);
            Some (if cool then emit bd wall w TierWatch now [] e else e, True) })
       else Some (e, True) } }"

definition news_ticker :: "board_view option \<Rightarrow> u64 \<Rightarrow> news_event \<Rightarrow> u64 \<Rightarrow> score_result \<Rightarrow> int \<Rightarrow> engine \<times> news_pass \<Rightarrow> nat \<times> u32 \<Rightarrow> (engine \<times> news_pass) option" where
  \<comment> \<open>the body of the loop over the tickers\<close>
  "news_ticker bd wall ev now r today st it =
     (case (st, it) of ((e, np), (i, s)) \<Rightarrow>
        if unat s \<ge> length (en_symbols e) then Some (e, np)
        else let h = hot_of bd s; px = price_or_close h (info_of e s); dil = ticker_flags e s today in
          case in_universe e s px of (inu, mcap) \<Rightarrow>
          let rs = penalised r mcap dil;
              np = (if i = 0 then np\<lparr>np_sym := s, np_r := rs, np_dil := dil, np_mcap := mcap, np_price := px, np_inu := inu\<rparr> else np);
              e = (if inu \<and> \<not> np_counted np then upd_src (src_index ev e) (\<lambda>ss. ss\<lparr>so_in_universe := so_in_universe ss + 1\<rparr>) e else e);
              np = np\<lparr>np_counted := np_counted np \<or> inu\<rparr>
          in do {
            (m, _) \<leftarrow> insert_or_assign 0 (en_last_news e) (ucast s) now;
            let e = e\<lparr>en_last_news := m\<rparr>;
            if \<not> inu \<or> hard_block rs dil \<or> sr_score rs < ec_watch_score (en_cfg e) then Some (e, np)
            else do {
              (e, touched) \<leftarrow> take_story bd wall ev now s rs dil mcap e;
              Some (e, np\<lparr>np_touched := np_touched np \<or> touched\<rparr>) } })"

definition score_event :: "news_event \<Rightarrow> engine \<Rightarrow> score_result" where
  "score_event ev e =
     (let r = score_text (en_scorer e) (ne_title ev) (ne_body ev)
      in if ne_kind ev = EvFiling then score_filing (ne_items_mask ev) r else r)"

definition on_story :: "board_view option \<Rightarrow> u64 \<Rightarrow> u64 \<Rightarrow> news_event \<Rightarrow> u64 \<Rightarrow> bool \<times> u16 \<times> int \<Rightarrow> engine \<Rightarrow> engine option" where
  \<comment> \<open>the part of \<open>on_news\<close> from the scoring on; \<open>took\<close> is \<open>mono_ns() - t0\<close>\<close>
  "on_story bd wall took ev now seen e =
     (let r = score_event ev e;
          e = upd_src (src_index ev e) (\<lambda>ss. ss\<lparr>so_scored := so_scored ss + 1\<rparr>) e;
          ts = (if ne_kind ev = EvNews then ne_tickers ev else take 1 (ne_tickers ev))
      in case today_days now e of (e, today) \<Rightarrow> do {
        (e, np) \<leftarrow> fold_opt (news_ticker bd wall ev now r today) (zip [0..<length ts] ts) (e, news_pass0 r);
        let e = journal_news ev now seen np e;
        let e = e\<lparr>en_handle := hist_record took (en_handle e)\<rparr>;
        if np_touched np then evaluate bd wall now e else Some e })"

definition on_news :: "board_view option \<Rightarrow> u64 \<Rightarrow> u64 \<Rightarrow> news_event \<Rightarrow> u64 \<Rightarrow> engine \<Rightarrow> engine option" where
  "on_news bd wall took ev now e = do {
     (e, seen) \<leftarrow> note_headline ev (upd_src (src_index ev e) (note_item ev now) e);
     let brief = (news_pass0 score_result0)\<lparr>np_sym := first_ticker ev\<rparr>;
     if ne_kind ev = EvHalt then do {
       e \<leftarrow> fold_opt (\<lambda>e s. handle_halt bd wall s (ne_resume_trade_ns ev = 0) (ne_halt_reason ev) now e) (ne_tickers ev) e;
       Some (journal_news ev now seen brief e) }
     else if ne_kind ev = EvFiling then
       (case today_days now e of (e, today) \<Rightarrow>
        let cls = classify_form (ne_form ev);
            e = e\<lparr>en_filings := filings_add (ne_cik ev) today cls (ne_items_mask ev) (en_filings e)\<rparr>
        in if cls \<noteq> Form8K \<and> cls \<noteq> Form6K then do {
             e \<leftarrow> (if dilution_filing cls then fold_opt (inform_watch bd wall cls now) (ne_tickers ev) e else Some e);
             Some (journal_news ev now seen brief e) }
           else on_story bd wall took ev now seen e)
     else on_story bd wall took ev now seen e }"

subsection \<open>Statistics and the thread loop\<close>

definition reset_source :: "source_stats \<Rightarrow> source_stats" where
  "reset_source s = (if so_items s = 0 then s else
     \<lparr>so_items = 0, so_first = 0, so_dup = 0, so_scored = 0, so_in_universe = 0, so_watch = 0, so_queue_ns = hist_reset (so_queue_ns s),
      so_publish_lag = hist_reset (so_publish_lag s), so_dup_lag = hist_reset (so_dup_lag s)\<rparr>)"

definition stats_report :: "bool \<Rightarrow> engine \<Rightarrow> engine" where
  \<comment> \<open>the state after the report; the text goes to the log\<close>
  "stats_report reset e =
     (if reset then e\<lparr>en_src_stats := map reset_source (en_src_stats e), en_handle := hist_reset (en_handle e), en_e2e := hist_reset (en_e2e e),
                      en_recv_to_watch := hist_reset (en_recv_to_watch e)\<rparr> else e)"

datatype engine_act =
    ActNews "board_view option" u64 u64 news_event u64
  | ActMarket "board_view option" u64 market_event u64
  | ActEvaluate "board_view option" u64 u64
  | ActScan "board_view option" u64 u64
  | ActStats
  | ActShutdown board_view u64

fun act :: "engine \<Rightarrow> engine_act \<Rightarrow> engine option" where
  \<comment> \<open>what the thread loop does between two looks at its queues and timers\<close>
  "act e (ActNews bd wall took ev now) = on_news bd wall took ev now e"
| "act e (ActMarket bd wall ev now) = on_market_event bd wall ev now e"
| "act e (ActEvaluate bd wall now) = evaluate bd wall now e"
| "act e (ActScan bd wall now) = scan_movers bd wall now e"
| "act e ActStats = Some (stats_report True e)"
| "act e (ActShutdown b now) = Some (shutdown b now e)"

definition engine_run :: "engine_act list \<Rightarrow> engine \<Rightarrow> engine option" where
  "engine_run acts e = fold_opt act acts e"

record run_timers =
  next_eval :: u64
  next_scan :: u64
  next_stats :: u64

definition eval_every :: "engine_config \<Rightarrow> bool \<Rightarrow> u64" where
  "eval_every cfg has_board = (if has_board then ec_eval_interval_ns cfg else kNsPerSec)"

definition scan_every :: "engine_config \<Rightarrow> u64" where
  "scan_every cfg = word_of_int (max 100 (ec_mover_scan_ms cfg)) * kNsPerMs"

definition stats_every :: "engine_config \<Rightarrow> u64" where
  "stats_every cfg = secs (max 5 (ec_stats_interval_s cfg))"

definition timers_new :: "engine_config \<Rightarrow> bool \<Rightarrow> u64 \<Rightarrow> run_timers" where
  "timers_new cfg has_board now =
     \<lparr>next_eval = now + eval_every cfg has_board, next_scan = now + scan_every cfg, next_stats = now + stats_every cfg\<rparr>"

definition run_turn ::
    "engine_config \<Rightarrow> board_view option \<Rightarrow> u64 \<Rightarrow> u64 \<Rightarrow> news_event list \<Rightarrow> market_event list \<Rightarrow> u64 \<Rightarrow> run_timers \<Rightarrow> engine_act list \<times> run_timers" where
  \<comment> \<open>one turn of the loop of \<open>run\<close>: the news and market events drained in it, then the timers that are due at the monotonic
     time \<open>now\<close>; the wall clock and the board are sampled once per turn\<close>
  "run_turn cfg bd wall took news market now tm =
     (let do_eval = (now \<ge> next_eval tm);
          do_scan = (bd \<noteq> None \<and> ec_movers_enabled cfg \<and> now \<ge> next_scan tm);
          do_stats = (now \<ge> next_stats tm)
      in (map (\<lambda>ev. ActNews bd wall took ev wall) news @ map (\<lambda>ev. ActMarket bd wall ev wall) market @
          (if do_eval then [ActEvaluate bd wall wall] else []) @ (if do_scan then [ActScan bd wall wall] else []) @
          (if do_stats then [ActStats] else []),
          \<lparr>next_eval = (if do_eval then now + eval_every cfg (bd \<noteq> None) else next_eval tm),
           next_scan = (if do_scan then now + scan_every cfg else next_scan tm),
           next_stats = (if do_stats then now + stats_every cfg else next_stats tm)\<rparr>))"

definition wait_until :: "engine_config \<Rightarrow> bool \<Rightarrow> run_timers \<Rightarrow> u64" where
  \<comment> \<open>how long an idle turn may sleep\<close>
  "wait_until cfg has_board tm =
     (let until = min (next_eval tm) (next_stats tm) in if has_board \<and> ec_movers_enabled cfg then min until (next_scan tm) else until)"

end
