(* ===== verification/Engine_Watch.thy ===== *)
theory Engine_Watch
  imports Engine
begin

unbundle bit_operations_syntax

text \<open>
  The watch list and the cooldown table of the engine. \<open>watch_ok\<close> says that the slots in use and the free slots partition
  the array and that the index finds exactly the slots in use; under it the list is the map \<open>stories\<close> from tickers to stories:
  \<open>put_watch_ok\<close>, \<open>deactivate_watch_ok\<close> and \<open>activate_watch_ok\<close> give the effect of the operations on that map, eviction of
  an oldest story included. \<open>cooled_down_yields\<close> does the same for the times of the last signals. \<open>yields\<close> states that a
  partial operation returns and what its result satisfies.
\<close>

subsection \<open>Partial operations that return\<close>

definition yields :: "'a option \<Rightarrow> ('a \<Rightarrow> bool) \<Rightarrow> bool" where
  \<comment> \<open>total correctness: the computation returns and its result satisfies the condition\<close>
  "yields m Q \<longleftrightarrow> (\<exists>x. m = Some x \<and> Q x)"

lemma yields_simps [simp]:
  "yields (Some x) Q \<longleftrightarrow> Q x"
  "\<not> yields None Q"
  "yields (Option.bind m f) Q \<longleftrightarrow> yields m (\<lambda>x. yields (f x) Q)"
  "yields (map_option g m) Q \<longleftrightarrow> yields m (\<lambda>x. Q (g x))"
  by (auto simp: yields_def bind_eq_Some_conv)

lemma yields_mono: "yields m P \<Longrightarrow> (\<And>x. P x \<Longrightarrow> Q x) \<Longrightarrow> yields m Q"
  by (auto simp: yields_def)

lemma yields_fold:
  assumes "I s" and "\<And>s x. I s \<Longrightarrow> x \<in> set xs \<Longrightarrow> yields (f s x) I"
  shows "yields (fold_opt f xs s) I"
  using assms
proof (induction xs arbitrary: s)
  case (Cons x xs)
  obtain s1 where "f s x = Some s1" "I s1"
    using Cons.prems by (fastforce simp: yields_def)
  then show ?case using Cons.IH [of s1] Cons.prems(2) by simp
qed simp

subsection \<open>Table keys\<close>

lemma unat_ucast_sym: "unat (ucast (s :: u32) :: u64) = unat s"
  by (simp add: unsigned_ucast_eq)

lemma ucast_u32_inj [simp]: "(ucast (s :: u32) :: u64) = ucast s' \<longleftrightarrow> s = s'"
  by (metis unat_ucast_sym word_unat_eq_iff)

lemma small_key: "unat k < 2 ^ 36 \<Longrightarrow> k \<noteq> kEmpty"
  by (auto simp: kEmpty_def unsigned_minus_1_eq_mask mask_eq_exp_minus_1)

lemma ucast_u32_key [simp]: "(ucast (s :: u32) :: u64) \<noteq> kEmpty"
proof (rule small_key)
  have "unat s < 2 ^ LENGTH(32)" by (rule unsigned_less)
  then show "unat (ucast s :: u64) < 2 ^ 36" by (simp add: unat_ucast_sym)
qed

lemma tier_key_unat: "unat (tier_key s t) = unat s * 8 + tier_num t"
proof -
  have s: "unat s < 2 ^ LENGTH(32)" by (rule unsigned_less)
  have t: "tier_num t < 8" by (cases t) simp_all
  have "unat (push_bit 3 (ucast s :: u64)) = unat s * 8"
    using s by (simp add: push_bit_eq_mult unat_mult_lem [THEN iffD1] unat_ucast_sym unat_word_ariths)
  moreover have "unat (of_nat (tier_num t) :: u64) = tier_num t" using t by (simp add: unat_of_nat)
  moreover have "(unat s * 8) AND tier_num t = 0"
  proof -
    have "tier_num t = take_bit 3 (tier_num t)" using t by (simp add: take_bit_nat_eq_self)
    moreover have "(unat s * 8) AND take_bit 3 (tier_num t) = 0"
      by (rule bit_eqI) (auto simp: bit_simps push_bit_eq_mult [of 3, simplified, symmetric])
    ultimately show ?thesis by simp
  qed
  ultimately show ?thesis
    by (simp add: tier_key_def unsigned_or_eq disjunctive_add_eq_or)
qed
lemma tier_num_inj: "tier_num t = tier_num t' \<longleftrightarrow> t = t'"
  by (cases t; cases t'; simp)

lemma tier_key_inj [simp]: "tier_key s t = tier_key s' t' \<longleftrightarrow> s = s' \<and> t = t'"
proof
  assume "tier_key s t = tier_key s' t'"
  then have "unat s * 8 + tier_num t = unat s' * 8 + tier_num t'"
    using tier_key_unat [of s t] tier_key_unat [of s' t'] by simp
  moreover have "tier_num t < 8" "tier_num t' < 8" by (cases t, simp_all) (cases t', simp_all)
  ultimately have "unat s = unat s'" "tier_num t = tier_num t'" by presburger+
  then show "s = s' \<and> t = t'" by (simp add: tier_num_inj word_unat_eq_iff)
qed simp

lemma tier_key_key [simp]: "tier_key s t \<noteq> kEmpty"
proof (rule small_key)
  have "unat s < 2 ^ LENGTH(32)" by (rule unsigned_less)
  moreover have "tier_num t < 8" by (cases t) simp_all
  ultimately show "unat (tier_key s t) < 2 ^ 36" by (simp add: tier_key_unat)
qed

lemma value_at_map:
  assumes "fm_inv m" "i < length (fm_slots m)" "skey (fm_slots m ! i) = k" "k \<noteq> kEmpty"
  shows "fm_map m k = Some (value_at m i)"
  using assms map_of_entries_Some [OF fm_inv_D(3) [OF assms(1)], of k "value_at m i"]
  by (auto simp: fm_map_def value_at_def)

lemma emplace_yields:
  assumes "fm_inv m" and "k \<noteq> kEmpty"
  shows "yields (try_emplace d m k) (\<lambda>(m', i, ins). fm_inv m' \<and> ins = (fm_map m k = None) \<and>
    fm_map m' = (if ins then (fm_map m)(k \<mapsto> d) else fm_map m) \<and> fm_map m' k = Some (value_at m' i) \<and>
    (\<forall>v. fm_inv (set_value m' i v) \<and> fm_map (set_value m' i v) = (fm_map m)(k \<mapsto> v)))"
proof -
  obtain m' i where "try_emplace d m k = Some (m', i, fm_map m k = None)" and m': "fm_inv m'"
      "fm_map m' = (if fm_map m k = None then (fm_map m)(k \<mapsto> d) else fm_map m)"
      "i < length (fm_slots m')" "skey (fm_slots m' ! i) = k"
    using try_emplace_ok [OF assms] by metis
  then show ?thesis
    using value_at_map [OF m'(1,3,4) assms(2)] set_value_ok [OF m'(1,3,4) assms(2)] by simp
qed

lemma emplace_inv:
  assumes "fm_inv m"
  shows "yields (try_emplace d m k) (\<lambda>(m', i, ins). fm_inv m' \<and> (\<forall>v. fm_inv (set_value m' i v)))"
proof (cases "k = kEmpty")
  case True
  obtain m' i where "try_emplace d m kEmpty = Some (m', i, False)" "fm_inv m'" "i < length (fm_slots m')" "\<not> occ (fm_slots m') i"
    using try_emplace_reserved [OF assms, of d] by blast
  then show ?thesis using True set_value_empty(1) [of m' i] by (simp add: yields_def)
next
  case False
  show ?thesis by (rule yields_mono [OF emplace_yields [OF assms False]]) auto
qed

subsection \<open>Cooldowns\<close>

definition last_sent :: "engine \<Rightarrow> u32 \<times> tier \<Rightarrow> u64 option" where
  \<comment> \<open>when a ticker last produced a tier\<close>
  "last_sent e = (\<lambda>(s, t). fm_map (en_last_tier_ns e) (tier_key s t))"

definition may_send :: "engine \<Rightarrow> u32 \<times> tier \<Rightarrow> u64 \<Rightarrow> bool" where
  "may_send e st now \<longleftrightarrow> (case last_sent e st of None \<Rightarrow> True | Some t0 \<Rightarrow> now - t0 \<ge> secs (ec_cooldown_s (en_cfg e)))"

lemma cooled_down_yields:
  assumes "fm_inv (en_last_tier_ns e)"
  shows "yields (cooled_down s t now e) (\<lambda>(e', ok). e' = e\<lparr>en_last_tier_ns := en_last_tier_ns e'\<rparr> \<and> fm_inv (en_last_tier_ns e') \<and> ok = may_send e (s, t) now \<and>
    last_sent e' = (if ok then (last_sent e)((s, t) \<mapsto> now) else last_sent e))"
proof -
  let ?k = "tier_key s t" and ?L = "en_last_tier_ns e"
  obtain m i where m: "try_emplace 0 ?L ?k = Some (m, i, fm_map ?L ?k = None)" "fm_inv m"
      "fm_map m = (if fm_map ?L ?k = None then (fm_map ?L)(?k \<mapsto> 0) else fm_map ?L)" "fm_map m ?k = Some (value_at m i)"
    and sv: "\<And>v. fm_inv (set_value m i v)" "\<And>v. fm_map (set_value m i v) = (fm_map ?L)(?k \<mapsto> v)"
    using emplace_yields [OF assms, of ?k 0] by (auto simp: yields_def simp del: fun_upd_apply)
  have upd: "(\<lambda>(a, b). ((fm_map ?L)(?k \<mapsto> v)) (tier_key a b)) = (\<lambda>(a, b). fm_map ?L (tier_key a b))((s, t) \<mapsto> v)" for v
    by (rule ext) (simp split: prod.split)
  show ?thesis
  proof (cases "may_send e (s, t) now")
    case True
    then have "cooled_down s t now e = Some (e\<lparr>en_last_tier_ns := set_value m i now\<rparr>, True)"
      using m by (simp add: cooled_down_def may_send_def last_sent_def secs_def split: option.splits)
    then show ?thesis using True sv by (simp add: last_sent_def upd del: fun_upd_apply)
  next
    case False
    then have "cooled_down s t now e = Some (e\<lparr>en_last_tier_ns := m\<rparr>, False)"
      using m by (simp add: cooled_down_def may_send_def last_sent_def secs_def split: option.splits)
    moreover have "fm_map m = fm_map ?L"
      using False m(3) by (simp add: may_send_def last_sent_def split: option.splits)
    ultimately show ?thesis using False m(2) by (simp add: last_sent_def)
  qed
qed
subsection \<open>What the outputs leave alone\<close>

lemma journal_push_frame [simp]:
  "en_cfg (journal_push r e) = en_cfg e" "en_symbols (journal_push r e) = en_symbols e" "en_scorer (journal_push r e) = en_scorer e"
  "en_filings (journal_push r e) = en_filings e" "en_alerts (journal_push r e) = en_alerts e" "en_watch (journal_push r e) = en_watch e"
  "en_slots (journal_push r e) = en_slots e" "en_free (journal_push r e) = en_free e" "en_by_sym (journal_push r e) = en_by_sym e"
  "en_paper (journal_push r e) = en_paper e" "en_first_seen (journal_push r e) = en_first_seen e" "en_last_news (journal_push r e) = en_last_news e"
  "en_mover_alerted (journal_push r e) = en_mover_alerted e" "en_last_tier_ns (journal_push r e) = en_last_tier_ns e"
  "en_halt_seen (journal_push r e) = en_halt_seen e" "en_universe (journal_push r e) = en_universe e"
  "en_src_stats (journal_push r e) = en_src_stats e" "en_recv_to_watch (journal_push r e) = en_recv_to_watch e" "en_e2e (journal_push r e) = en_e2e e"
  "en_handle (journal_push r e) = en_handle e" "en_tier_counts (journal_push r e) = en_tier_counts e"
  "en_alert_drops (journal_push r e) = en_alert_drops e" "en_cached_day (journal_push r e) = en_cached_day e"
  "en_cached_until (journal_push r e) = en_cached_until e"
  by (simp_all add: journal_push_def split: option.splits prod.splits bool.splits)

lemma journal_outcome_frame [simp]:
  "en_cfg (journal_outcome w hz now h mv e) = en_cfg e" "en_symbols (journal_outcome w hz now h mv e) = en_symbols e"
  "en_scorer (journal_outcome w hz now h mv e) = en_scorer e" "en_filings (journal_outcome w hz now h mv e) = en_filings e"
  "en_alerts (journal_outcome w hz now h mv e) = en_alerts e" "en_watch (journal_outcome w hz now h mv e) = en_watch e"
  "en_slots (journal_outcome w hz now h mv e) = en_slots e" "en_free (journal_outcome w hz now h mv e) = en_free e"
  "en_by_sym (journal_outcome w hz now h mv e) = en_by_sym e" "en_paper (journal_outcome w hz now h mv e) = en_paper e"
  "en_first_seen (journal_outcome w hz now h mv e) = en_first_seen e" "en_last_news (journal_outcome w hz now h mv e) = en_last_news e"
  "en_mover_alerted (journal_outcome w hz now h mv e) = en_mover_alerted e" "en_last_tier_ns (journal_outcome w hz now h mv e) = en_last_tier_ns e"
  "en_halt_seen (journal_outcome w hz now h mv e) = en_halt_seen e" "en_universe (journal_outcome w hz now h mv e) = en_universe e"
  "en_src_stats (journal_outcome w hz now h mv e) = en_src_stats e" "en_recv_to_watch (journal_outcome w hz now h mv e) = en_recv_to_watch e"
  "en_e2e (journal_outcome w hz now h mv e) = en_e2e e" "en_handle (journal_outcome w hz now h mv e) = en_handle e"
  "en_tier_counts (journal_outcome w hz now h mv e) = en_tier_counts e" "en_alert_drops (journal_outcome w hz now h mv e) = en_alert_drops e"
  "en_cached_day (journal_outcome w hz now h mv e) = en_cached_day e" "en_cached_until (journal_outcome w hz now h mv e) = en_cached_until e"
  by (simp_all add: journal_outcome_def)

lemma fold_frame: "(\<And>x e. f (g x e) = f e) \<Longrightarrow> f (fold g xs e) = f e"
  by (induction xs arbitrary: e) simp_all

lemma journal_trades_frame [simp]:
  "en_cfg (fold journal_trade ts e) = en_cfg e" "en_symbols (fold journal_trade ts e) = en_symbols e"
  "en_scorer (fold journal_trade ts e) = en_scorer e" "en_filings (fold journal_trade ts e) = en_filings e"
  "en_alerts (fold journal_trade ts e) = en_alerts e" "en_watch (fold journal_trade ts e) = en_watch e"
  "en_slots (fold journal_trade ts e) = en_slots e" "en_free (fold journal_trade ts e) = en_free e"
  "en_by_sym (fold journal_trade ts e) = en_by_sym e" "en_paper (fold journal_trade ts e) = en_paper e"
  "en_first_seen (fold journal_trade ts e) = en_first_seen e" "en_last_news (fold journal_trade ts e) = en_last_news e"
  "en_mover_alerted (fold journal_trade ts e) = en_mover_alerted e" "en_last_tier_ns (fold journal_trade ts e) = en_last_tier_ns e"
  "en_halt_seen (fold journal_trade ts e) = en_halt_seen e" "en_universe (fold journal_trade ts e) = en_universe e"
  "en_src_stats (fold journal_trade ts e) = en_src_stats e" "en_recv_to_watch (fold journal_trade ts e) = en_recv_to_watch e"
  "en_e2e (fold journal_trade ts e) = en_e2e e" "en_handle (fold journal_trade ts e) = en_handle e"
  "en_tier_counts (fold journal_trade ts e) = en_tier_counts e" "en_alert_drops (fold journal_trade ts e) = en_alert_drops e"
  "en_cached_day (fold journal_trade ts e) = en_cached_day e" "en_cached_until (fold journal_trade ts e) = en_cached_until e"
  by (simp_all add: fold_frame journal_trade_def)

lemma note_tier_frame [simp]:
  "en_cfg (note_tier t e) = en_cfg e" "en_symbols (note_tier t e) = en_symbols e" "en_scorer (note_tier t e) = en_scorer e"
  "en_filings (note_tier t e) = en_filings e" "en_alerts (note_tier t e) = en_alerts e" "en_journal (note_tier t e) = en_journal e"
  "en_watch (note_tier t e) = en_watch e" "en_slots (note_tier t e) = en_slots e" "en_free (note_tier t e) = en_free e"
  "en_by_sym (note_tier t e) = en_by_sym e" "en_paper (note_tier t e) = en_paper e" "en_first_seen (note_tier t e) = en_first_seen e"
  "en_last_news (note_tier t e) = en_last_news e" "en_mover_alerted (note_tier t e) = en_mover_alerted e"
  "en_last_tier_ns (note_tier t e) = en_last_tier_ns e" "en_halt_seen (note_tier t e) = en_halt_seen e" "en_universe (note_tier t e) = en_universe e"
  "en_src_stats (note_tier t e) = en_src_stats e" "en_recv_to_watch (note_tier t e) = en_recv_to_watch e" "en_e2e (note_tier t e) = en_e2e e"
  "en_handle (note_tier t e) = en_handle e" "en_journal_drops (note_tier t e) = en_journal_drops e"
  "en_alert_drops (note_tier t e) = en_alert_drops e" "en_cached_day (note_tier t e) = en_cached_day e"
  "en_cached_until (note_tier t e) = en_cached_until e"
  by (simp_all add: note_tier_def)

lemma note_latency_frame [simp]:
  "en_cfg (note_latency w s e) = en_cfg e" "en_symbols (note_latency w s e) = en_symbols e" "en_scorer (note_latency w s e) = en_scorer e"
  "en_filings (note_latency w s e) = en_filings e" "en_alerts (note_latency w s e) = en_alerts e" "en_journal (note_latency w s e) = en_journal e"
  "en_watch (note_latency w s e) = en_watch e" "en_slots (note_latency w s e) = en_slots e" "en_free (note_latency w s e) = en_free e"
  "en_by_sym (note_latency w s e) = en_by_sym e" "en_paper (note_latency w s e) = en_paper e" "en_first_seen (note_latency w s e) = en_first_seen e"
  "en_last_news (note_latency w s e) = en_last_news e" "en_mover_alerted (note_latency w s e) = en_mover_alerted e"
  "en_last_tier_ns (note_latency w s e) = en_last_tier_ns e" "en_halt_seen (note_latency w s e) = en_halt_seen e"
  "en_universe (note_latency w s e) = en_universe e" "en_src_stats (note_latency w s e) = en_src_stats e"
  "en_handle (note_latency w s e) = en_handle e" "en_tier_counts (note_latency w s e) = en_tier_counts e"
  "en_journal_drops (note_latency w s e) = en_journal_drops e" "en_alert_drops (note_latency w s e) = en_alert_drops e"
  "en_cached_day (note_latency w s e) = en_cached_day e" "en_cached_until (note_latency w s e) = en_cached_until e"
  by (simp_all add: note_latency_def Let_def)

lemma trade_signal_frame [simp]:
  "en_cfg (trade_signal s now e) = en_cfg e" "en_symbols (trade_signal s now e) = en_symbols e" "en_scorer (trade_signal s now e) = en_scorer e"
  "en_filings (trade_signal s now e) = en_filings e" "en_alerts (trade_signal s now e) = en_alerts e"
  "en_journal (trade_signal s now e) = en_journal e" "en_watch (trade_signal s now e) = en_watch e" "en_slots (trade_signal s now e) = en_slots e"
  "en_free (trade_signal s now e) = en_free e" "en_by_sym (trade_signal s now e) = en_by_sym e"
  "en_first_seen (trade_signal s now e) = en_first_seen e" "en_last_news (trade_signal s now e) = en_last_news e"
  "en_mover_alerted (trade_signal s now e) = en_mover_alerted e" "en_last_tier_ns (trade_signal s now e) = en_last_tier_ns e"
  "en_halt_seen (trade_signal s now e) = en_halt_seen e" "en_universe (trade_signal s now e) = en_universe e"
  "en_src_stats (trade_signal s now e) = en_src_stats e" "en_recv_to_watch (trade_signal s now e) = en_recv_to_watch e"
  "en_e2e (trade_signal s now e) = en_e2e e" "en_handle (trade_signal s now e) = en_handle e"
  "en_tier_counts (trade_signal s now e) = en_tier_counts e" "en_journal_drops (trade_signal s now e) = en_journal_drops e"
  "en_alert_drops (trade_signal s now e) = en_alert_drops e" "en_cached_day (trade_signal s now e) = en_cached_day e"
  "en_cached_until (trade_signal s now e) = en_cached_until e"
  by (simp_all add: trade_signal_def)

lemma push_alert_frame [simp]:
  "en_cfg (push_alert s e) = en_cfg e" "en_symbols (push_alert s e) = en_symbols e" "en_scorer (push_alert s e) = en_scorer e"
  "en_filings (push_alert s e) = en_filings e" "en_journal (push_alert s e) = en_journal e" "en_watch (push_alert s e) = en_watch e"
  "en_slots (push_alert s e) = en_slots e" "en_free (push_alert s e) = en_free e" "en_by_sym (push_alert s e) = en_by_sym e"
  "en_paper (push_alert s e) = en_paper e" "en_first_seen (push_alert s e) = en_first_seen e" "en_last_news (push_alert s e) = en_last_news e"
  "en_mover_alerted (push_alert s e) = en_mover_alerted e" "en_last_tier_ns (push_alert s e) = en_last_tier_ns e"
  "en_halt_seen (push_alert s e) = en_halt_seen e" "en_universe (push_alert s e) = en_universe e" "en_src_stats (push_alert s e) = en_src_stats e"
  "en_recv_to_watch (push_alert s e) = en_recv_to_watch e" "en_e2e (push_alert s e) = en_e2e e" "en_handle (push_alert s e) = en_handle e"
  "en_tier_counts (push_alert s e) = en_tier_counts e" "en_journal_drops (push_alert s e) = en_journal_drops e"
  "en_cached_day (push_alert s e) = en_cached_day e" "en_cached_until (push_alert s e) = en_cached_until e"
  by (simp_all add: push_alert_def split: option.splits prod.splits bool.splits)

lemma emit_frame [simp]:
  "en_cfg (emit bd wall w t now rsn e) = en_cfg e" "en_symbols (emit bd wall w t now rsn e) = en_symbols e"
  "en_scorer (emit bd wall w t now rsn e) = en_scorer e" "en_filings (emit bd wall w t now rsn e) = en_filings e"
  "en_watch (emit bd wall w t now rsn e) = en_watch e" "en_slots (emit bd wall w t now rsn e) = en_slots e"
  "en_free (emit bd wall w t now rsn e) = en_free e" "en_by_sym (emit bd wall w t now rsn e) = en_by_sym e"
  "en_first_seen (emit bd wall w t now rsn e) = en_first_seen e" "en_last_news (emit bd wall w t now rsn e) = en_last_news e"
  "en_mover_alerted (emit bd wall w t now rsn e) = en_mover_alerted e" "en_last_tier_ns (emit bd wall w t now rsn e) = en_last_tier_ns e"
  "en_halt_seen (emit bd wall w t now rsn e) = en_halt_seen e" "en_universe (emit bd wall w t now rsn e) = en_universe e"
  "en_src_stats (emit bd wall w t now rsn e) = en_src_stats e" "en_handle (emit bd wall w t now rsn e) = en_handle e"
  "en_cached_day (emit bd wall w t now rsn e) = en_cached_day e" "en_cached_until (emit bd wall w t now rsn e) = en_cached_until e"
  by (simp_all add: emit_def Let_def)

lemma put_watch_frame [simp]:
  "en_cfg (put_watch i w e) = en_cfg e" "en_symbols (put_watch i w e) = en_symbols e" "en_scorer (put_watch i w e) = en_scorer e"
  "en_filings (put_watch i w e) = en_filings e" "en_alerts (put_watch i w e) = en_alerts e" "en_journal (put_watch i w e) = en_journal e"
  "en_slots (put_watch i w e) = en_slots e" "en_free (put_watch i w e) = en_free e" "en_by_sym (put_watch i w e) = en_by_sym e"
  "en_paper (put_watch i w e) = en_paper e" "en_first_seen (put_watch i w e) = en_first_seen e" "en_last_news (put_watch i w e) = en_last_news e"
  "en_mover_alerted (put_watch i w e) = en_mover_alerted e" "en_last_tier_ns (put_watch i w e) = en_last_tier_ns e"
  "en_halt_seen (put_watch i w e) = en_halt_seen e" "en_universe (put_watch i w e) = en_universe e" "en_src_stats (put_watch i w e) = en_src_stats e"
  "en_recv_to_watch (put_watch i w e) = en_recv_to_watch e" "en_e2e (put_watch i w e) = en_e2e e" "en_handle (put_watch i w e) = en_handle e"
  "en_tier_counts (put_watch i w e) = en_tier_counts e" "en_journal_drops (put_watch i w e) = en_journal_drops e"
  "en_alert_drops (put_watch i w e) = en_alert_drops e" "en_cached_day (put_watch i w e) = en_cached_day e"
  "en_cached_until (put_watch i w e) = en_cached_until e"
  by (simp_all add: put_watch_def)

lemma upd_src_frame [simp]:
  "en_cfg (upd_src i f e) = en_cfg e" "en_symbols (upd_src i f e) = en_symbols e" "en_scorer (upd_src i f e) = en_scorer e"
  "en_filings (upd_src i f e) = en_filings e" "en_alerts (upd_src i f e) = en_alerts e" "en_journal (upd_src i f e) = en_journal e"
  "en_watch (upd_src i f e) = en_watch e" "en_slots (upd_src i f e) = en_slots e" "en_free (upd_src i f e) = en_free e"
  "en_by_sym (upd_src i f e) = en_by_sym e" "en_paper (upd_src i f e) = en_paper e" "en_first_seen (upd_src i f e) = en_first_seen e"
  "en_last_news (upd_src i f e) = en_last_news e" "en_mover_alerted (upd_src i f e) = en_mover_alerted e"
  "en_last_tier_ns (upd_src i f e) = en_last_tier_ns e" "en_halt_seen (upd_src i f e) = en_halt_seen e" "en_universe (upd_src i f e) = en_universe e"
  "en_recv_to_watch (upd_src i f e) = en_recv_to_watch e" "en_e2e (upd_src i f e) = en_e2e e" "en_handle (upd_src i f e) = en_handle e"
  "en_tier_counts (upd_src i f e) = en_tier_counts e" "en_journal_drops (upd_src i f e) = en_journal_drops e"
  "en_alert_drops (upd_src i f e) = en_alert_drops e" "en_cached_day (upd_src i f e) = en_cached_day e"
  "en_cached_until (upd_src i f e) = en_cached_until e"
  by (simp_all add: upd_src_def)

lemma today_days_frame [simp]:
  "en_cfg (fst (today_days now e)) = en_cfg e" "en_symbols (fst (today_days now e)) = en_symbols e" "en_scorer (fst (today_days now e)) = en_scorer e"
  "en_filings (fst (today_days now e)) = en_filings e" "en_alerts (fst (today_days now e)) = en_alerts e"
  "en_journal (fst (today_days now e)) = en_journal e" "en_watch (fst (today_days now e)) = en_watch e"
  "en_slots (fst (today_days now e)) = en_slots e" "en_free (fst (today_days now e)) = en_free e" "en_by_sym (fst (today_days now e)) = en_by_sym e"
  "en_paper (fst (today_days now e)) = en_paper e" "en_first_seen (fst (today_days now e)) = en_first_seen e"
  "en_last_news (fst (today_days now e)) = en_last_news e" "en_mover_alerted (fst (today_days now e)) = en_mover_alerted e"
  "en_last_tier_ns (fst (today_days now e)) = en_last_tier_ns e" "en_halt_seen (fst (today_days now e)) = en_halt_seen e"
  "en_universe (fst (today_days now e)) = en_universe e" "en_src_stats (fst (today_days now e)) = en_src_stats e"
  "en_recv_to_watch (fst (today_days now e)) = en_recv_to_watch e" "en_e2e (fst (today_days now e)) = en_e2e e"
  "en_handle (fst (today_days now e)) = en_handle e" "en_tier_counts (fst (today_days now e)) = en_tier_counts e"
  "en_journal_drops (fst (today_days now e)) = en_journal_drops e" "en_alert_drops (fst (today_days now e)) = en_alert_drops e"
  by (simp_all add: today_days_def Let_def split: prod.splits)

lemma step_paper_frame [simp]:
  "en_cfg (step_paper bd now e) = en_cfg e" "en_symbols (step_paper bd now e) = en_symbols e" "en_scorer (step_paper bd now e) = en_scorer e"
  "en_filings (step_paper bd now e) = en_filings e" "en_alerts (step_paper bd now e) = en_alerts e" "en_watch (step_paper bd now e) = en_watch e"
  "en_slots (step_paper bd now e) = en_slots e" "en_free (step_paper bd now e) = en_free e" "en_by_sym (step_paper bd now e) = en_by_sym e"
  "en_first_seen (step_paper bd now e) = en_first_seen e" "en_last_news (step_paper bd now e) = en_last_news e"
  "en_mover_alerted (step_paper bd now e) = en_mover_alerted e" "en_last_tier_ns (step_paper bd now e) = en_last_tier_ns e"
  "en_halt_seen (step_paper bd now e) = en_halt_seen e" "en_universe (step_paper bd now e) = en_universe e"
  "en_src_stats (step_paper bd now e) = en_src_stats e" "en_recv_to_watch (step_paper bd now e) = en_recv_to_watch e"
  "en_e2e (step_paper bd now e) = en_e2e e" "en_handle (step_paper bd now e) = en_handle e" "en_tier_counts (step_paper bd now e) = en_tier_counts e"
  "en_alert_drops (step_paper bd now e) = en_alert_drops e" "en_cached_day (step_paper bd now e) = en_cached_day e"
  "en_cached_until (step_paper bd now e) = en_cached_until e"
  by (simp_all add: step_paper_def split: option.splits prod.splits)

lemma put_watch_watch [simp]: "en_watch (put_watch i w e) = (en_watch e)[i := w]"
  by (simp add: put_watch_def)

subsection \<open>The watch list\<close>

definition watch_ok :: "engine \<Rightarrow> bool" where
  \<comment> \<open>every slot is in use or free, and the index finds exactly the slots in use\<close>
  "watch_ok e \<longleftrightarrow> length (en_watch e) = kWatchSlots \<and> distinct (en_slots e @ en_free e) \<and>
     set (en_slots e @ en_free e) = {..<kWatchSlots} \<and> fm_inv (en_by_sym e) \<and>
     (\<forall>i < kWatchSlots. wa_active (en_watch e ! i) \<longleftrightarrow> i \<in> set (en_slots e)) \<and>
     (\<forall>s i. fm_map (en_by_sym e) (ucast s) = Some i \<longleftrightarrow> i \<in> set (en_slots e) \<and> wa_sym (en_watch e ! i) = s)"

definition stories :: "engine \<Rightarrow> u32 \<Rightarrow> watch option" where
  \<comment> \<open>the watch list as a map from tickers\<close>
  "stories e s = map_option (\<lambda>i. en_watch e ! i) (fm_map (en_by_sym e) (ucast s))"

lemma watch_okD:
  assumes "watch_ok e"
  shows "length (en_watch e) = kWatchSlots" "distinct (en_slots e)" "distinct (en_free e)" "set (en_slots e) \<inter> set (en_free e) = {}"
    "set (en_slots e) \<union> set (en_free e) = {..<kWatchSlots}" "fm_inv (en_by_sym e)"
    "i < kWatchSlots \<Longrightarrow> wa_active (en_watch e ! i) \<longleftrightarrow> i \<in> set (en_slots e)"
    "fm_map (en_by_sym e) (ucast s) = Some i \<longleftrightarrow> i \<in> set (en_slots e) \<and> wa_sym (en_watch e ! i) = s"
  using assms by (auto simp: watch_ok_def)

lemma slot_lt: "watch_ok e \<Longrightarrow> i \<in> set (en_slots e) \<Longrightarrow> i < kWatchSlots"
  using watch_okD(5) [of e] by auto

lemma stories_iff:
  assumes "watch_ok e"
  shows "stories e s = Some w \<longleftrightarrow> (\<exists>i \<in> set (en_slots e). en_watch e ! i = w \<and> wa_sym w = s)"
  using watch_okD(8) [OF assms] by (auto simp: stories_def)

lemma stories_slot:
  assumes "watch_ok e" "i \<in> set (en_slots e)"
  shows "stories e (wa_sym (en_watch e ! i)) = Some (en_watch e ! i)"
  using assms by (auto simp: stories_iff)

lemma find_watch_ok: "watch_ok e \<Longrightarrow> find_watch s e = Some (fm_map (en_by_sym e) (ucast s))"
  using fm_lookup_pointer [OF watch_okD(6), of e "ucast s"] by (auto simp: find_watch_def)

lemma stories_cong:
  assumes "en_watch e' = en_watch e" "en_by_sym e' = en_by_sym e"
  shows "stories e' = stories e"
  using assms by (simp add: stories_def fun_eq_iff)

lemma watch_ok_cong:
  assumes "en_watch e' = en_watch e" "en_by_sym e' = en_by_sym e" "en_slots e' = en_slots e" "en_free e' = en_free e"
  shows "watch_ok e' = watch_ok e"
  using assms by (simp add: watch_ok_def)

lemma put_watch_ok:
  assumes ok: "watch_ok e" and i: "i \<in> set (en_slots e)" and w: "wa_active w" "wa_sym w = wa_sym (en_watch e ! i)"
  shows "watch_ok (put_watch i w e)" and "stories (put_watch i w e) = (stories e)(wa_sym w \<mapsto> w)"
proof -
  have lt: "i < length (en_watch e)" using slot_lt [OF ok i] watch_okD(1) [OF ok] by simp
  have "wa_active (en_watch e ! i)" using watch_okD(7) [OF ok slot_lt [OF ok i]] i by simp
  then have same: "wa_active ((en_watch e)[i := w] ! j) = wa_active (en_watch e ! j)" "wa_sym ((en_watch e)[i := w] ! j) = wa_sym (en_watch e ! j)" for j
    using w lt by (cases "j = i"; simp)+
  show ok': "watch_ok (put_watch i w e)" using ok by (simp add: watch_ok_def same)
  show "stories (put_watch i w e) = (stories e)(wa_sym w \<mapsto> w)"
  proof
    fix s
    have at: "fm_map (en_by_sym e) (ucast (wa_sym w)) = Some i" using i w watch_okD(8) [OF ok] by simp
    show "stories (put_watch i w e) s = ((stories e)(wa_sym w \<mapsto> w)) s"
    proof (cases "s = wa_sym w")
      case True
      then show ?thesis using at lt by (simp add: stories_def)
    next
      case False
      have "j \<noteq> i" if "fm_map (en_by_sym e) (ucast s) = Some j" for j
        using that False w watch_okD(8) [OF ok] by auto
      then show ?thesis using False by (cases "fm_map (en_by_sym e) (ucast s)") (auto simp: stories_def)
    qed
  qed
qed

lemma swap_remove:
  assumes "p < length xs"
  shows "mset (butlast (xs[p := last xs])) = mset xs - {#xs ! p#}"
proof (cases xs rule: rev_cases)
  case (snoc ys z)
  show ?thesis
  proof (cases "p < length ys")
    case True
    then have "butlast (xs[p := last xs]) = ys[p := z]" using snoc by (simp add: list_update_append)
    then show ?thesis using snoc True by (simp add: mset_update nth_append)
  next
    case False
    then have "p = length ys" using assms snoc by simp
    then show ?thesis using snoc by simp
  qed
qed (use assms in simp)

lemma swap_remove_set:
  assumes "p < length xs" "distinct xs"
  shows "set (butlast (xs[p := last xs])) = set xs - {xs ! p}" and "distinct (butlast (xs[p := last xs]))"
proof -
  have "mset (butlast (xs[p := last xs])) = mset (remove1 (xs ! p) xs)"
    using swap_remove [OF assms(1)] by simp
  then show "set (butlast (xs[p := last xs])) = set xs - {xs ! p}" "distinct (butlast (xs[p := last xs]))"
    using assms(2) by (metis mset_eq_setD set_remove1_eq, metis mset_eq_imp_distinct_iff distinct_remove1)
qed

definition off_watch :: "engine \<Rightarrow> engine" where
  \<comment> \<open>the engine without its watch list\<close>
  "off_watch e = e\<lparr>en_watch := [], en_slots := [], en_free := [],
     en_by_sym := \<lparr>fm_slots = [], fm_mask = 0, fm_size = 0, fm_grow_at = 0, fm_max_load = 0\<rparr>\<rparr>"

definition only_watch :: "engine \<Rightarrow> engine \<Rightarrow> bool" where
  \<comment> \<open>nothing but the watch list changes\<close>
  "only_watch e e' \<longleftrightarrow> off_watch e' = off_watch e"

lemma deactivate_watch_ok:
  assumes ok: "watch_ok e" and p: "p < length (en_slots e)"
  defines "idx \<equiv> en_slots e ! p"
  shows "yields (deactivate_watch p e) (\<lambda>e'. watch_ok e' \<and> stories e' = (stories e)(wa_sym (en_watch e ! idx) := None) \<and>
    only_watch e e' \<and> en_slots e' = butlast ((en_slots e)[p := last (en_slots e)]) \<and> en_free e' = en_free e @ [idx] \<and>
    en_watch e' = (en_watch e)[idx := (en_watch e ! idx)\<lparr>wa_active := False\<rparr>])"
proof -
  let ?w = "en_watch e ! idx" and ?sl = "butlast ((en_slots e)[p := last (en_slots e)])"
  let ?W = "(en_watch e)[idx := ?w\<lparr>wa_active := False\<rparr>]"
  have i: "idx \<in> set (en_slots e)" using p by (simp add: idx_def)
  obtain m b where m: "erase (en_by_sym e) (ucast (wa_sym ?w)) = Some (m, b)" "fm_inv m"
      "fm_map m = (fm_map (en_by_sym e))(ucast (wa_sym ?w) := None)"
    using erase_total [OF watch_okD(6) [OF ok], of "ucast (wa_sym ?w)"] by auto
  let ?e = "e\<lparr>en_by_sym := m, en_watch := ?W, en_slots := ?sl, en_free := en_free e @ [idx]\<rparr>"
  note sl = swap_remove_set [OF p watch_okD(2) [OF ok], folded idx_def]
  have "idx < length (en_watch e)" using slot_lt [OF ok i] watch_okD(1) [OF ok] by simp
  then have sym: "wa_sym (?W ! j) = wa_sym (en_watch e ! j)" for j by (cases "j = idx") simp_all
  have key: "fm_map (en_by_sym e) (ucast (wa_sym ?w)) = Some idx" using i watch_okD(8) [OF ok] by simp
  have "watch_ok ?e"
    unfolding watch_ok_def
  proof (intro conjI allI impI)
    show "distinct (en_slots ?e @ en_free ?e)" using sl i watch_okD(3,4) [OF ok] by auto
    show "set (en_slots ?e @ en_free ?e) = {..<kWatchSlots}" using sl i watch_okD(5) [OF ok] by auto
    fix j assume "j < kWatchSlots"
    then show "wa_active (en_watch ?e ! j) = (j \<in> set (en_slots ?e))"
      using watch_okD(1,7) [OF ok] sl by (cases "j = idx") auto
  next
    fix s j
    show "(fm_map (en_by_sym ?e) (ucast s) = Some j) = (j \<in> set (en_slots ?e) \<and> wa_sym (en_watch ?e ! j) = s)"
    proof (cases "s = wa_sym ?w")
      case True
      moreover have "j = idx" if "j \<in> set (en_slots e)" "wa_sym (en_watch e ! j) = wa_sym ?w"
        using that key watch_okD(8) [OF ok, of "wa_sym ?w" j] by simp
      ultimately show ?thesis using sl by (auto simp: m(3) sym)
    next
      case False
      then show ?thesis using sl watch_okD(8) [OF ok, of s j] by (auto simp: m(3) sym)
    qed
  qed (use watch_okD(1) [OF ok] m(2) in simp_all)
  moreover have "stories ?e = (stories e)(wa_sym ?w := None)"
  proof
    fix s
    have "j \<noteq> idx" if "fm_map (en_by_sym e) (ucast s) = Some j" "s \<noteq> wa_sym ?w" for j
      using that watch_okD(8) [OF ok, of s j] by auto
    then show "stories ?e s = ((stories e)(wa_sym ?w := None)) s"
      by (cases "fm_map (en_by_sym e) (ucast s)") (auto simp: stories_def m(3))
  qed
  ultimately show ?thesis using m(1) by (auto simp: deactivate_watch_def Let_def only_watch_def off_watch_def idx_def [symmetric] simp del: fun_upd_apply)
qed

lemma oldest_from_ok:
  fixes e :: engine and best :: nat
  defines "t \<equiv> \<lambda>k. wa_t_news (en_watch e ! (en_slots e ! k))"
  shows "oldest_from e ks best \<in> insert best (set ks) \<and> (\<forall>k \<in> insert best (set ks). t (oldest_from e ks best) \<le> t k)"
proof (induction ks arbitrary: best)
  case (Cons k ks)
  define b where "b = (if t k < t best then k else best)"
  have step: "oldest_from e (k # ks) best = oldest_from e ks b" by (simp add: b_def t_def)
  have b: "t b \<le> t k" "t b \<le> t best" "b \<in> {k, best}" by (simp_all add: b_def not_less less_imp_le)
  have r: "oldest_from e ks b \<in> insert b (set ks)" "t (oldest_from e ks b) \<le> t b"
    "\<forall>k' \<in> set ks. t (oldest_from e ks b) \<le> t k'" using Cons.IH [of b] by simp_all
  have "t (oldest_from e ks b) \<le> t k" "t (oldest_from e ks b) \<le> t best"
    using order_trans [OF r(2) b(1)] order_trans [OF r(2) b(2)] .
  then show ?case unfolding step using r(1,3) b(3) by auto
qed simp

definition evicts :: "engine \<Rightarrow> (u32 \<Rightarrow> watch option) \<Rightarrow> bool" where
  \<comment> \<open>the list after making room: as it was when a slot is free, else without an oldest story\<close>
  "evicts e S \<longleftrightarrow> (if en_free e \<noteq> [] then S = stories e
     else (\<exists>s w. stories e s = Some w \<and> (\<forall>s' w'. stories e s' = Some w' \<longrightarrow> wa_t_news w \<le> wa_t_news w') \<and> S = (stories e)(s := None)))"

lemma make_room_ok:
  assumes ok: "watch_ok e"
  shows "yields (if en_free e = [] then deactivate_watch (oldest_from e [1..<length (en_slots e)] 0) e else Some e)
    (\<lambda>e'. watch_ok e' \<and> only_watch e e' \<and> en_free e' \<noteq> [] \<and> evicts e (stories e'))"
proof (cases "en_free e = []")
  case True
  let ?p = "oldest_from e [1..<length (en_slots e)] 0"
  have "0 \<in> set (en_slots e)" using True watch_okD(5) [OF ok] by (simp add: kWatchSlots_def)
  then have "0 < length (en_slots e)" by (cases "en_slots e") simp_all
  then have ks: "insert 0 (set [1..<length (en_slots e)]) = {..<length (en_slots e)}" by (auto simp: not_less_eq_eq)
  note o = oldest_from_ok [of e "[1..<length (en_slots e)]" 0, unfolded ks]
  then have p: "?p < length (en_slots e)" by simp
  let ?w = "en_watch e ! (en_slots e ! ?p)"
  have w: "stories e (wa_sym ?w) = Some ?w" using stories_slot [OF ok] p by simp
  moreover have "wa_t_news ?w \<le> wa_t_news w'" if "stories e s' = Some w'" for s' w'
    using that o by (auto simp: stories_iff [OF ok] in_set_conv_nth)
  ultimately have "evicts e ((stories e)(wa_sym ?w := None))"
    unfolding evicts_def using True by (intro if_not_P [THEN iffD2] exI [of _ "wa_sym ?w"] exI [of _ ?w]) auto
  then show ?thesis
    using True yields_mono [OF deactivate_watch_ok [OF ok p]] by simp
next
  case False
  then show ?thesis using ok by (simp add: evicts_def only_watch_def)
qed

lemma only_watchD:
  assumes "only_watch e e'"
  shows "en_cfg e' = en_cfg e" "en_symbols e' = en_symbols e" "en_filings e' = en_filings e" "en_paper e' = en_paper e" "en_alerts e' = en_alerts e"
    "en_journal e' = en_journal e" "en_first_seen e' = en_first_seen e" "en_last_news e' = en_last_news e" "en_mover_alerted e' = en_mover_alerted e"
    "en_last_tier_ns e' = en_last_tier_ns e" "en_halt_seen e' = en_halt_seen e" "en_universe e' = en_universe e" "en_src_stats e' = en_src_stats e"
    "en_tier_counts e' = en_tier_counts e" "en_scorer e' = en_scorer e"
  using assms unfolding only_watch_def off_watch_def by (cases e; cases e'; simp)+

lemma only_watch_trans: "only_watch e e1 \<Longrightarrow> only_watch e1 e2 \<Longrightarrow> only_watch e e2"
  by (simp add: only_watch_def)

definition new_watch :: "u32 \<Rightarrow> watch" where
  "new_watch s = watch0\<lparr>wa_active := True, wa_sym := s\<rparr>"

lemma new_watch_fields [simp]:
  "wa_active (new_watch s)" "wa_sym (new_watch s) = s" "wa_tier (new_watch s) = TierNone" "wa_dilution_flags (new_watch s) = 0"
  by (simp_all add: new_watch_def watch0_def)

lemma take_slot_ok:
  assumes ok: "watch_ok e" and new: "stories e s = None" and free: "en_free e \<noteq> []"
    and m: "fm_inv m" "fm_map m = (fm_map (en_by_sym e))(ucast s \<mapsto> last (en_free e))"
  defines "e' \<equiv> e\<lparr>en_free := butlast (en_free e), en_watch := (en_watch e)[last (en_free e) := new_watch s],
      en_slots := en_slots e @ [last (en_free e)], en_by_sym := m\<rparr>"
  shows "watch_ok e'" and "stories e' = (stories e)(s \<mapsto> new_watch s)"
proof -
  obtain fr i where fr: "en_free e = fr @ [i]" using free by (metis append_butlast_last_id)
  have e': "e' = e\<lparr>en_free := fr, en_watch := (en_watch e)[i := new_watch s], en_slots := en_slots e @ [i], en_by_sym := m\<rparr>"
    by (simp add: e'_def fr)
  have m2: "fm_map m = (fm_map (en_by_sym e))(ucast s \<mapsto> i)" using m(2) fr by simp
  have i: "i < kWatchSlots" "i \<notin> set (en_slots e)" "i \<notin> set fr" "distinct fr" "set fr \<inter> set (en_slots e) = {}"
    using watch_okD(3-5) [OF ok] fr by auto
  have none: "fm_map (en_by_sym e) (ucast s) = None" using new by (simp add: stories_def)
  have old: "(en_watch e)[i := new_watch s] ! j = en_watch e ! j" if "j \<in> set (en_slots e)" for j
    using that i(2) by (cases "j = i") simp_all
  have lt: "i < length (en_watch e)" using i(1) watch_okD(1) [OF ok] by simp
  show "watch_ok e'"
    unfolding watch_ok_def
  proof (intro conjI allI impI)
    show "distinct (en_slots e' @ en_free e')" using i watch_okD(2) [OF ok] by (auto simp: e')
    show "set (en_slots e' @ en_free e') = {..<kWatchSlots}" using watch_okD(5) [OF ok] fr by (auto simp: e')
    fix j assume "j < kWatchSlots"
    then show "wa_active (en_watch e' ! j) = (j \<in> set (en_slots e'))"
      using watch_okD(7) [OF ok] lt by (cases "j = i") (simp_all add: e')
  next
    fix s' :: u32 and j
    show "(fm_map (en_by_sym e') (ucast s') = Some j) = (j \<in> set (en_slots e') \<and> wa_sym (en_watch e' ! j) = s')"
    proof (cases "j = i")
      case True
      then have "fm_map (en_by_sym e) (ucast s') \<noteq> Some j" using watch_okD(8) [OF ok, of s' j] i(2) by simp
      then show ?thesis using True lt by (auto simp: e' m2)
    next
      case False
      moreover have "j \<notin> set (en_slots e) \<or> wa_sym (en_watch e ! j) \<noteq> s" using none watch_okD(8) [OF ok, of s j] by auto
      ultimately show ?thesis using watch_okD(8) [OF ok, of s' j] by (auto simp: e' m2)
    qed
  qed (use watch_okD(1) [OF ok] m(1) in \<open>simp_all add: e'\<close>)
  show "stories e' = (stories e)(s \<mapsto> new_watch s)"
  proof
    fix s' :: u32
    have "j \<noteq> i" if "fm_map (en_by_sym e) (ucast s') = Some j" for j
      using that watch_okD(8) [OF ok, of s' j] i(2) by auto
    then show "stories e' s' = ((stories e)(s \<mapsto> new_watch s)) s'"
      using lt by (cases "fm_map (en_by_sym e) (ucast s')") (auto simp: stories_def e' m2)
  qed
qed

lemma activate_watch_ok:
  assumes ok: "watch_ok e" and new: "stories e s = None"
  shows "yields (activate_watch s e) (\<lambda>(e', idx). watch_ok e' \<and> only_watch e e' \<and> idx \<in> set (en_slots e') \<and>
    en_watch e' ! idx = new_watch s \<and> (\<exists>S. evicts e S \<and> stories e' = S(s \<mapsto> new_watch s)))"
  unfolding activate_watch_def Let_def yields_simps
proof (rule yields_mono [OF make_room_ok [OF ok]], goal_cases)
  case (1 e1)
  then have e1: "watch_ok e1" "only_watch e e1" "en_free e1 \<noteq> []" "evicts e (stories e1)" by simp_all
  have new1: "stories e1 s = None" using e1(4) new by (auto simp: evicts_def split: if_splits)
  obtain m p where m: "insert_or_assign 0 (en_by_sym e1) (ucast s) (last (en_free e1)) = Some (m, p)" "fm_inv m"
      "fm_map m = (fm_map (en_by_sym e1))(ucast s \<mapsto> last (en_free e1))"
    using insert_or_assign_ok [OF watch_okD(6) [OF e1(1)] ucast_u32_key] by blast
  note t = take_slot_ok [OF e1(1) new1 e1(3) m(2,3)]
  have "last (en_free e1) < length (en_watch e1)"
    using e1(3) watch_okD(1,5) [OF e1(1)] by (metis UnI2 last_in_set lessThan_iff)
  moreover have "only_watch e (e1\<lparr>en_free := f, en_watch := w, en_slots := sl, en_by_sym := m\<rparr>)" for f w sl
    using e1(2) by (simp add: only_watch_def off_watch_def)
  ultimately show ?case
    using m(1) t e1(4) by (auto simp: new_watch_def [symmetric] simp del: fun_upd_apply)
qed

end
