(* ===== verification/Engine_Inv.thy ===== *)
theory Engine_Inv
  imports Engine_Watch
begin

unbundle bit_operations_syntax

text \<open>
  The invariant of the engine (watch list, tables, rings and paper trader together) and its operations on the market side:
  \<open>evaluate_ok\<close> says what an evaluation makes of every story, \<open>handle_halt_ok\<close> and \<open>scan_movers_ok\<close> that halts and movers
  leave the watch list alone. Every lemma also states that the operation returns.
\<close>

subsection \<open>The invariant\<close>

definition outputs_ok :: "engine \<Rightarrow> bool" where
  "outputs_ok e \<longleftrightarrow> (\<forall>p. en_paper e = Some p \<longrightarrow> paper_inv p) \<and> (\<forall>q. en_alerts e = Some q \<longrightarrow> spsc_inv q) \<and>
     (\<forall>q. en_journal e = Some q \<longrightarrow> spsc_inv q) \<and> length (en_tier_counts e) = 8"

definition tables_ok :: "engine \<Rightarrow> bool" where
  "tables_ok e \<longleftrightarrow> fm_inv (en_first_seen e) \<and> fm_inv (en_last_news e) \<and> fm_inv (en_mover_alerted e) \<and> fm_inv (en_last_tier_ns e) \<and>
     fm_inv (en_halt_seen e)"

definition static_ok :: "engine \<Rightarrow> bool" where
  "static_ok e \<longleftrightarrow> length (en_universe e) = length (en_symbols e) \<and> en_src_stats e \<noteq> [] \<and>
     (\<forall>s w. stories e s = Some w \<longrightarrow> unat s < length (en_symbols e))"

definition engine_inv :: "engine \<Rightarrow> bool" where
  "engine_inv e \<longleftrightarrow> watch_ok e \<and> tables_ok e \<and> outputs_ok e \<and> static_ok e"

lemma engine_invD:
  "engine_inv e \<Longrightarrow> watch_ok e" "engine_inv e \<Longrightarrow> tables_ok e" "engine_inv e \<Longrightarrow> outputs_ok e" "engine_inv e \<Longrightarrow> static_ok e"
  by (simp_all add: engine_inv_def)

definition same_setup :: "engine \<Rightarrow> engine \<Rightarrow> bool" where
  \<comment> \<open>the configuration and the reference data stay\<close>
  "same_setup e e' \<longleftrightarrow> en_cfg e' = en_cfg e \<and> en_symbols e' = en_symbols e \<and> en_universe e' = en_universe e \<and> en_scorer e' = en_scorer e"

lemma same_setup_refl [simp]: "same_setup e e"
  by (simp add: same_setup_def)

lemma same_setup_trans: "same_setup e e1 \<Longrightarrow> same_setup e1 e2 \<Longrightarrow> same_setup e e2"
  by (simp add: same_setup_def)

lemma journal_push_outputs [simp]: "outputs_ok e \<Longrightarrow> outputs_ok (journal_push r e)"
  by (cases "en_journal e") (auto simp: outputs_ok_def journal_push_def dest: push_ok split: prod.splits bool.splits)

lemma journal_pushes_outputs [simp]: "outputs_ok e \<Longrightarrow> outputs_ok (fold journal_push rs e)"
  by (induction rs arbitrary: e) simp_all

lemma journal_trades_outputs [simp]: "outputs_ok e \<Longrightarrow> outputs_ok (fold journal_trade ts e)"
  by (induction ts arbitrary: e) (simp_all add: journal_trade_def)

lemma push_alert_outputs: "outputs_ok e \<Longrightarrow> outputs_ok (push_alert s e)"
  by (cases "en_alerts e") (auto simp: outputs_ok_def push_alert_def dest: push_ok split: prod.splits bool.splits)

lemma trade_signal_outputs: "outputs_ok e \<Longrightarrow> outputs_ok (trade_signal s now e)"
  by (auto simp: outputs_ok_def trade_signal_def intro: on_signal_inv)

lemma emit_outputs [simp]: "outputs_ok e \<Longrightarrow> outputs_ok (emit bd wall w t now rsn e)"
proof -
  assume "outputs_ok e"
  then have "outputs_ok (note_latency w s (note_tier t e))" for s by (simp add: outputs_ok_def note_tier_def note_latency_def Let_def)
  then show ?thesis by (simp add: emit_def Let_def trade_signal_outputs push_alert_outputs)
qed

lemma step_paper_outputs [simp]: "outputs_ok e \<Longrightarrow> outputs_ok (step_paper bd now e)"
proof (cases "bd = None \<or> en_paper e = None")
  case False
  assume ok: "outputs_ok e"
  from False obtain b p where bp: "bd = Some b" "en_paper e = Some p" by auto
  obtain p' sunk where st: "paper_step (bv_hot b) now p = (p', sunk)" by fastforce
  have "paper_inv p'" using ok bp paper_step_inv [of p "bv_hot b" now] st by (simp add: outputs_ok_def)
  then have "outputs_ok (e\<lparr>en_paper := Some p'\<rparr>)" using ok by (simp add: outputs_ok_def)
  then show ?thesis using bp st by (simp add: step_paper_def)
qed (auto simp: step_paper_def split: option.splits)

lemma engine_inv_frame:
  assumes "engine_inv e" and "outputs_ok e'" and "tables_ok e'" and "en_watch e' = en_watch e" "en_slots e' = en_slots e" "en_free e' = en_free e"
    "en_by_sym e' = en_by_sym e" "en_universe e' = en_universe e" "en_symbols e' = en_symbols e" "length (en_src_stats e') = length (en_src_stats e)"
  shows "engine_inv e'"
proof -
  have "en_src_stats e' \<noteq> []" using assms(1,10) by (auto simp: engine_inv_def static_ok_def)
  then show ?thesis using assms stories_cong [of e' e] watch_ok_cong [of e' e] by (simp add: engine_inv_def static_ok_def)
qed

lemma emit_inv [simp]: "engine_inv e \<Longrightarrow> engine_inv (emit bd wall w t now rsn e)"
  by (rule engine_inv_frame) (simp_all add: engine_inv_def tables_ok_def)

lemma journal_push_inv [simp]: "engine_inv e \<Longrightarrow> engine_inv (journal_push r e)"
  by (rule engine_inv_frame) (simp_all add: engine_inv_def tables_ok_def)

lemma upd_src_length [simp]: "length (en_src_stats (upd_src i f e)) = length (en_src_stats e)"
  by (simp add: upd_src_def)

lemma upd_src_inv [simp]: "engine_inv e \<Longrightarrow> engine_inv (upd_src i f e)"
  by (rule engine_inv_frame) (simp_all add: engine_inv_def tables_ok_def outputs_ok_def)

lemma today_days_inv [simp]: "engine_inv e \<Longrightarrow> engine_inv (fst (today_days now e))"
  by (rule engine_inv_frame) (simp_all add: engine_inv_def tables_ok_def outputs_ok_def)

lemma step_paper_inv: "engine_inv e \<Longrightarrow> engine_inv (step_paper bd now e)"
  by (rule engine_inv_frame) (simp_all add: engine_inv_def tables_ok_def)

lemma put_watch_inv:
  assumes "engine_inv e" "i \<in> set (en_slots e)" "wa_active w" "wa_sym w = wa_sym (en_watch e ! i)"
  shows "engine_inv (put_watch i w e)"
proof -
  note p = put_watch_ok [OF engine_invD(1) [OF assms(1)] assms(2-4)]
  have "unat (wa_sym w) < length (en_symbols e)"
    using assms stories_slot [OF engine_invD(1) [OF assms(1)] assms(2)] by (auto simp: engine_inv_def static_ok_def)
  then show ?thesis
    using assms(1) p by (auto simp: engine_inv_def tables_ok_def outputs_ok_def static_ok_def split: if_splits)
qed

lemma only_watch_inv:
  assumes "engine_inv e" "only_watch e e'" "watch_ok e'" "\<And>s w. stories e' s = Some w \<Longrightarrow> unat s < length (en_symbols e)"
  shows "engine_inv e'" and "same_setup e e'"
  using assms only_watchD [OF assms(2)] by (simp_all add: engine_inv_def tables_ok_def outputs_ok_def static_ok_def same_setup_def)

lemma cooled_down_inv:
  assumes "engine_inv e"
  shows "yields (cooled_down s t now e) (\<lambda>(e', ok). engine_inv e' \<and> (\<exists>m. e' = e\<lparr>en_last_tier_ns := m\<rparr>))"
proof (rule yields_mono [OF cooled_down_yields])
  show "fm_inv (en_last_tier_ns e)" using assms by (simp add: engine_inv_def tables_ok_def)
  fix x :: "engine \<times> bool"
  obtain e' ok where x: "x = (e', ok)" by fastforce
  assume "case x of (e', ok) \<Rightarrow> e' = e\<lparr>en_last_tier_ns := en_last_tier_ns e'\<rparr> \<and> fm_inv (en_last_tier_ns e') \<and> ok = may_send e (s, t) now \<and>
    last_sent e' = (if ok then (last_sent e)((s, t) \<mapsto> now) else last_sent e)"
  then have e': "e' = e\<lparr>en_last_tier_ns := en_last_tier_ns e'\<rparr>" "fm_inv (en_last_tier_ns e')" by (simp_all add: x)
  have "engine_inv e'"
    by (rule engine_inv_frame [OF assms]; subst e'(1)) (use assms e'(2) in \<open>simp_all add: engine_inv_def tables_ok_def outputs_ok_def\<close>)
  then show "case x of (e', ok) \<Rightarrow> engine_inv e' \<and> (\<exists>m. e' = e\<lparr>en_last_tier_ns := m\<rparr>)" using e'(1) x by auto
qed

subsection \<open>Evaluation\<close>

lemma horizons_loop_shape:
  "\<exists>dn rs. horizons_loop now age h mv ks w e = (w\<lparr>wa_horizons_done := dn\<rparr>, fold journal_push rs e)"
proof (induction ks arbitrary: w e)
  case Nil
  show ?case by (rule exI [of _ "wa_horizons_done w"], rule exI [of _ "[]"]) simp
next
  case (Cons x ks)
  obtain k hz where x: "x = (k, hz)" by fastforce
  define w1 where "w1 = w\<lparr>wa_horizons_done := wa_horizons_done w OR push_bit k 1\<rparr>"
  obtain r where r: "journal_outcome w1 (word_of_int hz) now h mv e = journal_push r e" by (simp add: journal_outcome_def)
  show ?case
  proof (cases "\<not> test_flag (wa_horizons_done w) (push_bit k 1) \<and> age \<ge> secs hz")
    case True
    then have "horizons_loop now age h mv (x # ks) w e = horizons_loop now age h mv ks w1 (journal_push r e)"
      by (simp add: x w1_def r [symmetric] Let_def)
    moreover obtain dn rs where "horizons_loop now age h mv ks w1 (journal_push r e) = (w1\<lparr>wa_horizons_done := dn\<rparr>, fold journal_push rs (journal_push r e))"
      using Cons.IH by blast
    ultimately show ?thesis by (intro exI [of _ dn] exI [of _ "r # rs"]) (simp add: w1_def)
  next
    case False
    then have "horizons_loop now age h mv (x # ks) w e = horizons_loop now age h mv ks w e" by (auto simp: x)
    then show ?thesis using Cons.IH [of w e] by simp
  qed
qed

definition priced :: "market_hot \<Rightarrow> watch \<Rightarrow> watch \<Rightarrow> bool" where
  \<comment> \<open>the story after an update of its price statistics: what was told of it stays, its reference price is fixed by the first print\<close>
  "priced h w w' \<longleftrightarrow> wa_ref_px w' = (if wa_ref_px w \<le> 0 then last_px h else wa_ref_px w) \<and>
     wa_active w' = wa_active w \<and> wa_sym w' = wa_sym w \<and> wa_score w' = wa_score w \<and> wa_dilution_flags w' = wa_dilution_flags w \<and>
     wa_t_news w' = wa_t_news w \<and> wa_notional_at_news w' = wa_notional_at_news w \<and> wa_score_flags w' = wa_score_flags w \<and> wa_news_id w' = wa_news_id w"

definition raised :: "engine \<Rightarrow> market_hot \<Rightarrow> u64 \<Rightarrow> watch \<Rightarrow> watch \<Rightarrow> bool" where
  \<comment> \<open>the story rose to ALERT or HIGH, and what that takes\<close>
  "raised e h now w w' \<longleftrightarrow> tier_num (wa_tier w) < tier_num (wa_tier w') \<and> confirmed e h now w' \<and>
     wa_tier w' = (if is_high e h w' then TierHigh else TierAlert)"

definition evaluated :: "board_view option \<Rightarrow> u64 \<Rightarrow> engine \<Rightarrow> watch \<Rightarrow> watch \<Rightarrow> bool" where
  "evaluated bd now e w w' \<longleftrightarrow>
     (case bd of
        None \<Rightarrow> w' = w
      | Some b \<Rightarrow> let h = bv_hot b (wa_sym w) in
          if last_px h \<le> 0 then w' = w else priced h w w' \<and> (wa_tier w' = wa_tier w \<or> raised e h now w w'))"

lemma env_cong:
  assumes "same_setup e e'"
  shows "info_of e' = info_of e" "rvol_of e' = rvol_of e" "confirmed e' = confirmed e" "is_high e' = is_high e" "in_universe e' = in_universe e"
    "market_cap_of e' = market_cap_of e"
proof -
  show i: "info_of e' = info_of e" using assms by (simp add: same_setup_def info_of_def fun_eq_iff)
  show r: "rvol_of e' = rvol_of e" using i by (simp add: rvol_of_def fun_eq_iff)
  show "confirmed e' = confirmed e" "is_high e' = is_high e"
    using assms i r by (simp_all add: fun_eq_iff confirmed_def is_high_def Let_def same_setup_def)
  show m: "market_cap_of e' = market_cap_of e" using i by (simp add: market_cap_of_def fun_eq_iff)
  show "in_universe e' = in_universe e" using assms m by (simp add: fun_eq_iff in_universe_def same_setup_def)
qed

lemma evaluated_cong: "same_setup e e' \<Longrightarrow> evaluated bd now e' = evaluated bd now e"
  by (simp add: evaluated_def raised_def env_cong fun_eq_iff split: option.split)

lemma confirmed_tier: "confirmed e h now (w\<lparr>wa_tier := t\<rparr>) = confirmed e h now w" "is_high e h (w\<lparr>wa_tier := t\<rparr>) = is_high e h w"
  by (simp_all add: confirmed_def is_high_def move_of_def dollar_since_def Let_def)

lemma track_move_priced: "priced h w ((track_move h w)\<lparr>wa_horizons_done := dn\<rparr>)" "wa_tier (track_move h w) = wa_tier w"
  by (simp_all add: priced_def track_move_def Let_def)

lemma put_put [simp]: "put_watch i w (put_watch i w' e) = put_watch i w e"
  by (simp add: put_watch_def)

definition kept_slots :: "engine \<Rightarrow> engine \<Rightarrow> bool" where
  "kept_slots e e' \<longleftrightarrow> en_slots e' = en_slots e \<and> en_free e' = en_free e \<and> en_by_sym e' = en_by_sym e"

lemma fold_journal_push_frame [simp]:
  "en_watch (fold journal_push rs e) = en_watch e" "en_slots (fold journal_push rs e) = en_slots e" "en_free (fold journal_push rs e) = en_free e"
  "en_by_sym (fold journal_push rs e) = en_by_sym e" "en_cfg (fold journal_push rs e) = en_cfg e" "en_symbols (fold journal_push rs e) = en_symbols e"
  "en_universe (fold journal_push rs e) = en_universe e" "en_scorer (fold journal_push rs e) = en_scorer e"
  "en_alerts (fold journal_push rs e) = en_alerts e" "en_paper (fold journal_push rs e) = en_paper e" "en_tier_counts (fold journal_push rs e) = en_tier_counts e"
  by (simp_all add: fold_frame)

lemma fold_journal_push_inv [simp]: "engine_inv e \<Longrightarrow> engine_inv (fold journal_push rs e)"
  by (induction rs arbitrary: e) simp_all

lemma eval_story_ok:
  assumes inv: "engine_inv e" and idx: "idx \<in> set (en_slots e)"
  shows "yields (eval_story b wall now idx e) (\<lambda>e'. engine_inv e' \<and> same_setup e e' \<and> kept_slots e e' \<and>
    (\<exists>w'. evaluated (Some b) now e (en_watch e ! idx) w' \<and> en_watch e' = (en_watch e)[idx := w'] \<and>
      (wa_tier w' = wa_tier (en_watch e ! idx) \<longrightarrow> en_alerts e' = en_alerts e \<and> en_paper e' = en_paper e \<and> en_tier_counts e' = en_tier_counts e)))"
proof -
  let ?w = "en_watch e ! idx"
  let ?h = "bv_hot b (wa_sym ?w)"
  have lt: "idx < length (en_watch e)" using slot_lt [OF engine_invD(1) [OF inv] idx] watch_okD(1) [OF engine_invD(1) [OF inv]] by simp
  have act: "wa_active ?w" using watch_okD(7) [OF engine_invD(1) [OF inv] slot_lt [OF engine_invD(1) [OF inv] idx]] idx by simp
  show ?thesis
  proof (cases "last_px ?h \<le> 0")
    case True
    then show ?thesis using inv lt
      by (auto simp: eval_story_def Let_def evaluated_def kept_slots_def intro: exI [of _ ?w])
  next
    case px: False
    obtain dn rs where loop: "horizons_loop now (story_age now ?w) ?h (move_of ?h (track_move ?h ?w)) (enumerate_h (ec_outcome_horizons_s (en_cfg e))) (track_move ?h ?w) e =
        ((track_move ?h ?w)\<lparr>wa_horizons_done := dn\<rparr>, fold journal_push rs e)" using horizons_loop_shape by blast
    define w1 where "w1 = (track_move ?h ?w)\<lparr>wa_horizons_done := dn\<rparr>"
    define e1 where "e1 = put_watch idx w1 (fold journal_push rs e)"
    have w1: "priced ?h ?w w1" "wa_tier w1 = wa_tier ?w" using track_move_priced by (simp_all add: w1_def)
    have put: "engine_inv (put_watch idx w (fold journal_push rs e))" if "wa_active w" "wa_sym w = wa_sym ?w" for w
      using put_watch_inv [OF fold_journal_push_inv [OF inv]] idx that by simp
    have e1: "engine_inv e1" using put w1 act by (simp add: e1_def priced_def)
    have env1: "same_setup e e1" by (simp add: e1_def same_setup_def)
    let ?t = "if is_high e1 ?h w1 then TierHigh else TierAlert"
    show ?thesis
    proof (cases "tier_num (wa_tier w1) \<ge> tier_num TierHigh \<or> \<not> confirmed e1 ?h now w1 \<or> \<not> tier_num ?t > tier_num (wa_tier w1)")
      case True
      then have "eval_story b wall now idx e = Some e1"
        using px by (auto simp: eval_story_def Let_def loop w1_def [symmetric] e1_def [symmetric] simp del: tier_num.simps)
      then show ?thesis
        using e1 env1 px w1 by (auto simp: kept_slots_def e1_def evaluated_def Let_def intro!: exI [of _ w1])
    next
      case False
      define w2 where "w2 = w1\<lparr>wa_tier := ?t\<rparr>"
      have put2: "put_watch idx w2 e1 = put_watch idx w2 (fold journal_push rs e)" by (simp add: e1_def)
      have e2: "engine_inv (put_watch idx w2 e1)" unfolding put2 using put w1 act by (simp add: w2_def priced_def)
      have story: "eval_story b wall now idx e = do {
          (e, cool) \<leftarrow> cooled_down (wa_sym w2) ?t now (put_watch idx w2 e1);
          Some (if cool then emit (Some b) wall w2 ?t now [] e else e) }"
        using px False by (auto simp: eval_story_def Let_def loop w1_def [symmetric] e1_def [symmetric] w2_def [symmetric] simp del: tier_num.simps)
      have "raised e ?h now ?w w2" "priced ?h ?w w2"
        using False w1 env_cong [OF env1] by (auto simp: raised_def w2_def confirmed_tier priced_def simp del: tier_num.simps)
      then have ev: "evaluated (Some b) now e ?w w2" and up: "wa_tier w2 \<noteq> wa_tier ?w"
        using px by (auto simp: evaluated_def Let_def raised_def simp del: tier_num.simps)
      show ?thesis
        unfolding story yields_simps
      proof (rule yields_mono [OF cooled_down_inv [OF e2]], goal_cases)
        case (1 x)
        then obtain m cool where x: "x = ((put_watch idx w2 e1)\<lparr>en_last_tier_ns := m\<rparr>, cool)" "engine_inv (fst x)" by auto
        have env2: "same_setup e (fst x)" "kept_slots e (fst x)" "en_watch (fst x) = (en_watch e)[idx := w2]"
          by (simp_all add: x(1) same_setup_def kept_slots_def e1_def)
        show ?case using x ev up env2 by (auto simp: same_setup_def kept_slots_def intro!: exI [of _ w2])
      qed
    qed
  qed
qed

definition expired :: "u64 \<Rightarrow> engine \<Rightarrow> watch \<Rightarrow> bool" where
  "expired now e w \<longleftrightarrow> story_age now w > secs (ec_watch_window_s (en_cfg e))"

definition slot_sym :: "engine \<Rightarrow> nat \<Rightarrow> u32" where
  "slot_sym e i = wa_sym (en_watch e ! i)"

lemma slot_sym_inj: "watch_ok e \<Longrightarrow> i \<in> set (en_slots e) \<Longrightarrow> j \<in> set (en_slots e) \<Longrightarrow> slot_sym e i = slot_sym e j \<Longrightarrow> i = j"
proof -
  assume ok: "watch_ok e" and ij: "i \<in> set (en_slots e)" "j \<in> set (en_slots e)" "slot_sym e i = slot_sym e j"
  have "fm_map (en_by_sym e) (ucast (slot_sym e i)) = Some i" "fm_map (en_by_sym e) (ucast (slot_sym e i)) = Some j"
    using watch_okD(8) [OF ok] ij by (auto simp: slot_sym_def)
  then show "i = j" by simp
qed

definition quiet :: "engine \<Rightarrow> engine \<Rightarrow> bool" where
  \<comment> \<open>no signal went out\<close>
  "quiet e e' \<longleftrightarrow> en_alerts e' = en_alerts e \<and> en_tier_counts e' = en_tier_counts e"

definition eval_result :: "board_view option \<Rightarrow> u64 \<Rightarrow> engine \<Rightarrow> watch \<Rightarrow> watch option \<Rightarrow> bool" where
  \<comment> \<open>what evaluation makes of a story\<close>
  "eval_result bd now e w r \<longleftrightarrow> (if expired now e w then r = None else (\<exists>w'. r = Some w' \<and> evaluated bd now e w w'))"

lemma eval_result_cong: "same_setup e e' \<Longrightarrow> eval_result bd now e' = eval_result bd now e"
  using evaluated_cong [of e e' bd now] by (intro ext) (simp add: eval_result_def expired_def same_setup_def)

lemma evaluated_refl: "wa_sym w' = wa_sym w" if "evaluated bd now e w w'"
  using that by (auto simp: evaluated_def priced_def Let_def split: option.splits if_splits)

lemma eval_at_ok:
  assumes inv: "engine_inv e" and k: "k < length (en_slots e)"
  defines "w \<equiv> en_watch e ! (en_slots e ! k)"
  shows "yields (if story_age now w > secs (ec_watch_window_s (en_cfg e)) then deactivate_watch k e
      else case bd of None \<Rightarrow> Some e | Some b \<Rightarrow> eval_story b wall now (en_slots e ! k) e)
    (\<lambda>e'. engine_inv e' \<and> same_setup e e' \<and> k \<le> length (en_slots e') \<and> take k (en_slots e') = take k (en_slots e) \<and>
      (\<forall>i. slot_sym e' i = slot_sym e i) \<and>
      (\<exists>r. eval_result bd now e w r \<and> stories e' = (stories e)(wa_sym w := r) \<and> (map_option wa_tier r \<in> {None, Some (wa_tier w)} \<longrightarrow> quiet e e')))"
proof -
  have idx: "en_slots e ! k \<in> set (en_slots e)" using k by simp
  have ok: "watch_ok e" by (rule engine_invD(1) [OF inv])
  have lt: "en_slots e ! k < length (en_watch e)" using slot_lt [OF ok idx] watch_okD(1) [OF ok] by simp
  have self: "(stories e)(wa_sym w \<mapsto> w) = stories e" using stories_slot [OF ok idx] by (auto simp: w_def)
  show ?thesis
  proof (cases "story_age now w > secs (ec_watch_window_s (en_cfg e))")
    case True
    have "yields (deactivate_watch k e) (\<lambda>e'. engine_inv e' \<and> same_setup e e' \<and> k \<le> length (en_slots e') \<and> take k (en_slots e') = take k (en_slots e) \<and>
      (\<forall>i. slot_sym e' i = slot_sym e i) \<and> stories e' = (stories e)(wa_sym w := None) \<and> quiet e e')"
    proof (rule yields_mono [OF deactivate_watch_ok [OF ok k]], goal_cases)
      case (1 e')
      then have e': "watch_ok e'" "stories e' = (stories e)(wa_sym w := None)" "only_watch e e'"
          "en_slots e' = butlast ((en_slots e)[k := last (en_slots e)])"
          "en_watch e' = (en_watch e)[en_slots e ! k := w\<lparr>wa_active := False\<rparr>]" by (simp_all add: w_def)
      have "unat s < length (en_symbols e)" if "stories e' s = Some w'" for s w'
        using that inv e'(2) by (auto simp: engine_inv_def static_ok_def split: if_splits)
      then have "engine_inv e'" "same_setup e e'" using only_watch_inv [OF inv e'(3,1)] by blast+
      moreover have "take k (en_slots e') = take k (en_slots e)" using k by (simp add: e'(4) take_butlast)
      moreover have "slot_sym e' i = slot_sym e i" for i
        using lt by (cases "i = en_slots e ! k") (simp_all add: slot_sym_def e'(5) w_def)
      ultimately show ?case using e'(2) k only_watchD [OF e'(3)] by (simp add: e'(4) quiet_def)
    qed
    then show ?thesis using True yields_mono by (fastforce simp: eval_result_def expired_def)
  next
    case fresh: False
    then have keep: "eval_result bd now e w (Some w')" if "evaluated bd now e w w'" for w'
      using that by (simp add: eval_result_def expired_def)
    show ?thesis
    proof (cases bd)
      case None
      then have "eval_result bd now e w (Some w)" using keep by (simp add: evaluated_def)
      then show ?thesis using fresh None inv k self by (auto simp: quiet_def)
    next
      case (Some b)
      have "yields (eval_story b wall now (en_slots e ! k) e) (\<lambda>e'. engine_inv e' \<and> same_setup e e' \<and> en_slots e' = en_slots e \<and>
        (\<forall>i. slot_sym e' i = slot_sym e i) \<and> (\<exists>w'. evaluated bd now e w w' \<and> stories e' = (stories e)(wa_sym w \<mapsto> w') \<and> (wa_tier w' = wa_tier w \<longrightarrow> quiet e e')))"
      proof (rule yields_mono [OF eval_story_ok [OF inv idx]], goal_cases)
        case (1 e')
        then obtain w' where e': "engine_inv e'" "same_setup e e'" "kept_slots e e'" and w': "evaluated bd now e w w'"
            "en_watch e' = (en_watch e)[en_slots e ! k := w']" "wa_tier w' = wa_tier w \<longrightarrow> quiet e e'"
          by (auto simp: w_def Some quiet_def)
        have act: "wa_active w'" "wa_sym w' = wa_sym w"
          using watch_okD(7) [OF engine_invD(1) [OF e'(1)] slot_lt [OF ok idx]] idx e'(3) lt evaluated_refl [OF w'(1)]
          by (simp_all add: w'(2) kept_slots_def)
        have "stories e' = stories (put_watch (en_slots e ! k) w' e)"
          using e'(3) w'(2) by (intro stories_cong) (simp_all add: kept_slots_def)
        then have "stories e' = (stories e)(wa_sym w \<mapsto> w')"
          using put_watch_ok(2) [OF ok idx act(1)] act(2) by (simp add: w_def)
        moreover have "slot_sym e' i = slot_sym e i" for i
          using lt act(2) by (cases "i = en_slots e ! k") (simp_all add: slot_sym_def w'(2) w_def)
        ultimately show ?case using e' w' by (auto simp: kept_slots_def)
      qed
      then show ?thesis using fresh Some keep k
        by (simp, elim yields_mono) (auto simp del: fun_upd_apply)
    qed
  qed
qed

lemma eval_loop_ok:
  assumes "engine_inv e" and "k \<le> length (en_slots e)"
  defines "D \<equiv> slot_sym e ` set (take k (en_slots e))"
  shows "yields (eval_loop bd wall now k e) (\<lambda>e'. engine_inv e' \<and> same_setup e e' \<and>
    (\<forall>s w. stories e s = Some w \<longrightarrow> s \<in> D \<longrightarrow> eval_result bd now e w (stories e' s)) \<and> (\<forall>s. s \<notin> D \<longrightarrow> stories e' s = stories e s) \<and>
    ((\<forall>s w w'. stories e s = Some w \<longrightarrow> stories e' s = Some w' \<longrightarrow> wa_tier w' = wa_tier w) \<longrightarrow> quiet e e'))"
  using assms(1,2) unfolding D_def
proof (induction k arbitrary: e)
  case 0
  then show ?case by (simp add: quiet_def)
next
  case (Suc k)
  let ?idx = "en_slots e ! k"
  let ?w = "en_watch e ! ?idx"
  have k: "k < length (en_slots e)" using Suc.prems(2) by simp
  have ok: "watch_ok e" by (rule engine_invD(1) [OF Suc.prems(1)])
  have idx: "?idx \<in> set (en_slots e)" using k by simp
  have tk: "take (Suc k) (en_slots e) = take k (en_slots e) @ [?idx]" using k by (simp add: take_Suc_conv_app_nth)
  have sw: "stories e (wa_sym ?w) = Some ?w" by (rule stories_slot [OF ok idx])
  have new: "wa_sym ?w \<notin> slot_sym e ` set (take k (en_slots e))"
  proof
    assume "wa_sym ?w \<in> slot_sym e ` set (take k (en_slots e))"
    then obtain j where j: "j \<in> set (take k (en_slots e))" "slot_sym e ?idx = slot_sym e j" by (auto simp: slot_sym_def)
    then have "?idx \<in> set (take k (en_slots e))" using slot_sym_inj [OF ok idx] by (metis in_set_takeD)
    then show False using watch_okD(2) [OF ok] tk by (metis distinct_take not_distinct_conv_prefix)
  qed
  show ?case
    unfolding eval_loop.simps yields_simps
  proof (rule yields_mono [OF eval_at_ok [OF Suc.prems(1) k]], goal_cases)
    case (1 e1)
    then obtain r where e1: "engine_inv e1" "same_setup e e1" "k \<le> length (en_slots e1)" "take k (en_slots e1) = take k (en_slots e)"
        "\<forall>i. slot_sym e1 i = slot_sym e i" and r: "eval_result bd now e ?w r" "stories e1 = (stories e)(wa_sym ?w := r)"
        "map_option wa_tier r \<in> {None, Some (wa_tier ?w)} \<longrightarrow> quiet e e1" by auto
    let ?D = "slot_sym e ` set (take k (en_slots e))"
    show ?case
    proof (rule yields_mono [OF Suc.IH [OF e1(1,3)]], goal_cases)
      case (1 e2)
      then have e2: "engine_inv e2" "same_setup e e2" "\<And>s w. stories e1 s = Some w \<Longrightarrow> s \<in> ?D \<Longrightarrow> eval_result bd now e w (stories e2 s)"
          "\<And>s. s \<notin> ?D \<Longrightarrow> stories e2 s = stories e1 s"
          "(\<forall>s w w'. stories e1 s = Some w \<longrightarrow> stories e2 s = Some w' \<longrightarrow> wa_tier w' = wa_tier w) \<longrightarrow> quiet e1 e2"
        using same_setup_trans [OF e1(2)] by (simp_all add: e1(4,5) eval_result_cong [OF e1(2)])
      have at: "stories e2 (wa_sym ?w) = r" using e2(4) [OF new] r(2) by simp
      have D: "slot_sym e ` set (take (Suc k) (en_slots e)) = insert (wa_sym ?w) ?D" by (simp add: tk slot_sym_def)
      have "eval_result bd now e w (stories e2 s)" if "stories e s = Some w" "s \<in> insert (wa_sym ?w) ?D" for s w
      proof (cases "s = wa_sym ?w")
        case True
        then show ?thesis using that(1) sw r(1) at by simp
      next
        case False
        then show ?thesis using that e2(3) [of s w] r(2) by simp
      qed
      moreover have "stories e2 s = stories e s" if "s \<notin> insert (wa_sym ?w) ?D" for s using that e2(4) [of s] r(2) by simp
      moreover have "quiet e e2" if same: "\<forall>s w w'. stories e s = Some w \<longrightarrow> stories e2 s = Some w' \<longrightarrow> wa_tier w' = wa_tier w"
      proof -
        have "map_option wa_tier r \<in> {None, Some (wa_tier ?w)}" using same sw at by (cases r) auto
        moreover have "wa_tier w' = wa_tier w" if "stories e1 s = Some w" "stories e2 s = Some w'" for s w w'
          using that same r(2) at by (cases "s = wa_sym ?w") auto
        ultimately show ?thesis using r(3) e2(5) by (auto simp: quiet_def)
      qed
      ultimately show ?case using e2(1,2) unfolding D by blast
    qed
  qed
qed

lemma evaluate_ok:
  assumes inv: "engine_inv e"
  shows "yields (evaluate bd wall now e) (\<lambda>e'. engine_inv e' \<and> same_setup e e' \<and>
    (\<forall>s w. stories e s = Some w \<longrightarrow> eval_result bd now e w (stories e' s)) \<and> (\<forall>s. stories e s = None \<longrightarrow> stories e' s = None) \<and>
    ((\<forall>s w w'. stories e s = Some w \<longrightarrow> stories e' s = Some w' \<longrightarrow> wa_tier w' = wa_tier w) \<longrightarrow> quiet e e'))"
proof -
  have "(\<exists>w. stories e s = Some w) \<longleftrightarrow> s \<in> slot_sym e ` set (en_slots e)" for s
    unfolding stories_iff [OF engine_invD(1) [OF inv]] slot_sym_def by auto
  then have D: "stories e s = None \<longleftrightarrow> s \<notin> slot_sym e ` set (en_slots e)" for s by (metis not_None_eq)
  show ?thesis
    unfolding evaluate_def yields_simps
  proof (rule yields_mono [OF eval_loop_ok [OF inv order.refl]], goal_cases)
    case (1 e')
    have st: "stories (step_paper bd now e') = stories e'" by (rule stories_cong) simp_all
    have pap: "same_setup e' (step_paper bd now e')" "quiet e e' \<Longrightarrow> quiet e (step_paper bd now e')" by (simp_all add: same_setup_def quiet_def)
    have e': "engine_inv e'" "same_setup e e'" "\<And>s w. stories e s = Some w \<Longrightarrow> s \<in> slot_sym e ` set (en_slots e) \<Longrightarrow> eval_result bd now e w (stories e' s)"
        "\<And>s. s \<notin> slot_sym e ` set (en_slots e) \<Longrightarrow> stories e' s = stories e s"
        "(\<forall>s w w'. stories e s = Some w \<longrightarrow> stories e' s = Some w' \<longrightarrow> wa_tier w' = wa_tier w) \<longrightarrow> quiet e e'"
      using 1 by simp_all
    have "eval_result bd now e w (stories e' s)" if "stories e s = Some w" for s w using e'(3) [OF that] that D [of s] by auto
    moreover have "stories e' s = None" if "stories e s = None" for s using e'(4) [of s] that D [of s] by simp
    ultimately show ?case
      unfolding st using step_paper_inv [OF e'(1)] same_setup_trans [OF e'(2) pap(1)] e'(5) pap(2) by blast
  qed
qed

subsection \<open>Halts and movers\<close>

definition steady :: "engine \<Rightarrow> engine \<Rightarrow> bool" where
  \<comment> \<open>the invariant holds after, and setup, filings and watch list are as before\<close>
  "steady e e' \<longleftrightarrow> engine_inv e' \<and> same_setup e e' \<and> en_filings e' = en_filings e \<and> stories e' = stories e"

lemma steadyI:
  assumes "engine_inv e" "outputs_ok e'" "tables_ok e'" "en_watch e' = en_watch e" "en_slots e' = en_slots e" "en_free e' = en_free e"
    "en_by_sym e' = en_by_sym e" "en_universe e' = en_universe e" "en_symbols e' = en_symbols e" "length (en_src_stats e') = length (en_src_stats e)"
    "en_cfg e' = en_cfg e" "en_scorer e' = en_scorer e" "en_filings e' = en_filings e"
  shows "steady e e'"
  using engine_inv_frame [OF assms(1-10)] assms stories_cong [of e' e] by (simp add: steady_def same_setup_def)

lemma steady_refl: "engine_inv e \<Longrightarrow> steady e e"
  by (simp add: steady_def)

lemma steady_trans: "steady e e1 \<Longrightarrow> steady e1 e2 \<Longrightarrow> steady e e2"
  by (auto simp: steady_def intro: same_setup_trans)

lemma inv_parts:
  assumes "engine_inv e"
  shows "outputs_ok e" "tables_ok e" "fm_inv (en_halt_seen e)" "fm_inv (en_mover_alerted e)" "fm_inv (en_last_news e)" "fm_inv (en_first_seen e)"
  using assms by (simp_all add: engine_inv_def tables_ok_def)

lemma outputs_tables [simp]:
  "outputs_ok (e\<lparr>en_halt_seen := m1\<rparr>) = outputs_ok e" "outputs_ok (e\<lparr>en_mover_alerted := m2\<rparr>) = outputs_ok e"
  "outputs_ok (e\<lparr>en_last_news := m3\<rparr>) = outputs_ok e" "outputs_ok (e\<lparr>en_first_seen := m4\<rparr>) = outputs_ok e"
  "outputs_ok (e\<lparr>en_handle := hh\<rparr>) = outputs_ok e" "outputs_ok (e\<lparr>en_filings := ff\<rparr>) = outputs_ok e" "outputs_ok (upd_src i f e) = outputs_ok e"
  by (simp_all add: outputs_ok_def)

lemma steady_emit: "engine_inv e \<Longrightarrow> steady e (emit bd wall w t now rsn e)"
  by (rule steadyI) (simp_all add: engine_inv_def tables_ok_def)

lemma handle_halt_ok:
  assumes inv: "engine_inv e"
  shows "yields (handle_halt bd wall s stopped rsn now e) (steady e)"
proof -
  have halts: "steady e (e\<lparr>en_halt_seen := m\<rparr>)" if "fm_inv m" for m
    by (rule steadyI [OF inv]) (use inv that in \<open>simp_all add: engine_inv_def tables_ok_def\<close>)
  have rest: "yields (find_watch s e1) (\<lambda>w. steady e (if c w then emit bd wall (tmp w) TierHalt now rsn e1 else e1))"
    if "steady e e1" for e1 c tmp
  proof -
    have e1: "engine_inv e1" using that by (simp add: steady_def)
    show ?thesis
      using find_watch_ok [OF engine_invD(1) [OF e1], of s] that steady_trans [OF that steady_emit [OF e1]] by (simp add: yields_def)
  qed
  show ?thesis
  proof (cases "unat s \<ge> length (en_symbols e)")
    case True
    then show ?thesis using inv by (simp add: handle_halt_def steady_refl)
  next
    case False
    show ?thesis
      unfolding handle_halt_def Let_def if_not_P [OF False] yields_simps
    proof (rule yields_mono [OF emplace_inv [OF inv_parts(3) [OF inv]]], goal_cases)
      case (1 x)
      obtain m i ins where x: "x = (m, i, ins)" by (cases x)
      then have m: "fm_inv m" "fm_inv (set_value m i (a, c))" for a c using 1 by simp_all
      show ?case using halts [OF m(1)] rest [OF halts [OF m(2)]] by (simp add: x)
    qed
  qed
qed

lemma on_market_event_ok: "engine_inv e \<Longrightarrow> yields (on_market_event bd wall ev now e) (steady e)"
  by (cases "me_type ev") (simp_all add: on_market_event_def handle_halt_ok steady_refl)

lemma scan_symbol_ok:
  assumes inv: "engine_inv e"
  shows "yields (scan_symbol b wall now day e n) (steady e)"
proof -
  have movers: "steady e (e\<lparr>en_mover_alerted := m\<rparr>)" if "fm_inv m" for m
    by (rule steadyI [OF inv]) (use inv that in \<open>simp_all add: engine_inv_def tables_ok_def\<close>)
  have em: "steady e (emit bd wall w t now rsn (e\<lparr>en_mover_alerted := m\<rparr>))" if "fm_inv m" for m bd w t rsn
    using movers [OF that] steady_emit steady_trans by (metis steady_def)
  have "yields (try_emplace 0 (en_mover_alerted e) k) (\<lambda>(m, i, ins). yields (if \<not> ins \<and> value_at m i = day then Some (e\<lparr>en_mover_alerted := m\<rparr>)
      else Some (emit (Some b) wall w TierMover now [] (e\<lparr>en_mover_alerted := set_value m i day\<rparr>))) (steady e))" for k w
    by (rule yields_mono [OF emplace_inv [OF inv_parts(4) [OF inv]]]) (auto intro: movers em)
  then show ?thesis
    using find_watch_ok [OF engine_invD(1) [OF inv]] steady_refl [OF inv]
    by (simp add: scan_symbol_def Let_def case_prod_unfold)
qed

lemma fold_steady:
  assumes "engine_inv e" "\<And>e x. engine_inv e \<Longrightarrow> x \<in> set xs \<Longrightarrow> yields (f e x) (steady e)"
  shows "yields (fold_opt f xs e) (steady e)"
proof (rule yields_fold)
  show "steady e e" by (rule steady_refl [OF assms(1)])
  fix e1 x assume e1: "steady e e1" and x: "x \<in> set xs"
  show "yields (f e1 x) (steady e)"
    using assms(2) [OF _ x, of e1] e1 by (auto simp: steady_def [of e e1] intro: yields_mono steady_trans [OF e1])
qed

lemma steady_today: "engine_inv e \<Longrightarrow> steady e (fst (today_days now e))"
  by (rule steadyI) (simp_all add: engine_inv_def tables_ok_def outputs_ok_def)

lemma scan_movers_ok:
  assumes inv: "engine_inv e"
  shows "yields (scan_movers bd wall now e) (steady e)"
proof (cases bd)
  case None
  then show ?thesis using inv by (simp add: scan_movers_def steady_refl)
next
  case (Some b)
  obtain e1 day where t: "today_days now e = (e1, day)" by fastforce
  have e1: "steady e e1" using steady_today [OF inv, of now] t by simp
  then have "yields (fold_opt (scan_symbol b wall now d) xs e1) (steady e1)" for d xs
    by (intro fold_steady scan_symbol_ok) (auto simp: steady_def)
  then show ?thesis
    using Some t steady_refl [OF inv] by (auto simp: scan_movers_def intro: yields_mono steady_trans [OF e1])
qed

end
