(* ===== verification/Engine_News.thy ===== *)
theory Engine_News
  imports Engine_Inv
begin

unbundle bit_operations_syntax

text \<open>
  The engine and the news: \<open>on_news_ok\<close> says that a ticker gets on the watch list only through the gates (\<open>passes\<close>),
  \<open>on_news_opens\<close> that a story that passes them gets there, and \<open>engine_run_ok\<close> that every run of a new engine returns
  and keeps the invariant.
\<close>


subsection \<open>News\<close>

lemma steady_upd_src: "engine_inv e \<Longrightarrow> steady e (upd_src i f e)"
  by (rule steadyI) (simp_all add: engine_inv_def tables_ok_def)

lemma steady_journal: "engine_inv e \<Longrightarrow> steady e (journal_push r e)"
  by (rule steadyI) (simp_all add: engine_inv_def tables_ok_def)

lemma note_headline_ok:
  assumes inv: "engine_inv e"
  shows "yields (note_headline ev e) (\<lambda>(e', seen). steady e e')"
proof (cases "ne_title_key ev \<noteq> 0 \<and> ne_kind ev \<noteq> EvHalt")
  case True
  have seen: "steady e (e\<lparr>en_first_seen := m\<rparr>)" if "fm_inv m" for m
    by (rule steadyI [OF inv]) (use inv that in \<open>simp_all add: engine_inv_def tables_ok_def\<close>)
  have upd: "steady e (upd_src i f (e\<lparr>en_first_seen := m\<rparr>))" if "fm_inv m" for m i f
    using seen [OF that] steady_upd_src steady_trans by (metis steady_def)
  show ?thesis
    unfolding note_headline_def Let_def if_P [OF True] yields_simps
    by (rule yields_mono [OF emplace_inv [OF inv_parts(6) [OF inv]]]) (auto intro: seen upd split: prod.splits)
next
  case False
  show ?thesis unfolding note_headline_def Let_def if_not_P [OF False] using steady_refl [OF inv] by simp
qed

definition rating :: "board_view option \<Rightarrow> engine \<Rightarrow> int \<Rightarrow> score_result \<Rightarrow> u32 \<Rightarrow> score_result" where
  \<comment> \<open>the score of a story for one ticker, after materiality and dilution penalties\<close>
  "rating bd e today r s = penalised r (snd (in_universe e s (price_or_close (hot_of bd s) (info_of e s)))) (ticker_flags e s today)"

definition passes :: "board_view option \<Rightarrow> engine \<Rightarrow> int \<Rightarrow> score_result \<Rightarrow> u32 \<Rightarrow> bool" where
  \<comment> \<open>the gates a story passes before its ticker is watched\<close>
  "passes bd e today r s \<longleftrightarrow> unat s < length (en_symbols e) \<and> fst (in_universe e s (price_or_close (hot_of bd s) (info_of e s))) \<and>
     \<not> hard_block (rating bd e today r s) (ticker_flags e s today) \<and> ec_watch_score (en_cfg e) \<le> sr_score (rating bd e today r s)"

definition admitted :: "board_view option \<Rightarrow> engine \<Rightarrow> int \<Rightarrow> score_result \<Rightarrow> u32 \<Rightarrow> watch \<Rightarrow> bool" where
  \<comment> \<open>the story passed the gates and carries its rating\<close>
  "admitted bd e today r s w \<longleftrightarrow> passes bd e today r s \<and> wa_score w = sr_score (rating bd e today r s) \<and>
     wa_dilution_flags w = ticker_flags e s today \<and> wa_score_flags w = sr_flags (rating bd e today r s)"

definition opened :: "news_event \<Rightarrow> u64 \<Rightarrow> market_hot \<Rightarrow> symbol_info \<Rightarrow> u32 \<Rightarrow> score_result \<Rightarrow> u32 \<Rightarrow> double \<Rightarrow> watch" where
  \<comment> \<open>the entry a new story makes\<close>
  "opened ev now h info s rs dil mcap = (tell_story ev rs dil mcap (fresh_watch ev now h info (new_watch s)))\<lparr>wa_tier := TierWatch\<rparr>"

definition told :: "board_view option \<Rightarrow> engine \<Rightarrow> int \<Rightarrow> score_result \<Rightarrow> u32 set \<Rightarrow> engine \<Rightarrow> bool" where
  \<comment> \<open>after some tickers of a story: the invariant, and every story of the list is an old one or admitted\<close>
  "told bd e today r ts e' \<longleftrightarrow> engine_inv e' \<and> same_setup e e' \<and> en_filings e' = en_filings e \<and>
     (\<forall>s w. stories e' s = Some w \<longrightarrow> stories e s = Some w \<or> s \<in> ts \<and> admitted bd e today r s w)"

lemma told_steady: "told bd e today r ts e1 \<Longrightarrow> steady e1 e2 \<Longrightarrow> told bd e today r ts e2"
  by (auto simp: told_def steady_def intro: same_setup_trans)

lemma told_env:
  assumes "told bd e today r ts e1"
  shows "info_of e1 = info_of e" "in_universe e1 = in_universe e" "en_symbols e1 = en_symbols e" "en_cfg e1 = en_cfg e" "ticker_flags e1 = ticker_flags e"
  using assms env_cong [of e e1] by (auto simp: told_def same_setup_def ticker_flags_def fun_eq_iff)

lemma tell_fields [simp]:
  "wa_active (tell_story ev rs dil mcap w) = wa_active w" "wa_sym (tell_story ev rs dil mcap w) = wa_sym w"
  "wa_active (fresh_watch ev now h info w) = wa_active w" "wa_sym (fresh_watch ev now h info w) = wa_sym w"
  "wa_score (tell_story ev rs dil mcap w) = sr_score rs" "wa_dilution_flags (tell_story ev rs dil mcap w) = dil"
  "wa_score_flags (tell_story ev rs dil mcap w) = sr_flags rs"
  by (simp_all add: tell_story_def fresh_watch_def)

lemma active_slot: "watch_ok e \<Longrightarrow> i \<in> set (en_slots e) \<Longrightarrow> wa_active (en_watch e ! i)"
  using watch_okD(7) slot_lt by blast

definition on_list :: "engine \<Rightarrow> u32 \<Rightarrow> engine \<Rightarrow> nat \<Rightarrow> bool" where
  \<comment> \<open>the slot of the ticker, with no other story changed or added\<close>
  "on_list e s e' idx \<longleftrightarrow> engine_inv e' \<and> same_setup e e' \<and> en_filings e' = en_filings e \<and> idx \<in> set (en_slots e') \<and> wa_sym (en_watch e' ! idx) = s \<and>
     (\<forall>s' w. s' \<noteq> s \<longrightarrow> stories e' s' = Some w \<longrightarrow> stories e s' = Some w)"

lemma on_list_put:
  assumes "on_list e s e1 idx" "wa_active w" "wa_sym w = s"
  shows "on_list e s (put_watch idx w e1) idx" and "stories (put_watch idx w e1) s = Some w"
proof -
  have ok: "watch_ok e1" and idx: "idx \<in> set (en_slots e1)" "wa_sym w = wa_sym (en_watch e1 ! idx)"
    using assms engine_invD(1) by (auto simp: on_list_def)
  have lt: "idx < length (en_watch e1)" using slot_lt [OF ok idx(1)] watch_okD(1) [OF ok] by simp
  note p = put_watch_ok [OF ok idx(1) assms(2) idx(2)]
  show "stories (put_watch idx w e1) s = Some w" using p(2) assms(3) by simp
  have "engine_inv (put_watch idx w e1)" using put_watch_inv [OF _ idx(1) assms(2) idx(2)] assms(1) by (simp add: on_list_def)
  then show "on_list e s (put_watch idx w e1) idx"
    using assms p(2) lt by (auto simp: on_list_def same_setup_def)
qed

lemma activate_on_list:
  assumes inv: "engine_inv e" and sym: "unat s < length (en_symbols e)" and new: "stories e s = None"
  shows "yields (activate_watch s e) (\<lambda>(e', idx). on_list e s e' idx \<and> en_watch e' ! idx = new_watch s)"
proof (rule yields_mono [OF activate_watch_ok [OF engine_invD(1) [OF inv] new]], goal_cases)
  case (1 x)
  obtain e' idx where x: "x = (e', idx)" by fastforce
  from 1 obtain S where e': "watch_ok e'" "only_watch e e'" "idx \<in> set (en_slots e')" "en_watch e' ! idx = new_watch s"
      "evicts e S" "stories e' = S(s \<mapsto> new_watch s)" by (auto simp: x)
  have S: "stories e s' = Some w" if "S s' = Some w" for s' w using that e'(5) by (auto simp: evicts_def split: if_splits)
  have "unat s' < length (en_symbols e)" if "stories e' s' = Some w" for s' w
    using that e'(6) S inv sym by (auto simp: engine_inv_def static_ok_def split: if_splits)
  then have "engine_inv e'" "same_setup e e'" using only_watch_inv [OF inv e'(2,1)] by blast+
  then show ?case using x e' S only_watchD(3) [OF e'(2)] by (auto simp: on_list_def)
qed

lemma open_slot_ok:
  assumes inv: "engine_inv e" and sym: "unat s < length (en_symbols e)"
  shows "yields (case fm_map (en_by_sym e) (ucast s) of
       Some idx \<Rightarrow> Some (e, idx)
     | None \<Rightarrow> do { (e, idx) \<leftarrow> activate_watch s e;
                    Some (put_watch idx (fresh_watch ev now h (info_of e s) (en_watch e ! idx)) e, idx) })
    (\<lambda>(e', idx). on_list e s e' idx \<and> (stories e s = None \<longrightarrow> en_watch e' ! idx = fresh_watch ev now h (info_of e s) (new_watch s)))"
proof -
  have ok: "watch_ok e" by (rule engine_invD(1) [OF inv])
  show ?thesis
  proof (cases "fm_map (en_by_sym e) (ucast s)")
    case (Some idx)
    have "idx \<in> set (en_slots e) \<and> wa_sym (en_watch e ! idx) = s" using Some watch_okD(8) [OF ok, of s idx] by simp
    moreover have "stories e s \<noteq> None" using Some by (simp add: stories_def)
    ultimately show ?thesis unfolding Some using inv by (auto simp: on_list_def)
  next
    case None
    then have new: "stories e s = None" by (simp add: stories_def)
    have "yields (activate_watch s e) (\<lambda>(e', idx). on_list e s e' idx \<and> en_watch e' ! idx = new_watch s)"
      by (rule activate_on_list [OF inv sym new])
    moreover have "on_list e s (put_watch idx (fresh_watch ev now h (info_of e1 s) (en_watch e1 ! idx)) e1) idx \<and>
        en_watch (put_watch idx (fresh_watch ev now h (info_of e1 s) (en_watch e1 ! idx)) e1) ! idx = fresh_watch ev now h (info_of e s) (new_watch s)"
      if "on_list e s e1 idx" "en_watch e1 ! idx = new_watch s" for e1 idx
    proof -
      have ok1: "watch_ok e1" and idx: "idx \<in> set (en_slots e1)" and i: "info_of e1 = info_of e"
        using that env_cong(1) by (simp_all add: on_list_def engine_inv_def)
      have "idx < length (en_watch e1)" using slot_lt [OF ok1 idx] watch_okD(1) [OF ok1] by simp
      then show ?thesis using on_list_put(1) [OF that(1)] that(2) i by simp
    qed
    ultimately show ?thesis
      unfolding None option.simps yields_simps by (auto elim!: yields_mono)
  qed
qed

lemma on_list_keep:
  assumes "on_list e s e1 idx" "steady e1 e2" "en_slots e2 = en_slots e1" "en_watch e2 = en_watch e1"
  shows "on_list e s e2 idx"
  using assms by (auto simp: on_list_def steady_def intro: same_setup_trans)

definition retold :: "u32 \<Rightarrow> score_result \<Rightarrow> u32 \<Rightarrow> engine \<Rightarrow> engine \<Rightarrow> bool" where
  \<comment> \<open>only the story of the ticker is new, and it carries the score and the flags\<close>
  "retold s rs dil e e' \<longleftrightarrow> engine_inv e' \<and> same_setup e e' \<and> en_filings e' = en_filings e \<and>
     (\<forall>s' w. stories e' s' = Some w \<longrightarrow> stories e s' = Some w \<or>
        s' = s \<and> wa_score w = sr_score rs \<and> wa_dilution_flags w = dil \<and> wa_score_flags w = sr_flags rs)"

lemma retold_on_list:
  assumes "on_list e s e1 idx" "stories e1 s = Some w" "wa_score w = sr_score rs" "wa_dilution_flags w = dil" "wa_score_flags w = sr_flags rs"
  shows "retold s rs dil e e1"
proof -
  have "stories e s' = Some w' \<or> s' = s \<and> w' = w" if "stories e1 s' = Some w'" for s' w'
    using assms(1,2) that by (cases "s' = s") (simp_all add: on_list_def)
  then show ?thesis using assms by (auto simp: retold_def on_list_def)
qed

lemma retold_steady: "retold s rs dil e e1 \<Longrightarrow> steady e1 e2 \<Longrightarrow> retold s rs dil e e2"
  by (auto simp: retold_def steady_def intro: same_setup_trans)

lemma retold_refl: "engine_inv e \<Longrightarrow> retold s rs dil e e"
  by (simp add: retold_def)

lemma cooled_down_steady:
  assumes "engine_inv e"
  shows "yields (cooled_down s t now e) (\<lambda>(e', ok). steady e e')"
proof (rule yields_mono [OF cooled_down_inv [OF assms]], goal_cases)
  case (1 x)
  then obtain m ok where x: "x = (e\<lparr>en_last_tier_ns := m\<rparr>, ok)" and inv: "engine_inv (e\<lparr>en_last_tier_ns := m\<rparr>)" by auto
  have "stories (e\<lparr>en_last_tier_ns := m\<rparr>) = stories e" by (rule stories_cong) simp_all
  then show ?case using x inv by (simp add: steady_def same_setup_def)
qed

lemma tell_at_ok:
  assumes e1: "on_list e s e1 idx"
    and w_def: "w = tell_story ev rs dil mcap (en_watch e1 ! idx)" and e2_def: "e2 = upd_src i f (put_watch idx w e1)"
  shows "yields (if wa_tier w = TierNone then do {
       (e, cool) \<leftarrow> cooled_down s TierWatch now (put_watch idx (w\<lparr>wa_tier := TierWatch\<rparr>) e2);
       Some (if cool then emit bd wall (w\<lparr>wa_tier := TierWatch\<rparr>) TierWatch now [] e else e, True) }
     else Some (e2, True)) (\<lambda>(e', touched). retold s rs dil e e' \<and> touched \<and> (wa_tier w = TierNone \<longrightarrow> stories e' s = Some (w\<lparr>wa_tier := TierWatch\<rparr>)))"
proof -
  have w: "wa_active w" "wa_sym w = s" "wa_score w = sr_score rs" "wa_dilution_flags w = dil" "wa_score_flags w = sr_flags rs"
    using e1 active_slot [of e1 idx] by (simp_all add: w_def on_list_def engine_inv_def)
  have p: "on_list e s (put_watch idx w e1) idx" "stories (put_watch idx w e1) s = Some w" using on_list_put [OF e1 w(1,2)] by simp_all
  have st: "steady (put_watch idx w e1) e2" using p(1) steady_upd_src by (simp add: e2_def on_list_def)
  have e2: "on_list e s e2 idx" by (rule on_list_keep [OF p(1) st]) (simp_all add: e2_def)
  have r2: "retold s rs dil e e2" using p(2) st w by (intro retold_on_list [OF e2, of w]) (simp_all add: steady_def)
  let ?w = "w\<lparr>wa_tier := TierWatch\<rparr>"
  have p3: "on_list e s (put_watch idx ?w e2) idx" "stories (put_watch idx ?w e2) s = Some ?w" using on_list_put [OF e2, of ?w] w by simp_all
  have r3: "retold s rs dil e (put_watch idx ?w e2)" using w by (intro retold_on_list [OF p3]) simp_all
  have inv3: "engine_inv (put_watch idx ?w e2)" using p3(1) by (simp add: on_list_def)
  have sent: "yields (cooled_down s TierWatch now (put_watch idx ?w e2))
      (\<lambda>(e', cool). steady (put_watch idx ?w e2) (if cool then emit bd wall ?w TierWatch now [] e' else e'))"
  proof (rule yields_mono [OF cooled_down_steady [OF inv3]], goal_cases)
    case (1 x)
    obtain e' cool where x: "x = (e', cool)" by fastforce
    have st: "steady (put_watch idx ?w e2) e'" using 1 by (simp add: x)
    then have "engine_inv e'" by (simp add: steady_def)
    then show ?case using st steady_trans [OF st steady_emit] by (simp add: x)
  qed
  have keeps: "retold s rs dil e e' \<and> stories e' s = Some ?w" if "steady (put_watch idx ?w e2) e'" for e'
    using retold_steady [OF r3 that] p3(2) that by (simp add: steady_def)
  have "yields (cooled_down s TierWatch now (put_watch idx ?w e2))
      (\<lambda>(e', cool). retold s rs dil e (if cool then emit bd wall ?w TierWatch now [] e' else e') \<and>
        stories (if cool then emit bd wall ?w TierWatch now [] e' else e') s = Some ?w)"
    by (rule yields_mono [OF sent]) (use keeps in \<open>simp add: case_prod_unfold\<close>)
  then show ?thesis using r2 by (simp add: case_prod_unfold)
qed

lemma take_story_ok:
  assumes inv: "engine_inv e" and sym: "unat s < length (en_symbols e)"
  shows "yields (take_story bd wall ev now s rs dil mcap e) (\<lambda>(e', touched). retold s rs dil e e' \<and>
    (stories e s = None \<longrightarrow> touched \<and> stories e' s = Some (opened ev now (hot_of bd s) (info_of e s) s rs dil mcap)))"
proof (cases "case fm_map (en_by_sym e) (ucast s) of Some idx \<Rightarrow> sr_score rs \<le> wa_score (en_watch e ! idx) | None \<Rightarrow> False")
  case True
  then have "stories e s \<noteq> None" by (simp add: stories_def split: option.splits)
  then show ?thesis using True find_watch_ok [OF engine_invD(1) [OF inv]] retold_refl [OF inv] by (simp add: take_story_def)
next
  case False
  show ?thesis
    unfolding take_story_def find_watch_ok [OF engine_invD(1) [OF inv]] bind.bind_lunit if_not_P [OF False] yields_simps
  proof (rule yields_mono [OF open_slot_ok [OF inv sym]], goal_cases)
    case (1 x)
    obtain e1 idx where x: "x = (e1, idx)" by fastforce
    have e1: "on_list e s e1 idx" and new: "stories e s = None \<Longrightarrow> en_watch e1 ! idx = fresh_watch ev now (hot_of bd s) (info_of e s) (new_watch s)"
      using 1 x by simp_all
    show ?case unfolding x prod.case Let_def
      by (rule yields_mono [OF tell_at_ok [OF e1 refl refl]])
        (auto simp: opened_def new tell_story_def fresh_watch_def)
  qed
qed

lemma told_retold:
  assumes "told bd e today r ts e1" "retold s rs dil e1 e2" "s \<in> ts"
    and "\<And>w. wa_score w = sr_score rs \<Longrightarrow> wa_dilution_flags w = dil \<Longrightarrow> wa_score_flags w = sr_flags rs \<Longrightarrow> admitted bd e today r s w"
  shows "told bd e today r ts e2"
proof -
  have "stories e s' = Some w \<or> s' \<in> ts \<and> admitted bd e today r s' w" if "stories e2 s' = Some w" for s' w
  proof -
    have "stories e1 s' = Some w \<or> s' = s \<and> admitted bd e today r s w" using assms(2,4) that by (auto simp: retold_def)
    then show ?thesis using assms(1,3) by (auto simp: told_def)
  qed
  then show ?thesis using assms(1,2) same_setup_trans [of e e1 e2] by (simp add: told_def retold_def)
qed

definition entry :: "board_view option \<Rightarrow> engine \<Rightarrow> int \<Rightarrow> score_result \<Rightarrow> news_event \<Rightarrow> u64 \<Rightarrow> u32 \<Rightarrow> watch" where
  "entry bd e today r ev now s = opened ev now (hot_of bd s) (info_of e s) s (rating bd e today r s) (ticker_flags e s today)
     (snd (in_universe e s (price_or_close (hot_of bd s) (info_of e s))))"

lemma news_ticker_ok:
  assumes st: "told bd e today r ts (fst st)" and it: "snd it \<in> ts"
  shows "yields (news_ticker bd wall ev now r today st it) (\<lambda>(e', np). told bd e today r ts e' \<and>
    (passes bd e today r (snd it) \<and> stories (fst st) (snd it) = None \<longrightarrow> np_touched np \<and> stories e' (snd it) = Some (entry bd e today r ev now (snd it))))"
proof -
  obtain e1 np i s where x: "st = (e1, np)" "it = (i, s)" by fastforce
  have t1: "told bd e today r ts e1" using st x by simp
  note env = told_env [OF t1]
  show ?thesis
  proof (cases "unat s \<ge> length (en_symbols e1)")
    case True
    then have "\<not> passes bd e today r s" using env by (simp add: passes_def)
    then show ?thesis using True t1 by (simp add: news_ticker_def x)
  next
    case False
    define px where "px = price_or_close (hot_of bd s) (info_of e1 s)"
    define dil where "dil = ticker_flags e1 s today"
    obtain inu mcap where u: "in_universe e1 s px = (inu, mcap)" by fastforce
    define rs where "rs = penalised r mcap dil"
    define np1 where "np1 = (if i = 0 then np\<lparr>np_sym := s, np_r := rs, np_dil := dil, np_mcap := mcap, np_price := px, np_inu := inu\<rparr> else np)"
    define np2 where "np2 = np1\<lparr>np_counted := np_counted np1 \<or> inu\<rparr>"
    define e2 where "e2 = (if inu \<and> \<not> np_counted np1
      then upd_src (src_index ev e1) (\<lambda>ss. ss\<lparr>so_in_universe := so_in_universe ss + 1\<rparr>) e1 else e1)"
    have inv1: "engine_inv e1" using t1 by (simp add: told_def)
    have st2: "steady e1 e2" unfolding e2_def using steady_upd_src [OF inv1] steady_refl [OF inv1] by auto
    have inv2: "engine_inv e2" using st2 by (simp add: steady_def)
    obtain m p where m: "insert_or_assign 0 (en_last_news e2) (ucast s) now = Some (m, p)" "fm_inv m"
      using insert_or_assign_total [OF inv_parts(5) [OF inv2]] by blast
    have "steady e2 (e2\<lparr>en_last_news := m\<rparr>)"
      by (rule steadyI [OF inv2]) (use inv2 m(2) in \<open>simp_all add: engine_inv_def tables_ok_def\<close>)
    then have t3: "told bd e today r ts (e2\<lparr>en_last_news := m\<rparr>)" using told_steady [OF t1] steady_trans [OF st2] by blast
    note env3 = told_env [OF t3]
    have inv3: "engine_inv (e2\<lparr>en_last_news := m\<rparr>)" using t3 by (simp add: told_def)
    have sym: "unat s < length (en_symbols (e2\<lparr>en_last_news := m\<rparr>))" using False env(3) env3(3) by simp
    let ?e3 = "e2\<lparr>en_last_news := m\<rparr>"
    have eq: "news_ticker bd wall ev now r today st it =
        (if \<not> inu \<or> hard_block rs dil \<or> sr_score rs < ec_watch_score (en_cfg ?e3) then Some (?e3, np2)
         else do { (e, touched) \<leftarrow> take_story bd wall ev now s rs dil mcap ?e3; Some (e, np2\<lparr>np_touched := np_touched np2 \<or> touched\<rparr>) })"
      unfolding news_ticker_def x prod.case if_not_P [OF False] Let_def
      by (simp only: px_def [symmetric] dil_def [symmetric] u prod.case rs_def [symmetric] np1_def [symmetric] np2_def [symmetric] e2_def [symmetric]
          m(1) bind.bind_lunit)
    show ?thesis
    proof (cases "\<not> inu \<or> hard_block rs dil \<or> sr_score rs < ec_watch_score (en_cfg ?e3)")
      case True
      then have "\<not> passes bd e today r s" using u env env3 by (auto simp: passes_def rating_def rs_def dil_def px_def)
      then show ?thesis unfolding eq if_P [OF True] using t3 by (simp add: x)
    next
      case gate: False
      have adm: "admitted bd e today r s w" if "wa_score w = sr_score rs" "wa_dilution_flags w = dil" "wa_score_flags w = sr_flags rs" for w
        using that gate False u env env3 by (simp add: admitted_def passes_def rating_def rs_def dil_def px_def)
      have new: "stories ?e3 = stories e1"
        using st2 stories_cong [of ?e3 e2] by (simp add: steady_def)
      have "opened ev now (hot_of bd s) (info_of ?e3 s) s rs dil mcap = entry bd e today r ev now s"
        using u env env3 by (simp add: entry_def rating_def rs_def dil_def px_def)
      then have "yields (take_story bd wall ev now s rs dil mcap ?e3) (\<lambda>(e', touched). told bd e today r ts e' \<and>
          (stories e1 s = None \<longrightarrow> touched \<and> stories e' s = Some (entry bd e today r ev now s)))"
        using told_retold [OF t3 _ _ adm] it x new by (auto intro!: yields_mono [OF take_story_ok [OF inv3 sym]])
      then show ?thesis unfolding eq if_not_P [OF gate] by (simp add: case_prod_unfold x) (erule yields_mono, auto)
    qed
  qed
qed

definition news_result :: "board_view option \<Rightarrow> engine \<Rightarrow> int \<Rightarrow> score_result \<Rightarrow> u32 set \<Rightarrow> engine \<Rightarrow> bool" where
  \<comment> \<open>what a story does to the watch list: every ticker on it afterwards was there before or passed the gates\<close>
  "news_result bd e today r ts e' \<longleftrightarrow> engine_inv e' \<and> same_setup e e' \<and>
     (\<forall>s w. stories e s = None \<longrightarrow> stories e' s = Some w \<longrightarrow> s \<in> ts \<and> admitted bd e today r s w)"

lemma admitted_cong: "wa_score w' = wa_score w \<Longrightarrow> wa_dilution_flags w' = wa_dilution_flags w \<Longrightarrow> wa_score_flags w' = wa_score_flags w \<Longrightarrow>
    admitted bd e today r s w' = admitted bd e today r s w"
  by (simp add: admitted_def)

lemma told_result: "told bd e today r ts e' \<Longrightarrow> news_result bd e today r ts e'"
  by (fastforce simp: told_def news_result_def)

lemma told_start: "engine_inv e \<Longrightarrow> told bd e today r ts e"
  by (simp add: told_def)

lemma toldD:
  assumes "told bd e today r ts e1" "stories e1 s = Some w" "stories e s = None"
  shows "s \<in> ts \<and> admitted bd e today r s w"
proof -
  have "stories e s = Some w \<or> s \<in> ts \<and> admitted bd e today r s w" using assms(1,2) by (simp add: told_def)
  then show ?thesis using assms(3) by simp
qed

lemma admitted_env:
  assumes "same_setup e e'" "en_filings e' = en_filings e"
  shows "admitted bd e' = admitted bd e"
proof -
  have "ticker_flags e' = ticker_flags e" using env_cong [OF assms(1)] assms by (simp add: ticker_flags_def fun_eq_iff same_setup_def)
  then show ?thesis using env_cong [OF assms(1)] assms(1) by (simp add: admitted_def passes_def rating_def fun_eq_iff same_setup_def)
qed

lemma evaluated_keeps:
  assumes "evaluated bd now e w w'"
  shows "wa_score w' = wa_score w" "wa_dilution_flags w' = wa_dilution_flags w" "wa_score_flags w' = wa_score_flags w"
  using assms by (auto simp: evaluated_def priced_def Let_def split: option.splits if_splits)

lemma evaluate_told:
  assumes t: "told bd e today r ts e1"
  shows "yields (evaluate bd wall now e1) (news_result bd e today r ts)"
proof (rule yields_mono [OF evaluate_ok], goal_cases)
  case 1
  show ?case using t by (simp add: told_def)
next
  case (2 e2)
  have "s \<in> ts \<and> admitted bd e today r s w" if new: "stories e s = None" and w: "stories e2 s = Some w" for s w
  proof -
    obtain w1 where w1: "stories e1 s = Some w1" using 2 w by (cases "stories e1 s") auto
    then have "s \<in> ts \<and> admitted bd e today r s w1" using toldD [OF t _ new] by blast
    moreover have "eval_result bd now e1 w1 (Some w)" using 2 w1 unfolding w [symmetric] by blast
    then have "evaluated bd now e1 w1 w" by (auto simp: eval_result_def split: if_splits)
    ultimately show ?thesis using admitted_cong [OF evaluated_keeps] by metis
  qed
  then show ?case using 2 t same_setup_trans by (auto simp: news_result_def told_def)
qed

lemma today_upd_src: "snd (today_days now (upd_src i f e)) = snd (today_days now e)"
  by (simp add: today_days_def upd_src_def Let_def split: prod.splits)

definition close_story :: "u64 \<Rightarrow> news_event \<Rightarrow> u64 \<Rightarrow> bool \<times> u16 \<times> int \<Rightarrow> engine \<times> news_pass \<Rightarrow> engine" where
  \<comment> \<open>the journal record and the handling time at the end of a story\<close>
  "close_story took ev now seen st =
     (let e = journal_news ev now seen (snd st) (fst st) in e\<lparr>en_handle := hist_record took (en_handle e)\<rparr>)"

lemma steady_close: "engine_inv (fst st) \<Longrightarrow> steady (fst st) (close_story took ev now seen st)"
proof -
  assume inv: "engine_inv (fst st)"
  let ?j = "journal_news ev now seen (snd st) (fst st)"
  have j: "steady (fst st) ?j" unfolding journal_news_def by (rule steady_journal [OF inv])
  have "steady ?j (close_story took ev now seen st)"
    unfolding close_story_def Let_def by (rule steadyI) (use j in \<open>simp_all add: steady_def engine_inv_def tables_ok_def\<close>)
  then show ?thesis by (rule steady_trans [OF j])
qed

definition story_tickers :: "news_event \<Rightarrow> u32 list" where
  \<comment> \<open>a filing names its issuer only\<close>
  "story_tickers ev = (if ne_kind ev = EvNews then ne_tickers ev else take 1 (ne_tickers ev))"

lemma on_story_steps:
  assumes inv: "engine_inv e"
  obtains e2 where "steady e e2" and "on_story bd wall took ev now seen e = do {
      st \<leftarrow> fold_opt (news_ticker bd wall ev now (score_event ev e) (snd (today_days now e))) (zip [0..<length (story_tickers ev)] (story_tickers ev))
        (e2, news_pass0 (score_event ev e));
      if np_touched (snd st) then evaluate bd wall now (close_story took ev now seen st) else Some (close_story took ev now seen st) }"
proof -
  define e1 where "e1 = upd_src (src_index ev e) (\<lambda>ss. ss\<lparr>so_scored := so_scored ss + 1\<rparr>) e"
  obtain e2 today where t: "today_days now e1 = (e2, today)" by fastforce
  have "snd (today_days now e1) = snd (today_days now e)" unfolding e1_def by (rule today_upd_src)
  then have today: "today = snd (today_days now e)" using t by simp
  have "steady e e1" unfolding e1_def by (rule steady_upd_src [OF inv])
  moreover from this have "steady e1 e2" using steady_today [of e1 now] t by (simp add: steady_def)
  ultimately have "steady e e2" by (rule steady_trans)
  moreover have "on_story bd wall took ev now seen e = do {
      st \<leftarrow> fold_opt (news_ticker bd wall ev now (score_event ev e) (snd (today_days now e))) (zip [0..<length (story_tickers ev)] (story_tickers ev))
        (e2, news_pass0 (score_event ev e));
      if np_touched (snd st) then evaluate bd wall now (close_story took ev now seen st) else Some (close_story took ev now seen st) }"
    unfolding on_story_def Let_def e1_def [symmetric] story_tickers_def [symmetric] t prod.case today close_story_def case_prod_unfold fst_conv snd_conv ..
  ultimately show thesis by (rule that)
qed

lemma on_story_ok:
  assumes inv: "engine_inv e"
  shows "yields (on_story bd wall took ev now seen e) (news_result bd e (snd (today_days now e)) (score_event ev e) (set (ne_tickers ev)))"
proof -
  let ?r = "score_event ev e" and ?today = "snd (today_days now e)" and ?ts = "set (ne_tickers ev)"
  obtain e2 where e2: "steady e e2" and eq: "on_story bd wall took ev now seen e = do {
      st \<leftarrow> fold_opt (news_ticker bd wall ev now ?r ?today) (zip [0..<length (story_tickers ev)] (story_tickers ev)) (e2, news_pass0 ?r);
      if np_touched (snd st) then evaluate bd wall now (close_story took ev now seen st) else Some (close_story took ev now seen st) }"
    by (rule on_story_steps [OF inv])
  have sub: "set (story_tickers ev) \<subseteq> ?ts" unfolding story_tickers_def by (simp add: set_take_subset)
  have "yields (fold_opt (news_ticker bd wall ev now ?r ?today) (zip [0..<length (story_tickers ev)] (story_tickers ev)) (e2, news_pass0 ?r))
      (\<lambda>st. told bd e ?today ?r ?ts (fst st))"
  proof (rule yields_fold)
    show "told bd e ?today ?r ?ts (fst (e2, news_pass0 ?r))" using told_steady [OF told_start [OF inv] e2] by simp
    fix st :: "engine \<times> news_pass" and it
    assume st: "told bd e ?today ?r ?ts (fst st)" and "it \<in> set (zip [0..<length (story_tickers ev)] (story_tickers ev))"
    then have "snd it \<in> set (story_tickers ev)" by (cases it) (auto dest: set_zip_rightD)
    then have "snd it \<in> ?ts" using sub by blast
    then show "yields (news_ticker bd wall ev now ?r ?today st it) (\<lambda>st. told bd e ?today ?r ?ts (fst st))"
      by (rule yields_mono [OF news_ticker_ok [OF st]]) auto
  qed
  then show ?thesis
    unfolding eq yields_simps
  proof (rule yields_mono, goal_cases)
    case (1 st)
    then have "told bd e ?today ?r ?ts (close_story took ev now seen st)"
      using told_steady [OF _ steady_close] by (simp add: told_def [of _ _ _ _ _ "fst st"])
    then show ?case using evaluate_told told_result by simp
  qed
qed

lemma on_story_opens:
  assumes inv: "engine_inv e" and ts: "story_tickers ev = [s]" and new: "stories e s = None"
    and gates: "passes bd e (snd (today_days now e)) (score_event ev e) s"
    and fresh: "\<not> expired now e (entry bd e (snd (today_days now e)) (score_event ev e) ev now s)"
  shows "yields (on_story bd wall took ev now seen e) (\<lambda>e'. \<exists>w. stories e' s = Some w \<and>
    evaluated bd now e (entry bd e (snd (today_days now e)) (score_event ev e) ev now s) w)"
proof -
  let ?r = "score_event ev e" and ?today = "snd (today_days now e)" and ?ts = "set (story_tickers ev)"
  let ?w = "entry bd e ?today ?r ev now s"
  obtain e2 where e2: "steady e e2" and eq: "on_story bd wall took ev now seen e = do {
      st \<leftarrow> fold_opt (news_ticker bd wall ev now ?r ?today) (zip [0..<length (story_tickers ev)] (story_tickers ev)) (e2, news_pass0 ?r);
      if np_touched (snd st) then evaluate bd wall now (close_story took ev now seen st) else Some (close_story took ev now seen st) }"
    by (rule on_story_steps [OF inv])
  have t2: "told bd e ?today ?r ?ts (fst (e2, news_pass0 ?r))" using told_steady [OF told_start [OF inv] e2] by simp
  have one: "fold_opt (news_ticker bd wall ev now ?r ?today) (zip [0..<length (story_tickers ev)] (story_tickers ev)) (e2, news_pass0 ?r) =
      news_ticker bd wall ev now ?r ?today (e2, news_pass0 ?r) (0, s)" by (simp add: ts split: option.split)
  have "stories e2 s = None" using e2 new by (simp add: steady_def)
  then have "yields (news_ticker bd wall ev now ?r ?today (e2, news_pass0 ?r) (0, s))
      (\<lambda>st. told bd e ?today ?r ?ts (fst st) \<and> np_touched (snd st) \<and> stories (fst st) s = Some ?w)"
    using gates ts by (intro yields_mono [OF news_ticker_ok [OF t2, of "(0, s)"]]) auto
  then show ?thesis
    unfolding eq yields_simps one
  proof (rule yields_mono, goal_cases)
    case (1 st)
    let ?e4 = "close_story took ev now seen st"
    have st: "steady (fst st) ?e4" using 1 steady_close by (simp add: told_def)
    have inv4: "engine_inv ?e4" and w4: "stories ?e4 s = Some ?w" and env: "same_setup e ?e4"
      using st 1 by (auto simp: steady_def told_def intro: same_setup_trans)
    have "eval_result bd now ?e4 ?w r \<Longrightarrow> \<exists>w. r = Some w \<and> evaluated bd now e ?w w" for r
      using fresh eval_result_cong [OF env] by (simp add: eval_result_def)
    then show ?case
      using 1 w4 by (auto intro!: yields_mono [OF evaluate_ok [OF inv4]])
  qed
qed

lemma inform_watch_ok:
  assumes inv: "engine_inv e"
  shows "yields (inform_watch bd wall cls now e s) (\<lambda>e'. engine_inv e' \<and> same_setup e e' \<and> en_filings e' = en_filings e \<and>
    stories e' = (case stories e s of None \<Rightarrow> stories e
      | Some w \<Rightarrow> (stories e)(s \<mapsto> w\<lparr>wa_dilution_flags := wa_dilution_flags w OR (if cls = Prospectus then kFlagOfferingRecent else kFlagEffectRecent)\<rparr>)))"
proof (cases "fm_map (en_by_sym e) (ucast s)")
  case None
  then show ?thesis using inv find_watch_ok [OF engine_invD(1) [OF inv], of s] by (simp add: inform_watch_def stories_def)
next
  case (Some idx)
  have ok: "watch_ok e" by (rule engine_invD(1) [OF inv])
  have idx: "idx \<in> set (en_slots e)" "wa_sym (en_watch e ! idx) = s" using Some watch_okD(8) [OF ok, of s idx] by simp_all
  let ?w = "en_watch e ! idx"
  let ?w' = "?w\<lparr>wa_dilution_flags := wa_dilution_flags ?w OR (if cls = Prospectus then kFlagOfferingRecent else kFlagEffectRecent)\<rparr>"
  have w: "stories e s = Some ?w" using Some by (simp add: stories_def)
  have e1: "engine_inv (put_watch idx ?w' e)" "stories (put_watch idx ?w' e) = (stories e)(s \<mapsto> ?w')"
    using put_watch_inv [OF inv idx(1), of ?w'] put_watch_ok(2) [OF ok idx(1), of ?w'] active_slot [OF ok idx(1)] idx(2) by simp_all
  have "steady (put_watch idx ?w' e) (emit bd wall ?w TierInfo now [] (put_watch idx ?w' e))" by (rule steady_emit [OF e1(1)])
  then show ?thesis
    using find_watch_ok [OF ok, of s] Some e1(2) w by (simp add: inform_watch_def Let_def steady_def same_setup_def)
qed

definition filed :: "news_event \<Rightarrow> u64 \<Rightarrow> engine \<Rightarrow> engine" where
  \<comment> \<open>the engine with the filing of the event in its history\<close>
  "filed ev now e = (if ne_kind ev = EvFiling
     then e\<lparr>en_filings := filings_add (ne_cik ev) (snd (today_days now e)) (classify_form (ne_form ev)) (ne_items_mask ev) (en_filings e)\<rparr> else e)"

definition news_gate :: "board_view option \<Rightarrow> news_event \<Rightarrow> u64 \<Rightarrow> engine \<Rightarrow> engine \<Rightarrow> bool" where
  "news_gate bd ev now e e' \<longleftrightarrow> engine_inv e' \<and> same_setup e e' \<and>
     (\<forall>s w. stories e s = None \<longrightarrow> stories e' s = Some w \<longrightarrow>
        ne_kind ev \<noteq> EvHalt \<and> s \<in> set (ne_tickers ev) \<and> admitted bd (filed ev now e) (snd (today_days now e)) (score_event ev e) s w)"

lemma gate_same: "engine_inv e' \<Longrightarrow> same_setup e e' \<Longrightarrow> (\<And>s. stories e s = None \<Longrightarrow> stories e' s = None) \<Longrightarrow> news_gate bd ev now e e'"
  by (simp add: news_gate_def)

lemma gate_steady: "news_gate bd ev now e e1 \<Longrightarrow> steady e1 e2 \<Longrightarrow> news_gate bd ev now e e2"
  by (auto simp: news_gate_def steady_def intro: same_setup_trans)

lemma today_twice: "snd (today_days now (fst (today_days now e))) = snd (today_days now e)"
  by (simp add: today_days_def Let_def split: prod.splits)

lemma today_note_headline:
  assumes "note_headline ev e = Some (e', seen)"
  shows "snd (today_days now e') = snd (today_days now e)"
  using assms by (auto simp: note_headline_def today_days_def upd_src_def Let_def bind_eq_Some_conv split: if_splits prod.splits)

lemma today_filings: "today_days now (e\<lparr>en_filings := F\<rparr>) = ((fst (today_days now e))\<lparr>en_filings := F\<rparr>, snd (today_days now e))"
  by (simp add: today_days_def Let_def split: prod.splits)

lemma story_gate:
  assumes inv: "engine_inv e1" and env: "same_setup e e1" "stories e1 = stories e" and today: "snd (today_days now e1) = snd (today_days now e)"
    and fil: "en_filings e1 = en_filings (filed ev now e)" and kind: "ne_kind ev \<noteq> EvHalt"
  shows "yields (on_story bd wall took ev now seen e1) (news_gate bd ev now e)"
proof (rule yields_mono [OF on_story_ok [OF inv]], goal_cases)
  case (1 e2)
  have "score_event ev e1 = score_event ev e" using env(1) by (simp add: score_event_def same_setup_def)
  moreover have "admitted bd e1 = admitted bd (filed ev now e)"
    using env(1) fil by (intro admitted_env) (simp_all add: filed_def same_setup_def)
  ultimately show ?case
    using 1 env today kind by (auto simp: news_result_def news_gate_def intro: same_setup_trans)
qed

lemma on_news_ok:
  assumes inv: "engine_inv e"
  shows "yields (on_news bd wall took ev now e) (news_gate bd ev now e)"
proof -
  define e0 where "e0 = upd_src (src_index ev e) (note_item ev now) e"
  have s0: "steady e e0" unfolding e0_def by (rule steady_upd_src [OF inv])
  then have inv0: "engine_inv e0" by (simp add: steady_def)
  obtain e1 seen where h: "note_headline ev e0 = Some (e1, seen)" and s01: "steady e0 e1"
    using note_headline_ok [OF inv0, of ev] by (auto simp: yields_def)
  have s1: "steady e e1" by (rule steady_trans [OF s0 s01])
  then have inv1: "engine_inv e1" by (simp add: steady_def)
  have day1: "snd (today_days now e1) = snd (today_days now e)"
    using today_note_headline [OF h] today_upd_src by (metis e0_def)
  have jn: "news_gate bd ev now e (journal_news ev now seen np e2)" if "news_gate bd ev now e e2" for np e2
    using that steady_journal by (auto simp: journal_news_def news_gate_def [of _ _ _ _ e2] intro: gate_steady [OF that])
  consider (halt) "ne_kind ev = EvHalt" | (filing) "ne_kind ev = EvFiling" | (story) "ne_kind ev \<noteq> EvHalt" "ne_kind ev \<noteq> EvFiling" by blast
  then show ?thesis
  proof cases
    case halt
    have "yields (fold_opt (\<lambda>e s. handle_halt bd wall s c rsn now e) (ne_tickers ev) e1) (steady e1)" for c rsn
      by (rule fold_steady [OF inv1]) (rule handle_halt_ok)
    then have "yields (fold_opt (\<lambda>e s. handle_halt bd wall s c rsn now e) (ne_tickers ev) e1) (news_gate bd ev now e)" for c rsn
      by (rule yields_mono) (use s1 in \<open>auto simp: steady_def intro!: gate_same intro: same_setup_trans\<close>)
    then have "yields (fold_opt (\<lambda>e s. handle_halt bd wall s c rsn now e) (ne_tickers ev) e1) (\<lambda>e2. news_gate bd ev now e (journal_news ev now seen np e2))" for c rsn np
      by (rule yields_mono) (rule jn)
    then show ?thesis using halt h by (simp add: on_news_def e0_def [symmetric] Let_def)
  next
    case filing
    let ?cls = "classify_form (ne_form ev)"
    obtain et where t1: "today_days now e1 = (et, snd (today_days now e))" using day1 by (cases "today_days now e1") simp
    define e2 where "e2 = et\<lparr>en_filings := en_filings (filed ev now e)\<rparr>"
    have ste: "steady e1 et" using steady_today [OF inv1, of now] t1 by simp
    have st: "steady e et" by (rule steady_trans [OF s1 ste])
    have F: "filings_add (ne_cik ev) (snd (today_days now e)) ?cls (ne_items_mask ev) (en_filings et) = en_filings (filed ev now e)"
      using st filing by (simp add: filed_def steady_def)
    have inv2: "engine_inv e2" unfolding e2_def
      by (rule engine_inv_frame [of et]) (use st in \<open>simp_all add: steady_def engine_inv_def tables_ok_def\<close>)
    have "stories e2 = stories et" unfolding e2_def by (rule stories_cong) simp_all
    then have e2: "same_setup e e2" "stories e2 = stories e" using st by (simp_all add: steady_def same_setup_def e2_def)
    have day2: "snd (today_days now e2) = snd (today_days now e)" unfolding e2_def today_filings using today_twice [of now e1] t1 by simp
    have eq: "on_news bd wall took ev now e = (if ?cls \<noteq> Form8K \<and> ?cls \<noteq> Form6K then do {
          e \<leftarrow> (if dilution_filing ?cls then fold_opt (inform_watch bd wall ?cls now) (ne_tickers ev) e2 else Some e2);
          Some (journal_news ev now seen ((news_pass0 score_result0)\<lparr>np_sym := first_ticker ev\<rparr>) e) }
        else on_story bd wall took ev now seen e2)"
      unfolding on_news_def e0_def [symmetric] h bind.bind_lunit prod.case Let_def
      using filing by (simp only: event_kind.distinct if_False if_True simp_thms t1 prod.case F e2_def [symmetric])
    have "yields (fold_opt (inform_watch bd wall ?cls now) (ne_tickers ev) e2) (\<lambda>e'. engine_inv e' \<and> same_setup e e' \<and> (\<forall>s. stories e s = None \<longrightarrow> stories e' s = None))"
    proof (rule yields_fold)
      show "engine_inv e2 \<and> same_setup e e2 \<and> (\<forall>s. stories e s = None \<longrightarrow> stories e2 s = None)" using inv2 e2 by simp
      fix e' s assume e': "engine_inv e' \<and> same_setup e e' \<and> (\<forall>s. stories e s = None \<longrightarrow> stories e' s = None)"
      show "yields (inform_watch bd wall ?cls now e' s) (\<lambda>e'. engine_inv e' \<and> same_setup e e' \<and> (\<forall>s. stories e s = None \<longrightarrow> stories e' s = None))"
        by (rule yields_mono [OF inform_watch_ok]) (use e' in \<open>auto intro: same_setup_trans split: option.splits\<close>)
    qed
    then have "yields (if dilution_filing ?cls then fold_opt (inform_watch bd wall ?cls now) (ne_tickers ev) e2 else Some e2) (news_gate bd ev now e)"
      using inv2 e2 by (auto elim!: yields_mono intro!: gate_same)
    moreover have "yields (on_story bd wall took ev now seen e2) (news_gate bd ev now e)"
      by (rule story_gate [OF inv2 e2 day2]) (simp_all add: e2_def filing)
    ultimately show ?thesis unfolding eq by (auto elim!: yields_mono intro: jn)
  next
    case story
    have "yields (on_story bd wall took ev now seen e1) (news_gate bd ev now e)"
      by (rule story_gate [OF inv1 _ _ day1]) (use s1 story in \<open>simp_all add: steady_def filed_def\<close>)
    then show ?thesis using story h by (simp add: on_news_def e0_def [symmetric] Let_def)
  qed
qed

lemma story_kind:
  assumes inv: "engine_inv e" and kind: "ne_kind ev = EvNews \<or> ne_kind ev = EvFilingDoc"
  obtains e1 seen where "steady e e1" "snd (today_days now e1) = snd (today_days now e)"
    "on_news bd wall took ev now e = on_story bd wall took ev now seen e1"
proof -
  define e0 where "e0 = upd_src (src_index ev e) (note_item ev now) e"
  have s0: "steady e e0" unfolding e0_def by (rule steady_upd_src [OF inv])
  then have inv0: "engine_inv e0" by (simp add: steady_def)
  obtain e1 seen where h: "note_headline ev e0 = Some (e1, seen)" and s01: "steady e0 e1"
    using note_headline_ok [OF inv0, of ev] by (auto simp: yields_def)
  have "snd (today_days now e1) = snd (today_days now e)" using today_note_headline [OF h] today_upd_src by (metis e0_def)
  moreover have "on_news bd wall took ev now e = on_story bd wall took ev now seen e1"
    using kind h by (auto simp: on_news_def e0_def [symmetric] Let_def)
  ultimately show thesis by (rule that [OF steady_trans [OF s0 s01]])
qed

lemma on_news_opens:
  assumes inv: "engine_inv e" and kind: "ne_kind ev = EvNews \<or> ne_kind ev = EvFilingDoc" and ts: "story_tickers ev = [s]"
    and new: "stories e s = None" and gates: "passes bd e (snd (today_days now e)) (score_event ev e) s"
    and fresh: "\<not> expired now e (entry bd e (snd (today_days now e)) (score_event ev e) ev now s)"
  shows "yields (on_news bd wall took ev now e) (\<lambda>e'. \<exists>w. stories e' s = Some w \<and>
    evaluated bd now e (entry bd e (snd (today_days now e)) (score_event ev e) ev now s) w)"
proof -
  obtain e1 seen where e1: "steady e e1" "snd (today_days now e1) = snd (today_days now e)"
      "on_news bd wall took ev now e = on_story bd wall took ev now seen e1" using story_kind [OF inv kind] by metis
  have env: "same_setup e e1" "en_filings e1 = en_filings e" "engine_inv e1" "stories e1 s = None" using e1(1) new by (simp_all add: steady_def)
  have fl: "ticker_flags e1 = ticker_flags e" using env_cong [OF env(1)] env by (simp add: ticker_flags_def fun_eq_iff same_setup_def)
  have sc: "score_event ev e1 = score_event ev e" using env(1) by (simp add: score_event_def same_setup_def)
  have ps: "passes bd e1 = passes bd e" "entry bd e1 = entry bd e" "expired now e1 = expired now e"
    using env_cong [OF env(1)] env(1) fl by (simp_all add: passes_def entry_def rating_def expired_def fun_eq_iff same_setup_def)
  show ?thesis
    unfolding e1(3)
    by (rule on_story_opens [where now = now and bd = bd, OF env(3) ts env(4), unfolded ps e1(2) sc evaluated_cong [OF env(1)], OF gates fresh])
qed

subsection \<open>Runs\<close>

lemma shutdown_inv: "engine_inv e \<Longrightarrow> engine_inv (shutdown b now e)"
proof (cases "en_paper e")
  case (Some p)
  assume inv: "engine_inv e"
  obtain p' sunk where c: "close_all (bv_hot b) now ''shutdown'' p = (p', sunk)" by fastforce
  have "paper_inv p'" using inv Some close_all_inv [of p "bv_hot b" now "''shutdown''"] c by (simp add: engine_inv_def outputs_ok_def)
  then have "outputs_ok (e\<lparr>en_paper := Some p'\<rparr>)" using inv by (simp add: engine_inv_def outputs_ok_def)
  then have "engine_inv (fold journal_trade sunk (e\<lparr>en_paper := Some p'\<rparr>))"
    by (intro engine_inv_frame [OF inv]) (use inv in \<open>simp_all add: engine_inv_def tables_ok_def\<close>)
  then show ?thesis using Some c by (simp add: shutdown_def)
qed (simp add: shutdown_def)

lemma stats_report_inv: "engine_inv e \<Longrightarrow> engine_inv (stats_report b e)"
  by (rule engine_inv_frame [of e]) (simp_all add: engine_inv_def tables_ok_def outputs_ok_def stats_report_def)

lemma act_ok:
  assumes "engine_inv e"
  shows "yields (act e a) engine_inv"
proof (cases a)
  case (ActNews bd wall took ev now)
  then show ?thesis using yields_mono [OF on_news_ok [OF assms], where Q = engine_inv] by (simp add: news_gate_def)
next
  case (ActMarket bd wall ev now)
  then show ?thesis using yields_mono [OF on_market_event_ok [OF assms], where Q = engine_inv] by (simp add: steady_def)
next
  case (ActEvaluate bd wall now)
  then show ?thesis using yields_mono [OF evaluate_ok [OF assms], where Q = engine_inv] by simp
next
  case (ActScan bd wall now)
  then show ?thesis using yields_mono [OF scan_movers_ok [OF assms], where Q = engine_inv] by (simp add: steady_def)
qed (use assms in \<open>simp_all add: shutdown_inv stats_report_inv\<close>)

lemma engine_run_ok: "engine_inv e \<Longrightarrow> yields (engine_run acts e) engine_inv"
  unfolding engine_run_def by (rule yields_fold) (simp_all add: act_ok)

lemma table_new: "\<exists>m. flat_map_new d cap 0.7 = Some m \<and> fm_inv m \<and> fm_map m = Map.empty"
  using flat_map_new_ok [of "0.7" d cap] by auto

lemma engine_new_ok:
  assumes "\<And>q. alerts = Some q \<Longrightarrow> spsc_inv q" "\<And>q. journal = Some q \<Longrightarrow> spsc_inv q"
  shows "yields (engine_new cfg sl has_board sc fil alerts journal n) (\<lambda>e. engine_inv e \<and> stories e = Map.empty \<and> last_sent e = Map.empty \<and>
    en_cfg e = cfg \<and> en_symbols e = sl \<and> en_filings e = fil \<and> en_scorer e = sc \<and> en_universe e = map (static_universe cfg) sl)"
proof -
  obtain m1 where m1: "flat_map_new (0 :: nat) 256 0.7 = Some m1" "fm_inv m1" "fm_map m1 = Map.empty"
    using table_new [of "(0 :: nat)" 256] by (elim exE conjE) (rule that)
  obtain m2 where m2: "flat_map_new (0 :: u16, 0 :: u64) 8192 0.7 = Some m2" "fm_inv m2"
    using table_new [of "(0 :: u16, 0 :: u64)" 8192] by (elim exE conjE) (rule that)
  obtain m3 where m3: "flat_map_new (0 :: u64) 1024 0.7 = Some m3" "fm_inv m3"
    using table_new [of "(0 :: u64)" 1024] by (elim exE conjE) (rule that)
  obtain m4 where m4: "flat_map_new (0 :: u64) 256 0.7 = Some m4" "fm_inv m4" "fm_map m4 = Map.empty"
    using table_new [of "(0 :: u64)" 256] by (elim exE conjE) (rule that)
  obtain m5 where m5: "flat_map_new (CHR 0x00, 0 :: u64) 256 0.7 = Some m5" "fm_inv m5"
    using table_new [of "(CHR 0x00, 0 :: u64)" 256] by (elim exE conjE) (rule that)
  obtain e where e: "engine_new cfg sl has_board sc fil alerts journal n = Some e" and
    f: "en_watch e = replicate kWatchSlots watch0" "en_slots e = []" "en_free e = rev [0..<kWatchSlots]" "en_by_sym e = m1"
      "en_first_seen e = m2" "en_last_news e = m3" "en_mover_alerted e = m4" "en_last_tier_ns e = m4" "en_halt_seen e = m5"
      "en_alerts e = alerts" "en_journal e = journal" "length (en_tier_counts e) = 8" "en_symbols e = sl" "en_universe e = map (static_universe cfg) sl" "en_cfg e = cfg" "en_filings e = fil" "en_scorer e = sc"
      "en_src_stats e \<noteq> []" "en_paper e = (if pc_enabled (ec_paper cfg) \<and> has_board then Some (paper_new (ec_paper cfg)) else None)"
    by (simp add: engine_new_def m1(1) m2(1) m3(1) m4(1) m5(1))
  have st: "stories e = Map.empty" using m1(3) by (simp add: stories_def f fun_eq_iff)
  have "watch_ok e" using m1(2,3) by (simp add: watch_ok_def f watch0_def lessThan_atLeast0)
  moreover have "tables_ok e" using m2(2) m3(2) m4(2) m5(2) by (simp add: tables_ok_def f)
  moreover have "outputs_ok e" using assms by (auto simp: outputs_ok_def f paper_new_inv split: if_splits)
  moreover have "static_ok e" by (simp add: static_ok_def f st)
  moreover have "last_sent e = Map.empty" using m4(3) by (simp add: last_sent_def f fun_eq_iff)
  ultimately show ?thesis using e st by (simp add: engine_inv_def f)
qed

end
