(* ===== verification/Mpsc_Queue.thy ===== *)
theory Mpsc_Queue
  imports Spsc_Queue "HOL-Library.Sublist"
begin

unbundle bit_operations_syntax

text \<open>
  \<open>src/core/mpsc_queue.hpp\<close>: the bounded multi-producer single-consumer queue of the log. Every cell carries a
  64-bit sequence number; a producer claims a position by a compare-and-exchange on the shared enqueue position and
  publishes the cell by advancing its number.

  The operations come first, run by one thread alone (the claim loop is a partial function, shown to return). The
  interleavings of any number of producers with the consumer are the step relation \<open>mpsc_step\<close>, one step per access to
  shared memory: a relaxed load of the enqueue position may return any earlier value, and the weak exchange may fail
  without cause. The difference of two positions is taken on signed values, so the results hold as long as the positions stay
  below \<open>2 ^ 63\<close>.
\<close>

subsection \<open>State and operations\<close>

record 'a cell =
  c_seq :: u64
  c_data :: 'a

record 'a mpsc =
  m_cap :: nat
  m_mask :: u64
  m_cells :: "'a cell list"
  m_enq :: u64
  m_deq :: u64

definition mpsc_new :: "'a \<Rightarrow> nat \<Rightarrow> 'a mpsc" where
  "mpsc_new dflt capacity =
     (let c = next_pow2 (if capacity < 2 then 2 else capacity)
      in \<lparr>m_cap = c, m_mask = of_nat c - 1,
          m_cells = map (\<lambda>i. \<lparr>c_seq = of_nat i, c_data = dflt\<rparr>) [0..<c], m_enq = 0, m_deq = 0\<rparr>)"

definition cell_of :: "'a mpsc \<Rightarrow> u64 \<Rightarrow> nat" where
  "cell_of q pos = unat (pos AND m_mask q)"

definition seq_at :: "'a mpsc \<Rightarrow> nat \<Rightarrow> u64" where
  "seq_at q i = c_seq (m_cells q ! i)"

definition set_seq :: "'a mpsc \<Rightarrow> nat \<Rightarrow> u64 \<Rightarrow> 'a mpsc" where
  "set_seq q i s = q\<lparr>m_cells := (m_cells q)[i := (m_cells q ! i)\<lparr>c_seq := s\<rparr>]\<rparr>"

definition set_data :: "'a mpsc \<Rightarrow> nat \<Rightarrow> 'a \<Rightarrow> 'a mpsc" where
  "set_data q i v = q\<lparr>m_cells := (m_cells q)[i := (m_cells q ! i)\<lparr>c_data := v\<rparr>]\<rparr>"

definition seq_diff :: "u64 \<Rightarrow> u64 \<Rightarrow> int" where
  \<comment> \<open>\<open>static_cast<intptr_t>(seq) - static_cast<intptr_t>(pos)\<close>\<close>
  "seq_diff s pos = sint s - sint pos"

datatype claim_view = Free | Full | Behind

definition inspect :: "'a mpsc \<Rightarrow> u64 \<Rightarrow> claim_view" where
  \<comment> \<open>what one round of the claim loop learns from the sequence number of the cell of \<open>pos\<close>\<close>
  "inspect q pos =
     (let diff = seq_diff (seq_at q (cell_of q pos)) pos
      in if diff = 0 then Free else if diff < 0 then Full else Behind)"

partial_function (option) mpsc_claim_loop :: "'a mpsc \<Rightarrow> u64 \<Rightarrow> ('a mpsc \<times> nat option) option" where
  \<comment> \<open>the loop run by one thread alone: the exchange compares with the shared position and then succeeds\<close>
  "mpsc_claim_loop q pos =
     (case inspect q pos of
        Free \<Rightarrow> if m_enq q = pos then Some (q\<lparr>m_enq := pos + 1\<rparr>, Some (cell_of q pos))
                else mpsc_claim_loop q (m_enq q)
      | Full \<Rightarrow> Some (q, None)
      | Behind \<Rightarrow> mpsc_claim_loop q (m_enq q))"

declare mpsc_claim_loop.simps [code]

definition mpsc_try_claim :: "'a mpsc \<Rightarrow> ('a mpsc \<times> nat option) option" where
  "mpsc_try_claim q = mpsc_claim_loop q (m_enq q)"

definition mpsc_commit :: "'a mpsc \<Rightarrow> nat \<Rightarrow> 'a mpsc" where
  "mpsc_commit q i = set_seq q i (seq_at q i + 1)"

definition mpsc_try_push_with :: "'a mpsc \<Rightarrow> ('a \<Rightarrow> 'a) \<Rightarrow> ('a mpsc \<times> bool) option" where
  "mpsc_try_push_with q fill =
     (case mpsc_try_claim q of
        None \<Rightarrow> None
      | Some (q, None) \<Rightarrow> Some (q, False)
      | Some (q, Some i) \<Rightarrow> Some (mpsc_commit (set_data q i (fill (c_data (m_cells q ! i)))) i, True))"

definition mpsc_front :: "'a mpsc \<Rightarrow> nat option" where
  "mpsc_front q =
     (let i = cell_of q (m_deq q)
      in if seq_diff (seq_at q i) (m_deq q + 1) < 0 then None else Some i)"

definition mpsc_pop :: "'a mpsc \<Rightarrow> 'a mpsc" where
  "mpsc_pop q =
     (let q = set_seq q (cell_of q (m_deq q)) (m_deq q + of_nat (m_cap q))
      in q\<lparr>m_deq := m_deq q + 1\<rparr>)"

definition mpsc_push :: "'a mpsc \<Rightarrow> 'a \<Rightarrow> 'a mpsc \<times> bool" where
  \<comment> \<open>a push of a value; a claim loop that does not end would be the branch \<open>None\<close>\<close>
  "mpsc_push q v = (case mpsc_try_push_with q (\<lambda>_. v) of None \<Rightarrow> (q, False) | Some r \<Rightarrow> r)"

definition mpsc_take :: "'a mpsc \<Rightarrow> 'a mpsc \<times> 'a option" where
  \<comment> \<open>the consumer idiom: use \<open>*q.front()\<close> when it is not null, then \<open>q.pop()\<close>\<close>
  "mpsc_take q =
     (case mpsc_front q of None \<Rightarrow> (q, None) | Some i \<Rightarrow> (mpsc_pop q, Some (c_data (m_cells q ! i))))"

definition mpsc_items :: "'a mpsc \<Rightarrow> 'a list" where
  \<comment> \<open>the elements between the two positions, oldest first\<close>
  "mpsc_items q =
     map (\<lambda>i. c_data (m_cells q ! cell_of q (m_deq q + of_nat i))) [0..<unat (m_enq q - m_deq q)]"

subsection \<open>Interleaved producers and one consumer\<close>

datatype 'a mp_pc =
    MIdle
  | MLoop 'a u64        \<comment> \<open>about to read the sequence number of the cell of a position it loaded\<close>
  | MSeen 'a u64        \<comment> \<open>saw that cell free, about to exchange the enqueue position\<close>
  | MClaimed 'a nat     \<comment> \<open>owns a cell, about to fill it\<close>
  | MWritten 'a nat     \<comment> \<open>filled it, about to commit\<close>
  | MCommit 'a nat u64  \<comment> \<open>loaded the sequence number of its cell, about to store the next one\<close>

record 'a mpsc_sys =
  ms_q :: "'a mpsc"
  ms_p :: "nat \<Rightarrow> 'a mp_pc"
  ms_c :: consumer_pc
  ms_log :: "(nat \<times> 'a) list"
  ms_popped :: "'a list"

definition mp_goto :: "'a mpsc_sys \<Rightarrow> nat \<Rightarrow> 'a mp_pc \<Rightarrow> 'a mpsc_sys" where
  "mp_goto s t pc = s\<lparr>ms_p := (ms_p s)(t := pc)\<rparr>"

inductive mpsc_step :: "'a mpsc_sys \<Rightarrow> 'a mpsc_sys \<Rightarrow> bool" where
  load_pos: "ms_p s t = MIdle \<Longrightarrow> P \<le> length (ms_log s) \<Longrightarrow>
    mpsc_step s (mp_goto s t (MLoop v (of_nat P)))"
| see_free: "ms_p s t = MLoop v pos \<Longrightarrow> inspect (ms_q s) pos = Free \<Longrightarrow>
    mpsc_step s (mp_goto s t (MSeen v pos))"
| see_full: "ms_p s t = MLoop v pos \<Longrightarrow> inspect (ms_q s) pos = Full \<Longrightarrow>
    mpsc_step s (mp_goto s t MIdle)"
| see_behind: "ms_p s t = MLoop v pos \<Longrightarrow> inspect (ms_q s) pos = Behind \<Longrightarrow> P \<le> length (ms_log s) \<Longrightarrow>
    mpsc_step s (mp_goto s t (MLoop v (of_nat P)))"
| cas_ok: "ms_p s t = MSeen v pos \<Longrightarrow> m_enq (ms_q s) = pos \<Longrightarrow>
    mpsc_step s (mp_goto s t (MClaimed v (cell_of (ms_q s) pos))
      \<lparr>ms_q := (ms_q s)\<lparr>m_enq := pos + 1\<rparr>, ms_log := ms_log s @ [(t, v)]\<rparr>)"
| cas_fail: "ms_p s t = MSeen v pos \<Longrightarrow> P \<le> length (ms_log s) \<Longrightarrow>
    mpsc_step s (mp_goto s t (MLoop v (of_nat P)))"
| fill: "ms_p s t = MClaimed v i \<Longrightarrow>
    mpsc_step s (mp_goto s t (MWritten v i)\<lparr>ms_q := set_data (ms_q s) i v\<rparr>)"
| commit_load: "ms_p s t = MWritten v i \<Longrightarrow>
    mpsc_step s (mp_goto s t (MCommit v i (seq_at (ms_q s) i)))"
| commit_store: "ms_p s t = MCommit v i w \<Longrightarrow>
    mpsc_step s (mp_goto s t MIdle\<lparr>ms_q := set_seq (ms_q s) i (w + 1)\<rparr>)"
| m_front: "ms_c s = CIdle \<Longrightarrow> mpsc_front (ms_q s) = Some i \<Longrightarrow>
    mpsc_step s (s\<lparr>ms_c := CFront i\<rparr>)"
| m_pop: "ms_c s = CFront i \<Longrightarrow>
    mpsc_step s (s\<lparr>ms_q := mpsc_pop (ms_q s), ms_c := CIdle,
                   ms_popped := ms_popped s @ [c_data (m_cells (ms_q s) ! i)]\<rparr>)"

definition mpsc_init :: "'a \<Rightarrow> nat \<Rightarrow> 'a mpsc_sys" where
  "mpsc_init dflt capacity =
     \<lparr>ms_q = mpsc_new dflt capacity, ms_p = (\<lambda>_. MIdle), ms_c = CIdle, ms_log = [], ms_popped = []\<rparr>"

inductive mpsc_reachable :: "'a \<Rightarrow> nat \<Rightarrow> 'a mpsc_sys \<Rightarrow> bool" for dflt capacity where
  m_start: "mpsc_reachable dflt capacity (mpsc_init dflt capacity)"
| m_step: "mpsc_reachable dflt capacity s \<Longrightarrow> mpsc_step s t \<Longrightarrow> mpsc_reachable dflt capacity t"

subsection \<open>Representation: positions as unbounded counters\<close>

lemma sint_of_nat:
  assumes "k < 2 ^ 63"
  shows "sint (of_nat k :: u64) = int k"
proof -
  have "sint (of_nat k :: u64) = signed_take_bit 63 (int k)" by (simp add: signed_of_nat)
  also have "\<dots> = int k" using assms by (intro signed_take_bit_int_eq_self) simp_all
  finally show ?thesis .
qed

lemma seq_diff_nat: "a < 2 ^ 63 \<Longrightarrow> b < 2 ^ 63 \<Longrightarrow> seq_diff (of_nat a) (of_nat b) = int a - int b"
  by (simp add: seq_diff_def sint_of_nat)

lemma of_nat_u64_inj: "a < 2 ^ 63 \<Longrightarrow> b < 2 ^ 63 \<Longrightarrow> (of_nat a :: u64) = of_nat b \<longleftrightarrow> a = b"
  by (metis sint_of_nat of_nat_eq_iff)

lemma window_hit:
  assumes "0 < (c::nat)"
  shows "\<exists>k. H \<le> k \<and> k < H + c \<and> k mod c = P mod c"
proof (induction H)
  case 0
  show ?case using assms by (intro exI [of _ "P mod c"]) simp
next
  case (Suc H)
  then obtain k where k: "H \<le> k" "k < H + c" "k mod c = P mod c" by blast
  show ?case
  proof (cases "k = H")
    case True
    then show ?thesis using k assms by (intro exI [of _ "k + c"]) simp
  next
    case False
    then show ?thesis using k by (intro exI [of _ k]) simp
  qed
qed

lemma window_eq:
  assumes "(H::nat) \<le> a" "a < H + c" "H \<le> b" "b < H + c" "a mod c = b mod c"
  shows "a = b"
  using assms mod_window_neq [of a b c] mod_window_neq [of b a c] by (cases a b rule: linorder_cases) auto

definition mring_ok :: "'a mpsc \<Rightarrow> bool" where
  "mring_ok q \<longleftrightarrow> is_pow2 (m_cap q) \<and> 2 \<le> m_cap q \<and> m_cap q \<le> 2 ^ 63 \<and>
     m_mask q = of_nat (m_cap q) - 1 \<and> length (m_cells q) = m_cap q"

definition cell_ok :: "'a mpsc \<Rightarrow> (nat \<times> 'a) list \<Rightarrow> nat \<Rightarrow> bool" where
  \<comment> \<open>the cell of position \<open>k\<close>: free for it, claimed for it, or holding its committed value\<close>
  "cell_ok q lg k \<longleftrightarrow>
     seq_at q (k mod m_cap q) = of_nat k \<or>
     k < length lg \<and> seq_at q (k mod m_cap q) = of_nat (Suc k) \<and>
       c_data (m_cells q ! (k mod m_cap q)) = snd (lg ! k)"

definition mrep :: "'a mpsc \<Rightarrow> nat \<Rightarrow> (nat \<times> 'a) list \<Rightarrow> bool" where
  \<comment> \<open>\<open>H\<close> elements were taken and \<open>lg\<close> lists the claims in order; the ring never overfills\<close>
  "mrep q H lg \<longleftrightarrow> mring_ok q \<and> m_enq q = of_nat (length lg) \<and> m_deq q = of_nat H \<and>
     H \<le> length lg \<and> length lg \<le> H + m_cap q \<and> length lg + m_cap q < 2 ^ 63 \<and>
     (\<forall>k. H \<le> k \<longrightarrow> k < H + m_cap q \<longrightarrow> cell_ok q lg k)"

lemma cell_of_nat: "mring_ok q \<Longrightarrow> cell_of q (of_nat i) = i mod m_cap q"
  by (simp add: mring_ok_def cell_of_def mask_index)

lemma mrep_cell: "mrep q H lg \<Longrightarrow> H \<le> k \<Longrightarrow> k < H + m_cap q \<Longrightarrow> cell_ok q lg k"
  by (simp add: mrep_def)

lemma mrep_mod_lt: "mrep q H lg \<Longrightarrow> k mod m_cap q < length (m_cells q)"
  by (simp add: mrep_def mring_ok_def)

lemma committed_data:
  assumes "mrep q H lg" and "H \<le> k" and "k < length lg" and "seq_at q (k mod m_cap q) = of_nat (Suc k)"
  shows "c_data (m_cells q ! (k mod m_cap q)) = snd (lg ! k)"
proof -
  have b: "length lg \<le> H + m_cap q" "length lg + m_cap q < 2 ^ 63" using assms(1) by (auto simp: mrep_def)
  have "(of_nat k :: u64) \<noteq> of_nat (Suc k)" using of_nat_u64_inj [of k "Suc k"] assms(3) b by linarith
  then show ?thesis
    using mrep_cell [OF assms(1,2)] assms(3,4) b(1) by (auto simp: cell_ok_def simp del: of_nat_Suc)
qed

lemma inspect_nat:
  assumes "mrep q H lg" and "P \<le> length lg"
  shows "inspect q (of_nat P) =
    (if P < H then Behind else if P = H + m_cap q then Full
     else if seq_at q (P mod m_cap q) = of_nat P then Free else Behind)"
proof -
  let ?c = "m_cap q"
  have c: "2 \<le> ?c" "mring_ok q" and b: "length lg \<le> H + ?c" "length lg + ?c < 2 ^ 63" "H \<le> length lg"
    using assms(1) by (auto simp: mrep_def mring_ok_def)
  have "0 < ?c" using c by simp
  then obtain k where k: "H \<le> k" "k < H + ?c" "k mod ?c = P mod ?c" using window_hit [of ?c H P] by blast
  obtain s where s: "seq_at q (P mod ?c) = of_nat s" "s = k \<or> s = Suc k" "s < 2 ^ 63"
  proof -
    consider "seq_at q (P mod ?c) = of_nat k" | "seq_at q (P mod ?c) = of_nat (Suc k)" "k < length lg"
      using mrep_cell [OF assms(1) k(1,2)] k(3) by (auto simp: cell_ok_def simp del: of_nat_Suc)
    then show thesis using k b that [of k] that [of "Suc k"] by cases (auto simp del: of_nat_Suc)
  qed
  have d: "seq_diff (seq_at q (cell_of q (of_nat P))) (of_nat P) = int s - int P"
    using s(1,3) assms(2) b by (simp add: cell_of_nat [OF c(2)] seq_diff_nat)
  consider "P < H" | "P = H + ?c" | "H \<le> P" "P < H + ?c" using assms(2) b by linarith
  then show ?thesis
  proof cases
    case 1
    then show ?thesis using d s(2) k(1) by (auto simp: inspect_def)
  next
    case 2
    then have "k = H" using window_eq [of H k ?c H] k c by simp
    then show ?thesis using 2 d s(2) c(1) by (auto simp: inspect_def)
  next
    case 3
    then have "k = P" using window_eq [of H k ?c P] k by simp
    then show ?thesis using 3 d s assms(2) b of_nat_u64_inj [of s P] by (auto simp: inspect_def)
  qed
qed

lemma front_nat:
  assumes "mrep q H lg"
  shows "mpsc_front q =
    (if H < length lg \<and> seq_at q (H mod m_cap q) = of_nat (Suc H) then Some (H mod m_cap q) else None)"
proof -
  have c: "mring_ok q" "m_deq q = of_nat H" "length lg + m_cap q < 2 ^ 63" "H \<le> length lg" "2 \<le> m_cap q"
    using assms by (auto simp: mrep_def mring_ok_def)
  have h: "H < 2 ^ 63" "Suc H < 2 ^ 63" using c by auto
  have i: "cell_of q (m_deq q) = H mod m_cap q" using cell_of_nat [OF c(1), of H] c(2) by simp
  have suc: "m_deq q + 1 = of_nat (Suc H)" using c(2) by simp
  have "cell_ok q lg H" using mrep_cell [OF assms, of H] c(5) by simp
  then consider "seq_at q (H mod m_cap q) = of_nat H"
    | "H < length lg" "seq_at q (H mod m_cap q) = of_nat (Suc H)" by (auto simp: cell_ok_def)
  then show ?thesis
    unfolding mpsc_front_def Let_def i suc
  proof cases
    case 1
    have "(of_nat H :: u64) \<noteq> of_nat (Suc H)" using of_nat_u64_inj [OF h] by simp
    then show "(if seq_diff (seq_at q (H mod m_cap q)) (of_nat (Suc H)) < 0 then None else Some (H mod m_cap q)) =
      (if H < length lg \<and> seq_at q (H mod m_cap q) = of_nat (Suc H) then Some (H mod m_cap q) else None)"
      using 1 seq_diff_nat [OF h] by (simp del: of_nat_Suc)
  next
    case 2
    then show "(if seq_diff (seq_at q (H mod m_cap q)) (of_nat (Suc H)) < 0 then None else Some (H mod m_cap q)) =
      (if H < length lg \<and> seq_at q (H mod m_cap q) = of_nat (Suc H) then Some (H mod m_cap q) else None)"
      using seq_diff_nat [OF h(2) h(2)] by (simp del: of_nat_Suc)
  qed
qed

subsection \<open>Interleaved use: claims are delivered in order, once each\<close>

definition holds_cell :: "'a mpsc \<Rightarrow> nat \<Rightarrow> (nat \<times> 'a) list \<Rightarrow> nat \<Rightarrow> 'a \<Rightarrow> nat \<Rightarrow> bool" where
  \<comment> \<open>thread \<open>t\<close> owns cell \<open>i\<close> for one of the positions that were claimed and not committed yet\<close>
  "holds_cell q H lg t v i \<longleftrightarrow> (\<exists>P. H \<le> P \<and> P < length lg \<and> i = P mod m_cap q \<and> lg ! P = (t, v) \<and>
     seq_at q i = of_nat P)"

fun mp_ok :: "'a mpsc \<Rightarrow> nat \<Rightarrow> (nat \<times> 'a) list \<Rightarrow> nat \<Rightarrow> 'a mp_pc \<Rightarrow> bool" where
  "mp_ok q H lg t MIdle = True"
| "mp_ok q H lg t (MLoop v pos) = (\<exists>P\<le>length lg. pos = of_nat P)"
| "mp_ok q H lg t (MSeen v pos) = (\<exists>P\<le>length lg. pos = of_nat P \<and> P < H + m_cap q)"
| "mp_ok q H lg t (MClaimed v i) = holds_cell q H lg t v i"
| "mp_ok q H lg t (MWritten v i) = (holds_cell q H lg t v i \<and> c_data (m_cells q ! i) = v)"
| "mp_ok q H lg t (MCommit v i w) = (holds_cell q H lg t v i \<and> c_data (m_cells q ! i) = v \<and> w = seq_at q i)"

fun owned :: "'a mp_pc \<Rightarrow> nat option" where
  "owned (MClaimed v i) = Some i"
| "owned (MWritten v i) = Some i"
| "owned (MCommit v i w) = Some i"
| "owned _ = None"

fun mc_ok :: "'a mpsc \<Rightarrow> nat \<Rightarrow> (nat \<times> 'a) list \<Rightarrow> consumer_pc \<Rightarrow> bool" where
  "mc_ok q H lg CIdle = True"
| "mc_ok q H lg (CFront i) = (H < length lg \<and> i = H mod m_cap q \<and> seq_at q i = of_nat (Suc H))"

definition msys_inv :: "'a mpsc_sys \<Rightarrow> bool" where
  "msys_inv s \<longleftrightarrow> mrep (ms_q s) (length (ms_popped s)) (ms_log s) \<and>
     ms_popped s = map snd (take (length (ms_popped s)) (ms_log s)) \<and>
     (\<forall>t. mp_ok (ms_q s) (length (ms_popped s)) (ms_log s) t (ms_p s t)) \<and>
     mc_ok (ms_q s) (length (ms_popped s)) (ms_log s) (ms_c s)"

lemma set_simps [simp]:
  "m_cap (set_seq q i w) = m_cap q" "m_enq (set_seq q i w) = m_enq q" "m_deq (set_seq q i w) = m_deq q"
  "m_cap (set_data q i v) = m_cap q" "m_enq (set_data q i v) = m_enq q" "m_deq (set_data q i v) = m_deq q"
  "mring_ok (set_seq q i w) = mring_ok q" "mring_ok (set_data q i v) = mring_ok q"
  by (simp_all add: set_seq_def set_data_def mring_ok_def)

lemma set_cells:
  "j < length (m_cells q) \<Longrightarrow> m_cells (set_seq q i w) ! j =
     (if i = j then (m_cells q ! j)\<lparr>c_seq := w\<rparr> else m_cells q ! j)"
  "j < length (m_cells q) \<Longrightarrow> m_cells (set_data q i v) ! j =
     (if i = j then (m_cells q ! j)\<lparr>c_data := v\<rparr> else m_cells q ! j)"
  by (auto simp: set_seq_def set_data_def nth_list_update)

lemma cell_ok_other:
  assumes "cell_ok q lg k" and "m_cap q' = m_cap q"
    and "m_cells q' ! (k mod m_cap q) = m_cells q ! (k mod m_cap q)"
  shows "cell_ok q' lg k"
  using assms by (simp add: cell_ok_def seq_at_def)

lemma mrep_update:
  \<comment> \<open>changing the one cell of a claimed position keeps the others\<close>
  assumes r: "mrep q H lg" and P: "H \<le> P" "P < H + m_cap q"
    and q': "mring_ok q'" "m_cap q' = m_cap q" "m_enq q' = m_enq q" "m_deq q' = m_deq q"
    and same: "\<And>j. j < length (m_cells q) \<Longrightarrow> j \<noteq> P mod m_cap q \<Longrightarrow> m_cells q' ! j = m_cells q ! j"
    and ok: "cell_ok q' lg P"
  shows "mrep q' H lg"
proof -
  have "cell_ok q' lg k" if k: "H \<le> k" "k < H + m_cap q" for k
  proof (cases "k = P")
    case False
    then have "k mod m_cap q \<noteq> P mod m_cap q" using window_eq [of H k "m_cap q" P] k P by blast
    then show ?thesis
      using cell_ok_other [OF mrep_cell [OF r k] q'(2)] same mrep_mod_lt [OF r] by blast
  qed (use ok in simp)
  then show ?thesis using r q' by (simp add: mrep_def)
qed

lemma mrep_claim:
  assumes "mrep q H lg" and "length lg < H + m_cap q" and "Suc (length lg) + m_cap q < 2 ^ 63"
  shows "mrep (q\<lparr>m_enq := m_enq q + 1\<rparr>) H (lg @ [x])"
proof -
  have "cell_ok (q\<lparr>m_enq := m_enq q + 1\<rparr>) (lg @ [x]) k" if "cell_ok q lg k" for k
    using that by (auto simp: cell_ok_def seq_at_def nth_append)
  then show ?thesis using assms by (auto simp: mrep_def mring_ok_def)
qed

lemma mrep_data:
  assumes "mrep q H lg" and "holds_cell q H lg t v i"
  shows "mrep (set_data q i w) H lg"
proof -
  obtain P where P: "H \<le> P" "P < length lg" "i = P mod m_cap q" "seq_at q i = of_nat P"
    using assms(2) by (auto simp: holds_cell_def)
  have b: "P < H + m_cap q" "mring_ok q" using P assms(1) by (auto simp: mrep_def)
  have i: "i < length (m_cells q)" using mrep_mod_lt [OF assms(1)] P(3) by simp
  have "cell_ok (set_data q i w) lg P" using P i by (simp add: cell_ok_def seq_at_def set_cells)
  then show ?thesis
    by (intro mrep_update [OF assms(1) P(1) b(1)]) (use b P(3) in \<open>simp_all add: set_cells\<close>)
qed

lemma mrep_commit:
  assumes "mrep q H lg" and "holds_cell q H lg t v i" and "c_data (m_cells q ! i) = v"
  shows "mrep (set_seq q i (seq_at q i + 1)) H lg"
proof -
  obtain P where P: "H \<le> P" "P < length lg" "i = P mod m_cap q" "seq_at q i = of_nat P" "lg ! P = (t, v)"
    using assms(2) by (auto simp: holds_cell_def)
  have b: "P < H + m_cap q" "mring_ok q" using P assms(1) by (auto simp: mrep_def)
  have i: "i < length (m_cells q)" using mrep_mod_lt [OF assms(1)] P(3) by simp
  have "cell_ok (set_seq q i (seq_at q i + 1)) lg P"
    using P i assms(3) by (simp add: cell_ok_def set_cells) (simp add: seq_at_def set_cells)
  then show ?thesis
    by (intro mrep_update [OF assms(1) P(1) b(1)]) (use b P(3) in \<open>simp_all add: set_cells\<close>)
qed

lemma pop_cells:
  assumes "mrep q H lg"
  shows "m_cap (mpsc_pop q) = m_cap q" "mring_ok (mpsc_pop q)" "m_enq (mpsc_pop q) = m_enq q"
    "m_deq (mpsc_pop q) = of_nat (Suc H)"
    "m_cells (mpsc_pop q) = m_cells (set_seq q (H mod m_cap q) (of_nat (H + m_cap q)))"
proof -
  have c: "mring_ok q" "m_deq q = of_nat H" using assms by (auto simp: mrep_def)
  have i: "cell_of q (of_nat H) = H mod m_cap q" using cell_of_nat [OF c(1), of H] .
  show "m_cap (mpsc_pop q) = m_cap q" "mring_ok (mpsc_pop q)" "m_enq (mpsc_pop q) = m_enq q"
    "m_deq (mpsc_pop q) = of_nat (Suc H)"
    "m_cells (mpsc_pop q) = m_cells (set_seq q (H mod m_cap q) (of_nat (H + m_cap q)))"
    using c by (simp_all add: mpsc_pop_def Let_def mring_ok_def set_seq_def i)
qed

lemma mrep_pop:
  assumes r: "mrep q H lg" and h: "H < length lg"
  shows "mrep (mpsc_pop q) (Suc H) lg"
proof -
  note p = pop_cells [OF r]
  let ?c = "m_cap q"
  have "cell_ok (mpsc_pop q) lg k" if k: "Suc H \<le> k" "k < Suc H + ?c" for k
  proof (cases "k = H + ?c")
    case True
    then have "m_cells (mpsc_pop q) ! (k mod ?c) = (m_cells q ! (k mod ?c))\<lparr>c_seq := of_nat k\<rparr>"
      using mrep_mod_lt [OF r, of H] by (simp only: p set_cells) (simp add: set_cells)
    then show ?thesis by (simp add: cell_ok_def seq_at_def p)
  next
    case False
    then have w: "H \<le> k" "k < H + ?c" using k by auto
    then have "k mod ?c \<noteq> H mod ?c" using window_eq [of H k ?c H] k by auto
    then have "m_cells (mpsc_pop q) ! (k mod ?c) = m_cells q ! (k mod ?c)"
      using mrep_mod_lt [OF r, of k] by (simp only: p set_cells) (simp add: set_cells)
    then show ?thesis by (rule cell_ok_other [OF mrep_cell [OF r w] p(1)])
  qed
  then show ?thesis using r h p by (simp add: mrep_def del: of_nat_Suc)
qed

lemma holds_distinct:
  assumes "mrep q H lg" and "holds_cell q H lg t v i" and "holds_cell q H lg u w i"
  shows "t = u"
proof -
  obtain P Q where "H \<le> P" "P < length lg" "lg ! P = (t, v)" "H \<le> Q" "Q < length lg" "lg ! Q = (u, w)"
      "P mod m_cap q = Q mod m_cap q" using assms(2,3) by (auto simp: holds_cell_def)
  moreover have "length lg \<le> H + m_cap q" using assms(1) by (simp add: mrep_def)
  ultimately show ?thesis using window_eq [of H P "m_cap q" Q] by fastforce
qed

lemma holds_not_front:
  assumes "mrep q H lg" and "holds_cell q H lg t v i" and "mc_ok q H lg (CFront i)"
  shows False
proof -
  obtain P where P: "H \<le> P" "P < length lg" "i = P mod m_cap q" "seq_at q i = of_nat P"
    using assms(2) by (auto simp: holds_cell_def)
  have b: "length lg \<le> H + m_cap q" "length lg + m_cap q < 2 ^ 63" using assms(1) by (auto simp: mrep_def)
  have "P = H" using window_eq [of H P "m_cap q" H] P b assms(3) by auto
  then show False using of_nat_u64_inj [of H "Suc H"] P assms(3) b by (simp del: of_nat_Suc)
qed

lemma owned_holds: "mp_ok q H lg t pc \<Longrightarrow> owned pc = Some i \<Longrightarrow> \<exists>v. holds_cell q H lg t v i"
  by (cases pc) auto

lemma mp_ok_frame:
  assumes "mp_ok q H lg t pc" and "m_cap q' = m_cap q"
    and "\<And>i. owned pc = Some i \<Longrightarrow> m_cells q' ! i = m_cells q ! i"
  shows "mp_ok q' H (lg @ xs) t pc"
proof -
  have "holds_cell q' H (lg @ xs) t v i" if "holds_cell q H lg t v i" "m_cells q' ! i = m_cells q ! i" for v i
    using that assms(2) by (auto simp: holds_cell_def seq_at_def nth_append)
  then show ?thesis using assms by (cases pc) (auto simp: seq_at_def intro: trans_le_add1)
qed

lemma mp_ok_pop:
  assumes "mp_ok q H lg t pc" and "owned pc \<noteq> Some (H mod m_cap q)"
  shows "mp_ok q (Suc H) lg t pc"
proof -
  have "holds_cell q (Suc H) lg t v i" if "holds_cell q H lg t v i" "i \<noteq> H mod m_cap q" for v i
    using that by (auto simp: holds_cell_def) (metis Suc_leI le_neq_implies_less)
  then show ?thesis using assms by (cases pc) (auto intro: less_SucI)
qed

lemma mp_goto_simps [simp]:
  "ms_q (mp_goto s t pc) = ms_q s" "ms_p (mp_goto s t pc) = (ms_p s)(t := pc)" "ms_c (mp_goto s t pc) = ms_c s"
  "ms_log (mp_goto s t pc) = ms_log s" "ms_popped (mp_goto s t pc) = ms_popped s"
  by (simp_all add: mp_goto_def)

lemma goto_inv:
  "msys_inv s \<Longrightarrow> mp_ok (ms_q s) (length (ms_popped s)) (ms_log s) t pc \<Longrightarrow> msys_inv (mp_goto s t pc)"
  by (simp add: msys_inv_def)

lemma reload_inv: "msys_inv s \<Longrightarrow> P \<le> length (ms_log s) \<Longrightarrow> msys_inv (mp_goto s t (MLoop v (of_nat P)))"
  by (rule goto_inv) auto

lemma owner_step_inv:
  \<comment> \<open>a thread changes the one cell it owns\<close>
  assumes inv: "msys_inv s" and own: "holds_cell (ms_q s) (length (ms_popped s)) (ms_log s) t v i"
    and r: "mrep q' (length (ms_popped s)) (ms_log s)" and c: "m_cap q' = m_cap (ms_q s)"
    and same: "\<And>j. j < length (m_cells (ms_q s)) \<Longrightarrow> j \<noteq> i \<Longrightarrow> m_cells q' ! j = m_cells (ms_q s) ! j"
    and pc: "mp_ok q' (length (ms_popped s)) (ms_log s) t pc"
  shows "msys_inv (mp_goto s t pc\<lparr>ms_q := q'\<rparr>)"
proof -
  let ?q = "ms_q s" and ?H = "length (ms_popped s)" and ?lg = "ms_log s"
  have rep: "mrep ?q ?H ?lg" and pcs: "\<And>u. mp_ok ?q ?H ?lg u (ms_p s u)" and cons: "mc_ok ?q ?H ?lg (ms_c s)"
    and popped: "ms_popped s = map snd (take ?H ?lg)" using inv by (auto simp: msys_inv_def)
  have lt: "j < length (m_cells ?q)" if "holds_cell ?q ?H ?lg u w j" for u w j
    using that mrep_mod_lt [OF rep] by (auto simp: holds_cell_def)
  have "mp_ok q' ?H ?lg u (ms_p s u)" if "u \<noteq> t" for u
  proof -
    have "m_cells q' ! j = m_cells ?q ! j" if "owned (ms_p s u) = Some j" for j
      using owned_holds [OF pcs that] holds_distinct [OF rep own, of u] \<open>u \<noteq> t\<close> same [OF lt] by blast
    then show ?thesis using mp_ok_frame [OF pcs c, of u "[]"] by simp
  qed
  moreover have "mc_ok q' ?H ?lg (ms_c s)"
  proof (cases "ms_c s")
    case (CFront j)
    then have "j \<noteq> i" using holds_not_front [OF rep own] cons by auto
    then show ?thesis using CFront cons c same [of j] mrep_mod_lt [OF rep, of ?H] by (auto simp: seq_at_def)
  qed simp
  ultimately show ?thesis using r popped pc by (simp add: msys_inv_def)
qed

lemma cas_inv:
  assumes inv: "msys_inv s" and pc: "ms_p s t = MSeen v (m_enq (ms_q s))"
    and room: "Suc (length (ms_log s)) + m_cap (ms_q s) < 2 ^ 63"
  shows "msys_inv (mp_goto s t (MClaimed v (cell_of (ms_q s) (m_enq (ms_q s))))
    \<lparr>ms_q := (ms_q s)\<lparr>m_enq := m_enq (ms_q s) + 1\<rparr>, ms_log := ms_log s @ [(t, v)]\<rparr>)"
proof -
  let ?q = "ms_q s" and ?H = "length (ms_popped s)" and ?lg = "ms_log s"
  let ?q' = "?q\<lparr>m_enq := m_enq ?q + 1\<rparr>"
  have rep: "mrep ?q ?H ?lg" and pcs: "\<And>u. mp_ok ?q ?H ?lg u (ms_p s u)" and cons: "mc_ok ?q ?H ?lg (ms_c s)"
    and popped: "ms_popped s = map snd (take ?H ?lg)" using inv by (auto simp: msys_inv_def)
  have q: "mring_ok ?q" "m_enq ?q = of_nat (length ?lg)" "?H \<le> length ?lg" using rep by (auto simp: mrep_def)
  obtain P where P: "P \<le> length ?lg" "of_nat (length ?lg) = (of_nat P :: u64)" "P < ?H + m_cap ?q"
    using pcs [of t] pc q(2) by auto
  have "length ?lg < 2 ^ 63" "P < 2 ^ 63" using P(1) room by linarith+
  then have "length ?lg = P" using P(2) of_nat_u64_inj by blast
  then have lt: "length ?lg < ?H + m_cap ?q" using P(3) by simp
  have r: "mrep ?q' ?H (?lg @ [(t, v)])" by (rule mrep_claim [OF rep lt room])
  have i: "cell_of ?q (m_enq ?q) = length ?lg mod m_cap ?q" using cell_of_nat [OF q(1)] q(2) by simp
  have "cell_ok ?q ?lg (length ?lg)" using mrep_cell [OF rep q(3) lt] .
  then have "seq_at ?q' (cell_of ?q (m_enq ?q)) = of_nat (length ?lg)" by (simp add: i cell_ok_def seq_at_def)
  then have own: "mp_ok ?q' ?H (?lg @ [(t, v)]) t (MClaimed v (cell_of ?q (m_enq ?q)))"
    using q(3) by (simp add: holds_cell_def) (rule exI [of _ "length ?lg"], simp add: i)
  have oth: "mp_ok ?q' ?H (?lg @ [(t, v)]) u (ms_p s u)" for u by (rule mp_ok_frame [OF pcs]) simp_all
  have "mc_ok ?q' ?H (?lg @ [(t, v)]) (ms_c s)" using cons by (cases "ms_c s") (auto simp: seq_at_def)
  then show ?thesis using r own oth popped q(3) by (simp add: msys_inv_def)
qed

lemma pop_inv:
  assumes inv: "msys_inv s" and pc: "ms_c s = CFront i"
  shows "msys_inv (s\<lparr>ms_q := mpsc_pop (ms_q s), ms_c := CIdle,
                   ms_popped := ms_popped s @ [c_data (m_cells (ms_q s) ! i)]\<rparr>)"
proof -
  let ?q = "ms_q s" and ?H = "length (ms_popped s)" and ?lg = "ms_log s"
  have rep: "mrep ?q ?H ?lg" and pcs: "\<And>u. mp_ok ?q ?H ?lg u (ms_p s u)" and cons: "mc_ok ?q ?H ?lg (CFront i)"
    and popped: "ms_popped s = map snd (take ?H ?lg)" using inv pc by (auto simp: msys_inv_def)
  have h: "?H < length ?lg" "i = ?H mod m_cap ?q" "seq_at ?q i = of_nat (Suc ?H)" using cons by auto
  have d: "c_data (m_cells ?q ! i) = snd (?lg ! ?H)" using committed_data [OF rep order_refl h(1)] h by simp
  have "mp_ok (mpsc_pop ?q) (Suc ?H) ?lg u (ms_p s u)" for u
  proof -
    have no: "owned (ms_p s u) \<noteq> Some (?H mod m_cap ?q)"
      using owned_holds [OF pcs [of u]] holds_not_front [OF rep] cons h(2) by blast
    have "m_cells (mpsc_pop ?q) ! j = m_cells ?q ! j" if "owned (ms_p s u) = Some j" for j
    proof -
      have "j < length (m_cells ?q)"
        using owned_holds [OF pcs that] mrep_mod_lt [OF rep] by (auto simp: holds_cell_def)
      then show ?thesis using no that by (auto simp: pop_cells [OF rep] set_cells)
    qed
    then have "mp_ok (mpsc_pop ?q) ?H (?lg @ []) u (ms_p s u)"
      by (rule mp_ok_frame [OF pcs pop_cells(1) [OF rep]])
    then show ?thesis using mp_ok_pop [of "mpsc_pop ?q" ?H ?lg u "ms_p s u"] no by (simp add: pop_cells [OF rep])
  qed
  then show ?thesis
    using mrep_pop [OF rep h(1)] popped d h(1) by (simp add: msys_inv_def take_Suc_conv_app_nth)
qed

inductive_cases mpsc_stepE: "mpsc_step s s'"

lemma mpsc_step_inv:
  assumes "mpsc_step s s'" and "msys_inv s" and "length (ms_log s') + m_cap (ms_q s) < 2 ^ 63"
  shows "msys_inv s' \<and> m_cap (ms_q s') = m_cap (ms_q s) \<and> length (ms_log s) \<le> length (ms_log s')"
proof -
  let ?q = "ms_q s" and ?H = "length (ms_popped s)" and ?lg = "ms_log s"
  have rep: "mrep ?q ?H ?lg" and pcs: "\<And>u pc. ms_p s u = pc \<Longrightarrow> mp_ok ?q ?H ?lg u pc"
    using assms(2) by (auto simp: msys_inv_def)
  from assms(1) show ?thesis
  proof cases
    case (load_pos t P v)
    then show ?thesis using reload_inv [OF assms(2)] by simp
  next
    case (see_free t v pos)
    then obtain P where P: "P \<le> length ?lg" "pos = of_nat P" using pcs [of t] by auto
    have "?H \<le> P" "P \<noteq> ?H + m_cap ?q" using see_free(3) inspect_nat [OF rep P(1)] P(2) by (auto split: if_splits)
    moreover have "length ?lg \<le> ?H + m_cap ?q" using rep by (simp add: mrep_def)
    ultimately have "mp_ok ?q ?H ?lg t (MSeen v pos)" using P by auto
    then show ?thesis using see_free(1) goto_inv [OF assms(2)] by simp
  next
    case (see_full t v pos)
    then show ?thesis using goto_inv [OF assms(2)] by simp
  next
    case (see_behind t v pos P)
    then show ?thesis using reload_inv [OF assms(2)] by simp
  next
    case (cas_ok t v pos)
    then show ?thesis using cas_inv [OF assms(2), of t v] assms(3) by simp
  next
    case (cas_fail t v pos P)
    then show ?thesis using reload_inv [OF assms(2)] by simp
  next
    case (fill t v i)
    have own: "holds_cell ?q ?H ?lg t v i" using pcs [OF fill(2)] by simp
    then have "i < length (m_cells ?q)" using mrep_mod_lt [OF rep] by (auto simp: holds_cell_def)
    then have "mp_ok (set_data ?q i v) ?H ?lg t (MWritten v i)"
      using own by (auto simp: holds_cell_def set_cells seq_at_def)
    then show ?thesis
      unfolding fill(1) using owner_step_inv [OF assms(2) own mrep_data [OF rep own]] by (simp add: set_cells)
  next
    case (commit_load t v i)
    then show ?thesis using goto_inv [OF assms(2)] pcs [of t] by simp
  next
    case (commit_store t v i w)
    have own: "holds_cell ?q ?H ?lg t v i" "c_data (m_cells ?q ! i) = v" "w = seq_at ?q i"
      using pcs [OF commit_store(2)] by auto
    then show ?thesis
      unfolding commit_store(1)
      using owner_step_inv [OF assms(2) own(1) mrep_commit [OF rep own(1,2)], of MIdle] by (simp add: set_cells)
  next
    case (m_front i)
    then show ?thesis
      using assms(2) front_nat [OF rep] by (auto simp: msys_inv_def simp del: of_nat_Suc split: if_splits)
  next
    case (m_pop i)
    then show ?thesis using pop_inv [OF assms(2)] pop_cells(1) [OF rep] by simp
  qed
qed

lemma mpsc_new_rep:
  assumes "capacity \<le> 2 ^ 61"
  shows "mrep (mpsc_new d capacity) 0 []" and "m_cap (mpsc_new d capacity) < 2 ^ 62"
proof -
  let ?c = "if capacity < 2 then 2 else capacity" and ?q = "mpsc_new d capacity"
  have n: "next_pow2 ?c < 2 * ?c" "?c \<le> next_pow2 ?c" by (rule next_pow2_lt) (simp, rule next_pow2_ge)
  have cap: "m_cap ?q = next_pow2 ?c" by (simp add: mpsc_new_def Let_def)
  have "2 * ?c \<le> 2 ^ 62" using assms by simp
  then show b: "m_cap ?q < 2 ^ 62" using n(1) cap by linarith
  have "2 \<le> ?c" by simp
  then have "2 \<le> m_cap ?q" using n(2) cap by linarith
  moreover have "cell_ok ?q [] k" if "k < m_cap ?q" for k
    using that by (simp add: cell_ok_def seq_at_def cap) (simp add: mpsc_new_def Let_def)
  moreover have "is_pow2 (m_cap ?q)" using next_pow2_pow2 cap by simp
  ultimately show "mrep ?q 0 []"
    using b by (simp add: mrep_def mring_ok_def) (simp add: mpsc_new_def Let_def)
qed

lemma msys_inv_safe:
  assumes "msys_inv s"
  shows "prefix (ms_popped s) (map snd (ms_log s))"
    and "length (ms_log s) \<le> length (ms_popped s) + m_cap (ms_q s)"
    and "owned (ms_p s t) = Some i \<Longrightarrow> owned (ms_p s u) = Some i \<Longrightarrow> t = u"
    and "owned (ms_p s t) = Some i \<Longrightarrow> ms_c s \<noteq> CFront i"
proof -
  let ?q = "ms_q s" and ?H = "length (ms_popped s)" and ?lg = "ms_log s"
  have rep: "mrep ?q ?H ?lg" and pcs: "\<And>u. mp_ok ?q ?H ?lg u (ms_p s u)" and cons: "mc_ok ?q ?H ?lg (ms_c s)"
    and popped: "ms_popped s = map snd (take ?H ?lg)" using assms by (auto simp: msys_inv_def)
  show "prefix (ms_popped s) (map snd ?lg)" by (subst popped) (simp add: take_is_prefix flip: take_map)
  show "length ?lg \<le> ?H + m_cap ?q" using rep by (simp add: mrep_def)
  show "t = u" if "owned (ms_p s t) = Some i" "owned (ms_p s u) = Some i"
    using owned_holds [OF pcs that(1)] owned_holds [OF pcs that(2)] holds_distinct [OF rep] by blast
  show "ms_c s \<noteq> CFront i" if "owned (ms_p s t) = Some i"
    using owned_holds [OF pcs that] holds_not_front [OF rep] cons by metis
qed

subsection \<open>Use by one thread: a bounded FIFO\<close>

definition mpsc_fit :: "nat \<Rightarrow> 'a mpsc \<Rightarrow> bool" where
  \<comment> \<open>every claim is committed, and \<open>n\<close> more claims keep the positions within the signed range\<close>
  "mpsc_fit n q \<longleftrightarrow> (\<exists>H lg. mrep q H lg \<and> length lg + n + m_cap q < 2 ^ 63 \<and>
     (\<forall>k. H \<le> k \<longrightarrow> k < length lg \<longrightarrow> seq_at q (k mod m_cap q) = of_nat (Suc k)))"

lemma mpsc_items_rep:
  assumes r: "mrep q H lg" and com: "\<forall>k. H \<le> k \<longrightarrow> k < length lg \<longrightarrow> seq_at q (k mod m_cap q) = of_nat (Suc k)"
  shows "mpsc_items q = map snd (drop H lg)"
proof (rule nth_equalityI)
  have b: "length lg \<le> H + m_cap q" "length lg + m_cap q < 2 ^ 63" "H \<le> length lg" "mring_ok q"
      "m_enq q = of_nat (length lg)" "m_deq q = of_nat H"
    using r by (auto simp: mrep_def)
  have n: "unat (m_enq q - m_deq q) = length lg - H" using unat_of_nat_diff [OF b(3)] b by simp
  then show len: "length (mpsc_items q) = length (map snd (drop H lg))" by (simp add: mpsc_items_def)
  fix i assume "i < length (mpsc_items q)"
  then have i: "H + i < length lg" using len by simp
  have "c_data (m_cells q ! ((H + i) mod m_cap q)) = snd (lg ! (H + i))"
    using committed_data [OF r, of "H + i"] com [rule_format, of "H + i"] i by simp
  moreover have "cell_of q (m_deq q + of_nat i) = (H + i) mod m_cap q"
    using cell_of_nat [OF b(4), of "H + i"] b(6) by simp
  ultimately show "mpsc_items q ! i = map snd (drop H lg) ! i" using i b(3) by (simp add: mpsc_items_def n)
qed

lemma mpsc_fitI:
  "mrep q H lg \<Longrightarrow> length lg + n + m_cap q < 2 ^ 63 \<Longrightarrow>
    (\<forall>k. H \<le> k \<longrightarrow> k < length lg \<longrightarrow> seq_at q (k mod m_cap q) = of_nat (Suc k)) \<Longrightarrow> mpsc_fit n q"
  unfolding mpsc_fit_def by blast

subsection \<open>Nothing is lost: a claimed cell that is not committed has its owner\<close>

definition pend_ok :: "'a mpsc_sys \<Rightarrow> bool" where
  "pend_ok s \<longleftrightarrow> (\<forall>k. length (ms_popped s) \<le> k \<longrightarrow> k < length (ms_log s) \<longrightarrow>
     seq_at (ms_q s) (k mod m_cap (ms_q s)) = of_nat k \<longrightarrow>
     owned (ms_p s (fst (ms_log s ! k))) = Some (k mod m_cap (ms_q s)))"

lemma pend_goto:
  assumes "pend_ok s" and "owned pc = owned (ms_p s t)"
  shows "pend_ok (mp_goto s t pc)"
  using assms by (auto simp: pend_ok_def)

lemma pend_commit:
  assumes inv: "msys_inv s" and p: "pend_ok s" and pc: "ms_p s t = MCommit v i w"
  shows "pend_ok (mp_goto s t MIdle\<lparr>ms_q := set_seq (ms_q s) i (w + 1)\<rparr>)"
proof -
  let ?q = "ms_q s" and ?H = "length (ms_popped s)" and ?lg = "ms_log s"
  have rep: "mrep ?q ?H ?lg" and "\<forall>u. mp_ok ?q ?H ?lg u (ms_p s u)" using inv by (simp_all add: msys_inv_def)
  from this(2) [rule_format, of t] pc obtain P where P: "?H \<le> P" "P < length ?lg" "i = P mod m_cap ?q" "w = of_nat P"
    by (auto simp: holds_cell_def)
  have b: "length ?lg \<le> ?H + m_cap ?q" "length ?lg + m_cap ?q < 2 ^ 63" using rep by (auto simp: mrep_def)
  have "owned (((ms_p s)(t := MIdle)) (fst (?lg ! k))) = Some (k mod m_cap ?q)"
    if k: "?H \<le> k" "k < length ?lg" and sk: "seq_at (set_seq ?q i (w + 1)) (k mod m_cap ?q) = of_nat k" for k
  proof (cases "k = P")
    case True
    then have "(of_nat (Suc P) :: u64) = of_nat P"
      using sk P mrep_mod_lt [OF rep, of P] by (simp add: seq_at_def set_cells add.commute)
    then have False using of_nat_u64_inj [of "Suc P" P] P(2) b by linarith
    then show ?thesis ..
  next
    case False
    then have ne: "k mod m_cap ?q \<noteq> i" using window_eq [of ?H k "m_cap ?q" P] k P b by auto
    then have o: "owned (ms_p s (fst (?lg ! k))) = Some (k mod m_cap ?q)"
      using p k sk mrep_mod_lt [OF rep, of k] by (simp add: pend_ok_def seq_at_def set_cells)
    then have "fst (?lg ! k) \<noteq> t" using ne pc by auto
    then show ?thesis using o by simp
  qed
  then show ?thesis by (simp add: pend_ok_def)
qed

lemma pend_pop:
  assumes inv: "msys_inv s" and p: "pend_ok s" and pc: "ms_c s = CFront i"
  shows "pend_ok (s\<lparr>ms_q := mpsc_pop (ms_q s), ms_c := CIdle,
                   ms_popped := ms_popped s @ [c_data (m_cells (ms_q s) ! i)]\<rparr>)"
proof -
  let ?q = "ms_q s" and ?H = "length (ms_popped s)" and ?lg = "ms_log s"
  have rep: "mrep ?q ?H ?lg" using inv by (auto simp: msys_inv_def)
  have b: "length ?lg \<le> ?H + m_cap ?q" using rep by (auto simp: mrep_def)
  have "seq_at (mpsc_pop ?q) (k mod m_cap ?q) = seq_at ?q (k mod m_cap ?q)" if k: "Suc ?H \<le> k" "k < length ?lg" for k
  proof -
    have "k mod m_cap ?q \<noteq> ?H mod m_cap ?q" using window_eq [of ?H k "m_cap ?q" ?H] k b by auto
    then show ?thesis using mrep_mod_lt [OF rep, of k] by (simp add: seq_at_def pop_cells [OF rep] set_cells)
  qed
  then show ?thesis using p by (simp add: pend_ok_def pop_cells [OF rep])
qed

lemma pend_step:
  assumes "mpsc_step s s'" and "msys_inv s" and "pend_ok s"
  shows "pend_ok s'"
  using assms(1)
proof cases
  case (cas_ok t v pos)
  have rep: "mrep (ms_q s) (length (ms_popped s)) (ms_log s)" using assms(2) by (simp add: msys_inv_def)
  then have c: "cell_of (ms_q s) pos = length (ms_log s) mod m_cap (ms_q s)"
    using cell_of_nat [of "ms_q s" "length (ms_log s)"] cas_ok(3) by (auto simp: mrep_def)
  have "owned (ms_p s (fst (ms_log s ! k))) = Some (k mod m_cap (ms_q s)) \<Longrightarrow> fst (ms_log s ! k) \<noteq> t" for k
    using cas_ok(2) by auto
  then show ?thesis
    using assms(3) unfolding cas_ok(1) pend_ok_def by (auto simp: nth_append less_Suc_eq seq_at_def c)
next
  case (fill t v i)
  have rep: "mrep (ms_q s) (length (ms_popped s)) (ms_log s)" using assms(2) by (simp add: msys_inv_def)
  then have "seq_at (set_data (ms_q s) i v) (k mod m_cap (ms_q s)) = seq_at (ms_q s) (k mod m_cap (ms_q s))" for k
    using mrep_mod_lt [OF rep, of k] by (simp add: seq_at_def set_cells)
  then show ?thesis
    using pend_goto [OF assms(3), of "MWritten v i" t] unfolding fill(1) by (simp add: pend_ok_def fill(2))
next
  case (commit_store t v i w)
  then show ?thesis using pend_commit [OF assms(2,3)] by simp
next
  case (m_front i)
  then show ?thesis using assms(3) by (simp add: pend_ok_def)
next
  case (m_pop i)
  then show ?thesis using pend_pop [OF assms(2,3)] by simp
qed (simp_all add: pend_goto [OF assms(3)])

lemma idle_items:
  assumes inv: "msys_inv s" and p: "pend_ok s" and idle: "\<forall>t. owned (ms_p s t) = None"
  shows "ms_popped s @ mpsc_items (ms_q s) = map snd (ms_log s)"
proof -
  let ?q = "ms_q s" and ?H = "length (ms_popped s)" and ?lg = "ms_log s"
  have rep: "mrep ?q ?H ?lg" and popped: "ms_popped s = map snd (take ?H ?lg)" using inv by (auto simp: msys_inv_def)
  have b: "length ?lg \<le> ?H + m_cap ?q" using rep by (auto simp: mrep_def)
  have "seq_at ?q (k mod m_cap ?q) = of_nat (Suc k)" if k: "?H \<le> k" "k < length ?lg" for k
    using mrep_cell [OF rep k(1)] p k idle b by (auto simp: cell_ok_def pend_ok_def simp del: of_nat_Suc)
  then have "mpsc_items ?q = map snd (drop ?H ?lg)" using mpsc_items_rep [OF rep] by blast
  then show ?thesis by (subst popped) (simp flip: map_append)
qed

lemma mpsc_reachable_inv:
  assumes "mpsc_reachable d capacity s" and "capacity \<le> 2 ^ 61" and "length (ms_log s) < 2 ^ 62"
  shows "msys_inv s \<and> pend_ok s \<and> m_cap (ms_q s) = m_cap (mpsc_new d capacity)"
  using assms(1,3)
proof induction
  case m_start
  then show ?case using mpsc_new_rep [OF assms(2)] by (simp add: msys_inv_def pend_ok_def mpsc_init_def)
next
  case (m_step s t)
  have le: "length (ms_log s) \<le> length (ms_log t)" using m_step(2) by cases auto
  then have s: "msys_inv s" "pend_ok s" "m_cap (ms_q s) = m_cap (mpsc_new d capacity)" using m_step by auto
  moreover have "length (ms_log t) + m_cap (ms_q s) < 2 ^ 63"
    using mpsc_new_rep(2) [OF assms(2), of d] s(3) m_step.prems by simp
  ultimately show ?case using mpsc_step_inv [OF m_step(2)] pend_step [OF m_step(2)] by simp
qed

lemma try_claim_alone:
  assumes r: "mrep q H lg"
  shows "mpsc_try_claim q =
    Some (if length lg < H + m_cap q then (q\<lparr>m_enq := m_enq q + 1\<rparr>, Some (length lg mod m_cap q)) else (q, None))"
proof -
  have b: "length lg \<le> H + m_cap q" "H \<le> length lg" "m_enq q = of_nat (length lg)" "mring_ok q"
    using r by (auto simp: mrep_def)
  have "inspect q (m_enq q) = (if length lg < H + m_cap q then Free else Full)"
    using inspect_nat [OF r order_refl] mrep_cell [OF r b(2)] b by (auto simp: cell_ok_def)
  then show ?thesis
    using cell_of_nat [OF b(4), of "length lg"] unfolding mpsc_try_claim_def b(3)
    by (subst mpsc_claim_loop.simps) (simp add: b(3))
qed

lemma push_alone:
  assumes r: "mrep q H lg" and com: "\<forall>k. H \<le> k \<longrightarrow> k < length lg \<longrightarrow> seq_at q (k mod m_cap q) = of_nat (Suc k)"
    and free: "length lg < H + m_cap q" and room: "Suc (length lg) + m_cap q < 2 ^ 63"
  shows "\<exists>q'. mpsc_try_push_with q f = Some (q', True) \<and> m_cap q' = m_cap q \<and>
    mrep q' H (lg @ [(0, f (c_data (m_cells q ! (length lg mod m_cap q))))]) \<and>
    (\<forall>k. H \<le> k \<longrightarrow> k < Suc (length lg) \<longrightarrow> seq_at q' (k mod m_cap q) = of_nat (Suc k))"
proof -
  let ?i = "length lg mod m_cap q" and ?q1 = "q\<lparr>m_enq := m_enq q + 1\<rparr>"
  let ?v = "f (c_data (m_cells q ! ?i))"
  let ?lg = "lg @ [(0, ?v)]" and ?q2 = "set_data ?q1 ?i ?v"
  have h: "H \<le> length lg" using r by (simp add: mrep_def)
  have r1: "mrep ?q1 H ?lg" by (rule mrep_claim [OF r free room])
  have i: "?i < length (m_cells q)" by (rule mrep_mod_lt [OF r])
  have "seq_at ?q1 ?i = of_nat (length lg)"
    using mrep_cell [OF r h free] by (simp add: cell_ok_def seq_at_def)
  then have own: "holds_cell ?q1 H ?lg 0 ?v ?i" using h by (simp add: holds_cell_def) (rule exI [of _ "length lg"], simp)
  have r2: "mrep ?q2 H ?lg" by (rule mrep_data [OF r1 own])
  have own2: "holds_cell ?q2 H ?lg 0 ?v ?i" "c_data (m_cells ?q2 ! ?i) = ?v"
    using own i by (auto simp: holds_cell_def seq_at_def set_cells)
  have r3: "mrep (mpsc_commit ?q2 ?i) H ?lg" unfolding mpsc_commit_def by (rule mrep_commit [OF r2 own2])
  have "seq_at (mpsc_commit ?q2 ?i) (k mod m_cap q) = of_nat (Suc k)" if k: "H \<le> k" "k < Suc (length lg)" for k
  proof (cases "k = length lg")
    case True
    have "seq_at ?q2 ?i = of_nat k" using \<open>seq_at ?q1 ?i = of_nat (length lg)\<close> i True by (simp add: seq_at_def set_cells)
    then show ?thesis using i True by (simp add: mpsc_commit_def seq_at_def set_cells set_data_def set_seq_def)
  next
    case False
    then have "k mod m_cap q \<noteq> ?i" using window_eq [of H k "m_cap q" "length lg"] k free h by auto
    then have "seq_at (mpsc_commit ?q2 ?i) (k mod m_cap q) = seq_at q (k mod m_cap q)"
      by (simp add: mpsc_commit_def seq_at_def set_data_def set_seq_def)
    then show ?thesis using com k False by (simp del: of_nat_Suc)
  qed
  then show ?thesis using r3 free by (simp add: mpsc_try_push_with_def try_claim_alone [OF r] mpsc_commit_def)
qed

lemma mpsc_push_ok:
  assumes "mpsc_fit (Suc n) q" and "mpsc_push q x = (q', ok)"
  shows "mpsc_fit n q' \<and> m_cap q' = m_cap q \<and> ok = (length (mpsc_items q) < m_cap q) \<and>
    mpsc_items q' = (if ok then mpsc_items q @ [x] else mpsc_items q)"
proof -
  from assms(1) obtain H lg where r: "mrep q H lg" and b: "length lg + Suc n + m_cap q < 2 ^ 63"
      and com: "\<forall>k. H \<le> k \<longrightarrow> k < length lg \<longrightarrow> seq_at q (k mod m_cap q) = of_nat (Suc k)"
    by (auto simp: mpsc_fit_def)
  have it: "mpsc_items q = map snd (drop H lg)" by (rule mpsc_items_rep [OF r com])
  have h: "H \<le> length lg" using r by (simp add: mrep_def)
  show ?thesis
  proof (cases "length lg < H + m_cap q")
    case True
    obtain q1 where q1: "mpsc_try_push_with q (\<lambda>_. x) = Some (q1, True)" "m_cap q1 = m_cap q"
        "mrep q1 H (lg @ [(0, x)])"
        "\<forall>k. H \<le> k \<longrightarrow> k < Suc (length lg) \<longrightarrow> seq_at q1 (k mod m_cap q) = of_nat (Suc k)"
      using push_alone [OF r com True, of "\<lambda>_. x"] b by auto
    then have com1: "\<forall>k. H \<le> k \<longrightarrow> k < length (lg @ [(0, x)]) \<longrightarrow> seq_at q1 (k mod m_cap q1) = of_nat (Suc k)"
      by (simp del: of_nat_Suc)
    then have "mpsc_fit n q1" using mpsc_fitI [OF q1(3)] q1(2) b by simp
    then show ?thesis
      using assms(2) q1 True h it mpsc_items_rep [OF q1(3) com1] by (auto simp: mpsc_push_def)
  next
    case False
    then have "q' = q" "\<not> ok" using assms(2) by (simp_all add: mpsc_push_def mpsc_try_push_with_def try_claim_alone [OF r])
    moreover have "mpsc_fit n q" using mpsc_fitI [OF r _ com] b by simp
    ultimately show ?thesis using it False by simp
  qed
qed

lemma mpsc_take_ok:
  assumes "mpsc_fit n q" and "mpsc_take q = (q', x)"
  shows "mpsc_fit n q' \<and> m_cap q' = m_cap q \<and>
    (case mpsc_items q of [] \<Rightarrow> x = None \<and> mpsc_items q' = [] | y # ys \<Rightarrow> x = Some y \<and> mpsc_items q' = ys)"
proof -
  from assms(1) obtain H lg where r: "mrep q H lg" and b: "length lg + n + m_cap q < 2 ^ 63"
      and com: "\<forall>k. H \<le> k \<longrightarrow> k < length lg \<longrightarrow> seq_at q (k mod m_cap q) = of_nat (Suc k)"
    by (auto simp: mpsc_fit_def)
  have it: "mpsc_items q = map snd (drop H lg)" by (rule mpsc_items_rep [OF r com])
  show ?thesis
  proof (cases "H < length lg")
    case True
    have f: "mpsc_front q = Some (H mod m_cap q)" using front_nat [OF r] com True by simp
    have full: "length lg \<le> H + m_cap q" using r by (simp add: mrep_def)
    have "seq_at (mpsc_pop q) (k mod m_cap q) = of_nat (Suc k)" if k: "Suc H \<le> k" "k < length lg" for k
    proof -
      have "k mod m_cap q \<noteq> H mod m_cap q" using window_eq [of H k "m_cap q" H] k full by auto
      then show ?thesis
        using com k mrep_mod_lt [OF r, of k] by (auto simp: seq_at_def pop_cells [OF r] set_cells simp del: of_nat_Suc)
    qed
    then have com1: "\<forall>k. Suc H \<le> k \<longrightarrow> k < length lg \<longrightarrow> seq_at (mpsc_pop q) (k mod m_cap (mpsc_pop q)) = of_nat (Suc k)"
      by (simp add: pop_cells [OF r] del: of_nat_Suc)
    have it1: "mpsc_items (mpsc_pop q) = map snd (drop (Suc H) lg)"
      by (rule mpsc_items_rep [OF mrep_pop [OF r True] com1])
    have "mpsc_fit n (mpsc_pop q)"
      using mpsc_fitI [OF mrep_pop [OF r True] _ com1] b pop_cells(1) [OF r] by simp
    moreover have "c_data (m_cells q ! (H mod m_cap q)) = snd (lg ! H)"
      using committed_data [OF r order_refl True] com True by simp
    ultimately show ?thesis
      using assms(2) f it it1 pop_cells(1) [OF r] Cons_nth_drop_Suc [OF True, symmetric]
      by (simp add: mpsc_take_def)
  next
    case False
    then have "mpsc_front q = None" using front_nat [OF r] by simp
    then show ?thesis using assms it False by (simp add: mpsc_take_def)
  qed
qed

lemma mpsc_fit_mono: "mpsc_fit (Suc n) q \<Longrightarrow> mpsc_fit n q"
  unfolding mpsc_fit_def by fastforce

interpretation mpsc: bounded_fifo mpsc_push mpsc_take mpsc_items m_cap mpsc_fit
  by unfold_locales (erule (1) mpsc_push_ok, erule (1) mpsc_take_ok, erule mpsc_fit_mono)

lemma mpsc_new_fit:
  assumes "capacity \<le> 2 ^ 61" and "n \<le> 2 ^ 62"
  shows "mpsc_fit n (mpsc_new d capacity)" and "mpsc_items (mpsc_new d capacity) = []"
  using mpsc_fitI [OF mpsc_new_rep(1) [OF assms(1), of d]] mpsc_new_rep(2) [OF assms(1), of d] assms(2)
    mpsc_items_rep [OF mpsc_new_rep(1) [OF assms(1), of d]] by simp_all

end
