(* ===== verification/Spec2Isabelle.thy ===== *)
theory Spec2Isabelle
  imports Itch_File Seqlock Civil_Time Http Phrase_Match Histogram Fixed_String Engine_News Mpsc_Queue
begin

text \<open>
  \<^bold>\<open>stok\<close>: a low-latency news and signal engine for small US stocks. This development models the C++ sources under
  \<open>src/src\<close> and proves the properties that make its components correct.

  \<^bold>\<open>The program.\<close> One thread receives the Nasdaq TotalView-ITCH feed (MoldUDP64 packets with gap recovery, or a recorded
  file), decodes it, keeps an order book per symbol and publishes prices, volumes, quotes and halts on a market board.
  Poller threads fetch press releases, EDGAR filings and halt notices over HTTP. The engine thread takes both from
  lock-free rings: it scores every story with a phrase automaton, checks the issuer's dilution history, keeps a watch
  list, raises ALERT and HIGH signals when the market confirms a story, and feeds a paper trader. Sink threads write
  alerts and a journal.

  \<^bold>\<open>Theories and sources.\<close> Each theory holds one component: its records and datatypes, one definition per operation in the
  order of the code, its invariant and its lemmas.
  \<^item> \<open>Stok_Prelude\<close> (\<open>core/common.hpp\<close>): widths, power-of-two sizes, ring arithmetic, lemma collections.
  \<^item> \<open>Interfaces\<close>: the contracts \<open>ref_map\<close> (a map keyed by 64-bit references) and \<open>bounded_fifo\<close>, with what their clients
    need proved once; interpreted in \<open>Flat_Hash\<close>, \<open>Spsc_Queue\<close> and
    \<open>Mpsc_Queue\<close>. \<open>Paper\<close> has its own interface for a pass over positions.
  \<^item> \<open>Hash\<close> (\<open>core/hash.hpp\<close>), \<open>Flat_Hash\<close> (\<open>core/flat_hash.hpp\<close>): \<open>FlatMap64\<close> with linear probing and backward-shift
    deletion refines the finite map \<open>fm_map\<close> under \<open>fm_inv\<close>; probe and shift loops are partial functions and shown to return.
  \<^item> \<open>Spsc_Queue\<close> (\<open>core/spsc_queue.hpp\<close>), \<open>Mpsc_Queue\<close> (\<open>core/mpsc_queue.hpp\<close>), \<open>Seqlock\<close> (\<open>core/seqlock.hpp\<close>): the rings refine a
    bounded FIFO when one thread uses them; then every interleaving of the threads' steps as an inductive relation. The
    multi-producer queue compares positions as signed numbers, so its theorems bound the number of elements claimed.
  \<^item> \<open>Ascii\<close>, \<open>Fixed_String\<close>, \<open>Histogram\<close> (\<open>core/ascii.hpp\<close>, \<open>core/fixed_string.hpp\<close>, \<open>core/histogram.hpp\<close>).
  \<^item> \<open>Civil_Time\<close> (\<open>util/time.hpp\<close>, \<open>util/time.cpp\<close>): calendar, US Eastern time, date formats. The year is cut to an
    \<open>int\<close> and the instant of Eastern midnight to 64-bit nanoseconds, and the theorems state the ranges in which neither cuts anything.
  \<^item> \<open>Itch\<close> (\<open>market/itch.hpp\<close>), \<open>Level_Book\<close> (\<open>market/level_book.hpp\<close>), \<open>Board\<close> (\<open>market/board.hpp\<close>, \<open>market/board.cpp\<close>),
    \<open>Itch_Book\<close> (\<open>market/itch_book.hpp\<close>, \<open>market/itch_book.cpp\<close>): the decoder as a partial function whose failures are reads
    past the end, compared with the message catalogue \<open>itch50\<close> of the protocol; the book's state refines a map of resting orders.
  \<^item> \<open>Mold\<close>, \<open>Itch_File\<close> (\<open>market/sources.hpp\<close>, \<open>market/sources.cpp\<close>, \<open>market/recorder.hpp\<close>, \<open>market/recorder.cpp\<close>,
    \<open>market/itch_directory.hpp\<close>): the receiver against packets lost, repeated and reordered: \<open>first_seq\<close> is
    the number of the first message offered to it, \<open>received\<close> those in the packets that came, and \<open>lossless\<close> the conditions under
    which all of them reach the handler; recording and replay.
  \<^item> \<open>Symbols\<close>, \<open>Filings\<close> (\<open>ref/symbols.hpp\<close>, \<open>ref/symbols.cpp\<close>, \<open>ref/filings.hpp\<close>, \<open>ref/filings.cpp\<close>): the security master
    (\<open>known\<close>: where a ticker leads; \<open>listed_as\<close>: a security holds the fields of a row of a directory file) and the dilution history.
  \<^item> \<open>Http\<close> (\<open>net/buffer.hpp\<close>, \<open>net/url.hpp\<close>, \<open>net/url.cpp\<close>, \<open>net/http.hpp\<close>, \<open>net/http.cpp\<close>): URLs, requests and the
    incremental response parser.
  \<^item> \<open>Scorer\<close>, \<open>Phrase_Match\<close> (\<open>engine/scorer.hpp\<close>, \<open>engine/scorer.cpp\<close>): the rule file, the Aho-Corasick automaton built
    by breadth-first search and shown to find exactly the phrases that occur, and the score.
  \<^item> \<open>Paper\<close> (\<open>engine/paper.hpp\<close>, \<open>engine/paper.cpp\<close>, \<open>engine/signals.hpp\<close>): the paper trader.
  \<^item> \<open>Engine\<close> (\<open>engine/engine.hpp\<close>, \<open>engine/engine.cpp\<close>, \<open>engine/events.hpp\<close>): the decision core, composed of the tables, rings,
    histograms, scorer, filings and paper trader above; one definition per method, the long ones (\<open>on_news\<close>, \<open>evaluate\<close>,
    \<open>emit\<close>, \<open>scan_movers\<close>) split at their blocks. \<open>Engine_Watch\<close> shows that the watch list is the map \<open>stories\<close> from tickers to
    stories and the cooldown table a map \<open>last_sent\<close>; \<open>Engine_Inv\<close> holds the invariant and what an evaluation, a halt or a scan
    does; \<open>Engine_News\<close> what a news event does, and that every run of a new engine returns.

  \<^bold>\<open>How code is modelled.\<close> Structs are records, enums datatypes; integers are words where the width matters and \<open>int\<close>
  where the code keeps them in range or the wrap is written out; \<open>double\<close> is idealised as \<open>real\<close>: rounding is not
  modelled, so the equalities between accumulated profits of the paper trader, and the rank a percentile stands for, are those of exact
  arithmetic. Signed overflow is undefined in C++; the model computes the exact value where only huge inputs reach it: the sum of
  bid and ask in \<open>spread_pct\<close>, the weights \<open>raw_score\<close> adds up before they are clamped, and the instants of the date parsers for
  years after 2262. \<open>next_pow2\<close> is on natural numbers, where the code's \<open>size_t\<close> would wrap above 2^63; the theorems on
  queues bound the capacity, and those on the hash table speak of the code for capacities up to that bound. A loop is a structural recursion where it has one; the search for dollar amounts has the length of the text as
  fuel (every round consumes a character), the breadth-first search the number of states (each is queued once), and the loops that could
  run forever on a damaged table or a stuck reader are partial functions, shown to return under the invariant.
  An operation that may not return is an option, and its theorems say that it returns. Threads interleave under
  sequential consistency, with stale relaxed loads of the enqueue position of the multi-producer queue; other effects of
  the weaker orders the code asks of the hardware are not modelled.

  \<^bold>\<open>Parameters.\<close> zlib's reader, the clocks, the board snapshot seen by the engine, and the handler of decoded messages are
  arguments. The wall clock and the board are sampled once per engine operation.

  \<^bold>\<open>Not modelled.\<close> The configuration reader, sockets, TLS, name resolution and the connection state machine, threads and wake-ups, logging, files, and
  inflating compressed bodies are calls of the operating system or of libraries. The feed parsers and pollers, the JSON,
  fundamentals and FINRA loaders of the security master, the sinks, the research tools and the command-line programs are not
  modelled: they are text formats, output formatting and wiring around the components above.
\<close>

subsection \<open>The order book\<close>

text \<open>C1: whatever admissible sequence of ITCH callbacks a new book processes, it returns, and for
  every quoted symbol the board shows the highest price at which buy orders rest with the shares
  resting there (clamped to 32 bits) and the lowest price at which sell orders rest with theirs;
  0 when a side is empty.\<close>

theorem book_run_shows_best_quote:
  assumes "board_inv bd" and "length (states bd) < 2 ^ 32 - 1"
    and "\<And>i. i < length (states bd) \<Longrightarrow> board_top bd i = (0, 0, 0, 0)"
    and "st_inv tab" and "length (syms tab) \<le> length (states bd)"
    and "itch_book_new tab bd ev w cap track = Some b0" and "admissible_run b0 cs"
  shows "\<exists>b. run_calls cs b0 = Some b \<and> ib_inv b \<and>
    (\<forall>sid. is_quoted b sid \<longrightarrow> board_top (ib_board b) (unat sid) =
      (case (best_quote True (resting b sid True), best_quote False (resting b sid False)) of
         ((bp, bs), (ap, as)) \<Rightarrow> (bp, ap, bs, as)))"
  by (rule book_session_ok [OF assms])

lemma new_board_top: "i < n \<Longrightarrow> board_top (market_board_new n) i = (0, 0, 0, 0)"
  by (simp add: board_top_def market_board_new_def seq_locked_new_def state0_def hot0_def init_bars_def)

text \<open>A concrete day: one listed security, its directory message, one buy order of 50 at 1.20.\<close>

definition acme :: symbol_info where
  "acme = symbol_info0\<lparr>ticker := ''ACME''\<rparr>"

definition acme_order :: order where
  "acme_order = \<lparr>o_price = 12000, o_shares = 50, o_locate = 7, o_side = CHR ''B''\<rparr>"

definition acme_calls :: "itch_call list" where
  "acme_calls = [OnStockDirectory 7 1 (make_key ''ACME'') (CHR ''Q'') (CHR ''N'') 100,
     OnAdd 7 2 100 (CHR ''B'') 50 12000]"

lemma acme_findable: "findable ''ACME''"
  by code_simp

lemma acme_key: "make_key ''ACME'' \<noteq> kEmpty" "make_key ''ACME'' \<noteq> 0"
  by code_simp+

lemma acme_table:
  obtains t0 tab where "symbol_table_new = Some t0" "add t0 acme = Some (tab, 0)" "st_inv tab" "length (syms tab) = 1"
    "find_key tab (make_key ''ACME'') = Some 0"
proof -
  obtain t0 where t0: "symbol_table_new = Some t0" "st_inv t0" "syms t0 = []" using symbol_table_new_ok by blast
  have k: "si_key (with_key acme) = make_key ''ACME''" by (simp add: with_key_def acme_def symbol_info0_def)
  have tk: "ticker acme = ''ACME''" by (simp add: acme_def)
  obtain tab sid where t: "add t0 acme = Some (tab, sid)" "st_inv tab" "find_key tab (make_key ''ACME'') = Some sid"
    using add_find [of t0 acme] t0 acme_findable acme_key(1) k tk by auto
  have "sid = 0" "length (syms tab) = 1" using add_ok [of t0 acme] t0 t(1) by auto
  then show thesis using that t0(1) t by simp
qed

definition acme_day :: "itch_book \<Rightarrow> itch_book \<Rightarrow> bool" where
  \<comment> \<open>a book over the one-symbol table before and after the day\<close>
  "acme_day b0 b \<longleftrightarrow> (\<exists>t0 tab. symbol_table_new = Some t0 \<and> add t0 acme = Some (tab, 0) \<and>
     itch_book_new tab (market_board_new 1) None False 16 True = Some b0 \<and> run_calls acme_calls b0 = Some b)"

lemma acme_board: "length (states (market_board_new 1)) = 1"
  "i < length (states (market_board_new 1)) \<Longrightarrow> board_top (market_board_new 1) i = (0, 0, 0, 0)"
  using new_board_top [of i 1] by (simp_all add: market_board_new_def)

lemma acme_run:
  obtains t0 tab b0 b1 b where "symbol_table_new = Some t0" "add t0 acme = Some (tab, 0)" "st_inv tab" "length (syms tab) = 1"
    "itch_book_new tab (market_board_new 1) None False 16 True = Some b0" "ib_inv b0" "symbols_ok b0"
    "dispatch b0 (acme_calls ! 0) = Some b1" "ib_inv b1" "symbols_ok b1"
    "admissible b0 (acme_calls ! 0)" "admissible b1 (acme_calls ! 1)"
    "dispatch b1 (acme_calls ! 1) = Some b" "admissible_run b0 acme_calls" "run_calls acme_calls b0 = Some b"
    "ib_l2s b = (\<lambda>_. kInvalid)(7 := 0)" "fm_map (ib_orders b) = [100 \<mapsto> acme_order]" "is_quoted b 0"
proof -
  obtain t0 tab where tab: "symbol_table_new = Some t0" "add t0 acme = Some (tab, 0)" "st_inv tab" "length (syms tab) = 1"
      "find_key tab (make_key ''ACME'') = Some 0" by (rule acme_table)
  obtain b0 where b0: "itch_book_new tab (market_board_new 1) None False 16 True = Some b0" "ib_inv b0"
      "ib_symbols b0 = tab" "ib_board b0 = market_board_new 1" "ib_l2s b0 = (\<lambda>_. kInvalid)" "fm_map (ib_orders b0) = Map.empty"
    using itch_book_new_ok [OF board_inv_new, of 1 tab None False 16 True] acme_board by auto
  have s0: "symbols_ok b0" using tab b0 acme_board(1) by (simp add: symbols_ok_def)
  have a0: "admissible b0 (acme_calls ! 0)" using b0(6) acme_key by (simp add: acme_calls_def unused_locate_def)
  define b1 where "b1 = map_locate (count_message b0) 7 0"
  have d0: "dispatch b0 (acme_calls ! 0) = Some b1"
    by (simp add: acme_calls_def on_stock_directory_def b0(3) tab(5) b1_def)
  obtain b1' where "dispatch b0 (acme_calls ! 0) = Some b1'" "ib_inv b1'" "keeps b0 b1'"
    using dispatch_ok [OF b0(2) s0 a0] by blast
  then have i1: "ib_inv b1" "symbols_ok b1" using d0 s0 by (auto simp: symbols_ok_def keeps_def)
  have l1: "ib_l2s b1 = (\<lambda>_. kInvalid)(7 := 0)" "fm_map (ib_orders b1) = Map.empty"
    by (simp_all add: b1_def b0(6)) (simp add: map_locate_def b0(5))
  have sz: "fm_size (ib_orders b1) = 0" using fm_size_card [OF ib_inv_D(6) [OF i1(1)]] l1(2) by simp
  have a1: "admissible b1 (acme_calls ! 1)" using l1(2) sz by (simp add: acme_calls_def kEmpty_def)
  obtain b where b: "dispatch b1 (acme_calls ! 1) = Some b" "ib_inv b" "same_cfg b1 b" "fm_map (ib_orders b) = [100 \<mapsto> acme_order]"
    using on_add_ok [OF i1(1), of 100 7 2 "CHR ''B''" 50 12000] l1 sz
    by (auto simp: acme_calls_def acme_order_def kEmpty_def kInvalid_def)
  have trk: "ib_track b0" "ib_filter b0 = []"
    using b0(1) by (auto simp: itch_book_new_def)
  have "is_quoted b 0"
    using b(2,3) trk b0(4) acme_board(1)
    by (auto simp: is_quoted_def quoted_def same_cfg_def b1_def map_locate_def count_message_def ib_inv_def env_ok_def)
  moreover have cs: "acme_calls = [acme_calls ! 0, acme_calls ! 1]" by (simp add: acme_calls_def)
  moreover have "admissible_run b0 [acme_calls ! 0, acme_calls ! 1]" using a0 a1 d0 b(1) by simp
  moreover have "run_calls [acme_calls ! 0, acme_calls ! 1] b0 = Some b" using d0 b(1) by (simp add: run_calls_def)
  ultimately show thesis
    using that tab(1-4) b0(1,2) s0 d0 i1 a0 a1 b l1(1) by (simp add: same_cfg_def)
qed

lemma acme_resting:
  assumes "ib_l2s b = (\<lambda>_. kInvalid)(7 := 0)" and "fm_map (ib_orders b) = [100 \<mapsto> acme_order]"
  shows "resting b 0 bid p = (if bid \<and> p = 12000 then 50 else 0)"
  using assms by (auto simp: resting_def total_def weight_def acme_order_def)

lemma acme_quote:
  assumes "ib_l2s b = (\<lambda>_. kInvalid)(7 := 0)" and "fm_map (ib_orders b) = [100 \<mapsto> acme_order]"
  shows "best_quote True (resting b 0 True) = (12000, 50)" and "best_quote False (resting b 0 False) = (0, 0)"
proof -
  have "{p. 0 < (if p = (12000 :: u32) then 50 else 0 :: nat)} = {12000}" by auto
  then show "best_quote True (resting b 0 True) = (12000, 50)" "best_quote False (resting b 0 False) = (0, 0)"
    by (simp_all add: best_quote_def acme_resting [OF assms] clamp_u32_def)
qed

theorem book_run_shows_best_quote_witness:
  "\<exists>b0 b. acme_day b0 b \<and> board_top (ib_board b) 0 = (12000, 0, 50, 0)"
proof -
  obtain t0 tab b0 b1 b where d: "symbol_table_new = Some t0" "add t0 acme = Some (tab, 0)" "st_inv tab" "length (syms tab) = 1"
      "itch_book_new tab (market_board_new 1) None False 16 True = Some b0" "admissible_run b0 acme_calls"
      "run_calls acme_calls b0 = Some b"
      "ib_l2s b = (\<lambda>_. kInvalid)(7 := 0)" "fm_map (ib_orders b) = [100 \<mapsto> acme_order]" "is_quoted b 0"
    by (rule acme_run)
  have "board_top (ib_board b) (unat (0 :: u32)) =
      (case (best_quote True (resting b 0 True), best_quote False (resting b 0 False)) of
         ((bp, bs), (ap, as)) \<Rightarrow> (bp, ap, bs, as))"
    using book_run_shows_best_quote [OF board_inv_new _ acme_board(2) d(3) _ d(5,6)] acme_board(1) d(4,7,10) by auto
  then have "board_top (ib_board b) 0 = (12000, 0, 50, 0)" using acme_quote [OF d(8,9)] by simp
  then show ?thesis using d by (auto simp: acme_day_def)
qed

text \<open>C2: one ITCH callback, on any book that satisfies the invariant, never diverges or indexes out
  of range, keeps the invariant, and changes the resting orders exactly as the message says.\<close>

theorem dispatch_refines_orders:
  assumes "ib_inv b" and "symbols_ok b" and "admissible b c"
  shows "\<exists>b'. dispatch b c = Some b' \<and> ib_inv b' \<and> symbols_ok b' \<and>
    fm_map (ib_orders b') = orders_spec (ib_l2s b) c (fm_map (ib_orders b))"
  using dispatch_ok [OF assms] assms(2) by (auto simp: symbols_ok_def keeps_def)

theorem dispatch_refines_orders_witness:
  "\<exists>b b'. ib_inv b \<and> dispatch b (OnAdd 7 2 100 (CHR ''B'') 50 12000) = Some b' \<and>
    fm_map (ib_orders b') 100 = Some acme_order"
proof -
  obtain t0 tab b0 b1 b where d: "ib_inv b1" "symbols_ok b1" "admissible b1 (acme_calls ! 1)"
      "dispatch b1 (acme_calls ! 1) = Some b" "fm_map (ib_orders b) = [100 \<mapsto> acme_order]"
    by (rule acme_run)
  have c: "acme_calls ! 1 = OnAdd 7 2 100 (CHR ''B'') 50 12000" by (simp add: acme_calls_def)
  obtain b2 where "dispatch b1 (acme_calls ! 1) = Some b2" using dispatch_refines_orders [OF d(1-3)] by blast
  moreover from this have "fm_map (ib_orders b2) 100 = Some acme_order" using d(4,5) by simp
  ultimately show ?thesis using d(1) unfolding c by blast
qed

subsection \<open>The hash table\<close>

text \<open>C8: after any history of insertions and deletions of unreserved keys, from any initial capacity
  and load factor, a \<open>FlatMap64\<close> holds exactly the finite map the history describes: every probe
  ends, every lookup returns the value last stored, the size is the number of keys.\<close>

theorem flat_map_history:
  assumes "0 < ml" and "ml < 1" and "\<forall>op \<in> set ops. op_key op \<noteq> kEmpty"
  shows "\<exists>m0 m. flat_map_new d cap ml = Some m0 \<and> run_map_ops (fm_put d) fm_del ops m0 = Some m \<and> fm_inv m \<and>
    fm_map m = fold abs_op ops Map.empty \<and> fm_size m = card (dom (fold abs_op ops Map.empty)) \<and>
    (\<forall>k. k = kEmpty \<or> (\<exists>p. fm_find m k = Some p \<and> map_option (value_at m) p = fold abs_op ops Map.empty k))"
proof -
  obtain m0 where m0: "flat_map_new d cap ml = Some m0" "fm_inv m0" "fm_map m0 = Map.empty"
    using flat_map_new_ok [OF assms(1,2), of d cap] by metis
  obtain m where m: "run_map_ops (fm_put d) fm_del ops m0 = Some m" "fm_inv m" "fm_map m = fold abs_op ops Map.empty"
    using flat.run_ok [OF m0(2) assms(3), of d] m0(3) by metis
  have "\<exists>p. fm_find m k = Some p \<and> map_option (value_at m) p = fold abs_op ops Map.empty k" if "k \<noteq> kEmpty" for k
    using fm_lookup_pointer [OF m(2) that] m(3) by simp
  moreover have "fm_size m = card (dom (fold abs_op ops Map.empty))" using fm_size_card [OF m(2)] m(3) by simp
  ultimately show ?thesis using m0(1) m by blast
qed

theorem flat_map_history_witness:
  "\<exists>m0 m p. flat_map_new (0 :: nat) 8 (7 / 10) = Some m0 \<and>
    run_map_ops (fm_put 0) fm_del [Put 5 50, Put 9 90, Del 5, Put 9 91] m0 = Some m \<and>
    fm_find m 9 = Some p \<and> map_option (value_at m) p = Some 91 \<and> fm_size m = 1"
proof -
  let ?ops = "[Put 5 50, Put 9 90, Del 5, Put 9 91] :: nat map_op list"
  have M: "fold abs_op ?ops Map.empty = [9 \<mapsto> 91]" by (rule ext) simp
  obtain m0 m where m: "flat_map_new (0 :: nat) 8 (7 / 10) = Some m0" "run_map_ops (fm_put 0) fm_del ?ops m0 = Some m"
      "fm_size m = card (dom (fold abs_op ?ops Map.empty))"
      "\<forall>k. k = kEmpty \<or> (\<exists>p. fm_find m k = Some p \<and> map_option (value_at m) p = fold abs_op ?ops Map.empty k)"
    using flat_map_history [of "7 / 10" ?ops "0 :: nat" 8] by (auto simp: kEmpty_def)
  have "(9 :: u64) \<noteq> kEmpty" by (simp add: kEmpty_def)
  then obtain p where "fm_find m 9 = Some p" "map_option (value_at m) p = Some 91"
    using spec [OF m(4), of 9] unfolding M by auto
  then show ?thesis using m(1-3) unfolding M by auto
qed

text \<open>C9: the reserved all-ones key is always "found": \<open>find\<close> then points to an empty slot, whose value is
  a default or a stale one, and \<open>erase\<close> and \<open>insert_or_assign\<close> leave the contents alone.\<close>

theorem reserved_key_is_phantom:
  assumes "fm_inv m"
  shows "(\<exists>i < length (fm_slots m). fm_find m kEmpty = Some (Some i) \<and> skey (fm_slots m ! i) = kEmpty) \<and>
    erase m kEmpty = Some (m, False) \<and>
    (\<exists>m' p. insert_or_assign d m kEmpty v = Some (m', p) \<and> fm_inv m' \<and> fm_map m' = fm_map m)"
  using find_reserved [OF assms] erase_reserved [OF assms] insert_or_assign_total [OF assms, of d kEmpty v]
  by (auto simp: occ_def)

theorem reserved_key_is_phantom_witness:
  "\<exists>m i. flat_map_new order0 16 0.6 = Some m \<and> fm_map m = Map.empty \<and> fm_find m kEmpty = Some (Some i)"
proof -
  obtain m where "flat_map_new order0 16 0.6 = Some m" "fm_inv m" "fm_map m = Map.empty"
    using flat_map_new_ok [of "0.6" order0 16] by auto
  then show ?thesis using reserved_key_is_phantom [of m order0 order0] by auto
qed

text \<open>C10: the integer mixer behind every table index is a permutation of the 64-bit words, so distinct
  keys never collide before masking.\<close>

theorem mix64_permutation: "bij mix64 \<and> unmix64 (mix64 x) = x"
  by (simp add: bij_mix64 unmix64_mix64)

subsection \<open>Price ladders\<close>

subsection \<open>The ITCH codec\<close>

text \<open>C11: decoding is total: for any bytes of any length the decoder reads no byte past the end and
  either rejects, ignores or makes one callback.\<close>

theorem decode_never_reads_past_end: "\<exists>r. decode p = Some r"
  using decode_total [of p] by blast

text \<open>C12: every message the encoders write is decoded to the callback with the same fields
  (timestamps are 48 bits on the wire).\<close>

theorem itch_codec_roundtrip:
  "decode (enc_add locate ts ref side shares stock pr) = Some (Call (OnAdd locate (take_bit 48 ts) ref side shares pr)) \<and>
   decode (enc_executed locate ts ref shares m) = Some (Call (OnExecuted locate (take_bit 48 ts) ref shares)) \<and>
   decode (enc_executed_price locate ts ref shares pb pr) =
     Some (Call (OnExecutedPrice locate (take_bit 48 ts) ref shares pb pr)) \<and>
   decode (enc_cancel locate ts ref shares) = Some (Call (OnCancel locate (take_bit 48 ts) ref shares)) \<and>
   decode (enc_del locate ts ref) = Some (Call (OnDelete locate (take_bit 48 ts) ref)) \<and>
   decode (enc_replace locate ts ref ref2 shares pr) =
     Some (Call (OnReplace locate (take_bit 48 ts) ref ref2 shares pr)) \<and>
   decode (enc_trade locate ts side shares stock pr) =
     Some (Call (OnTrade locate (take_bit 48 ts) side shares (le_word (pad_to 8 stock)) pr)) \<and>
   decode (enc_cross locate ts shares64 stock pr ct) =
     Some (Call (OnCross locate (take_bit 48 ts) shares64 (le_word (pad_to 8 stock)) pr ct)) \<and>
   decode (enc_system_event ts cd) = Some (Call (OnSystemEvent (take_bit 48 ts) cd)) \<and>
   decode (enc_stock_directory locate ts stock cat) =
     Some (Call (OnStockDirectory locate (take_bit 48 ts) (le_word (pad_to 8 stock)) cat (CHR ''N'') 100)) \<and>
   decode (enc_trading_action locate ts stock state reason) =
     Some (Call (OnTradingAction locate (take_bit 48 ts) (le_word (pad_to 8 stock)) state (map char_of_byte (pad_to 4 reason))))"
  by (simp add: decode_add decode_executed decode_executed_price decode_cancel decode_del decode_replace
      decode_trade decode_cross decode_system_event decode_stock_directory decode_trading_action)

text \<open>C13: with the message catalogue of TotalView-ITCH 5.0 written out as \<open>itch50\<close>, a message is rejected exactly
  when it is shorter than the common header, of a type outside the catalogue, or shorter than the size listed
  for its type; it is accepted without a callback exactly when its type is listed and not used by the program.\<close>

theorem decode_rejects_exactly:
  "(decode p = Some Reject \<longleftrightarrow>
     length p < 11 \<or> (case map_of itch50 (char_of_byte (p ! 0)) of None \<Rightarrow> True | Some (n, _) \<Rightarrow> length p < n)) \<and>
   (decode p = Some Unused \<longleftrightarrow> (\<exists>n. n \<le> length p \<and> map_of itch50 (char_of_byte (p ! 0)) = Some (n, False)))"
  using decode_outcome [of p] by blast

subsection \<open>The lock-free ring and the sequence lock\<close>

text \<open>C14: used by one thread, the ring is a bounded first-in first-out queue for any sequence of
  pushes and pops, across every wrap of its 64-bit counters.\<close>

theorem spsc_is_bounded_fifo:
  assumes "capacity \<le> 2 ^ 62"
  shows "let q = spsc_new d capacity; r = fifo_spec (q_cap q) ops []
    in \<exists>q'. run_queue spsc_try_push spsc_take ops q = (q', snd r) \<and> spsc_items q' = fst r"
proof -
  have rep: "rep (spsc_new d capacity) 0 0 0 0" by (rule spsc_new_rep [OF assms])
  then have "spsc_inv (spsc_new d capacity)" "spsc_items (spsc_new d capacity) = []"
    by (auto simp: spsc_inv_def items_rep [OF rep])
  then show ?thesis using spsc.run_is_fifo [of "spsc_new d capacity" ops] by (auto simp: Let_def)
qed

theorem spsc_is_bounded_fifo_witness:
  "\<exists>q'. run_queue spsc_try_push spsc_take [Push 1, Push 2, Push 3, Pop, Pop, Pop] (spsc_new (0 :: nat) 2) =
     (q', [None, None, None, Some 1, Some 2, None])"
proof -
  have "q_cap (spsc_new (0 :: nat) 2) = 2" by code_simp
  then show ?thesis
    using spsc_is_bounded_fifo [of 2 "0 :: nat" "[Push 1, Push 2, Push 3, Pop, Pop, Pop]"]
    by (auto simp: Let_def simp del: run_queue.simps)
qed

text \<open>C15: with a producer and a consumer interleaved in any way, the consumer has received a prefix of
  what was pushed and the rest is in the ring, in order; and the slot the producer fills is never
  the slot the consumer reads.\<close>

theorem spsc_interleaved:
  assumes "spsc_reachable d capacity s" and "capacity \<le> 2 ^ 62"
  shows "sys_pushed s = sys_popped s @ spsc_items (sys_q s) \<and>
    (\<forall>i j v. (sys_p s = PClaimed i \<or> sys_p s = PWritten i v) \<and> sys_c s = CFront j \<longrightarrow> i \<noteq> j)"
proof -
  have inv: "sys_inv s" by (rule spsc_reachable_inv [OF assms])
  have "sys_pushed s = sys_popped s @ spsc_items (sys_q s)" using inv by (auto simp: sys_inv_def)
  then show ?thesis using spsc_no_race [OF inv] by blast
qed

theorem spsc_interleaved_witness:
  "\<exists>s. spsc_reachable (0 :: nat) 2 s \<and> sys_pushed s = [5] \<and> sys_pushed s = sys_popped s @ spsc_items (sys_q s)"
proof -
  let ?q = "spsc_new (0 :: nat) 2"
  have c: "spsc_try_claim ?q = (?q, Some 0)" by code_simp
  have 0: "spsc_reachable 0 2 (spsc_init (0 :: nat) 2)" by (rule spsc_reachable.start)
  note 1 = spsc_reachable.step [OF 0 p_claim [of "spsc_init (0 :: nat) 2" ?q 0]]
  note 2 = spsc_reachable.step [OF 1 p_write [where i = 0 and v = 5]]
  note 3 = spsc_reachable.step [OF 2 p_publish [where i = 0 and v = 5]]
  obtain s where s: "spsc_reachable (0 :: nat) 2 s" "sys_pushed s = [5]"
    using 3 c by (fastforce simp: spsc_init_def)
  then show ?thesis using spsc_interleaved [OF s(1)] by auto
qed

text \<open>C16: used by one thread, the log queue is a bounded first-in first-out queue for any sequence of at most 2^62
  pushes and pops, and its claim loop returns in every state such a sequence leads to.\<close>

theorem mpsc_is_bounded_fifo:
  assumes "capacity \<le> 2 ^ 61" and "length ops \<le> 2 ^ 62"
  shows "let q = mpsc_new d capacity; r = fifo_spec (m_cap q) ops []
    in \<exists>q'. run_queue mpsc_push mpsc_take ops q = (q', snd r) \<and> mpsc_items q' = fst r \<and> mpsc_try_claim q' \<noteq> None"
proof -
  obtain q' where "run_queue mpsc_push mpsc_take ops (mpsc_new d capacity) =
      (q', snd (fifo_spec (m_cap (mpsc_new d capacity)) ops []))" "mpsc_fit 0 q'"
      "mpsc_items q' = fst (fifo_spec (m_cap (mpsc_new d capacity)) ops [])"
    using mpsc.run_is_fifo [OF mpsc_new_fit(1) [OF assms], of d] mpsc_new_fit(2) [OF assms, of d] by auto
  moreover from this(2) have "mpsc_try_claim q' \<noteq> None" using try_claim_alone by (fastforce simp: mpsc_fit_def)
  ultimately show ?thesis by (auto simp: Let_def)
qed

theorem mpsc_is_bounded_fifo_witness:
  "\<exists>q'. run_queue mpsc_push mpsc_take [Push 1, Push 2, Push 3, Pop, Pop, Pop] (mpsc_new (0 :: nat) 2) =
     (q', [None, None, None, Some 1, Some 2, None])"
proof -
  have "m_cap (mpsc_new (0 :: nat) 2) = 2" by code_simp
  then show ?thesis
    using mpsc_is_bounded_fifo [of 2 "[Push 1, Push 2, Push 3, Pop, Pop, Pop]" "0 :: nat"]
    by (auto simp: Let_def simp del: run_queue.simps)
qed

text \<open>C17: with any number of producers and the consumer of the log queue interleaved in any way, the consumer has
  received a prefix of the claimed elements in claim order, at most the capacity is outstanding, no two producers
  own the same cell, no producer owns the cell the consumer reads, and once no producer holds a cell every claimed element was
  delivered or is in the queue. The positions are compared as signed numbers, so fewer than 2^62 elements may have been claimed.\<close>

theorem mpsc_interleaved:
  assumes "mpsc_reachable d capacity s" and "capacity \<le> 2 ^ 61" and "length (ms_log s) < 2 ^ 62"
  shows "prefix (ms_popped s) (map snd (ms_log s)) \<and>
    length (ms_log s) \<le> length (ms_popped s) + m_cap (ms_q s) \<and>
    (\<forall>t u i. owned (ms_p s t) = Some i \<and> owned (ms_p s u) = Some i \<longrightarrow> t = u) \<and>
    (\<forall>t i. owned (ms_p s t) = Some i \<longrightarrow> ms_c s \<noteq> CFront i) \<and>
    ((\<forall>t. owned (ms_p s t) = None) \<longrightarrow> ms_popped s @ mpsc_items (ms_q s) = map snd (ms_log s))"
proof -
  have inv: "msys_inv s" "pend_ok s" using mpsc_reachable_inv [OF assms] by auto
  show ?thesis using msys_inv_safe [OF inv(1)] idle_items [OF inv] by blast
qed

theorem mpsc_interleaved_witness:
  "\<exists>s. mpsc_reachable (0 :: nat) 2 s \<and> ms_log s = [(7, 5)] \<and> ms_popped s @ mpsc_items (ms_q s) = [5]"
proof -
  let ?s = "mpsc_init (0 :: nat) 2"
  have free: "inspect (mpsc_new (0 :: nat) 2) 0 = Free" "m_enq (mpsc_new (0 :: nat) 2) = 0" by code_simp+
  have 0: "mpsc_reachable 0 2 ?s" by (rule m_start)
  have 1: "mpsc_reachable 0 2 (mp_goto ?s 7 (MLoop 5 (of_nat 0)))" (is "mpsc_reachable _ _ ?s1")
    by (rule m_step [OF 0 load_pos]) (simp_all add: mpsc_init_def)
  have 2: "mpsc_reachable 0 2 (mp_goto ?s1 7 (MSeen 5 (of_nat 0)))" (is "mpsc_reachable _ _ ?s2")
    by (rule m_step [OF 1 see_free]) (simp_all add: mpsc_init_def free)
  have 3: "mpsc_reachable 0 2 (mp_goto ?s2 7 (MClaimed 5 (cell_of (ms_q ?s2) (of_nat 0)))
      \<lparr>ms_q := (ms_q ?s2)\<lparr>m_enq := of_nat 0 + 1\<rparr>, ms_log := ms_log ?s2 @ [(7, 5)]\<rparr>)" (is "mpsc_reachable _ _ ?s3")
    by (rule m_step [OF 2 cas_ok]) (simp_all add: mpsc_init_def free)
  have 4: "\<exists>s i. mpsc_reachable (0 :: nat) 2 s \<and> ms_p s = (\<lambda>_. MIdle)(7 := MWritten 5 i) \<and> ms_log s = [(7, 5)]"
    by (intro exI conjI, rule m_step [OF 3 fill [where t = 7]]) (auto simp: mpsc_init_def)
  then obtain s4 i where 4: "mpsc_reachable (0 :: nat) 2 s4" "ms_p s4 = (\<lambda>_. MIdle)(7 := MWritten 5 i)"
    "ms_log s4 = [(7, 5)]" by blast
  note 5 = m_step [OF 4(1) commit_load [of s4 7 5 i]]
  note 6 = m_step [OF 5 commit_store [where t = 7 and v = 5 and i = i and w = "seq_at (ms_q s4) i"]]
  obtain s where s: "mpsc_reachable (0 :: nat) 2 s" "ms_log s = [(7, 5)]" "ms_p s = (\<lambda>_. MIdle)"
    using 6 4 by fastforce
  then show ?thesis using mpsc_interleaved [OF s(1)] by auto
qed

text \<open>C18: a snapshot the sequence lock returns is the state after one completed write (or the initial
  one): no torn read, provided fewer than 2^31 writes complete during one copy.\<close>

theorem seqlock_snapshot_is_consistent:
  assumes "seq_reachable m d s" and "m \<le> length d" and "r_pc s = RDone n1 n2 out" and "n2 - n1 < 2 ^ 32"
  shows "\<exists>v \<in> set (hist s). out = take m v"
  by (rule snapshot_consistent [OF assms])

theorem seqlock_snapshot_is_consistent_witness:
  "\<exists>s. seq_reachable 1 [7 :: nat, 8] s \<and> r_pc s = RDone 0 0 [7] \<and> (\<exists>v \<in> set (hist s). [7] = take 1 v)"
proof -
  let ?i = "seq_init [7 :: nat, 8]"
  let ?s1 = "?i\<lparr>r_pc := RCopy 0 [0] {}\<rparr>" and ?s2 = "?i\<lparr>r_pc := RCopy 0 [7] {..<1}\<rparr>" and ?s3 = "?i\<lparr>r_pc := RDone 0 0 [7]\<rparr>"
  have "seq_step 1 ?i ?s1"
    using r_load [of ?i "[0]" 1] by (simp add: seq_init_def seq_of_def)
  then have 1: "seq_reachable 1 [7, 8] ?s1" by (blast intro: seq_reachable.intros)
  have "seq_step 1 ?s1 ?s2"
    using r_copy [of ?s1 0 "[0]" "{}" 0 1] by (simp add: seq_init_def lessThan_Suc)
  then have 2: "seq_reachable 1 [7, 8] ?s2" using 1 by (blast intro: seq_reachable.intros)
  have "seq_step 1 ?s2 ?s3"
    using r_return [of ?s2 0 "[7]" 1] by (simp add: seq_init_def seq_of_def)
  then have 3: "seq_reachable 1 [7, 8] ?s3" using 2 by (blast intro: seq_reachable.intros)
  show ?thesis using 3 seqlock_snapshot_is_consistent [OF 3, of 0 0 "[7]"] by (intro exI [of _ ?s3]) simp
qed

subsection \<open>The market board\<close>

text \<open>C19: the hot state of a symbol summarises the trades printed on it: volume, notional and count
  (64-bit), last, highest and lowest price. Prints with a non-positive price or no shares do not
  count.\<close>

theorem board_summarises_trades:
  assumes "unat sid < n"
  shows "summarises (hot (writer_view (run_trades sid ts (market_board_new n)) sid))
    (map (\<lambda>(px, sh, ns). (px, sh)) (real_trades ts))"
proof -
  have "hot (writer_view (market_board_new n) sid) = hot0"
    using assms by (simp add: writer_view_def market_board_new_def seq_locked_new_def state0_def init_bars_def)
  then have "summarises (hot (writer_view (market_board_new n) sid)) []" by (simp add: summarises_def hot0_def)
  moreover have "unat sid < length (states (market_board_new n))" using assms by (simp add: market_board_new_def)
  ultimately show ?thesis using run_trades_summary [of sid "market_board_new n" "[]" ts] by simp
qed

theorem board_summarises_trades_witness:
  "high_px (hot (writer_view (run_trades 0 [(120, 5, 1), (0, 9, 2), (90, 2, 3)] (market_board_new 1)) 0)) = 120"
  using board_summarises_trades [of 0 1 "[(120, 5, 1), (0, 9, 2), (90, 2, 3)]"]
  by (simp add: summarises_def real_trades_def)

subsection \<open>Dates and times\<close>

text \<open>C20: converting a day number to a civil date and back is the identity, and the month and day are in range, for
  every day number up to 7 * 10^11 from the epoch (whose years fit the \<open>int\<close> the code returns); and
  the day number of a valid date of any \<open>int\<close> year converts back to that date.\<close>

theorem civil_date_roundtrip:
  "(-700000000000 \<le> z \<and> z \<le> 700000000000 \<longrightarrow>
      (case civil_from_days z of (y, m, d) \<Rightarrow> days_from_civil y m d = z \<and> 1 \<le> m \<and> m \<le> 12 \<and> 1 \<le> d \<and> d \<le> 31)) \<and>
   (valid_date y m d \<and> - (2 ^ 31) \<le> y \<and> y < 2 ^ 31 \<longrightarrow> civil_from_days (days_from_civil y m d) = (y, m, d))"
  using civil_from_days_roundtrip [of z] civil_days_in_int [of y m d] by auto

theorem civil_date_roundtrip_witness:
  "(case civil_from_days (-719529) of (y, m, d) \<Rightarrow> days_from_civil y m d = -719529) \<and>
   civil_from_days (days_from_civil 2024 2 29) = (2024, 2, 29)"
  using civil_date_roundtrip [of "-719529" 2024 2 29] by (auto simp: valid_date_def days_in_month_def leap_def)

text \<open>C21: Eastern midnight of a valid date of the years 1900 to 2261, computed with the daylight rule in 64-bit
  nanoseconds, is an instant of that date at minute 0, also on the two days the clocks change. (A 64-bit count of
  nanoseconds ends in 2262.)\<close>

theorem eastern_midnight_roundtrip:
  assumes "valid_date y m d" and "1900 \<le> y" and "y \<le> 2261"
  shows "eastern_date (eastern_midnight_ns y m d) = (y, m, d) \<and> eastern_minute_of_day (eastern_midnight_ns y m d) = 0"
  using eastern_midnight_date [OF assms] by simp

theorem eastern_midnight_roundtrip_witness: "eastern_date (eastern_midnight_ns 2026 3 8) = (2026, 3, 8)"
  using eastern_midnight_roundtrip [of 2026 3 8] by (simp add: valid_date_def days_in_month_def)

text \<open>C22: a timestamp printed by \<open>format_utc_iso\<close> is read back by \<open>parse_iso8601\<close>, up to the
  millisecond it prints, for the years 0 to 9999 (the 64-bit instants the code is given lie in the years 1677 to 2262).\<close>

theorem iso8601_roundtrip:
  assumes "0 \<le> fst (civil_of_days (t div (86400 * kNs)))" and "fst (civil_of_days (t div (86400 * kNs))) < 10000"
  shows "parse_iso8601 (format_utc_iso t) = Some (t - t mod 1000000)"
  by (rule iso8601_roundtrip_lemma [OF assms])

theorem iso8601_roundtrip_witness: "parse_iso8601 (format_utc_iso 1234567890123456789) = Some 1234567890123000000"
proof -
  have "fst (civil_of_days (1234567890123456789 div (86400 * kNs))) = 2009" by code_simp
  then show ?thesis using iso8601_roundtrip [of 1234567890123456789] by simp
qed

subsection \<open>The security master\<close>

text \<open>C23: adding a security to a sound table returns, keeps the table sound and every security already
  there, and afterwards the ticker and the ITCH key both lead to the new one.\<close>

theorem symbol_add_then_find:
  assumes "st_inv t" and "length (syms t) < 2 ^ 32 - 2" and "findable (ticker info)"
  shows "\<exists>t' sid. add t info = Some (t', sid) \<and> st_inv t' \<and> syms t' ! unat sid = with_key info \<and>
    st_find t' (ticker info) = Some sid \<and>
    (si_key (with_key info) = kEmpty \<or> find_key t' (si_key (with_key info)) = Some sid) \<and>
    (\<forall>i < length (syms t). syms t' ! i = syms t ! i)"
  using add_find [OF assms] by blast

theorem symbol_add_then_find_witness:
  "\<exists>t t' sid. symbol_table_new = Some t \<and> add t acme = Some (t', sid) \<and> st_find t' ''ACME'' = Some sid"
proof -
  obtain t where t: "symbol_table_new = Some t" "st_inv t" "syms t = []" using symbol_table_new_ok by blast
  show ?thesis
    using symbol_add_then_find [of t acme] t acme_findable by (auto simp: acme_def)
qed




subsection \<open>Text helpers\<close>

subsection \<open>The MoldUDP64 receiver\<close>

text \<open>C25: whatever loss, duplication, delay and reordering the packets of a feed suffer, and with or
  without a re-request server, the handler sees messages of the feed once each and in sequence, starting at the sequence
  number of the first packet; the ones from there that it did not see are exactly those counted in \<open>gap_messages\<close>, and when
  that count is 0 it has seen every message before the next expected one. When the packets came in order, or recovery was on and no gap
  timed out (packets cut alike, fewer than the buffer holds), nothing is counted lost, and the receiver has gone past every
  message it has received without a hole.\<close>

theorem mold_delivers_in_sequence:
  assumes "feed_ok F sess" and "from_feed F sess evs"
    and "m0 = mold_new \<or> (\<exists>a b c. m0 = enable_recovery mold_new a b c)"
  shows "\<exists>m h is. mold_run cb evs (m0, h0) = Some (m, h) \<and> h = handled cb (map F is) h0 \<and>
    sorted_wrt (<) is \<and> set is \<subseteq> {first_seq evs..<unat (mu_expected m)} \<and>
    length is + unat (ms_gap_messages (mu_stats m)) = unat (mu_expected m) - first_seq evs \<and>
    (ms_gap_messages (mu_stats m) = 0 \<longrightarrow> is = [first_seq evs..<unat (mu_expected m)]) \<and>
    (lossless m0 m evs \<longrightarrow> ms_gap_messages (mu_stats m) = 0 \<and>
      (\<forall>E. {first_seq evs..<E} \<subseteq> received evs \<longrightarrow> E \<le> unat (mu_expected m)))"
  using mold_run_ok [OF assms, of cb h0] by (auto simp: delivered_def)

definition quiet_feed :: "nat \<Rightarrow> u8 list" where
  \<comment> \<open>a feed of system events\<close>
  "quiet_feed i = enc_system_event (of_nat i) (CHR ''O'')"

lemma quiet_feed_ok: "feed_ok quiet_feed (replicate 10 65)"
  by (simp add: feed_ok_def quiet_feed_def enc_system_event_def put8_def codec)

lemma feed_events:
  assumes "\<forall>(s, n) \<in> set rs. in_range s n"
  shows "from_feed F sess (map (\<lambda>(s, n). Recv (data_packet F sess s n) 1 0) rs)"
  using assms by (fastforce simp: from_feed_def feed_packet_def)

lemma received_data:
  assumes "length sess = 10" and "\<forall>(s, n) \<in> set rs. in_range s n"
  shows "arrivals (map (\<lambda>(s, n). Recv (data_packet F sess s n) 1 0) rs) = set rs"
  using assms packet_range_data [OF assms(1)] by (fastforce simp: arrivals_def)

lemma first_seq_data:
  assumes "length sess = 10" and "in_range s n"
  shows "first_seq (Recv (data_packet F sess s n) t ck # evs) = s"
proof -
  have "foldl start_after (Some s) evs = Some s" for evs by (induction evs) simp_all
  moreover have "start_after None (Recv (data_packet F sess s n) t ck) = Some s"
    using packet_range_data [OF assms, of F] by (auto simp: packet_range_def split: option.splits if_splits)
  ultimately show ?thesis by (simp add: first_seq_def)
qed

theorem mold_delivers_in_sequence_witness:
  "\<exists>m h. mold_run (\<lambda>n _. n + 1) (map (\<lambda>(s, n). Recv (data_packet quiet_feed (replicate 10 65) s n) 1 0) [(1, 1), (3, 1), (2, 1)])
      (enable_recovery mold_new 250 50 1000, 0 :: nat) = Some (m, h) \<and> 3 \<le> h"
proof -
  let ?rs = "[(1, 1), (3, 1), (2, 1)] :: (nat \<times> nat) list" and ?m0 = "enable_recovery mold_new 250 50 1000"
  let ?evs = "map (\<lambda>(s, n). Recv (data_packet quiet_feed (replicate 10 65) s n) 1 0) ?rs"
  have rs: "\<forall>(s, n) \<in> set ?rs. in_range s n" by (simp add: in_range_def)
  have ff: "from_feed quiet_feed (replicate 10 65) ?evs" by (rule feed_events [OF rs])
  have arr: "arrivals ?evs = set ?rs" by (rule received_data [OF _ rs]) simp
  have fst1: "first_seq ?evs = 1" using first_seq_data [of "replicate 10 65" 1 1] by (simp add: in_range_def)
  obtain m h "is" where r: "mold_run (\<lambda>n _. n + 1) ?evs (?m0, 0 :: nat) = Some (m, h)"
      "h = handled (\<lambda>n _. n + 1) (map quiet_feed is) 0"
      "ms_gap_messages (mu_stats m) = 0 \<longrightarrow> is = [first_seq ?evs..<unat (mu_expected m)]"
      "lossless ?m0 m ?evs \<longrightarrow> ms_gap_messages (mu_stats m) = 0 \<and>
        (\<forall>E. {first_seq ?evs..<E} \<subseteq> received ?evs \<longrightarrow> E \<le> unat (mu_expected m))"
    using mold_delivers_in_sequence [OF quiet_feed_ok ff, of ?m0 "\<lambda>n _. n + 1" 0] by blast
  have "ms_gap_timeouts (mu_stats m) = 0"
    using run_no_ticks [OF quiet_feed_ok mold_new_at(2) ff _ r(1)] by (auto simp: enable_recovery_def mold_new_def mold_stats0_def)
  then have "lossless ?m0 m ?evs"
    unfolding lossless_def arr by (auto simp: same_cuts_def enable_recovery_def mold_new_def mold_options0_def)
  moreover have "{1..<4} \<subseteq> received ?evs" unfolding received_def arr by auto
  ultimately have len: "3 \<le> length is" using r(3,4) fst1 by fastforce
  have "handled (\<lambda>n _. n + 1) (map quiet_feed js) k = k + length js" for js and k :: nat
    by (induction js arbitrary: k) (simp_all add: handle1_def quiet_feed_def decode_system_event)
  then show ?thesis using r(1,2) len by auto
qed

text \<open>C26: progress of gap recovery: a packet that holds the next expected message takes the receiver past
  the end of that packet, and no data packet of the session ever moves it back.\<close>

theorem mold_gap_progress:
  assumes "feed_ok F sess" and "mold_inv F sess cb h0 (m, h)" and "in_range s n" and "mu_session m = sess"
  shows "\<exists>m' h'. on_packet cb clk (data_packet F sess s n) now (m, h) = Some (m', h') \<and>
    unat (mu_expected m) \<le> unat (mu_expected m') \<and>
    (s \<le> unat (mu_expected m) \<longrightarrow> s + n \<le> unat (mu_expected m'))"
  using on_packet_data [OF assms(1-3), of clk now] assms(4) by blast

theorem mold_gap_progress_witness:
  "\<exists>m h. on_packet (\<lambda>n _. n) 0 (data_packet quiet_feed (replicate 10 65) 5 2) 7
      (mold_new\<lparr>mu_session := replicate 10 65, mu_expected := 6\<rparr>, 0 :: nat) = Some (m, h) \<and> 7 \<le> unat (mu_expected m)"
proof -
  let ?m = "mold_new\<lparr>mu_session := replicate 10 65, mu_expected := 6\<rparr>"
  have "seq_ok quiet_feed (replicate 10 65) (\<lambda>n _. n) (0 :: nat) 6 [] 6 (?m, 0)"
    by (simp add: seq_ok_def mold_new_def mold_stats0_def)
  then have "mold_inv quiet_feed (replicate 10 65) (\<lambda>n _. n) (0 :: nat) (?m, 0)"
    unfolding mold_inv_def by (auto intro!: exI mold_at_SomeI simp: pending_ok_def mold_new_def)
  from mold_gap_progress [OF quiet_feed_ok this, of 5 2 0 7] show ?thesis
    by (auto simp: in_range_def mold_new_def)
qed

lemma handled_book:
  "handled (lift_handler dispatch) msgs (Some b) =
     run_calls (List.map_filter (\<lambda>x. case decode x of Some (Call c) \<Rightarrow> Some c | _ \<Rightarrow> None) msgs) b"
proof (induction msgs arbitrary: b)
  case Nil
  show ?case by (simp add: run_calls_def List.map_filter_def)
next
  case (Cons x xs)
  have none: "handled (lift_handler dispatch) ys None = None" for ys
    by (induction ys) (auto simp: handle1_def split: option.splits decoded.splits)
  obtain d where "decode x = Some d" using decode_total [of x] by blast
  then show ?case
    using Cons none by (cases d; cases "dispatch b (case d of Call c \<Rightarrow> c)")
      (auto simp: handle1_def run_calls_def List.map_filter_simps)
qed

definition feed_calls :: "(nat \<Rightarrow> u8 list) \<Rightarrow> nat \<Rightarrow> nat \<Rightarrow> itch_call list" where
  \<comment> \<open>the callbacks of messages \<open>s0\<close> to \<open>e - 1\<close> of a feed\<close>
  "feed_calls F s0 e = List.map_filter (\<lambda>x. case decode x of Some (Call c) \<Rightarrow> Some c | _ \<Rightarrow> None) (map F [s0..<e])"

lemma handled_feed: "handled (lift_handler dispatch) (map F [s0..<e]) (Some b) = run_calls (feed_calls F s0 e) b"
  unfolding handled_book feed_calls_def ..

text \<open>C27: end to end: when nothing was counted lost, and in particular when the packets came in order or recovery was on and no
  gap timed out, the board fed by the receiver through a new order book shows the best quote of the orders left
  resting by the messages of the feed from the first packet to the next expected one; and in the latter case that is past
  every message received without a hole.\<close>

theorem recovered_feed_shows_best_quote:
  assumes "feed_ok F sess" and "from_feed F sess evs"
    and "m0 = mold_new \<or> (\<exists>a b c. m0 = enable_recovery mold_new a b c)"
    and "board_inv bd" and "length (states bd) < 2 ^ 32 - 1"
    and "\<And>i. i < length (states bd) \<Longrightarrow> board_top bd i = (0, 0, 0, 0)"
    and "st_inv tab" and "length (syms tab) \<le> length (states bd)"
    and "itch_book_new tab bd ev w cap track = Some b0" and "\<And>e. admissible_run b0 (feed_calls F (first_seq evs) e)"
  shows "\<exists>m hb. mold_run (lift_handler dispatch) evs (m0, Some b0) = Some (m, hb) \<and>
    (ms_gap_messages (mu_stats m) = 0 \<longrightarrow> (\<exists>b. hb = Some b \<and>
       run_calls (feed_calls F (first_seq evs) (unat (mu_expected m))) b0 = Some b \<and> ib_inv b \<and>
       (\<forall>sid. is_quoted b sid \<longrightarrow> board_top (ib_board b) (unat sid) =
         (case (best_quote True (resting b sid True), best_quote False (resting b sid False)) of
            ((bp, bs), (ap, as)) \<Rightarrow> (bp, ap, bs, as))))) \<and>
    (lossless m0 m evs \<longrightarrow> ms_gap_messages (mu_stats m) = 0 \<and>
      (\<forall>E. {first_seq evs..<E} \<subseteq> received evs \<longrightarrow> E \<le> unat (mu_expected m)))"
proof -
  obtain m hb "is" where r: "mold_run (lift_handler dispatch) evs (m0, Some b0) = Some (m, hb)"
      "hb = handled (lift_handler dispatch) (map F is) (Some b0)"
      "ms_gap_messages (mu_stats m) = 0 \<longrightarrow> is = [first_seq evs..<unat (mu_expected m)]"
      "lossless m0 m evs \<longrightarrow> ms_gap_messages (mu_stats m) = 0 \<and>
        (\<forall>E. {first_seq evs..<E} \<subseteq> received evs \<longrightarrow> E \<le> unat (mu_expected m))"
    using mold_run_ok [OF assms(1-3), of "lift_handler dispatch" "Some b0"] by (auto simp: delivered_def)
  obtain b where b: "run_calls (feed_calls F (first_seq evs) (unat (mu_expected m))) b0 = Some b" "ib_inv b"
      "\<forall>sid. is_quoted b sid \<longrightarrow> board_top (ib_board b) (unat sid) =
         (case (best_quote True (resting b sid True), best_quote False (resting b sid False)) of
            ((bp, bs), (ap, as)) \<Rightarrow> (bp, ap, bs, as))"
    using book_session_ok [OF assms(4-10)] by blast
  have "ms_gap_messages (mu_stats m) = 0 \<longrightarrow> hb = Some b" using r(2,3) b(1) handled_feed [of F _ _ b0] by auto
  then show ?thesis using r(1,4) b by blast
qed

text \<open>The concrete day again, as messages of a feed.\<close>

definition acme_feed :: "nat \<Rightarrow> u8 list" where
  "acme_feed i =
     (if i = 1 then enc_stock_directory 7 1 ''ACME'' (CHR ''Q'')
      else if i = 2 then enc_add 7 2 100 (CHR ''B'') 50 ''ACME'' 12000 else [])"

lemma acme_feed_ok: "feed_ok acme_feed (replicate 10 65)"
proof -
  have "length (acme_feed 1) = 39" "length (acme_feed 2) = 36" by code_simp+
  moreover have "i \<noteq> 1 \<Longrightarrow> i \<noteq> 2 \<Longrightarrow> acme_feed i = []" for i by (simp add: acme_feed_def)
  ultimately have "length (acme_feed i) \<le> 39" for i by (cases "i = 1"; cases "i = 2") simp_all
  then have "length (acme_feed i) < 2 ^ 16" for i by (rule le_less_trans) simp
  then show ?thesis by (simp add: feed_ok_def)
qed

lemma acme_decodes:
  "decode (acme_feed 1) = Some (Call (acme_calls ! 0))" "decode (acme_feed 2) = Some (Call (acme_calls ! 1))"
  "3 \<le> i \<Longrightarrow> decode (acme_feed i) = Some Reject"
proof -
  have "le_word (pad_to 8 ''ACME'') = make_key ''ACME''" by code_simp
  then show "decode (acme_feed 1) = Some (Call (acme_calls ! 0))"
    by (simp add: acme_feed_def decode_stock_directory acme_calls_def)
  show "decode (acme_feed 2) = Some (Call (acme_calls ! 1))" by (simp add: acme_feed_def decode_add acme_calls_def)
  show "3 \<le> i \<Longrightarrow> decode (acme_feed i) = Some Reject" by (simp add: acme_feed_def decode_def)
qed

lemma acme_feed_calls: "feed_calls acme_feed 1 e = take (e - 1) acme_calls"
proof -
  have cs: "acme_calls = [acme_calls ! 0, acme_calls ! 1]" by (simp add: acme_calls_def)
  have quiet: "feed_calls acme_feed 3 e = []"
    by (auto simp: feed_calls_def List.map_filter_def filter_empty_conv acme_decodes(3))
  consider "e \<le> 1" | "e = 2" | "3 \<le> e" by linarith
  then show ?thesis
  proof cases
    case 3
    then have "[1..<e] = 1 # 2 # [3..<e]" by (simp add: upt_conv_Cons numeral_2_eq_2 numeral_3_eq_3)
    then have "feed_calls acme_feed 1 e = (acme_calls ! 0) # (acme_calls ! 1) # feed_calls acme_feed 3 e"
      by (simp add: feed_calls_def List.map_filter_simps acme_decodes del: One_nat_def)
    moreover have "take (e - 1) acme_calls = acme_calls" using 3 by (simp add: acme_calls_def)
    ultimately show ?thesis using quiet cs by simp
  next
    case 2
    have "[1..<2] = [1 :: nat]" by (simp add: upt_conv_Cons numeral_2_eq_2)
    then have "feed_calls acme_feed 1 e = [acme_calls ! 0]"
      using 2 by (simp add: feed_calls_def List.map_filter_simps acme_decodes del: One_nat_def)
    then show ?thesis using 2 by (simp add: acme_calls_def)
  qed (simp add: feed_calls_def List.map_filter_simps)
qed

lemma admissible_run_take: "admissible_run b cs \<Longrightarrow> admissible_run b (take n cs)"
  by (induction cs arbitrary: b n) (auto simp: take_Cons split: option.splits nat.splits)

theorem recovered_feed_shows_best_quote_witness:
  "\<exists>t0 tab b0 m b. symbol_table_new = Some t0 \<and> add t0 acme = Some (tab, 0) \<and>
    itch_book_new tab (market_board_new 1) None False 16 True = Some b0 \<and>
    mold_run (lift_handler dispatch) [Recv (data_packet acme_feed (replicate 10 65) 1 2) 1 0] (mold_new, Some b0) = Some (m, Some b) \<and>
    board_top (ib_board b) 0 = (12000, 0, 50, 0)"
proof -
  obtain t0 tab b0 b1 b where d: "symbol_table_new = Some t0" "add t0 acme = Some (tab, 0)" "st_inv tab" "length (syms tab) = 1"
      "itch_book_new tab (market_board_new 1) None False 16 True = Some b0" "admissible_run b0 acme_calls"
      "run_calls acme_calls b0 = Some b"
      "ib_l2s b = (\<lambda>_. kInvalid)(7 := 0)" "fm_map (ib_orders b) = [100 \<mapsto> acme_order]" "is_quoted b 0"
    by (rule acme_run)
  let ?evs = "map (\<lambda>(s, n). Recv (data_packet acme_feed (replicate 10 65) s n) 1 0) [(1, 2)]"
  have rs: "\<forall>(s, n) \<in> set [(1, 2)]. in_range s n" by (simp add: in_range_def)
  have fst1: "first_seq ?evs = 1" using first_seq_data [of "replicate 10 65" 1 2] by (simp add: in_range_def)
  have got: "{1..<3} \<subseteq> received ?evs"
    unfolding received_def received_data [OF length_replicate rs] by auto
  have adm: "admissible_run b0 (feed_calls acme_feed (first_seq ?evs) e)" for e
    unfolding fst1 acme_feed_calls by (rule admissible_run_take [OF d(6)])
  obtain m hb where r: "mold_run (lift_handler dispatch) ?evs (mold_new, Some b0) = Some (m, hb)"
      "ms_gap_messages (mu_stats m) = 0 \<longrightarrow> (\<exists>b. hb = Some b \<and>
       run_calls (feed_calls acme_feed (first_seq ?evs) (unat (mu_expected m))) b0 = Some b \<and> ib_inv b \<and>
       (\<forall>sid. is_quoted b sid \<longrightarrow> board_top (ib_board b) (unat sid) =
         (case (best_quote True (resting b sid True), best_quote False (resting b sid False)) of
            ((bp, bs), (ap, as)) \<Rightarrow> (bp, ap, bs, as))))"
      "lossless mold_new m ?evs \<longrightarrow> ms_gap_messages (mu_stats m) = 0 \<and>
        (\<forall>E. {first_seq ?evs..<E} \<subseteq> received ?evs \<longrightarrow> E \<le> unat (mu_expected m))"
    using recovered_feed_shows_best_quote [OF acme_feed_ok feed_events [OF rs] _ board_inv_new _ acme_board(2) d(3) _ d(5) adm, of mold_new]
      acme_board(1) d(4) by auto
  have "lossless mold_new m ?evs"
    using packet_range_data [of "replicate 10 65" 1 2 acme_feed] by (simp add: lossless_def in_range_def)
  then have z: "ms_gap_messages (mu_stats m) = 0" "3 \<le> unat (mu_expected m)" using r(3) got fst1 by auto
  from this(2) have "take (unat (mu_expected m) - 1) acme_calls = acme_calls" by (simp add: acme_calls_def)
  then have b: "hb = Some b" "board_top (ib_board b) (unat (0 :: u32)) =
      (case (best_quote True (resting b 0 True), best_quote False (resting b 0 False)) of ((bp, bs), (ap, as)) \<Rightarrow> (bp, ap, bs, as))"
    using r(2) z(1) d(7,10) unfolding fst1 acme_feed_calls by auto
  then have "board_top (ib_board b) 0 = (12000, 0, 50, 0)" using acme_quote [OF d(8,9)] by simp
  then show ?thesis using d(1,2,5) r(1) b(1) by auto
qed

subsection \<open>Recording and replaying\<close>

text \<open>C28: what the recorder wrote of a session is replayed by the file reader as the same messages in the
  same order, and the reader ends: at most one step per message, plus one, is needed.\<close>

theorem record_replay_roundtrip:
  assumes "gz_stream gzread content" and "\<forall>x \<in> set msgs. length x \<le> 63" and "length msgs \<le> 2 ^ 20"
    and "content g = snd (record_bytes (Suc (length msgs)) (foldl recorder_push itch_recorder_new msgs))"
    and "length msgs < fuel"
  shows "\<exists>r. file_run gzread cb (\<lambda>_. False) fuel 0 0 (file_open g, h) = (Some (r, handled cb msgs h), False) \<and>
    fr_messages r = of_nat (length msgs)"
proof -
  have "rest_of content (file_open g) = concat (map mold_frame msgs)"
    using recorded_stream [OF assms(2,3)] assms(4) by (simp add: rest_of_def file_open_def)
  moreover have "fr_inv content (file_open g)" "\<forall>x \<in> set msgs. length x < 2 ^ 16"
    using assms(2) by (auto simp: fr_inv_def file_open_def)
  ultimately show ?thesis
    using file_run_all [OF assms(1) _ _ _ assms(5), of "file_open g" cb h] by (auto simp: file_open_def)
qed

definition list_gzread :: "u8 list \<Rightarrow> nat \<Rightarrow> u8 list \<times> u8 list" where
  \<comment> \<open>a stream held in memory\<close>
  "list_gzread g n = (take n g, drop n g)"

theorem record_replay_roundtrip_witness:
  "\<exists>r. file_run list_gzread (\<lambda>n _. n + 1) (\<lambda>_. False) 3 0 0
     (file_open (snd (record_bytes 3 (foldl recorder_push itch_recorder_new [quiet_feed 1, quiet_feed 2]))), 0 :: nat) =
     (Some (r, 2), False)"
proof -
  have gz: "gz_stream list_gzread (\<lambda>g. g)" by (auto simp: gz_stream_def list_gzread_def)
  have len: "length (quiet_feed i) = 12" for i by (simp add: quiet_feed_def enc_system_event_def put8_def codec)
  have "handled (\<lambda>n _. n + 1) [quiet_feed 1, quiet_feed 2] (0 :: nat) = 2"
    by (simp add: handle1_def quiet_feed_def decode_system_event)
  then show ?thesis
    using record_replay_roundtrip [OF gz, of "[quiet_feed 1, quiet_feed 2]" _ 3 "\<lambda>n _. n + 1" "0 :: nat"] len
    by (auto simp: numeral_3_eq_3)
qed

subsection \<open>HTTP\<close>

text \<open>C29: the response parser is incremental: fed the receive buffer as it grows in any pieces, it ends as
  if it had been fed the whole input at once: the same result, status, headers and body.\<close>

theorem http_feed_in_pieces:
  assumes "feed_pieces [] xs (rp_reset hd_req) = (p, NeedMore)" and "xs \<noteq> []"
  shows "same_outcome (rp_feed (concat xs @ t) eof p) (rp_feed (concat xs @ t) eof (rp_reset hd_req)) \<and>
    rp_body (fst (rp_feed (concat xs @ t) eof p)) = rp_body (fst (rp_feed (concat xs @ t) eof (rp_reset hd_req)))"
proof -
  have "rp_ok [] (rp_reset hd_req)" by (simp add: rp_ok_def rp_reset_def)
  from feed_pieces_resume [OF this assms, of t eof]
  have "same_outcome (rp_feed (concat xs @ t) eof p) (rp_feed (concat xs @ t) eof (rp_reset hd_req))" by simp
  then show ?thesis using same_outcome_body by blast
qed

definition ok_response :: "string list" where
  \<comment> \<open>a chunked response that arrives in three pieces, cut inside the header and inside a chunk\<close>
  "ok_response = [''HTTP/1.1 200 OK'' @ [CHR 0x0D], [CHR 0x0A] @ ''Transfer-Encoding: chunked'' @ crlf @ crlf @ ''5'' @ crlf @ ''he'',
     ''llo'' @ crlf @ ''0'' @ crlf @ crlf]"

lemma ok_response_pieces: "snd (feed_pieces [] (take 2 ok_response) (rp_reset False)) = NeedMore"
  by code_simp

lemma ok_response_body: "snd (rp_feed (concat ok_response) False (rp_reset False)) = Done"
  "rp_body (fst (rp_feed (concat ok_response) False (rp_reset False))) = ''hello''"
  by code_simp+

theorem http_feed_in_pieces_witness:
  "\<exists>p. feed_pieces [] (take 2 ok_response) (rp_reset False) = (p, NeedMore) \<and>
    rp_body (fst (rp_feed (concat ok_response) False p)) = ''hello''"
proof -
  obtain p where p: "feed_pieces [] (take 2 ok_response) (rp_reset False) = (p, NeedMore)"
    using ok_response_pieces by (metis prod.collapse)
  have c: "concat (take 2 ok_response) @ ok_response ! 2 = concat ok_response" "take 2 ok_response \<noteq> []" by (simp_all add: ok_response_def)
  show ?thesis using http_feed_in_pieces [OF p c(2), of "ok_response ! 2" False] p ok_response_body unfolding c(1) by auto
qed

text \<open>C30: a chunked body decodes to the concatenation of its chunks, whatever their number, sizes and
  extensions, and the parser is done at the blank line after the last chunk.\<close>

theorem http_chunked_roundtrip:
  assumes "\<forall>c \<in> set cs. chunk_ok c" and "CHR 0x0D \<notin> set z" and "chunk_size z = Some 0"
    and "rp_phase p = PChunked" and "rp_use_dechunked p" and "rp_cs p = CSize" and "rp_cpos p = length pre" and "rp_dechunked p = []"
  shows "\<exists>p'. rp_feed (pre @ concat (map chunk_text cs) @ z @ crlf @ crlf @ post) eof p = (p', Done) \<and>
    rp_body p' = concat (map snd cs)"
  using chunked_feed_ok [OF assms(1-7), of post eof] assms(8) by auto

theorem http_chunked_roundtrip_witness:
  "\<exists>p'. rp_feed (concat (map chunk_text [(''5;x=1'', ''hello''), (''A'', '' cruel wor''), (''2'', ''ld'')]) @ ''0'' @ crlf @ crlf) False
     ((rp_reset False)\<lparr>rp_phase := PChunked, rp_use_dechunked := True\<rparr>) = (p', Done) \<and> rp_body p' = ''hello cruel world''"
proof -
  let ?cs = "[(''5;x=1'', ''hello''), (''A'', '' cruel wor''), (''2'', ''ld'')]"
  have s: "chunk_size ''5;x=1'' = Some 5" "chunk_size ''A'' = Some 10" "chunk_size ''2'' = Some 2" "chunk_size ''0'' = Some 0"
    by code_simp+
  then have "\<forall>c \<in> set ?cs. chunk_ok c" by (simp add: chunk_ok_def)
  from http_chunked_roundtrip [OF this _ s(4), of "(rp_reset False)\<lparr>rp_phase := PChunked, rp_use_dechunked := True\<rparr>" "[]" "[]" False]
  show ?thesis by (simp add: rp_reset_def)
qed

text \<open>C31: a URL that parses has a target that starts with a slash and holds no fragment, a port from 1 to
  65535, a lower-case host free of separators, and a Host header that names the port unless it is the
  scheme's own.\<close>

theorem parse_url_wellformed:
  assumes "parse_url s = Some u"
  shows "(\<exists>r. u_target u = CHR ''/'' # r) \<and> CHR ''#'' \<notin> set (u_target u) \<and> 0 < u_port u \<and>
    set (u_host u) \<inter> {CHR ''/'', CHR ''?'', CHR ''@''} = {} \<and> to_lower_copy (u_host u) = u_host u \<and>
    u_host_header u = (if u_port u = (if u_tls u then 443 else 80) then u_host u
      else u_host u @ '':'' @ to_string (unat (u_port u)))"
  by (rule parse_url_ok [OF assms])

theorem parse_url_wellformed_witness:
  "\<exists>u. parse_url ''https://WWW.SEC.gov:81?a=1#top'' = Some u \<and> u_host_header u = ''www.sec.gov:81''"
proof -
  have "map_option (\<lambda>u. (u_tls u, u_host u, u_port u)) (parse_url ''https://WWW.SEC.gov:81?a=1#top'') = Some (True, ''www.sec.gov'', 81)"
    by code_simp
  then obtain u where u: "parse_url ''https://WWW.SEC.gov:81?a=1#top'' = Some u" "u_tls u" "u_host u = ''www.sec.gov''" "u_port u = 81"
    by auto
  have "to_string 81 = ''81''" by code_simp
  then show ?thesis using parse_url_wellformed [OF u(1)] u by auto
qed

subsection \<open>News scoring\<close>

text \<open>C32: After a rule file was loaded, scanning a text reports a rule exactly when its phrase, normalised to
  lower-case words between single blanks (a phrase with a trailing star stays open at its end), occurs in the
  text normalised the same way. The compiled automaton (one table lookup per byte) is equivalent to searching
  every phrase; a text with no letter or digit reports nothing.\<close>
theorem scan_finds_phrases:
  assumes "load_rules tsv = Some sc"
  shows "i \<in> set (scan (sc_auto sc) news) \<longleftrightarrow>
    i < length (sc_rules sc) \<and> norm_text news \<noteq> '' '' \<and> sublist (norm_phrase (ru_phrase (sc_rules sc ! i))) (norm_text news)"
  by (rule scan_ok [OF assms])

theorem scan_finds_phrases_witness:
  "\<exists>sc. load_rules (''tier1'' @ [CHR 0x09] @ ''9'' @ [CHR 0x09] @ ''fd*'') = Some sc \<and> 0 \<in> set (scan (sc_auto sc) ''An FDA, ok'') \<and>
     0 \<notin> set (scan (sc_auto sc) ''Sfd'')"
proof -
  have "map_option (\<lambda>s. map ru_phrase (sc_rules s)) (load_rules (''tier1'' @ [CHR 0x09] @ ''9'' @ [CHR 0x09] @ ''fd*'')) = Some [''fd*'']"
    by code_simp
  then obtain sc where sc: "load_rules (''tier1'' @ [CHR 0x09] @ ''9'' @ [CHR 0x09] @ ''fd*'') = Some sc"
    "map ru_phrase (sc_rules sc) = [''fd*'']" by auto
  then have rules: "length (sc_rules sc) = 1" "ru_phrase (sc_rules sc ! 0) = ''fd*''" by auto
  have t: "norm_phrase ''fd*'' = '' fd''" "norm_text ''An FDA, ok'' = '' an fda ok ''" "norm_text ''Sfd'' = '' sfd ''" by code_simp+
  have s: "sublist '' fd'' '' an fda ok ''" "\<not> sublist '' fd'' '' sfd ''" by code_simp+
  show ?thesis using scan_finds_phrases [OF sc(1), of 0] sc(1) rules t s by auto
qed

text \<open>C33: The final score lies between 0 and 100 and materiality moves it by at most 20 points. Text marked as
  law-firm spam scores 0 whatever else it says, and offering language makes the catalyst an offering with a score
  of at most 15.\<close>
theorem final_score_bounds:
  fixes sc title body cap
  defines "r \<equiv> finalize (score_text sc title body) cap"
  shows "0 \<le> sr_score r \<and> sr_score r \<le> 100 \<and> \<bar>sr_score r - sr_text_score r\<bar> \<le> 20 \<and>
    (has_flag (sr_flags r) kSfSpam \<longrightarrow> sr_score r = 0) \<and>
    (has_flag (sr_flags r) kSfOffering \<longrightarrow> sr_catalyst r = Offering \<and> sr_score r \<le> 15)"
  unfolding r_def by (rule final_score_ok)

theorem final_score_bounds_witness:
  "let r = finalize (score_text (build [\<lparr>ru_kind_str = ''dilution'', ru_phrase = ''a'', ru_weight = 0, ru_kind = KDilution, ru_cat = NoCatalyst\<rparr>]) ''A'' []) 5
   in sr_catalyst r = Offering \<and> sr_score r \<le> 15"
proof -
  let ?sc = "build [\<lparr>ru_kind_str = ''dilution'', ru_phrase = ''a'', ru_weight = 0, ru_kind = KDilution, ru_cat = NoCatalyst\<rparr>]"
  have "has_flag (sr_flags (score_text ?sc ''A'' [])) kSfOffering" by code_simp
  then show ?thesis using final_score_bounds [of ?sc "''A''" "[]" 5] by (simp add: finalize_keeps Let_def)
qed

subsection \<open>Paper trading\<close>

text \<open>C34: The books of the paper trader balance after any sequence of signals, steps and shutdowns, with any market
  data: every filled position is either still open or closed exactly once, a closed trade is a win or a loss,
  realised profit is wins minus losses, the drawdown covers the fall from the peak, no ticker has two active
  positions, and the number of active positions never exceeds the limit.\<close>
theorem paper_books_balance:
  assumes "paper_reach cfg p"
  shows "ps_opened (pr_st p) = ps_closed (pr_st p) + of_nat (length (filter live (pr_pos p))) \<and>
    ps_closed (pr_st p) = ps_wins (pr_st p) + ps_losses (pr_st p) \<and>
    ps_realized (pr_st p) = ps_gross_win (pr_st p) - ps_gross_loss (pr_st p) \<and>
    0 \<le> ps_peak (pr_st p) - ps_realized (pr_st p) \<and> ps_peak (pr_st p) - ps_realized (pr_st p) \<le> ps_max_drawdown (pr_st p) \<and>
    one_per_sym (pr_pos p) \<and> open_positions p \<le> nat (max 1 (pc_max_open cfg))"
proof -
  note I = conjunct1 [OF paper_reach_ok [OF assms]] and c = conjunct2 [OF paper_reach_ok [OF assms]]
  have "open_positions p \<le> length (pr_pos p)" by (simp add: open_positions_def)
  then show ?thesis using I c by (auto simp: paper_inv_def books_ok_def n_live_def)
qed

theorem paper_books_balance_witness:
  "\<exists>p. paper_reach paper_config0 p \<and> open_positions p = 1 \<and> one_per_sym (pr_pos p) \<and> open_positions p \<le> nat (max 1 3)"
proof -
  let ?s = "\<lparr>sg_tier = TierHigh, sg_catalyst = FdaApproval, sg_source = 0, sg_sym = 7, sg_score_flags = 0, sg_dilution_flags = 0,
    sg_score = 80, sg_news_id = 1, sg_t_news_recv_ns = 0, sg_t_signal_ns = 0, sg_published_ns = 0, sg_price = 2, sg_ref_price = 1,
    sg_move_pct = 100, sg_rvol = 0, sg_dollar_volume = 0, sg_vwap = 0, sg_bid = 0, sg_ask = 0, sg_spread_pct = 0, sg_market_cap = 0,
    sg_shares_out = 0, sg_amount_usd = 0, sg_materiality = 0, sg_ticker = ''ABCD'', sg_exchange = [], sg_halt_reason = []\<rparr>"
  let ?p = "on_signal ?s 1700000000000000000 (paper_new paper_config0)"
  have r: "paper_reach paper_config0 ?p" by (intro paper_reach.intros)
  have "open_positions ?p = 1" by code_simp
  then show ?thesis using r paper_books_balance [OF r] by (auto simp: paper_config0_def)
qed

text \<open>C35: A signal opens at most the position made from it, and only when its tier is traded, the ticker has no
  active position and the loss realised on the current Eastern day is below the limit.\<close>
theorem paper_entry_limits:
  assumes "x \<in> set (pr_pos (on_signal s now p))" and "x \<notin> set (pr_pos p)"
  shows "x = new_pos (pr_cfg p) s now \<and> traded_tier (pr_cfg p) (sg_tier s) \<and> (\<forall>y \<in> set (pr_pos p). \<not> holds (sg_sym s) y) \<and>
    ps_day_realized (pr_st (roll_day now p)) > - pc_max_daily_loss_usd (pr_cfg p)"
  by (rule on_signal_opens [OF assms])

theorem paper_entry_limits_witness:
  "\<exists>s x. x \<in> set (pr_pos (on_signal s 1700000000000000000 (paper_new paper_config0))) \<and> x = new_pos paper_config0 s 1700000000000000000 \<and>
     po_active x"
proof -
  let ?s = "\<lparr>sg_tier = TierAlert, sg_catalyst = FdaApproval, sg_source = 0, sg_sym = 7, sg_score_flags = 0, sg_dilution_flags = 0,
    sg_score = 80, sg_news_id = 1, sg_t_news_recv_ns = 0, sg_t_signal_ns = 0, sg_published_ns = 0, sg_price = 2, sg_ref_price = 1,
    sg_move_pct = 100, sg_rvol = 0, sg_dollar_volume = 0, sg_vwap = 0, sg_bid = 0, sg_ask = 0, sg_spread_pct = 0, sg_market_cap = 0,
    sg_shares_out = 0, sg_amount_usd = 0, sg_materiality = 0, sg_ticker = ''ABCD'', sg_exchange = [], sg_halt_reason = []\<rparr>"
  let ?x = "pr_pos (on_signal ?s 1700000000000000000 (paper_new paper_config0)) ! 0"
  have len: "length (pr_pos (on_signal ?s 1700000000000000000 (paper_new paper_config0))) = 3" by code_simp
  then have 1: "?x \<in> set (pr_pos (on_signal ?s 1700000000000000000 (paper_new paper_config0)))" by simp
  have a: "po_active ?x" by code_simp
  have "\<not> po_active y" if "y \<in> set (pr_pos (paper_new paper_config0))" for y using that by (auto simp: paper_new_def pos0_def)
  then have 2: "?x \<notin> set (pr_pos (paper_new paper_config0))" using a by blast
  have "pr_cfg (paper_new paper_config0) = paper_config0" by (simp add: paper_new_def)
  then show ?thesis using 1 a paper_entry_limits [OF 1 2] by metis
qed

text \<open>C36: The stop is enforced and halts are respected. A step sells an open position whose stock trades (not halted,
  with a price) at or below the stop level, at the current mark less slippage; while the stock is halted a step
  leaves the position as it is, whatever the price.\<close>
theorem paper_stop_and_halt:
  assumes "i < length (pr_pos p)" and "x = pr_pos p ! i" and "live x" and "h = board (pt_sym (po_t x))"
  shows "(halted h \<longrightarrow> pr_pos (fst (paper_step board now p)) ! i = x) \<and>
    (\<not> halted h \<and> exit_mark h > 0 \<and> change_pct h x \<le> - pc_stop_loss_pct (pr_cfg p) \<longrightarrow>
       \<not> po_active (pr_pos (fst (paper_step board now p)) ! i) \<and>
       (\<exists>t \<in> set (snd (paper_step board now p)). pt_sym t = pt_sym (po_t x) \<and> pt_closed t \<and> pt_exit_reason t = ''stop'' \<and>
          pt_exit_px t = slipped_down (pr_cfg p) (exit_mark h)))"
proof -
  note n = step_nth [OF assms(1), of board now "pr_st p"]
  have "halted h \<longrightarrow> pr_pos (fst (paper_step board now p)) ! i = x"
    using step_pos_halted [of x board] n assms(2-4) by simp
  moreover have "\<not> po_active (pr_pos (fst (paper_step board now p)) ! i) \<and>
       (\<exists>t \<in> set (snd (paper_step board now p)). pt_sym t = pt_sym (po_t x) \<and> pt_closed t \<and> pt_exit_reason t = ''stop'' \<and>
          pt_exit_px t = slipped_down (pr_cfg p) (exit_mark h))"
    if "\<not> halted h \<and> exit_mark h > 0 \<and> change_pct h x \<le> - pc_stop_loss_pct (pr_cfg p)"
    using step_pos_stop [of x board "pr_cfg p" now "pr_st p"] n that assms(2-4) by auto
  ultimately show ?thesis by blast
qed

theorem paper_stop_and_halt_witness:
  "let x = pos0\<lparr>po_active := True, po_filled := True, po_t := paper_trade0\<lparr>pt_sym := 3, pt_entry_px := 2, pt_shares := 10\<rparr>\<rparr>;
       p = (paper_new paper_config0)\<lparr>pr_pos := [x]\<rparr>
   in \<not> po_active (pr_pos (fst (paper_step (\<lambda>_. hot0\<lparr>last_px := 18000\<rparr>) 5 p)) ! 0) \<and>
      pr_pos (fst (paper_step (\<lambda>_. hot0\<lparr>last_px := 18000, trading_state := CHR ''H''\<rparr>) 5 p)) ! 0 = x"
proof -
  let ?x = "pos0\<lparr>po_active := True, po_filled := True, po_t := paper_trade0\<lparr>pt_sym := 3, pt_entry_px := 2, pt_shares := 10\<rparr>\<rparr>"
  let ?p = "(paper_new paper_config0)\<lparr>pr_pos := [?x]\<rparr>"
  have x: "0 < length (pr_pos ?p)" "?x = pr_pos ?p ! 0" "live ?x" by (simp_all add: live_def)
  have h: "\<not> halted (hot0\<lparr>last_px := 18000\<rparr>)" "exit_mark (hot0\<lparr>last_px := 18000\<rparr>) > 0"
    "change_pct (hot0\<lparr>last_px := 18000\<rparr>) ?x \<le> - pc_stop_loss_pct (pr_cfg ?p)" "halted (hot0\<lparr>last_px := 18000, trading_state := CHR ''H''\<rparr>)"
    by (simp_all add: halted_def hot0_def exit_mark_def quote_valid_def last_price_def change_pct_def paper_new_def paper_config0_def)
  show ?thesis using paper_stop_and_halt [OF x refl, of "\<lambda>_. hot0\<lparr>last_px := 18000\<rparr>" 5]
      paper_stop_and_halt [OF x refl, of "\<lambda>_. hot0\<lparr>last_px := 18000, trading_state := CHR ''H''\<rparr>" 5] h by (simp add: Let_def)
qed

subsection \<open>Latency histogram and fixed strings\<close>

text \<open>C37: A percentile read from the histogram of recorded values lies at or above the exact percentile (the value of
  that rank among the recorded ones), never above the largest recorded value, and overstates the exact one by at most
  a sixteenth of it, for every percentile between 0 and 100 and any values.\<close>
theorem percentile_within_sixteenth:
  assumes "0 \<le> p" and "p \<le> 100" and "length xs < 2 ^ 64" and "xs \<noteq> []"
  defines "x \<equiv> exact_percentile xs (nat \<lfloor>max 1 (p / 100 * real (length xs) + 1 / 2)\<rfloor>)"
  shows "x \<in> set xs \<and> x \<le> percentile (hist_of xs) p \<and> percentile (hist_of xs) p \<le> fold max xs 0 \<and>
    16 * (unat (percentile (hist_of xs) p) - unat x) \<le> unat x"
  unfolding x_def by (rule percentile_ok [OF assms(1-4)])

theorem percentile_within_sixteenth_witness:
  "(1000 :: u64) \<le> percentile (hist_of [3, 1000, 5000]) 50 \<and> unat (percentile (hist_of [3, 1000, 5000]) 50) \<le> 1062"
proof -
  have "nat \<lfloor>max 1 (50 / 100 * real (length [3, 1000, 5000 :: u64]) + 1 / 2)\<rfloor> = 2" by simp
  moreover have "exact_percentile [3, 1000, 5000] 2 = 1000" by (simp add: exact_percentile_def)
  ultimately have "1000 \<le> percentile (hist_of [3, 1000, 5000]) 50 \<and> 16 * (unat (percentile (hist_of [3, 1000, 5000]) 50) - 1000) \<le> 1000"
    using percentile_within_sixteenth [of 50 "[3, 1000, 5000]"] by simp
  then show ?thesis by linarith
qed

text \<open>C40: A text of whole UTF-8 characters is stored in a fixed string as a whole number of them, as many as fit
  the capacity: no character is split and none that would fit is dropped.\<close>
theorem fixed_string_keeps_characters:
  assumes "\<forall>w \<in> set ws. utf8_char w"
  shows "\<exists>k \<le> length ws. fs_assign N (concat ws) = concat (take k ws) \<and>
     length (concat (take k ws)) \<le> fs_capacity N \<and> (k < length ws \<longrightarrow> fs_capacity N < length (concat (take (Suc k) ws)))"
  by (rule assign_chars [OF assms])

theorem fixed_string_keeps_characters_witness:
  "\<exists>k. fs_assign 4 (concat [''a'', ''b'', [CHR 0xC3, CHR 0xA9], ''c'']) = concat (take k [''a'', ''b'', [CHR 0xC3, CHR 0xA9], ''c'']) \<and>
     fs_assign 4 (concat [''a'', ''b'', [CHR 0xC3, CHR 0xA9], ''c'']) = ''ab''"
proof -
  have "\<forall>w \<in> set [''a'', ''b'', [CHR 0xC3, CHR 0xA9], ''c'']. utf8_char w" by code_simp
  then have "\<exists>k. fs_assign 4 (concat [''a'', ''b'', [CHR 0xC3, CHR 0xA9], ''c'']) = concat (take k [''a'', ''b'', [CHR 0xC3, CHR 0xA9], ''c''])"
    using fixed_string_keeps_characters [of "[''a'', ''b'', [CHR 0xC3, CHR 0xA9], ''c'']" 4] by blast
  moreover have "fs_assign 4 (concat [''a'', ''b'', [CHR 0xC3, CHR 0xA9], ''c'']) = ''ab''" by code_simp
  ultimately show ?thesis by blast
qed

subsection \<open>Filings\<close>

text \<open>C39: Writing a filings history to its TSV file and loading the file into an empty history restores the history
  exactly, filing by filing, for every history of filings dated in years of at most four digits.\<close>
theorem filings_tsv_roundtrip:
  assumes "filings_ok h"
  shows "load_tsv (to_tsv h) [] = (h, length (history_rows h))"
  by (rule tsv_roundtrip [OF assms])

theorem filings_tsv_roundtrip_witness:
  "let h = filings_add 320193 20000 Form8K kItem302 (filings_add 7 19999 Prospectus 0 [])
   in filings_flags (fst (load_tsv (to_tsv h) [])) 320193 20010 dilution_policy0 = kFlagUnregisteredSale"
proof -
  let ?h = "filings_add 320193 20000 Form8K kItem302 (filings_add 7 19999 Prospectus 0 [])"
  have "filings_ok ?h" by code_simp
  then have "fst (load_tsv (to_tsv ?h) []) = ?h" using filings_tsv_roundtrip [of ?h] by simp
  moreover have "filings_flags ?h 320193 20010 dilution_policy0 = kFlagUnregisteredSale" by code_simp
  ultimately show ?thesis by (simp add: Let_def)
qed

text \<open>C38: A backtest sees no filing of its own day or later: a dilution flag read from the history cut before a day is
  set exactly when some filing of the issuer from before that day raises it.\<close>
theorem dilution_no_lookahead:
  assumes "distinct (map fst h)"
  shows "test_flag (filings_flags (filings_before day h) iss today p) k \<longleftrightarrow>
    (\<exists>v. filings_entries h iss = Some v \<and> (\<exists>e \<in> set v. fi_day e < day \<and> test_flag (entry_flags p today e) k))"
proof (cases "filings_entries h iss")
  case None
  then show ?thesis by (simp add: filings_flags_iff before_entries [OF assms])
next
  case (Some v)
  then show ?thesis by (auto simp: filings_flags_iff before_entries [OF assms])
qed

theorem dilution_no_lookahead_witness:
  "let h = filings_add 7 100 Prospectus 0 (filings_add 7 90 S3 0 [])
   in \<not> test_flag (filings_flags (filings_before 100 h) 7 100 dilution_policy0) kFlagOfferingRecent \<and>
      test_flag (filings_flags (filings_before 100 h) 7 100 dilution_policy0) kFlagShelf"
proof -
  let ?h = "filings_add 7 100 Prospectus 0 (filings_add 7 90 S3 0 [])"
  have d: "distinct (map fst ?h)" by code_simp
  have "filings_entries ?h 7 = Some [\<lparr>fi_day = 90, fi_cls = S3, fi_items = 0\<rparr>, \<lparr>fi_day = 100, fi_cls = Prospectus, fi_items = 0\<rparr>]"
    by code_simp
  moreover have "test_flag (entry_flags dilution_policy0 100 \<lparr>fi_day = 90, fi_cls = S3, fi_items = 0\<rparr>) kFlagShelf"
    "\<not> test_flag (entry_flags dilution_policy0 100 \<lparr>fi_day = 90, fi_cls = S3, fi_items = 0\<rparr>) kFlagOfferingRecent" by code_simp+
  ultimately show ?thesis using dilution_no_lookahead [OF d, of 100 7 100 dilution_policy0] by (auto simp: Let_def)
qed

subsection \<open>The signal engine\<close>

text \<open>C3: Whatever news, market events, evaluations, scans and statistics resets a new engine handles, in whatever order, every
  operation returns and the invariant holds: the slots of the watch list are all accounted for, no ticker is watched twice, the
  index finds exactly the watched tickers, the output rings are well formed and the books of the paper trader balance.\<close>
theorem engine_run_returns:
  assumes "\<And>q. alerts = Some q \<Longrightarrow> spsc_inv q" and "\<And>q. journal = Some q \<Longrightarrow> spsc_inv q"
  shows "\<exists>e0 e. engine_new cfg sl has_board sc fil alerts journal n = Some e0 \<and> engine_run acts e0 = Some e \<and> engine_inv e \<and>
    watch_count e + length (en_free e) = 1024 \<and> inj_on (\<lambda>i. wa_sym (en_watch e ! i)) (set (en_slots e))"
proof -
  obtain e0 where e0: "engine_new cfg sl has_board sc fil alerts journal n = Some e0" "engine_inv e0"
    using engine_new_ok [OF assms, where cfg = cfg and sl = sl and has_board = has_board and sc = sc and fil = fil and n = n] by (auto simp: yields_def)
  obtain e where e: "engine_run acts e0 = Some e" "engine_inv e" using engine_run_ok [OF e0(2), of acts] by (auto simp: yields_def)
  have ok: "watch_ok e" by (rule engine_invD(1) [OF e(2)])
  have "distinct (en_slots e @ en_free e)" using ok by (simp add: watch_ok_def)
  then have "length (en_slots e @ en_free e) = card (set (en_slots e @ en_free e))" by (rule distinct_card [symmetric])
  then have "watch_count e + length (en_free e) = 1024"
    using ok by (simp add: watch_ok_def watch_count_def kWatchSlots_def)
  moreover have "inj_on (\<lambda>i. wa_sym (en_watch e ! i)) (set (en_slots e))"
    using slot_sym_inj [OF ok] by (auto simp: inj_on_def slot_sym_def)
  ultimately show ?thesis using e0(1) e by blast
qed

theorem engine_run_returns_witness:
  "\<forall>j0. \<exists>e0 e. engine_new engine_config0 [symbol_info0] False (build []) [] None (Some (spsc_new j0 8)) 3 = Some e0 \<and>
     engine_run [ActEvaluate None 5 5, ActStats, ActScan None 6 6] e0 = Some e \<and> engine_inv e"
proof
  fix j0 :: journal_record
  have "spsc_inv (spsc_new j0 8)" using spsc_new_rep [of 8 j0] by (auto simp: spsc_inv_def)
  then show "\<exists>e0 e. engine_new engine_config0 [symbol_info0] False (build []) [] None (Some (spsc_new j0 8)) 3 = Some e0 \<and>
     engine_run [ActEvaluate None 5 5, ActStats, ActScan None 6 6] e0 = Some e \<and> engine_inv e"
    using engine_run_returns [of None "Some (spsc_new j0 8)"] by fastforce
qed

lemma one_symbol_engine:
  "\<exists>e. engine_inv e \<and> stories e = Map.empty \<and> last_sent e = Map.empty \<and> en_cfg e = cfg \<and> en_symbols e = [i] \<and> en_filings e = [] \<and>
     en_scorer e = build [] \<and> en_universe e = [static_universe cfg i]"
proof -
  have "yields (engine_new cfg [i] False (build []) [] None None 0) (\<lambda>e. engine_inv e \<and> stories e = Map.empty \<and> last_sent e = Map.empty \<and>
      en_cfg e = cfg \<and> en_symbols e = [i] \<and> en_filings e = [] \<and> en_scorer e = build [] \<and> en_universe e = map (static_universe cfg) [i])"
    by (rule engine_new_ok) simp_all
  then show ?thesis unfolding yields_def by auto
qed

lemma watched_engine: "\<exists>e. engine_inv e \<and> stories e 0 = Some (new_watch 0) \<and> en_cfg e = cfg \<and> en_symbols e = [i]"
proof -
  obtain e0 where e0: "engine_inv e0" "stories e0 = Map.empty" "en_cfg e0 = cfg" "en_symbols e0 = [i]" using one_symbol_engine by blast
  then have "yields (activate_watch 0 e0) (\<lambda>(e', idx). on_list e0 0 e' idx \<and> en_watch e' ! idx = new_watch 0)"
    by (intro activate_on_list) simp_all
  then obtain e idx where e: "on_list e0 0 e idx" "en_watch e ! idx = new_watch 0" by (auto simp: yields_def)
  then have "watch_ok e" "idx \<in> set (en_slots e)" "engine_inv e" by (simp_all add: on_list_def engine_inv_def)
  then have "stories e 0 = Some (new_watch 0)" using e(2) stories_slot [of e idx] by simp
  then show ?thesis using e e0 by (auto simp: on_list_def same_setup_def)
qed

text \<open>C4: An evaluation drops exactly the stories that are out of their window, and it raises a story to ALERT or HIGH only
  against a board on which the stock trades, is not halted, has moved as far as configured since the news on enough dollar
  volume and within the spread limit; HIGH also needs the score, a small enough float and none of the soft dilution flags. When no
  story rises, no signal goes out.\<close>
theorem evaluate_policy:
  assumes "engine_inv e"
  shows "\<exists>e'. evaluate bd wall now e = Some e' \<and> engine_inv e' \<and>
    (\<forall>s w. stories e s = Some w \<longrightarrow> (stories e' s = None \<longleftrightarrow> story_age now w > secs (ec_watch_window_s (en_cfg e)))) \<and>
    (\<forall>s w w'. stories e s = Some w \<longrightarrow> stories e' s = Some w' \<longrightarrow> wa_tier w' \<noteq> wa_tier w \<longrightarrow>
      (\<exists>b. bd = Some b \<and> (let h = bv_hot b s; cfg = en_cfg e; so = shares_outstanding (info_of e s) in
        0 < last_px h \<and> \<not> halted h \<and> ec_alert_move_pct cfg \<le> move_of h w' \<and> ec_alert_dollar_volume cfg \<le> dollar_since h w' \<and>
        (0 < ec_alert_max_spread_pct cfg \<and> quote_valid h \<longrightarrow> spread_pct h \<le> ec_alert_max_spread_pct cfg) \<and>
        (wa_tier w' = TierAlert \<or> wa_tier w' = TierHigh \<and> ec_high_score cfg \<le> wa_score w \<and> 0 < so \<and> so \<le> ec_high_max_shares cfg \<and>
           wa_dilution_flags w AND soft_penalty_flags = 0 \<and> (ec_high_require_above_vwap cfg \<longrightarrow> vwap h \<le> last_price h))))) \<and>
    ((\<forall>s w w'. stories e s = Some w \<longrightarrow> stories e' s = Some w' \<longrightarrow> wa_tier w' = wa_tier w) \<longrightarrow>
      en_alerts e' = en_alerts e \<and> en_tier_counts e' = en_tier_counts e)"
proof -
  obtain e' where e': "evaluate bd wall now e = Some e'" "engine_inv e'"
    and res: "\<And>s w. stories e s = Some w \<Longrightarrow> eval_result bd now e w (stories e' s)"
    and q: "(\<forall>s w w'. stories e s = Some w \<longrightarrow> stories e' s = Some w' \<longrightarrow> wa_tier w' = wa_tier w) \<longrightarrow> quiet e e'"
    using evaluate_ok [OF assms, of bd wall now] unfolding yields_def by blast
  have drop: "stories e' s = None \<longleftrightarrow> story_age now w > secs (ec_watch_window_s (en_cfg e))" if "stories e s = Some w" for s w
    using res [OF that] by (auto simp: eval_result_def expired_def split: if_splits)
  have rise: "\<exists>b. bd = Some b \<and> (let h = bv_hot b s; cfg = en_cfg e; so = shares_outstanding (info_of e s) in
        0 < last_px h \<and> \<not> halted h \<and> ec_alert_move_pct cfg \<le> move_of h w' \<and> ec_alert_dollar_volume cfg \<le> dollar_since h w' \<and>
        (0 < ec_alert_max_spread_pct cfg \<and> quote_valid h \<longrightarrow> spread_pct h \<le> ec_alert_max_spread_pct cfg) \<and>
        (wa_tier w' = TierAlert \<or> wa_tier w' = TierHigh \<and> ec_high_score cfg \<le> wa_score w \<and> 0 < so \<and> so \<le> ec_high_max_shares cfg \<and>
           wa_dilution_flags w AND soft_penalty_flags = 0 \<and> (ec_high_require_above_vwap cfg \<longrightarrow> vwap h \<le> last_price h)))"
    if w: "stories e s = Some w" and w': "stories e' s = Some w'" "wa_tier w' \<noteq> wa_tier w" for s w w'
  proof -
    have ev: "evaluated bd now e w w'" using res [OF w] w'(1) by (auto simp: eval_result_def split: if_splits)
    obtain b where b: "bd = Some b" using ev w'(2) by (cases bd) (auto simp: evaluated_def)
    have s: "wa_sym w = s" using w stories_iff [OF engine_invD(1) [OF assms], of s w] by blast
    have r: "0 < last_px (bv_hot b s)" "raised e (bv_hot b s) now w w'" "wa_score w' = wa_score w" "wa_dilution_flags w' = wa_dilution_flags w"
        "wa_sym w' = s"
      using ev w'(2) by (auto simp: evaluated_def b s Let_def priced_def split: if_splits)
    show ?thesis using b r by (auto simp: raised_def confirmed_def is_high_def Let_def)
  qed
  show ?thesis using e' drop rise q unfolding quiet_def by blast
qed

theorem evaluate_policy_witness:
  "\<exists>e e'. stories e 0 = Some (new_watch 0) \<and> evaluate None 7 100000000000000 e = Some e' \<and> engine_inv e' \<and> stories e' 0 = None"
proof -
  obtain e where inv: "engine_inv e" and w: "stories e 0 = Some (new_watch 0)" and "en_cfg e = engine_config0"
    using watched_engine [of engine_config0 symbol_info0] by blast
  moreover have "story_age 100000000000000 (new_watch 0) > secs (90 * 60)" by code_simp
  ultimately have "story_age 100000000000000 (new_watch 0) > secs (ec_watch_window_s (en_cfg e))" by (simp add: engine_config0_def)
  then show ?thesis using evaluate_policy [OF inv, of None 7 100000000000000] w by blast
qed

text \<open>C7: The cooldown table refines a map from ticker and tier to the time of the last signal: a request is granted exactly when
  there was no such signal or it is at least the cooldown ago, a grant records the time for that ticker and tier only, and
  a refusal changes nothing. No two pairs of ticker and tier share a table key.\<close>
theorem cooldown_refines:
  assumes "engine_inv e"
  shows "\<exists>e' ok. cooled_down s t now e = Some (e', ok) \<and> engine_inv e' \<and>
    (ok \<longleftrightarrow> (case last_sent e (s, t) of None \<Rightarrow> True | Some t0 \<Rightarrow> secs (ec_cooldown_s (en_cfg e)) \<le> now - t0)) \<and>
    last_sent e' = (if ok then (last_sent e)((s, t) \<mapsto> now) else last_sent e)"
proof -
  have "fm_inv (en_last_tier_ns e)" using assms by (simp add: engine_inv_def tables_ok_def)
  then obtain e' ok where c: "cooled_down s t now e = Some (e', ok)" "ok = may_send e (s, t) now"
      "last_sent e' = (if ok then (last_sent e)((s, t) \<mapsto> now) else last_sent e)"
    using cooled_down_yields [of e s t now] by (auto simp: yields_def simp del: fun_upd_apply)
  moreover have "engine_inv e'" using cooled_down_inv [OF assms, of s t now] c(1) by (auto simp: yields_def)
  ultimately show ?thesis by (auto simp: may_send_def simp del: fun_upd_apply)
qed

theorem cooldown_refines_witness:
  "\<exists>e e' e2. cooled_down 3 TierAlert 1000 e = Some (e', True) \<and> cooled_down 3 TierAlert 2000 e' = Some (e2, False) \<and>
     last_sent e2 (3, TierAlert) = Some 1000 \<and> last_sent e2 (3, TierHigh) = None"
proof -
  obtain e where e: "engine_inv e" "last_sent e = Map.empty" "en_cfg e = engine_config0" using one_symbol_engine by blast
  obtain e' where e': "cooled_down 3 TierAlert 1000 e = Some (e', True)" "engine_inv e'" "last_sent e' = [(3, TierAlert) \<mapsto> 1000]"
    using cooldown_refines [OF e(1), of 3 TierAlert 1000] e(2) by auto
  have "same_setup e e'" using cooled_down_steady [OF e(1), of 3 TierAlert 1000] e'(1) by (simp add: yields_def steady_def)
  then have cfg: "ec_cooldown_s (en_cfg e') = 30 * 60" using e(3) by (simp add: same_setup_def engine_config0_def)
  have "\<not> secs (30 * 60) \<le> 2000 - 1000" by code_simp
  then obtain e2 where "cooled_down 3 TierAlert 2000 e' = Some (e2, False)" "last_sent e2 = last_sent e'"
    using cooldown_refines [OF e'(2), of 3 TierAlert 2000] e'(3) cfg by auto
  then show ?thesis using e'(1,3) by (intro exI [of _ e] exI [of _ e'] exI [of _ e2]) simp
qed

text \<open>C5: Handling a news event returns, and a ticker that was not watched is watched afterwards only if the event names it, is no
  halt notice, and the ticker passed every gate: it is in the universe, its price is in the configured range when known, the story
  is no offering and no spam, the issuer has no recent offering, effectiveness notice or unregistered sale on file (the
  filing just handled included), and the score after penalties reaches the watch threshold.\<close>
theorem watch_list_gate:
  assumes "engine_inv e"
  shows "\<exists>e'. on_news bd wall took ev now e = Some e' \<and> engine_inv e' \<and>
    (\<forall>s w. stories e s = None \<longrightarrow> stories e' s = Some w \<longrightarrow>
      (let px = price_or_close (hot_of bd s) (info_of e s); dil = ticker_flags (filed ev now e) s (snd (today_days now e)); cfg = en_cfg e in
       ne_kind ev \<noteq> EvHalt \<and> s \<in> set (ne_tickers ev) \<and> unat s < length (en_symbols e) \<and> en_universe e ! unat s \<and>
       (0 < px \<longrightarrow> ec_min_price cfg \<le> px \<and> px \<le> ec_max_price cfg) \<and> wa_dilution_flags w = dil \<and>
       \<not> test_flag dil (kFlagOfferingRecent OR kFlagEffectRecent OR kFlagUnregisteredSale) \<and>
       \<not> test_flag (wa_score_flags w) (kSfOffering OR kSfSpam) \<and> ec_watch_score cfg \<le> wa_score w))"
proof -
  obtain e' where e': "on_news bd wall took ev now e = Some e'" "news_gate bd ev now e e'"
    using on_news_ok [OF assms, of bd wall took ev now] by (auto simp: yields_def)
  have env: "in_universe (filed ev now e) = in_universe e" "info_of (filed ev now e) = info_of e"
    using env_cong [of e "filed ev now e"] by (simp_all add: filed_def same_setup_def)
  have same: "en_symbols (filed ev now e) = en_symbols e" "en_cfg (filed ev now e) = en_cfg e" by (simp_all add: filed_def)
  have "let px = price_or_close (hot_of bd s) (info_of e s); dil = ticker_flags (filed ev now e) s (snd (today_days now e)); cfg = en_cfg e in
       ne_kind ev \<noteq> EvHalt \<and> s \<in> set (ne_tickers ev) \<and> unat s < length (en_symbols e) \<and> en_universe e ! unat s \<and>
       (0 < px \<longrightarrow> ec_min_price cfg \<le> px \<and> px \<le> ec_max_price cfg) \<and> wa_dilution_flags w = dil \<and>
       \<not> test_flag dil (kFlagOfferingRecent OR kFlagEffectRecent OR kFlagUnregisteredSale) \<and>
       \<not> test_flag (wa_score_flags w) (kSfOffering OR kSfSpam) \<and> ec_watch_score cfg \<le> wa_score w"
    if new: "stories e s = None" "stories e' s = Some w" for s w
  proof -
    have g: "ne_kind ev \<noteq> EvHalt" "s \<in> set (ne_tickers ev)" "admitted bd (filed ev now e) (snd (today_days now e)) (score_event ev e) s w"
      using e'(2) new by (simp_all add: news_gate_def)
    have u: "fst (in_universe e s (price_or_close (hot_of bd s) (info_of e s)))" using g(3) env by (simp add: admitted_def passes_def)
    then have "en_universe e ! unat s" "0 < price_or_close (hot_of bd s) (info_of e s) \<longrightarrow>
        ec_min_price (en_cfg e) \<le> price_or_close (hot_of bd s) (info_of e s) \<and> price_or_close (hot_of bd s) (info_of e s) \<le> ec_max_price (en_cfg e)"
      by (auto simp: in_universe_def split: if_splits)
    then show ?thesis using g env same by (simp add: admitted_def passes_def hard_block_def Let_def)
  qed
  then show ?thesis using e' unfolding news_gate_def by blast
qed

definition demo_event :: news_event where
  "demo_event = \<lparr>ne_id_hash = 77, ne_title_key = 0, ne_recv_ns = 5000000000, ne_published_ns = 0, ne_parsed_ns = 0, ne_cik = 0, ne_items_mask = 0,
     ne_source = 0, ne_kind = EvNews, ne_tickers = [0], ne_form = [], ne_halt_reason = [], ne_resume_trade_ns = 0, ne_title = [], ne_body = []\<rparr>"

definition demo_cfg :: engine_config where
  "demo_cfg = engine_config0\<lparr>ec_watch_score := 0\<rparr>"

definition demo_symbol :: symbol_info where
  "demo_symbol = symbol_info0\<lparr>si_exchange := NasdaqCM\<rparr>"

lemma demo_score: "score_text (build []) [] [] = score_result0"
  by code_simp

lemma demo_static: "static_universe demo_cfg demo_symbol" "\<not> distressed demo_symbol" "prev_close demo_symbol = 0" "shares_outstanding demo_symbol = 0"
  by code_simp+

lemma demo_engine:
  assumes "en_cfg e = demo_cfg" "en_symbols e = [demo_symbol]" "en_filings e = []" "en_scorer e = build []" "en_universe e = [static_universe demo_cfg demo_symbol]"
  shows "score_event demo_event e = score_result0" "in_universe e 0 0 = (True, 0)" "ticker_flags e 0 today = 0"
    "price_or_close (hot_of None 0) (info_of e 0) = 0"
  using assms demo_static demo_score
  by (simp_all add: score_event_def demo_event_def in_universe_def demo_cfg_def engine_config0_def market_cap_of_def info_of_def ticker_flags_def
      filings_flags_def filings_entries_def price_or_close_def hot_of_def hot0_def)

lemma demo_rating:
  assumes "en_cfg e = demo_cfg" "en_symbols e = [demo_symbol]" "en_filings e = []" "en_scorer e = build []" "en_universe e = [static_universe demo_cfg demo_symbol]"
  shows "passes None e today (score_event demo_event e) 0" "sr_score (rating None e today (score_event demo_event e) 0) = 0"
    "\<not> expired 6000000000 e (entry None e today (score_event demo_event e) demo_event 6000000000 0)"
proof -
  note d = demo_engine [OF assms]
  have r: "rating None e today (score_event demo_event e) 0 = score_result0"
    unfolding rating_def d prod.sel by code_simp
  show "sr_score (rating None e today (score_event demo_event e) 0) = 0" by (simp add: r score_result0_def)
  have "\<not> hard_block score_result0 0" by code_simp
  moreover have "sr_score score_result0 = 0" "ec_watch_score demo_cfg = 0" by (simp_all add: score_result0_def demo_cfg_def)
  ultimately show "passes None e today (score_event demo_event e) 0"
    unfolding passes_def r using assms(1,2) by (simp add: d(2-4))
  have "wa_t_news (entry None e today (score_event demo_event e) demo_event 6000000000 0) = 5000000000"
    by (simp add: entry_def opened_def tell_story_def fresh_watch_def demo_event_def)
  then have "story_age 6000000000 (entry None e today (score_event demo_event e) demo_event 6000000000 0) = 1000000000"
    by (simp add: story_age_def)
  moreover have "\<not> secs 5400 < 1000000000" by code_simp
  ultimately show "\<not> expired 6000000000 e (entry None e today (score_event demo_event e) demo_event 6000000000 0)"
    using assms(1) by (simp add: expired_def demo_cfg_def engine_config0_def)
qed

lemma demo_story:
  "\<exists>e e' w. engine_inv e \<and> en_cfg e = demo_cfg \<and> stories e 0 = None \<and> on_news None 0 0 demo_event 6000000000 e = Some e' \<and> stories e' 0 = Some w"
proof -
  obtain e where e: "engine_inv e" "stories e = Map.empty" "en_cfg e = demo_cfg" "en_symbols e = [demo_symbol]" "en_filings e = []"
      "en_scorer e = build []" "en_universe e = [static_universe demo_cfg demo_symbol]" using one_symbol_engine by blast
  note d = demo_rating [OF e(3-7)]
  have "story_tickers demo_event = [0]" "ne_kind demo_event = EvNews" by (simp_all add: story_tickers_def demo_event_def)
  then show ?thesis using on_news_opens [OF e(1), of demo_event 0 None 6000000000 0 0] d e(1-3) unfolding yields_def by force
qed

theorem watch_list_gate_witness:
  "\<exists>e e' w. stories e 0 = None \<and> on_news None 0 0 demo_event 6000000000 e = Some e' \<and> stories e' 0 = Some w \<and> 0 \<le> wa_score w \<and>
     \<not> test_flag (wa_score_flags w) (kSfOffering OR kSfSpam)"
proof -
  obtain e e' w where e: "engine_inv e" "en_cfg e = demo_cfg" "stories e 0 = None" "on_news None 0 0 demo_event 6000000000 e = Some e'" "stories e' 0 = Some w"
    using demo_story by blast
  have "ec_watch_score (en_cfg e) = 0" by (simp add: e(2) demo_cfg_def)
  then show ?thesis using watch_list_gate [OF e(1), of None 0 0 demo_event 6000000000] e by (auto simp: Let_def)
qed

text \<open>C6: A press release or exhibit about one ticker that passes the gates puts the ticker on the watch list: if the ticker was not
  watched and the story is still in its window, handling the event returns and the ticker is watched with the score, the flags
  and the id of the story, at tier WATCH or, when the market already confirms it, above.\<close>
theorem passing_story_is_watched:
  assumes "engine_inv e" "ne_kind ev = EvNews \<or> ne_kind ev = EvFilingDoc" "story_tickers ev = [s]" "stories e s = None"
    "passes bd e (snd (today_days now e)) (score_event ev e) s"
    "\<not> expired now e (entry bd e (snd (today_days now e)) (score_event ev e) ev now s)"
  shows "\<exists>e' w. on_news bd wall took ev now e = Some e' \<and> stories e' s = Some w \<and> wa_news_id w = ne_id_hash ev \<and>
    wa_score w = sr_score (rating bd e (snd (today_days now e)) (score_event ev e) s) \<and> wa_dilution_flags w = ticker_flags e s (snd (today_days now e)) \<and>
    wa_tier w \<in> {TierWatch, TierAlert, TierHigh}"
proof -
  let ?w = "entry bd e (snd (today_days now e)) (score_event ev e) ev now s"
  obtain e' w where e': "on_news bd wall took ev now e = Some e'" "stories e' s = Some w" and ev: "evaluated bd now e ?w w"
    using on_news_opens [OF assms, of wall took] unfolding yields_def by blast
  have w0: "wa_news_id ?w = ne_id_hash ev" "wa_score ?w = sr_score (rating bd e (snd (today_days now e)) (score_event ev e) s)"
    "wa_dilution_flags ?w = ticker_flags e s (snd (today_days now e))" "wa_tier ?w = TierWatch"
    by (simp_all add: entry_def opened_def tell_story_def)
  have "wa_news_id w = wa_news_id ?w" "wa_tier w \<in> {TierWatch, TierAlert, TierHigh}"
    using ev w0(4) by (auto simp: evaluated_def priced_def raised_def Let_def split: option.splits if_splits)
  then show ?thesis using e' w0 evaluated_keeps [OF ev] by auto
qed

theorem passing_story_is_watched_witness:
  "\<exists>e e' w. stories e 0 = None \<and> on_news None 0 0 demo_event 6000000000 e = Some e' \<and> stories e' 0 = Some w \<and> wa_news_id w = 77"
proof -
  obtain e where e: "engine_inv e" "stories e = Map.empty" "en_cfg e = demo_cfg" "en_symbols e = [demo_symbol]" "en_filings e = []"
      "en_scorer e = build []" "en_universe e = [static_universe demo_cfg demo_symbol]" using one_symbol_engine by blast
  note d = demo_rating [OF e(3-7)]
  have "story_tickers demo_event = [0]" "ne_kind demo_event = EvNews \<or> ne_kind demo_event = EvFilingDoc" "ne_id_hash demo_event = 77" "stories e 0 = None"
    using e(2) by (simp_all add: story_tickers_def demo_event_def)
  then obtain e' w where "on_news None 0 0 demo_event 6000000000 e = Some e'" "stories e' 0 = Some w" "wa_news_id w = 77"
    using passing_story_is_watched [OF e(1), of demo_event 0 None 6000000000 0 0] d by auto
  then show ?thesis using \<open>stories e 0 = None\<close> by blast
qed

end
